(* ===== verification/Prelude.thy ===== *)
theory Prelude
  imports Main "HOL-Library.Word" "HOL-Library.Monad_Syntax" "HOL-Library.Sublist"
begin

unbundle bit_operations_syntax

text \<open>
  Shared vocabulary of the development: names for the machine integers of the C++ sources,
  the collections of rewrite rules the components fill, and facts on lists, options, sums and
  words that more than one component needs.

  Conventions used everywhere:
  \<^item> a fallible C++ function is a function into a sum, \<^verbatim>\<open>Inl\<close> for the error and \<^verbatim>\<open>Inr\<close> for the
    value;
  \<^item> a buffer addressed by the pointer triple \<^verbatim>\<open>(cur, end, begin)\<close> is the list of the bytes in
    \<^verbatim>\<open>[begin, end)\<close> and the pointer \<^verbatim>\<open>cur\<close> is its offset from \<^verbatim>\<open>begin\<close>;
  \<^item> where the code relies on a bound it does not test, the model answers \<^verbatim>\<open>None\<close> outside of the
    bound, so that a theorem with the result \<^verbatim>\<open>Some _\<close> also states that the access is in range.
\<close>

section \<open>Machine integers\<close>

type_synonym u8 = "8 word"
type_synonym u16 = "16 word"
type_synonym u32 = "32 word"
type_synonym u64 = "64 word"

named_theorems wire_defs \<open>definitions of the wire readers\<close>
named_theorems parser_intros \<open>introduction rules of the parser contract\<close>
named_theorems bits \<open>bitwise characterisations of the word operations\<close>

section \<open>Lists\<close>

lemma drop_nth_Cons: "i < length xs \<Longrightarrow> drop i xs = xs ! i # drop (Suc i) xs"
  by (rule Cons_nth_drop_Suc [symmetric])

lemma nth_append_ge [simp]: "length xs \<le> i \<Longrightarrow> (xs @ ys) ! i = ys ! (i - length xs)"
  by (simp add: nth_append)

lemma length_suffix_less: "suffix ys xs \<Longrightarrow> length ys \<le> length xs"
  by (rule suffix_length_le)

lemma suffix_drop_length: "suffix ys xs \<Longrightarrow> ys = drop (length xs - length ys) xs"
  by (auto simp: suffix_def)

text \<open>\<open>bytes_at buf p bs\<close>: the bytes \<open>bs\<close> stand in \<open>buf\<close> at offset \<open>p\<close>.\<close>

definition bytes_at :: "'a list \<Rightarrow> nat \<Rightarrow> 'a list \<Rightarrow> bool" where
  "bytes_at buf p bs \<longleftrightarrow> take (length bs) (drop p buf) = bs"

lemma bytes_at_Nil [simp]: "bytes_at buf p []"
  by (simp add: bytes_at_def)

lemma bytes_at_length: "bytes_at buf p bs \<Longrightarrow> bs \<noteq> [] \<Longrightarrow> p + length bs \<le> length buf"
proof -
  assume b: "bytes_at buf p bs" and ne: "bs \<noteq> []"
  have "length (take (length bs) (drop p buf)) = length bs"
    using b by (simp add: bytes_at_def)
  then have "length bs \<le> length buf - p" by simp
  moreover from ne have "0 < length bs" by simp
  ultimately show ?thesis by arith
qed

lemma bytes_at_append:
  "bytes_at buf p (xs @ ys) \<longleftrightarrow> bytes_at buf p xs \<and> bytes_at buf (p + length xs) ys"
proof -
  let ?a = "take (length xs) (drop p buf)" and ?b = "take (length ys) (drop (p + length xs) buf)"
  have split: "take (length (xs @ ys)) (drop p buf) = ?a @ ?b"
    by (simp add: take_add add.commute)
  show ?thesis
  proof (cases "length ?a = length xs")
    case True
    then show ?thesis unfolding bytes_at_def split by simp
  next
    case False
    then have short: "length buf - p < length xs" and "?b = []" by auto
    then have "?a @ ?b \<noteq> xs @ ys" by (auto dest: arg_cong [where f = length])
    moreover from False have "?a \<noteq> xs" by metis
    ultimately show ?thesis unfolding bytes_at_def split by simp
  qed
qed

lemma bytes_at_nth: "bytes_at buf p bs \<Longrightarrow> i < length bs \<Longrightarrow> buf ! (p + i) = bs ! i"
proof -
  assume b: "bytes_at buf p bs" and i: "i < length bs"
  then have "p + length bs \<le> length buf" by (intro bytes_at_length) auto
  moreover have "take (length bs) (drop p buf) ! i = bs ! i" using b by (simp add: bytes_at_def)
  ultimately show ?thesis using i by simp
qed

lemma bytes_at_middle [simp]: "bytes_at (pre @ bs @ post) (length pre) bs"
  by (simp add: bytes_at_def)

lemma bytes_at_self: "n \<le> length buf - p \<Longrightarrow> bytes_at buf p (take n (drop p buf))"
  by (simp add: bytes_at_def)

lemma less_Suc_numeral_cases:
  "(n::nat) < 8 \<longleftrightarrow> n = 0 \<or> n = 1 \<or> n = 2 \<or> n = 3 \<or> n = 4 \<or> n = 5 \<or> n = 6 \<or> n = 7"
  by auto

section \<open>Words\<close>

lemma bit_u8_7_iff: "bit (b :: u8) 7 \<longleftrightarrow> 128 \<le> unat b"
proof -
  have lt: "unat b < 256"
  proof -
    have "unat b < 2 ^ LENGTH(8)" by (rule unsigned_less)
    then show ?thesis by simp
  qed
  have "bit b 7 \<longleftrightarrow> bit (unat b) 7"
    by (simp add: bit_unsigned_iff)
  also have "\<dots> \<longleftrightarrow> odd (unat b div 2 ^ 7)"
    by (rule bit_iff_odd)
  also have "\<dots> \<longleftrightarrow> 128 \<le> unat b"
  proof -
    have "unat b div 128 = (if 128 \<le> unat b then 1 else 0)"
      using lt by auto
    then show ?thesis by simp
  qed
  finally show ?thesis .
qed

lemma u8_continuation: "(b :: u8) AND 0x80 = 0 \<longleftrightarrow> \<not> bit b 7"
  using and_exp_eq_0_iff_not_bit [of b 7] by simp

lemma u8_less_0x80: "(b :: u8) < 0x80 \<longleftrightarrow> \<not> bit b 7"
  by (auto simp: bit_u8_7_iff word_less_nat_alt)

text \<open>
  The masks and flags of the wire format, bit by bit. They are stated on integers: a bit of a
  numeral at a word type is rewritten to a bit of the integer numeral.
\<close>

lemma bit_127 [bits]: "bit (127 :: int) n \<longleftrightarrow> n < 7"
proof -
  have m: "(127 :: int) = mask 7" by (simp add: mask_eq_exp_minus_1)
  show ?thesis unfolding m by (auto simp only: bit_mask_iff possible_bit_int)
qed

lemma bit_128 [bits]: "bit (128 :: int) n \<longleftrightarrow> n = 7"
proof -
  have m: "(128 :: int) = 2 ^ 7" by simp
  show ?thesis unfolding m by (auto simp only: bit_exp_iff possible_bit_int)
qed

lemma bit_7_mask [bits]: "bit (7 :: int) n \<longleftrightarrow> n < 3"
proof -
  have m: "(7 :: int) = mask 3" by (simp add: mask_eq_exp_minus_1)
  show ?thesis unfolding m by (auto simp only: bit_mask_iff possible_bit_int)
qed

lemma bit_15 [bits]: "bit (15 :: int) n \<longleftrightarrow> n < 4"
proof -
  have m: "(15 :: int) = mask 4" by (simp add: mask_eq_exp_minus_1)
  show ?thesis unfolding m by (auto simp only: bit_mask_iff possible_bit_int)
qed

lemma bit_255 [bits]: "bit (255 :: int) n \<longleftrightarrow> n < 8"
proof -
  have m: "(255 :: int) = mask 8" by (simp add: mask_eq_exp_minus_1)
  show ?thesis unfolding m by (auto simp only: bit_mask_iff possible_bit_int)
qed

lemma unat_drop_bit_div: "unat (drop_bit n (w :: 'a::len word)) = unat w div 2 ^ n"
proof -
  have "unat (drop_bit n w) = drop_bit n (unat w)" by (rule unat_drop_bit_eq)
  then show ?thesis by (simp only: drop_bit_eq_div)
qed

lemma less_exp_iff_bits:
  "unat (w :: 'a::len word) < 2 ^ n \<longleftrightarrow> (\<forall>k \<ge> n. \<not> bit w k)"
proof
  assume "unat w < 2 ^ n"
  then have "take_bit n (unat w) = unat w" by (simp add: take_bit_nat_eq_self_iff)
  then have "bit (unat w) k \<Longrightarrow> k < n" for k by (metis bit_take_bit_iff)
  then show "\<forall>k \<ge> n. \<not> bit w k" by (auto simp: bit_unsigned_iff dest: leD)
next
  assume "\<forall>k \<ge> n. \<not> bit w k"
  then have "take_bit n w = w"
    by (intro bit_word_eqI) (auto simp: bit_take_bit_iff not_le)
  then have "take_bit n (unat w) = unat w"
    by (metis unsigned_take_bit_eq)
  then show "unat w < 2 ^ n" by (simp add: take_bit_nat_eq_self_iff)
qed

lemma unat_u64_of_nat: "n < 2 ^ 64 \<Longrightarrow> unat (word_of_nat n :: u64) = n"
  by (simp add: unat_of_nat take_bit_nat_eq_self_iff)

lemma unat_exp_u64: "k < 64 \<Longrightarrow> unat (2 ^ k :: u64) = 2 ^ k"
proof -
  assume "k < 64"
  then have "(2 :: nat) ^ k < 2 ^ 64" by (intro power_strict_increasing) simp_all
  from unat_u64_of_nat [OF this] show ?thesis by simp
qed

lemma unat_less_u64: "unat (x :: u64) < 2 ^ 64"
  using unsigned_less [of x, where 'a = nat] by simp

text \<open>Additions and subtractions that do not leave the range of a word.\<close>

lemma unat_add_u64: "unat x + unat y < 2 ^ 64 \<Longrightarrow> unat (x + y :: u64) = unat x + unat y"
  by (subst unat_add_lem [THEN iffD1]) simp_all

lemma unat_sub_u64: "unat y \<le> unat x \<Longrightarrow> unat (x - y :: u64) = unat x - unat y"
  by (simp add: unat_sub word_le_nat_alt)

end
