(* ===== verification/Wire.thy ===== *)
theory Wire
  imports Prelude
begin

unbundle bit_operations_syntax

text \<open>
  The wire-format reader of \<^verbatim>\<open>include/rapidproto/runtime.hpp\<close>: the value-threaded readers of
  \<^verbatim>\<open>namespace wire\<close> (varints, tags, fixed-width values, length-delimited spans, groups) and the
  interpretation helpers that turn raw values into proto scalars.

  A reader takes the bytes of \<^verbatim>\<open>[begin, end)\<close> and the cursor as an offset into them. It returns
  \<^verbatim>\<open>Inr (cursor, value)\<close>, or \<^verbatim>\<open>Inl e\<close> where the C++ returns \<^verbatim>\<open>nullptr\<close> and writes \<^verbatim>\<open>e\<close> to
  \<^verbatim>\<open>*err\<close>. The readers that also write \<^verbatim>\<open>*fail_off\<close> return the pair of the error and that offset.
\<close>

section \<open>Wire types, tags, errors\<close>

datatype WireType = Varint | I64 | Len | SGroup | EGroup | I32

record Tag =
  field_number :: u32
  wire_type :: WireType

datatype WireError =
    WireNone
  | TruncatedVarint
  | VarintOverflow
  | InvalidFieldNumber
  | FieldNumberRange
  | ReservedWireType
  | TruncatedI32
  | TruncatedI64
  | LengthExceedsBuffer
  | LengthTooLarge
  | UnexpectedEndGroup
  | EndGroupMismatch
  | UnterminatedGroup
  | GroupTooDeep

fun wire_type_code :: "WireType \<Rightarrow> u32" where
  "wire_type_code Varint = 0"
| "wire_type_code I64 = 1"
| "wire_type_code Len = 2"
| "wire_type_code SGroup = 3"
| "wire_type_code EGroup = 4"
| "wire_type_code I32 = 5"

text \<open>
  The cast \<^verbatim>\<open>static_cast<WireType>(wire)\<close>. The readers apply it to three bits that are neither
  6 nor 7.
\<close>

definition wire_type_cast :: "u32 \<Rightarrow> WireType" where
  "wire_type_cast w =
     (if w = 0 then Varint else if w = 1 then I64 else if w = 2 then Len
      else if w = 3 then SGroup else if w = 4 then EGroup else I32)"

definition raw_tag :: "u32 \<Rightarrow> WireType \<Rightarrow> u32" where
  "raw_tag fld wt = push_bit 3 fld OR wire_type_code wt"

definition kMaxFieldNumber :: u32 where
  "kMaxFieldNumber = push_bit 29 1 - 1"

definition kMaxGroupDepth :: int where
  "kMaxGroupDepth = 100"

section \<open>Varints\<close>

text \<open>The byte loop of \<open>read_varint\<close>: \<^verbatim>\<open>for (shift = 0; shift < 64; shift += 7)\<close>.\<close>

function read_varint_loop :: "u8 list \<Rightarrow> nat \<Rightarrow> nat \<Rightarrow> u64 \<Rightarrow> WireError + nat \<times> u64" where
  "read_varint_loop buf p shift result =
     (if shift < 64 then
        if length buf \<le> p then Inl TruncatedVarint
        else
          let b = buf ! p in
          if shift = 63 \<and> b > 1 then Inl VarintOverflow
          else
            let result' = result OR push_bit shift (ucast (b AND 0x7F)) in
            if b AND 0x80 = 0 then Inr (p + 1, result')
            else read_varint_loop buf (p + 1) (shift + 7) result'
      else Inl VarintOverflow)"
  by pat_completeness auto
termination
  by (relation "measure (\<lambda>(buf, p, shift, result). 64 - shift)") auto

declare read_varint_loop.simps [simp del]

definition read_varint :: "u8 list \<Rightarrow> nat \<Rightarrow> WireError + nat \<times> u64" where
  "read_varint buf p =
     (if p < length buf \<and> buf ! p AND 0x80 = 0 then Inr (p + 1, ucast (buf ! p))
      else read_varint_loop buf p 0 0)"

section \<open>Tags\<close>

text \<open>The general path: read the full varint, then validate field number and wire type.\<close>

definition read_tag_multi :: "u8 list \<Rightarrow> nat \<Rightarrow> WireError + nat \<times> Tag" where
  "read_tag_multi buf p =
     (case read_varint buf p of
        Inl e \<Rightarrow> Inl e
      | Inr (np, raw) \<Rightarrow>
          let wire = (ucast (raw AND 0x07) :: u32);
              fld = drop_bit 3 raw in
          if fld = 0 then Inl InvalidFieldNumber
          else if fld > ucast kMaxFieldNumber then Inl FieldNumberRange
          else if wire = 6 \<or> wire = 7 then Inl ReservedWireType
          else Inr (np, \<lparr>field_number = ucast fld, wire_type = wire_type_cast wire\<rparr>))"

definition read_tag :: "u8 list \<Rightarrow> nat \<Rightarrow> WireError + nat \<times> Tag" where
  "read_tag buf p =
     (if p < length buf \<and> buf ! p AND 0x80 = 0 then
        let byte = (ucast (buf ! p) :: u32);
            fld = drop_bit 3 byte;
            wire = byte AND 0x07 in
        if fld \<noteq> 0 \<and> wire \<noteq> 6 \<and> wire \<noteq> 7
        then Inr (p + 1, \<lparr>field_number = fld, wire_type = wire_type_cast wire\<rparr>)
        else read_tag_multi buf p
      else read_tag_multi buf p)"

text \<open>
  \<open>TagState\<close> with what \<open>read_tag_or_end\<close> writes in each state: the tag and the advanced cursor,
  a clean end, or the error.
\<close>

datatype TagState = StateTag nat Tag | StateEnd nat | StateError nat WireError

definition read_tag_or_end_slow :: "u8 list \<Rightarrow> nat \<Rightarrow> TagState" where
  "read_tag_or_end_slow buf p =
     (case read_tag buf p of Inl e \<Rightarrow> StateError p e | Inr (np, tag) \<Rightarrow> StateTag np tag)"

definition read_tag_or_end :: "u8 list \<Rightarrow> nat \<Rightarrow> TagState" where
  "read_tag_or_end buf p =
     (if length buf \<le> p then StateEnd p
      else if buf ! p AND 0x80 = 0 then
        let byte = (ucast (buf ! p) :: u32);
            fld = drop_bit 3 byte;
            wire = byte AND 0x07 in
        if fld \<noteq> 0 \<and> wire \<noteq> 6 \<and> wire \<noteq> 7
        then StateTag (p + 1) \<lparr>field_number = fld, wire_type = wire_type_cast wire\<rparr>
        else read_tag_or_end_slow buf p
      else if length buf - p \<ge> 2 \<and> buf ! (p + 1) - 1 < 0x7F then
        let val = (ucast (buf ! p) AND 0x7F) OR push_bit 7 (ucast (buf ! (p + 1)) :: u32);
            wire = val AND 0x07 in
        if wire \<noteq> 6 \<and> wire \<noteq> 7
        then StateTag (p + 2) \<lparr>field_number = drop_bit 3 val, wire_type = wire_type_cast wire\<rparr>
        else read_tag_or_end_slow buf p
      else read_tag_or_end_slow buf p)"

section \<open>Fixed-width and length-delimited values\<close>

definition read_fixed32 :: "u8 list \<Rightarrow> nat \<Rightarrow> WireError + nat \<times> u32" where
  "read_fixed32 buf p =
     (if length buf - p < 4 then Inl TruncatedI32
      else Inr (p + 4,
        ucast (buf ! p) OR push_bit 8 (ucast (buf ! (p + 1))) OR
        push_bit 16 (ucast (buf ! (p + 2))) OR push_bit 24 (ucast (buf ! (p + 3)))))"

fun fixed64_loop :: "u8 list \<Rightarrow> nat \<Rightarrow> nat list \<Rightarrow> u64 \<Rightarrow> u64" where
  "fixed64_loop buf p [] v = v"
| "fixed64_loop buf p (i # is) v =
     fixed64_loop buf p is (v OR push_bit (i * 8) (ucast (buf ! (p + i))))"

definition read_fixed64 :: "u8 list \<Rightarrow> nat \<Rightarrow> WireError + nat \<times> u64" where
  "read_fixed64 buf p =
     (if length buf - p < 8 then Inl TruncatedI64
      else Inr (p + 8, fixed64_loop buf p [0..<8] 0))"

text \<open>
  \<open>size_max\<close> is \<^verbatim>\<open>std::numeric_limits<std::size_t>::max()\<close>; the \<open>LengthTooLarge\<close> test is
  compiled only where \<^verbatim>\<open>size_t\<close> is narrower than 64 bits. A \<open>ByteView\<close> is the list of its bytes.
\<close>

definition read_length_delimited :: "nat \<Rightarrow> u8 list \<Rightarrow> nat \<Rightarrow> WireError + nat \<times> u8 list" where
  "read_length_delimited size_max buf p =
     (case read_varint buf p of
        Inl e \<Rightarrow> Inl e
      | Inr (np, len) \<Rightarrow>
          if size_max < 2 ^ 64 - 1 \<and> unat len > size_max then Inl LengthTooLarge
          else if unat len > length buf - np then Inl LengthExceedsBuffer
          else Inr (np + unat len, take (unat len) (drop np buf)))"

subsection \<open>Progress and bounds of the leaf readers\<close>

lemma read_varint_loop_bounds:
  "read_varint_loop buf p shift r = Inr (np, v) \<Longrightarrow>
     p < np \<and> np \<le> length buf \<and> 7 * (np - p) + shift \<le> 70 + 6"
proof (induction buf p shift r rule: read_varint_loop.induct)
  case (1 buf p shift r)
  let ?b = "buf ! p"
  let ?r = "r OR push_bit shift (ucast (?b AND 0x7F))"
  show ?case
  proof (cases "shift < 64 \<and> p < length buf \<and> \<not> (shift = 63 \<and> ?b > 1) \<and> ?b AND 0x80 \<noteq> 0")
    case True
    then have eq: "read_varint_loop buf p shift r = read_varint_loop buf (p + 1) (shift + 7) ?r"
      by (subst read_varint_loop.simps) (auto simp: Let_def)
    have "p + 1 < np \<and> np \<le> length buf \<and> 7 * (np - (p + 1)) + (shift + 7) \<le> 70 + 6"
      using True "1.prems" by (intro "1.IH" [of ?b ?r]) (auto simp: eq)
    then show ?thesis by auto
  next
    case False
    with "1.prems" show ?thesis
      by (subst (asm) read_varint_loop.simps) (auto simp: Let_def split: if_splits)
  qed
qed

lemma read_varint_bounds:
  "read_varint buf p = Inr (np, v) \<Longrightarrow> p < np \<and> np \<le> length buf \<and> np \<le> p + 10"
  using read_varint_loop_bounds [of buf p 0 0 np v]
  by (auto simp: read_varint_def split: if_splits)

lemma read_tag_bounds:
  "read_tag buf p = Inr (np, t) \<Longrightarrow> p < np \<and> np \<le> length buf \<and> np \<le> p + 10"
  by (auto simp: read_tag_def read_tag_multi_def Let_def dest: read_varint_bounds
      split: if_splits sum.splits prod.splits)

lemma read_fixed32_bounds:
  "read_fixed32 buf p = Inr (np, v) \<Longrightarrow> np = p + 4 \<and> np \<le> length buf"
  by (auto simp: read_fixed32_def split: if_splits)

lemma read_fixed64_bounds:
  "read_fixed64 buf p = Inr (np, v) \<Longrightarrow> np = p + 8 \<and> np \<le> length buf"
  by (auto simp: read_fixed64_def split: if_splits)

lemma read_length_delimited_bounds:
  "read_length_delimited sm buf p = Inr (np, v) \<Longrightarrow>
     p < np \<and> np \<le> length buf \<and> length v \<le> np - p \<and> v = take (length v) (drop (np - length v) buf)"
  by (auto simp: read_length_delimited_def dest!: read_varint_bounds split: if_splits sum.splits prod.splits)

lemmas leaf_bounds =
  read_varint_bounds read_tag_bounds read_fixed32_bounds read_fixed64_bounds
  read_length_delimited_bounds

section \<open>Skipping fields and groups\<close>

text \<open>
  \<open>skip_value\<close> and \<open>scan_group_end\<close> call each other; \<open>scan_group_loop\<close> is the
  \<^verbatim>\<open>while (true)\<close> loop of the latter. The scan returns the cursor past the matching end tag and
  the start of that tag (\<^verbatim>\<open>*egroup_tag\<close>).
\<close>

function (sequential)
  skip_value :: "nat \<Rightarrow> u8 list \<Rightarrow> nat \<Rightarrow> Tag \<Rightarrow> int \<Rightarrow> (WireError \<times> nat) + nat"
  and scan_group_end ::
    "nat \<Rightarrow> u8 list \<Rightarrow> nat \<Rightarrow> u32 \<Rightarrow> int \<Rightarrow> (WireError \<times> nat) + nat \<times> nat"
  and scan_group_loop ::
    "nat \<Rightarrow> u8 list \<Rightarrow> nat \<Rightarrow> u32 \<Rightarrow> int \<Rightarrow> (WireError \<times> nat) + nat \<times> nat"
where
  "skip_value sm buf p tag depth =
     (case wire_type tag of
        Varint \<Rightarrow> (case read_varint buf p of Inl e \<Rightarrow> Inl (e, p) | Inr (np, _) \<Rightarrow> Inr np)
      | I64 \<Rightarrow> (case read_fixed64 buf p of Inl e \<Rightarrow> Inl (e, p) | Inr (np, _) \<Rightarrow> Inr np)
      | I32 \<Rightarrow> (case read_fixed32 buf p of Inl e \<Rightarrow> Inl (e, p) | Inr (np, _) \<Rightarrow> Inr np)
      | Len \<Rightarrow> (case read_length_delimited sm buf p of Inl e \<Rightarrow> Inl (e, p) | Inr (np, _) \<Rightarrow> Inr np)
      | SGroup \<Rightarrow>
          (case scan_group_end sm buf p (field_number tag) (depth + 1) of
             Inl e \<Rightarrow> Inl e | Inr (np, _) \<Rightarrow> Inr np)
      | EGroup \<Rightarrow> Inl (UnexpectedEndGroup, p))"
| "scan_group_end sm buf p fn depth =
     (if depth > kMaxGroupDepth then Inl (GroupTooDeep, p) else scan_group_loop sm buf p fn depth)"
| "scan_group_loop sm buf p fn depth =
     (if length buf \<le> p then Inl (UnterminatedGroup, p)
      else
        (case read_tag buf p of
           Inl e \<Rightarrow> Inl (e, p)
         | Inr (np, tag) \<Rightarrow>
             if wire_type tag = EGroup then
               if field_number tag \<noteq> fn then Inl (EndGroupMismatch, p) else Inr (np, p)
             else
               (case skip_value sm buf np tag depth of
                  Inl e \<Rightarrow> Inl e
                | Inr sp \<Rightarrow> scan_group_loop sm buf sp fn depth)))"
  by pat_completeness auto

text \<open>
  Every successful skip moves the cursor forward and stays inside the buffer. The fact is proved
  on the domain of the functions first; termination rests on it.
\<close>

lemma skip_scan_bounds_dom:
  "skip_value_scan_group_end_scan_group_loop_dom (Inl (sm, buf, p, tag, depth)) \<Longrightarrow>
     skip_value sm buf p tag depth = Inr q \<Longrightarrow> p < q \<and> q \<le> length buf"
  "skip_value_scan_group_end_scan_group_loop_dom (Inr (Inl (sm, buf, p, fn, depth))) \<Longrightarrow>
     scan_group_end sm buf p fn depth = Inr (q, t) \<Longrightarrow> p \<le> t \<and> t < q \<and> q \<le> length buf"
  "skip_value_scan_group_end_scan_group_loop_dom (Inr (Inr (sm, buf, p, fn, depth))) \<Longrightarrow>
     scan_group_loop sm buf p fn depth = Inr (q, t) \<Longrightarrow> p \<le> t \<and> t < q \<and> q \<le> length buf"
proof (induction sm buf p tag depth and sm buf p fn depth and sm buf p fn depth
    arbitrary: q and q t and q t rule: skip_value_scan_group_end_scan_group_loop.pinduct)
  case (1 sm buf p tag depth)
  then show ?case
    by (auto simp: skip_value.psimps dest!: leaf_bounds split: WireType.splits sum.splits prod.splits)
next
  case (2 sm buf p fn depth)
  then show ?case
    by (auto simp: scan_group_end.psimps split: if_splits)
next
  case (3 sm buf p fn depth)
  show ?case
  proof (cases "read_tag buf p")
    case (Inl e)
    with "3.prems" show ?thesis
      by (auto simp: scan_group_loop.psimps [OF "3.hyps"] split: if_splits)
  next
    case (Inr x)
    obtain np tag where x: "x = (np, tag)" by (cases x)
    note tag = read_tag_bounds [OF Inr [unfolded x]]
    show ?thesis
    proof (cases "length buf \<le> p \<or> wire_type tag = EGroup")
      case True
      with "3.prems" Inr tag show ?thesis
        by (auto simp: x scan_group_loop.psimps [OF "3.hyps"] split: if_splits)
    next
      case False
      with "3.prems" Inr obtain sp where sp: "skip_value sm buf np tag depth = Inr sp"
        and loop: "scan_group_loop sm buf sp fn depth = Inr (q, t)"
        by (auto simp: x scan_group_loop.psimps [OF "3.hyps"] split: sum.splits)
      have "np < sp"
        using "3.IH"(1) [OF _ Inr x [symmetric] _ sp] False by simp
      moreover have "sp \<le> t \<and> t < q \<and> q \<le> length buf"
        using "3.IH"(2) [OF _ Inr x [symmetric] _ sp loop] False by simp
      ultimately show ?thesis using tag by simp
    qed
  qed
qed

lemma skip_scan_dom: "All skip_value_scan_group_end_scan_group_loop_dom"
proof (relation "measures
    [\<lambda>x. case x of Inl (sm, buf, p, tag, depth) \<Rightarrow> length buf - p
        | Inr (Inl (sm, buf, p, fn, depth)) \<Rightarrow> length buf - p
        | Inr (Inr (sm, buf, p, fn, depth)) \<Rightarrow> length buf - p,
     \<lambda>x. case x of Inl _ \<Rightarrow> 2 | Inr (Inl _) \<Rightarrow> 1 | Inr (Inr _) \<Rightarrow> 0]", goal_cases)
  case 1
  then show ?case by simp
next
  case (2 sm buf p tag depth)
  then show ?case by simp
next
  case (3 sm buf p fn depth)
  then show ?case by simp
next
  case (4 sm buf p fn depth y x tag)
  then show ?case by (auto dest: read_tag_bounds)
next
  case (5 sm buf p fn depth y np tag q)
  then show ?case by (auto dest!: read_tag_bounds skip_scan_bounds_dom(1))
qed

termination skip_value
  by (rule skip_scan_dom)

lemmas skip_value_simps = skip_value.simps
lemmas scan_simps = scan_group_end.simps scan_group_loop.simps
declare skip_value.simps [simp del] scan_group_end.simps [simp del] scan_group_loop.simps [simp del]

lemma skip_value_bounds: "skip_value sm buf p tag depth = Inr q \<Longrightarrow> p < q \<and> q \<le> length buf"
  using skip_scan_bounds_dom(1) skip_scan_dom by blast

lemma scan_group_end_bounds:
  "scan_group_end sm buf p fn depth = Inr (q, t) \<Longrightarrow> p \<le> t \<and> t < q \<and> q \<le> length buf"
  using skip_scan_bounds_dom(2) skip_scan_dom by blast


text \<open>The body of a group: the bytes up to the matching end tag, and the cursor past that tag.\<close>

definition read_group ::
  "nat \<Rightarrow> u8 list \<Rightarrow> nat \<Rightarrow> u32 \<Rightarrow> (WireError \<times> nat) + nat \<times> u8 list" where
  "read_group sm buf p fn =
     (case scan_group_end sm buf p fn 1 of
        Inl e \<Rightarrow> Inl e
      | Inr (np, egroup_tag) \<Rightarrow> Inr (np, take (egroup_tag - p) (drop p buf)))"

section \<open>Interpretation helpers\<close>

text \<open>
  A \<^verbatim>\<open>std::int32_t\<close> or \<^verbatim>\<open>std::int64_t\<close> is a word of its width, read with \<open>sint\<close>; a cast between
  the signed and unsigned type of one width keeps the bits.
\<close>

definition zigzag_decode_32 :: "u32 \<Rightarrow> u32" where
  "zigzag_decode_32 v = drop_bit 1 v XOR (0 - (v AND 1))"

definition zigzag_decode_64 :: "u64 \<Rightarrow> u64" where
  "zigzag_decode_64 v = drop_bit 1 v XOR (0 - (v AND 1))"

definition varint_to_bool :: "u64 \<Rightarrow> bool" where
  "varint_to_bool v \<longleftrightarrow> v \<noteq> 0"

definition varint_to_int32 :: "u64 \<Rightarrow> u32" where
  "varint_to_int32 v = ucast v"

definition varint_to_int64 :: "u64 \<Rightarrow> u64" where
  "varint_to_int64 v = v"

text \<open>The named conversions of the packed decode (\<^verbatim>\<open>wire::conv_*\<close>).\<close>

definition conv_int32 :: "u64 \<Rightarrow> u32" where "conv_int32 r = varint_to_int32 r"
definition conv_int64 :: "u64 \<Rightarrow> u64" where "conv_int64 r = varint_to_int64 r"
definition conv_uint32 :: "u64 \<Rightarrow> u32" where "conv_uint32 r = ucast r"
definition conv_uint64 :: "u64 \<Rightarrow> u64" where "conv_uint64 r = r"
definition conv_sint32 :: "u64 \<Rightarrow> u32" where "conv_sint32 r = zigzag_decode_32 (ucast r)"
definition conv_sint64 :: "u64 \<Rightarrow> u64" where "conv_sint64 r = zigzag_decode_64 r"
definition conv_bool :: "u64 \<Rightarrow> bool" where "conv_bool r = varint_to_bool r"
definition conv_enum :: "u64 \<Rightarrow> u32" where "conv_enum r = varint_to_int32 r"

section \<open>Decode status\<close>

record DecodeStatus =
  wire :: WireError
  aborted :: bool
  offset :: nat

definition ok :: "DecodeStatus \<Rightarrow> bool" where
  "ok s \<longleftrightarrow> wire s = WireNone \<and> \<not> aborted s"

definition success :: DecodeStatus where
  "success = \<lparr>wire = WireNone, aborted = False, offset = 0\<rparr>"

definition abort :: DecodeStatus where
  "abort = \<lparr>wire = WireNone, aborted = True, offset = 0\<rparr>"

end
