(* ===== verification/Wire_Format.thy ===== *)
theory Wire_Format
  imports Wire
begin

unbundle bit_operations_syntax

text \<open>
  What the readers of \<^verbatim>\<open>Wire\<close> compute, against the wire format: the byte strings the varint reader
  accepts, the reference encoder and the round trips, the fast paths of the tag readers, the
  fields and groups a scan accepts, and the arithmetic of the interpretation helpers.
\<close>

section \<open>The varint format\<close>

text \<open>
  The encoding the reader accepts, stated on the bytes alone: continuation bytes followed by one
  terminating byte, at most ten of them, the tenth contributing bit 63 only.
\<close>

fun varint_value :: "u8 list \<Rightarrow> u64" where
  "varint_value [] = 0"
| "varint_value (b # bs) = ucast (b AND 0x7F) OR push_bit 7 (varint_value bs)"

definition varint_bytes :: "u8 list \<Rightarrow> bool" where
  "varint_bytes bs \<longleftrightarrow> bs \<noteq> [] \<and> (\<forall>b \<in> set (butlast bs). bit b 7) \<and> \<not> bit (last bs) 7"

definition wf_varint :: "u8 list \<Rightarrow> bool" where
  "wf_varint bs \<longleftrightarrow> varint_bytes bs \<and> length bs \<le> 10 \<and> (length bs = 10 \<longrightarrow> last bs \<le> 1)"

lemma varint_bytes_Cons:
  "varint_bytes (b # bs) \<longleftrightarrow> (if bs = [] then \<not> bit b 7 else bit b 7 \<and> varint_bytes bs)"
  by (auto simp: varint_bytes_def)

lemma varint_loop_accepts:
  assumes "varint_bytes bs" and "take (length bs) (drop p buf) = bs"
    and "i + length bs \<le> 10" and "i + length bs = 10 \<longrightarrow> last bs \<le> 1"
  shows "read_varint_loop buf p (7 * i) r =
           Inr (p + length bs, r OR push_bit (7 * i) (varint_value bs))"
  using assms
proof (induction bs arbitrary: p i r)
  case Nil
  then show ?case by (simp add: varint_bytes_def)
next
  case (Cons b bs)
  from Cons.prems(2) have p: "p < length buf"
    by (metis append_Nil2 append_take_drop_id drop_eq_Nil leI list.distinct(1) take_Nil)
  then have dr: "drop p buf = buf ! p # drop (Suc p) buf"
    by (rule drop_nth_Cons)
  with Cons.prems(2) have b: "buf ! p = b" and bs: "take (length bs) (drop (Suc p) buf) = bs"
    by auto
  show ?case
  proof (cases "bs = []")
    case True
    with Cons.prems have "\<not> bit b 7" "i = 9 \<longrightarrow> b \<le> 1"
      by (auto simp: varint_bytes_Cons)
    with p Cons.prems(3) True show ?thesis
      by (subst read_varint_loop.simps)
        (auto simp: Let_def b u8_continuation not_less)
  next
    case False
    with Cons.prems have c: "bit b 7" "varint_bytes bs" and i: "i + 1 + length bs \<le> 10"
        "i + 1 + length bs = 10 \<longrightarrow> last bs \<le> 1"
      by (auto simp: varint_bytes_Cons)
    from i False have "i < 9" by (cases bs) auto
    with c p have "read_varint_loop buf p (7 * i) r =
        read_varint_loop buf (Suc p) (7 * (i + 1)) (r OR push_bit (7 * i) (ucast (b AND 0x7F)))"
      by (subst read_varint_loop.simps) (simp add: Let_def b u8_continuation add.commute)
    also have "\<dots> = Inr (Suc p + length bs,
        (r OR push_bit (7 * i) (ucast (b AND 0x7F))) OR push_bit (7 * (i + 1)) (varint_value bs))"
      using c i bs by (intro Cons.IH) auto
    finally show ?thesis
      by (simp add: push_bit_or or.assoc add.commute)
  qed
qed

lemma varint_loop_truncated:
  assumes "i + (length buf - p) < 10" and "\<forall>j. p \<le> j \<and> j < length buf \<longrightarrow> bit (buf ! j) 7"
  shows "read_varint_loop buf p (7 * i) r = Inl TruncatedVarint"
  using assms
proof (induction "length buf - p" arbitrary: p i r)
  case 0
  then show ?case by (subst read_varint_loop.simps) simp
next
  case (Suc n)
  then have "p < length buf" "bit (buf ! p) 7" "7 * i < 63" by auto
  moreover from Suc have "read_varint_loop buf (Suc p) (7 * (i + 1)) r' = Inl TruncatedVarint" for r'
    by (intro Suc.hyps) auto
  ultimately show ?case
    by (subst read_varint_loop.simps) (simp add: Let_def u8_continuation add.commute)
qed

lemma varint_loop_overflow:
  assumes "i + m = 9" and "p + m < length buf" and "\<forall>j < m. bit (buf ! (p + j)) 7"
    and "buf ! (p + m) > 1"
  shows "read_varint_loop buf p (7 * i) r = Inl VarintOverflow"
  using assms
proof (induction m arbitrary: p i r)
  case 0
  then show ?case by (subst read_varint_loop.simps) (simp add: Let_def)
next
  case (Suc m)
  then have "p < length buf" "bit (buf ! p) 7" "7 * i < 63"
    by (auto dest: spec [of _ 0])
  moreover from Suc.prems have "read_varint_loop buf (Suc p) (7 * (i + 1)) r' = Inl VarintOverflow" for r'
    by (intro Suc.IH) (auto dest: spec [of _ "Suc _"])
  ultimately show ?case
    by (subst read_varint_loop.simps) (simp add: Let_def u8_continuation add.commute)
qed

lemma read_varint_loop_eq: "read_varint buf p = read_varint_loop buf p 0 0"
proof (cases "p < length buf \<and> buf ! p AND 0x80 = 0")
  case True
  then have "buf ! p AND 0x7F = buf ! p"
    by (intro bit_word_eqI) (auto simp: u8_continuation bit_simps less_Suc_numeral_cases)
  with True show ?thesis
    by (subst read_varint_loop.simps) (simp add: read_varint_def Let_def)
next
  case False
  then show ?thesis by (auto simp: read_varint_def)
qed

lemma read_varint_accepts:
  assumes "wf_varint bs" and "take (length bs) (drop p buf) = bs"
  shows "read_varint buf p = Inr (p + length bs, varint_value bs)"
  using varint_loop_accepts [of bs p buf 0 0] assms
  by (simp add: read_varint_loop_eq wf_varint_def)


text \<open>The three outcomes cover every buffer, so each of them characterises its result.\<close>

lemma varint_outcomes:
  fixes buf :: "u8 list"
  shows "(\<exists>bs. wf_varint bs \<and> take (length bs) (drop p buf) = bs)
    \<or> (length buf - p < 10 \<and> (\<forall>j. p \<le> j \<and> j < length buf \<longrightarrow> bit (buf ! j) 7))
    \<or> (10 \<le> length buf - p \<and> (\<forall>j < 9. bit (buf ! (p + j)) 7) \<and> buf ! (p + 9) > 1)"
proof -
  let ?rest = "drop p buf"
  define k where "k = length (takeWhile (\<lambda>b. bit b 7) ?rest)"
  have cont: "bit (buf ! (p + j)) 7" if "j < k" for j
  proof -
    have "takeWhile (\<lambda>b. bit b 7) ?rest ! j = ?rest ! j" "j < length ?rest"
      using that takeWhile_nth [of j "\<lambda>b. bit b 7" ?rest] length_takeWhile_le [of "\<lambda>b. bit b 7" ?rest]
      by (auto simp: k_def)
    moreover have "bit (takeWhile (\<lambda>b. bit b 7) ?rest ! j) 7"
      using that by (metis k_def nth_mem set_takeWhileD)
    ultimately show ?thesis by simp
  qed
  have k_le: "k \<le> length ?rest"
    using length_takeWhile_le [of "\<lambda>b. bit b 7" ?rest] by (simp add: k_def)
  show ?thesis
  proof (cases "k < length ?rest \<and> k \<le> 9 \<and> (k = 9 \<longrightarrow> ?rest ! 9 \<le> 1)")
    case True
    let ?bs = "take (Suc k) ?rest"
    have len: "length ?bs = Suc k" using True by simp
    have stop: "\<not> bit (?rest ! k) 7"
      using True nth_length_takeWhile [of "\<lambda>b. bit b 7" ?rest] by (simp add: k_def)
    have bl: "butlast ?bs = take k ?rest" and la: "last ?bs = ?rest ! k"
      using True by (simp_all add: butlast_take take_Suc_conv_app_nth)
    have "varint_bytes ?bs"
      unfolding varint_bytes_def bl la using stop len
      by (auto simp: k_def simp flip: takeWhile_eq_take dest: set_takeWhileD)
    then have "wf_varint ?bs"
      unfolding wf_varint_def la using True len by auto
    then show ?thesis using len by auto
  next
    case False
    show ?thesis
    proof (cases "k \<le> 9 \<and> k = length ?rest")
      case True
      then have "length buf - p < 10" by simp
      moreover have "bit (buf ! j) 7" if "p \<le> j" "j < length buf" for j
        using cont [of "j - p"] True that by simp
      ultimately show ?thesis by blast
    next
      case b: False
      with False k_le have "9 \<le> k" "10 \<le> length ?rest" by auto
      moreover have "?rest ! 9 > 1"
      proof (cases "k = 9")
        case True
        with False \<open>10 \<le> length ?rest\<close> show ?thesis by (auto simp: not_le)
      next
        case c: False
        with \<open>9 \<le> k\<close> cont [of 9] \<open>10 \<le> length ?rest\<close> have "bit (?rest ! 9) 7" by simp
        then have "128 \<le> unat (?rest ! 9)" by (simp add: bit_u8_7_iff)
        then show ?thesis by (simp add: word_less_nat_alt)
      qed
      ultimately show ?thesis using cont by auto
    qed
  qed
qed

lemma read_varint_truncated:
  assumes "length buf - p < 10" and "\<forall>j. p \<le> j \<and> j < length buf \<longrightarrow> bit (buf ! j) 7"
  shows "read_varint buf p = Inl TruncatedVarint"
  using varint_loop_truncated [of 0 buf p 0] assms by (simp add: read_varint_loop_eq)

lemma read_varint_overflow:
  assumes "10 \<le> length buf - p" and "\<forall>j < 9. bit (buf ! (p + j)) 7" and "buf ! (p + 9) > 1"
  shows "read_varint buf p = Inl VarintOverflow"
  using varint_loop_overflow [of 0 9 p buf 0] assms by (simp add: read_varint_loop_eq)

lemma read_varint_Inr_iff:
  "read_varint buf p = Inr (np, v) \<longleftrightarrow>
     (\<exists>bs. wf_varint bs \<and> take (length bs) (drop p buf) = bs \<and> np = p + length bs \<and>
           v = varint_value bs)"
  using varint_outcomes [of p buf] read_varint_accepts [of _ p buf]
    read_varint_truncated [of buf p] read_varint_overflow [of buf p]
  by fastforce

lemma read_varint_error_cases:
  "read_varint buf p = Inl e \<Longrightarrow> e = TruncatedVarint \<or> e = VarintOverflow"
  using varint_outcomes [of p buf] read_varint_accepts [of _ p buf]
    read_varint_truncated [of buf p] read_varint_overflow [of buf p]
  by fastforce


section \<open>The reference encoder\<close>

text \<open>
  The encoder of the wire format, the inverse the reader is checked against (the program itself
  is decode-only).
\<close>

function encode_varint :: "u64 \<Rightarrow> u8 list" where
  "encode_varint v =
     (if v < 128 then [ucast v] else (ucast (v AND 0x7F) OR 0x80) # encode_varint (drop_bit 7 v))"
  by pat_completeness auto
termination
proof (relation "measure unat")
  fix v :: u64
  assume "\<not> v < 128"
  then have "128 \<le> unat v" by (simp add: word_less_nat_alt)
  then show "(drop_bit 7 v, v) \<in> measure unat"
    by (simp add: unat_drop_bit_div)
qed simp

declare encode_varint.simps [simp del]

lemma encode_varint_small: "v < 128 \<Longrightarrow> encode_varint v = [ucast v]"
  by (subst encode_varint.simps) simp

lemma encode_varint_big:
  "\<not> v < 128 \<Longrightarrow>
     encode_varint v = (ucast (v AND 0x7F) OR 0x80) # encode_varint (drop_bit 7 v)"
  by (subst encode_varint.simps) simp

lemma encode_varint_nonempty [simp]: "encode_varint v \<noteq> []"
  by (subst encode_varint.simps) simp

lemma low7_split:
  fixes v :: u64
  shows "ucast ((ucast (v AND 0x7F) OR 0x80 :: u8) AND 0x7F) OR push_bit 7 (drop_bit 7 v) = v"
proof (rule bit_word_eqI)
  fix n
  assume "n < LENGTH(64)"
  then show "bit (ucast ((ucast (v AND 0x7F) OR 0x80 :: u8) AND 0x7F) OR push_bit 7 (drop_bit 7 v)) n
      = bit v n"
    by (cases "n < 7") (auto simp: bit_simps bits)
qed

lemma less_128_bits: "(v :: u64) < 128 \<Longrightarrow> 7 \<le> k \<Longrightarrow> \<not> bit v k"
  using less_exp_iff_bits [of v 7] by (simp add: word_less_nat_alt)

lemma low7_small:
  fixes v :: u64
  assumes "v < 128"
  shows "ucast (ucast v AND 0x7F :: u8) = v"
proof (rule bit_word_eqI)
  fix n
  show "bit (ucast (ucast v AND 0x7F :: u8) :: u64) n = bit v n"
    using less_128_bits [OF assms, of n] by (cases "n < 7") (auto simp: bit_simps bits)
qed

lemma encode_varint_value [simp]: "varint_value (encode_varint v) = v"
proof (induction v rule: encode_varint.induct)
  case (1 v)
  then show ?case
    by (cases "v < 128") (simp_all add: encode_varint_small encode_varint_big low7_small low7_split)
qed

lemma encode_varint_bytes: "varint_bytes (encode_varint v)"
proof (induction v rule: encode_varint.induct)
  case (1 v)
  show ?case
  proof (cases "v < 128")
    case True
    then have "\<not> bit (ucast v :: u8) 7" by (auto simp: bit_simps dest: less_128_bits)
    with True show ?thesis by (simp add: encode_varint_small varint_bytes_Cons)
  next
    case False
    with "1.IH" show ?thesis
      by (simp add: encode_varint_big varint_bytes_Cons bit_simps bits)
  qed
qed

lemma encode_varint_length:
  "unat v < 2 ^ (7 * n) \<Longrightarrow> 0 < n \<Longrightarrow> length (encode_varint v) \<le> n"
proof (induction n arbitrary: v)
  case (Suc n)
  show ?case
  proof (cases "v < 128")
    case False
    then have "128 \<le> unat v" by (simp add: word_less_nat_alt)
    with Suc.prems have "0 < n" by (cases n) auto
    moreover have "unat (drop_bit 7 v) < 2 ^ (7 * n)"
      using Suc.prems(1) by (simp add: unat_drop_bit_div power_add less_mult_imp_div_less mult.commute)
    ultimately show ?thesis using Suc.IH [of "drop_bit 7 v"] False
      by (simp add: encode_varint_big)
  qed (simp add: encode_varint_small)
qed simp

lemma encode_varint_last:
  "unat v < 2 ^ (7 * n + 1) \<Longrightarrow> length (encode_varint v) = Suc n \<Longrightarrow> last (encode_varint v) \<le> 1"
proof (induction n arbitrary: v)
  case 0
  show ?case
  proof (cases "v < 128")
    case True
    with 0 have "unat v \<le> 1" by simp
    then have "unat (ucast v :: u8) \<le> 1" by (simp add: unsigned_ucast_eq take_bit_nat_eq_self)
    with True show ?thesis by (simp add: encode_varint_small word_le_nat_alt)
  next
    case False
    with 0 show ?thesis by (simp add: word_less_nat_alt)
  qed
next
  case (Suc n)
  show ?case
  proof (cases "v < 128")
    case True
    with Suc.prems show ?thesis by (simp add: encode_varint_small)
  next
    case False
    have "unat (drop_bit 7 v) < 2 ^ (7 * n + 1)"
      using Suc.prems(1) by (simp add: unat_drop_bit_div power_add less_mult_imp_div_less mult.commute)
    with Suc False show ?thesis by (simp add: encode_varint_big)
  qed
qed

lemma encode_varint_wf: "wf_varint (encode_varint v)"
proof -
  have "unat v < 2 ^ LENGTH(64)" by (rule unsigned_less)
  then have v: "unat v < 2 ^ 64" by simp
  then have "unat v < 2 ^ (7 * 10)" by simp
  then have "length (encode_varint v) \<le> 10" by (rule encode_varint_length) simp
  moreover have "length (encode_varint v) = 10 \<longrightarrow> last (encode_varint v) \<le> 1"
    using encode_varint_last [of v 9] v by simp
  ultimately show ?thesis by (simp add: wf_varint_def encode_varint_bytes)
qed

lemma read_varint_encode:
  "read_varint (pre @ encode_varint v @ post) (length pre) =
     Inr (length pre + length (encode_varint v), v)"
  using read_varint_accepts [OF encode_varint_wf, of v "length pre" "pre @ encode_varint v @ post"]
  by simp

section \<open>Tags\<close>

lemma unat_ucast_up:
  assumes "LENGTH('a) \<le> LENGTH('b)"
  shows "unat (ucast (w :: 'a::len word) :: 'b::len word) = unat w"
proof -
  have "unat w < 2 ^ LENGTH('a)" by (rule unsigned_less)
  also have "\<dots> \<le> 2 ^ LENGTH('b)" using assms by simp
  finally show ?thesis by (simp add: unsigned_ucast_eq take_bit_nat_eq_self)
qed

lemma unat_ucast_u8 [simp]:
  "unat (ucast (b :: u8) :: u64) = unat b" "unat (ucast (b :: u8) :: u32) = unat b"
  by (rule unat_ucast_up; simp)+

lemma kMaxFieldNumber_unat [simp]:
  "unat kMaxFieldNumber = 2 ^ 29 - 1" "unat (ucast kMaxFieldNumber :: u64) = 2 ^ 29 - 1"
  by (simp_all add: kMaxFieldNumber_def)

lemma byte_low3: "ucast (ucast (b :: u8) AND 7 :: u64) = (ucast b AND 7 :: u32)"
  by (rule bit_word_eqI) (auto simp: bit_simps bits)

lemma drop3_ucast: "ucast (drop_bit 3 (ucast (b :: u8) :: u64)) = (drop_bit 3 (ucast b) :: u32)"
  by (rule bit_word_eqI) (auto simp: bit_simps dest: bit_imp_le_length)

lemma drop3_zero: "drop_bit 3 (ucast (b :: u8) :: u64) = 0 \<longleftrightarrow> drop_bit 3 (ucast b :: u32) = 0"
  by (simp add: word_unat_eq_iff unat_drop_bit_div)

lemma read_tag_multi_eq: "read_tag buf p = read_tag_multi buf p"
proof (cases "p < length buf \<and> buf ! p AND 0x80 = 0")
  case True
  let ?b = "buf ! p"
  from True have rv: "read_varint buf p = Inr (p + 1, ucast ?b)"
    by (simp add: read_varint_def)
  have "unat ?b div 8 < 2 ^ 29 - 1"
    using unsigned_less [of ?b, where ?'a = nat] by simp
  then have "\<not> drop_bit 3 (ucast ?b :: u64) > ucast kMaxFieldNumber"
    by (simp add: word_less_nat_alt unat_drop_bit_div)
  with True show ?thesis
    by (simp add: read_tag_def read_tag_multi_def rv Let_def byte_low3 drop3_ucast drop3_zero)
next
  case False
  then show ?thesis by (auto simp: read_tag_def)
qed


text \<open>The two-byte path of \<open>read_tag_or_end\<close> computes the same tag from 32-bit arithmetic.\<close>

lemma pred_less_127_iff: "(b :: u8) - 1 < 127 \<longleftrightarrow> 1 \<le> unat b \<and> unat b < 128"
proof (cases "b = 0")
  case False
  then have "unat (b - 1) = unat b - 1" "1 \<le> unat b"
    by (simp_all add: unat_minus_one Suc_leI unat_gt_0)
  then show ?thesis by (auto simp: word_less_nat_alt)
qed simp

lemma two_byte_varint:
  assumes "p + 1 < length buf" and "bit (buf ! p) 7" and "\<not> bit (buf ! (p + 1)) 7"
  shows "read_varint buf p = Inr (p + 2, varint_value [buf ! p, buf ! (p + 1)])"
proof -
  have "take (length [buf ! p, buf ! (p + 1)]) (drop p buf) = [buf ! p, buf ! (p + 1)]"
    using assms(1) by (simp add: drop_nth_Cons)
  with assms show ?thesis
    using read_varint_accepts [of "[buf ! p, buf ! (p + 1)]" p buf]
    by (simp add: wf_varint_def varint_bytes_Cons)
qed

lemma two_byte_value:
  assumes "\<not> bit c 7"
  shows "ucast (varint_value [b, c] AND 7) =
           ((ucast b AND 0x7F) OR push_bit 7 (ucast c :: u32)) AND 7"
    and "ucast (drop_bit 3 (varint_value [b, c])) =
           drop_bit 3 ((ucast b AND 0x7F) OR push_bit 7 (ucast c :: u32))"
    and "unat (varint_value [b, c]) < 2 ^ 14"
proof -
  have c: "bit c n \<Longrightarrow> n < 7" for n
    using assms bit_imp_le_length [of c n] by (cases "n = 7") auto
  show "ucast (varint_value [b, c] AND 7) =
           ((ucast b AND 0x7F) OR push_bit 7 (ucast c :: u32)) AND 7"
    by (rule bit_word_eqI) (auto simp: bit_simps bits dest: bit_imp_le_length)
  show "ucast (drop_bit 3 (varint_value [b, c])) =
           drop_bit 3 ((ucast b AND 0x7F) OR push_bit 7 (ucast c :: u32))"
    by (rule bit_word_eqI) (auto simp: bit_simps bits dest: bit_imp_le_length c)
  show "unat (varint_value [b, c]) < 2 ^ 14"
    unfolding less_exp_iff_bits by (auto simp: bit_simps bits dest: bit_imp_le_length c)
qed

lemma two_byte_ge_128:
  assumes "1 \<le> unat c" and "\<not> bit c 7"
  shows "128 \<le> unat (varint_value [b, c])"
proof (rule ccontr)
  assume "\<not> 128 \<le> unat (varint_value [b, c])"
  then have "unat (varint_value [b, c]) < 2 ^ 7" by simp
  then have nb: "\<forall>k \<ge> 7. \<not> bit (varint_value [b, c]) k" by (simp only: less_exp_iff_bits)
  have "\<not> bit c k" for k
  proof
    assume k: "bit c k"
    then have "k < 8" "k \<noteq> 7" using assms(2) bit_imp_le_length [of c k] by auto
    with k have "bit (varint_value [b, c]) (k + 7)" by (auto simp: bit_simps bits)
    with nb show False by simp
  qed
  then have "c = 0" by (intro bit_word_eqI) simp
  with assms(1) show False by simp
qed


lemma read_tag_or_end_two_byte:
  assumes "p + 1 < length buf" and "bit (buf ! p) 7" and c: "buf ! (p + 1) - 1 < 0x7F"
    and w: "w = ((ucast (buf ! p) AND 0x7F) OR push_bit 7 (ucast (buf ! (p + 1)) :: u32))"
    and "w AND 7 \<noteq> 6" "w AND 7 \<noteq> 7"
  shows "read_tag buf p =
           Inr (p + 2, \<lparr>field_number = drop_bit 3 w, wire_type = wire_type_cast (w AND 7)\<rparr>)"
proof -
  let ?v = "varint_value [buf ! p, buf ! (p + 1)]"
  from c have c': "1 \<le> unat (buf ! (p + 1))" "\<not> bit (buf ! (p + 1)) 7"
    by (auto simp: pred_less_127_iff bit_u8_7_iff)
  note val = two_byte_value [OF c'(2), of "buf ! p"] two_byte_ge_128 [OF c', of "buf ! p"]
  have "drop_bit 3 ?v \<noteq> 0"
  proof
    assume "drop_bit 3 ?v = 0"
    then have "unat (drop_bit 3 ?v) = 0" by (simp del: varint_value.simps)
    with val(4) show False by (simp only: unat_drop_bit_div) auto
  qed
  moreover have "\<not> drop_bit 3 ?v > ucast kMaxFieldNumber"
    using val(3) by (simp add: word_less_nat_alt unat_drop_bit_div del: varint_value.simps)
  ultimately show ?thesis
    using two_byte_varint [OF assms(1,2) c'(2)] assms(5,6) val(1,2)
    by (simp add: read_tag_multi_eq read_tag_multi_def Let_def w del: varint_value.simps)
qed

lemma read_tag_or_end_slow_eq:
  "p < length buf \<Longrightarrow> read_tag_or_end buf p = read_tag_or_end_slow buf p"
proof -
  assume p: "p < length buf"
  show ?thesis
  proof (cases "bit (buf ! p) 7")
    case False
    with p show ?thesis
      by (auto simp: read_tag_or_end_def read_tag_or_end_slow_def read_tag_def Let_def u8_continuation)
  next
    case True
    let ?w = "(ucast (buf ! p) AND 0x7F) OR push_bit 7 (ucast (buf ! (p + 1)) :: u32)"
    show ?thesis
    proof (cases "length buf - p \<ge> 2 \<and> buf ! (p + 1) - 1 < 0x7F \<and> ?w AND 7 \<noteq> 6 \<and> ?w AND 7 \<noteq> 7")
      case t: True
      then have "2 \<le> length buf - p" by blast
      then have "p + 1 < length buf" by arith
      from read_tag_or_end_two_byte [OF this True _ refl] t p True show ?thesis
        by (simp add: read_tag_or_end_def read_tag_or_end_slow_def Let_def u8_continuation)
    next
      case False
      with p True show ?thesis
        by (auto simp: read_tag_or_end_def Let_def u8_continuation)
    qed
  qed
qed

lemma read_tag_valid:
  "read_tag buf p = Inr (np, t) \<Longrightarrow> 1 \<le> unat (field_number t) \<and> unat (field_number t) < 2 ^ 29"
proof -
  assume "read_tag buf p = Inr (np, t)"
  then obtain raw where raw: "drop_bit 3 raw \<noteq> 0" "\<not> drop_bit 3 raw > ucast kMaxFieldNumber"
    and t: "field_number t = ucast (drop_bit 3 raw :: u64)"
    by (auto simp: read_tag_multi_eq read_tag_multi_def Let_def split: sum.splits if_splits)
  have lt: "unat (drop_bit 3 raw) < 2 ^ 29"
    using raw(2) by (simp add: word_less_nat_alt)
  then have "unat (field_number t) = unat (drop_bit 3 raw)"
    by (simp add: t unsigned_ucast_eq take_bit_nat_eq_self)
  moreover have "unat (drop_bit 3 raw) \<noteq> 0"
    using raw(1) by (simp add: unat_eq_0)
  ultimately show ?thesis using lt by simp
qed

lemma raw_tag_fields:
  assumes "unat fld < 2 ^ 29"
  shows "ucast ((ucast (raw_tag fld wt) :: u64) AND 7) = wire_type_code wt"
    and "drop_bit 3 (ucast (raw_tag fld wt) :: u64) = ucast fld"
    and "wire_type_cast (wire_type_code wt) = wt"
proof -
  have code: "bit (wire_type_code wt) n \<Longrightarrow> n < 3" for n
  proof -
    have "unat (wire_type_code wt) < 2 ^ 3" by (cases wt) simp_all
    then have "\<forall>k \<ge> 3. \<not> bit (wire_type_code wt) k" by (simp only: less_exp_iff_bits)
    then show "bit (wire_type_code wt) n \<Longrightarrow> n < 3" by (meson not_le)
  qed
  have fld: "bit fld n \<Longrightarrow> n < 29" for n
    using assms unfolding less_exp_iff_bits by (meson not_le)
  show "ucast ((ucast (raw_tag fld wt) :: u64) AND 7) = wire_type_code wt"
    by (rule bit_word_eqI) (auto simp: raw_tag_def bit_simps bits dest: code)
  show "drop_bit 3 (ucast (raw_tag fld wt) :: u64) = ucast fld"
    by (rule bit_word_eqI) (auto simp: raw_tag_def bit_simps dest: code fld)
  show "wire_type_cast (wire_type_code wt) = wt"
    by (cases wt) (simp_all add: wire_type_cast_def)
qed

definition encode_tag :: "u32 \<Rightarrow> WireType \<Rightarrow> u8 list" where
  "encode_tag fld wt = encode_varint (ucast (raw_tag fld wt))"

lemma read_tag_encode:
  assumes "1 \<le> unat fld" and "unat fld < 2 ^ 29"
  shows "read_tag (pre @ encode_tag fld wt @ post) (length pre) =
           Inr (length pre + length (encode_tag fld wt), \<lparr>field_number = fld, wire_type = wt\<rparr>)"
proof -
  have "ucast fld \<noteq> (0 :: u64)"
  proof
    assume "ucast fld = (0 :: u64)"
    then have "unat (ucast fld :: u64) = 0" by simp
    with assms(1) show False by (simp add: unat_ucast_up)
  qed
  moreover have "\<not> (ucast fld :: u64) > ucast kMaxFieldNumber"
    using assms(2) by (simp add: word_less_nat_alt unat_ucast_up)
  moreover have "wire_type_code wt \<noteq> 6" "wire_type_code wt \<noteq> 7"
    by (cases wt; simp)+
  moreover have "ucast (ucast fld :: u64) = fld"
    by (rule bit_word_eqI) (simp add: bit_simps)
  ultimately show ?thesis
    using read_varint_encode [of pre "ucast (raw_tag fld wt)" post] raw_tag_fields [OF assms(2), of wt]
    by (simp add: read_tag_multi_eq read_tag_multi_def Let_def encode_tag_def)
qed

section \<open>Fields and groups\<close>

text \<open>
  The grammar of the wire format, independent of the reader: a tag is a varint of a valid field
  number and wire type, a value is what the wire type says, a group is a sequence of fields closed
  by the end tag of its own number. The first argument bounds the nesting of groups; \<open>sm\<close> is the
  largest \<^verbatim>\<open>size_t\<close>.
\<close>

definition tag_bytes :: "u32 \<Rightarrow> WireType \<Rightarrow> u8 list \<Rightarrow> bool" where
  "tag_bytes fld wt t \<longleftrightarrow>
     wf_varint t \<and>
     (let raw = varint_value t; wire = (ucast (raw AND 7) :: u32) in
      drop_bit 3 raw \<noteq> 0 \<and> drop_bit 3 raw \<le> ucast kMaxFieldNumber \<and> wire \<noteq> 6 \<and> wire \<noteq> 7 \<and>
      fld = ucast (drop_bit 3 raw) \<and> wt = wire_type_cast wire)"

inductive
  value_bytes :: "nat \<Rightarrow> nat \<Rightarrow> u32 \<Rightarrow> WireType \<Rightarrow> u8 list \<Rightarrow> bool" and
  fields_bytes :: "nat \<Rightarrow> nat \<Rightarrow> u8 list \<Rightarrow> bool"
  for sm :: nat
where
  value_varint: "wf_varint v \<Longrightarrow> value_bytes sm n fld Varint v"
| value_i64: "length v = 8 \<Longrightarrow> value_bytes sm n fld I64 v"
| value_i32: "length v = 4 \<Longrightarrow> value_bytes sm n fld I32 v"
| value_len:
    "wf_varint l \<Longrightarrow> unat (varint_value l) = length payload \<Longrightarrow>
     2 ^ 64 - 1 \<le> sm \<or> length payload \<le> sm \<Longrightarrow> value_bytes sm n fld Len (l @ payload)"
| value_group:
    "fields_bytes sm n body \<Longrightarrow> tag_bytes fld EGroup e \<Longrightarrow>
     value_bytes sm (Suc n) fld SGroup (body @ e)"
| fields_nil: "fields_bytes sm n []"
| fields_cons:
    "tag_bytes fld wt t \<Longrightarrow> value_bytes sm n fld wt v \<Longrightarrow> fields_bytes sm n rest \<Longrightarrow>
     fields_bytes sm n (t @ v @ rest)"

inductive_simps value_bytes_simps:
  "value_bytes sm n fld Varint v" "value_bytes sm n fld I64 v" "value_bytes sm n fld I32 v"
  "value_bytes sm n fld Len v" "value_bytes sm n fld SGroup v" "value_bytes sm n fld EGroup v"

lemma wf_varint_nonempty [simp]: "wf_varint bs \<Longrightarrow> bs \<noteq> []"
  by (auto simp: wf_varint_def varint_bytes_def)

lemma read_varint_iff:
  "read_varint buf p = Inr (np, v) \<longleftrightarrow>
     (\<exists>bs. wf_varint bs \<and> bytes_at buf p bs \<and> np = p + length bs \<and> v = varint_value bs)"
  by (simp add: read_varint_Inr_iff bytes_at_def)

lemma read_tag_iff:
  "read_tag buf p = Inr (np, tg) \<longleftrightarrow>
     (\<exists>t. tag_bytes (field_number tg) (wire_type tg) t \<and> bytes_at buf p t \<and> np = p + length t)"
proof
  assume "read_tag buf p = Inr (np, tg)"
  then obtain raw where "read_varint buf p = Inr (np, raw)" "drop_bit 3 raw \<noteq> 0"
      "drop_bit 3 raw \<le> ucast kMaxFieldNumber"
      "ucast (raw AND 7) \<noteq> (6 :: u32)" "ucast (raw AND 7) \<noteq> (7 :: u32)"
      "tg = \<lparr>field_number = ucast (drop_bit 3 raw), wire_type = wire_type_cast (ucast (raw AND 7))\<rparr>"
    by (auto simp: read_tag_multi_eq read_tag_multi_def Let_def not_less split: sum.splits if_splits)
  then show "\<exists>t. tag_bytes (field_number tg) (wire_type tg) t \<and> bytes_at buf p t \<and> np = p + length t"
    by (auto simp: read_varint_iff tag_bytes_def Let_def)
next
  assume "\<exists>t. tag_bytes (field_number tg) (wire_type tg) t \<and> bytes_at buf p t \<and> np = p + length t"
  then obtain t where t: "tag_bytes (field_number tg) (wire_type tg) t" "bytes_at buf p t"
      "np = p + length t" by blast
  then have "read_varint buf p = Inr (np, varint_value t)"
    by (auto simp: read_varint_iff tag_bytes_def Let_def)
  with t(1) show "read_tag buf p = Inr (np, tg)"
    by (auto simp: read_tag_multi_eq read_tag_multi_def tag_bytes_def Let_def)
qed

lemma tag_bytes_nonempty: "tag_bytes fld wt t \<Longrightarrow> t \<noteq> []"
  by (auto simp: tag_bytes_def)

lemma read_length_delimited_iff:
  "read_length_delimited sm buf p = Inr (np, payload) \<longleftrightarrow>
     (\<exists>l. wf_varint l \<and> unat (varint_value l) = length payload \<and>
          (2 ^ 64 - 1 \<le> sm \<or> length payload \<le> sm) \<and>
          bytes_at buf p (l @ payload) \<and> np = p + length (l @ payload))"
proof
  assume "read_length_delimited sm buf p = Inr (np, payload)"
  then obtain l where l: "wf_varint l" "bytes_at buf p l"
      "2 ^ 64 - 1 \<le> sm \<or> unat (varint_value l) \<le> sm"
      "unat (varint_value l) \<le> length buf - (p + length l)"
      "np = p + length l + unat (varint_value l)"
      "payload = take (unat (varint_value l)) (drop (p + length l) buf)"
    by (fastforce simp: read_length_delimited_def read_varint_iff not_less
        split: sum.splits if_splits)
  then have "length payload = unat (varint_value l)" by simp
  moreover have "bytes_at buf (p + length l) payload"
    using l by (simp add: bytes_at_self)
  ultimately show "\<exists>l. wf_varint l \<and> unat (varint_value l) = length payload \<and>
      (2 ^ 64 - 1 \<le> sm \<or> length payload \<le> sm) \<and>
      bytes_at buf p (l @ payload) \<and> np = p + length (l @ payload)"
    using l by (intro exI [of _ l]) (auto simp: bytes_at_append)
next
  assume "\<exists>l. wf_varint l \<and> unat (varint_value l) = length payload \<and>
      (2 ^ 64 - 1 \<le> sm \<or> length payload \<le> sm) \<and>
      bytes_at buf p (l @ payload) \<and> np = p + length (l @ payload)"
  then obtain l where l: "wf_varint l" "unat (varint_value l) = length payload"
      "2 ^ 64 - 1 \<le> sm \<or> length payload \<le> sm" "bytes_at buf p (l @ payload)"
      "np = p + length (l @ payload)" by blast
  then have "read_varint buf p = Inr (p + length l, varint_value l)"
    by (auto simp: read_varint_iff bytes_at_append)
  moreover have "length payload \<le> length buf - (p + length l)"
    using l(1,4) bytes_at_length [of buf p "l @ payload"] by auto
  moreover have "take (length payload) (drop (p + length l) buf) = payload"
    using l(4) by (simp add: bytes_at_append) (simp add: bytes_at_def)
  ultimately show "read_length_delimited sm buf p = Inr (np, payload)"
    using l(2,3,5) by (auto simp: read_length_delimited_def)
qed


lemma skip_fixed_iff:
  "(\<exists>v. read_fixed64 buf p = Inr (q, v)) \<longleftrightarrow> (\<exists>v. length v = 8 \<and> bytes_at buf p v \<and> q = p + 8)"
  "(\<exists>v. read_fixed32 buf p = Inr (q, v)) \<longleftrightarrow> (\<exists>v. length v = 4 \<and> bytes_at buf p v \<and> q = p + 4)"
proof -
  have *: "n \<le> length buf - p \<longleftrightarrow> (\<exists>v. length v = n \<and> bytes_at buf p v)" if "0 < n" for n
  proof
    assume "n \<le> length buf - p"
    then show "\<exists>v. length v = n \<and> bytes_at buf p v"
      by (intro exI [of _ "take n (drop p buf)"]) (simp add: bytes_at_self)
  next
    assume "\<exists>v. length v = n \<and> bytes_at buf p v"
    then obtain v where "length v = n" "bytes_at buf p v" by blast
    with that bytes_at_length [of buf p v] show "n \<le> length buf - p" by auto
  qed
  show "(\<exists>v. read_fixed64 buf p = Inr (q, v)) \<longleftrightarrow> (\<exists>v. length v = 8 \<and> bytes_at buf p v \<and> q = p + 8)"
    using * [of 8] by (auto simp: read_fixed64_def)
  show "(\<exists>v. read_fixed32 buf p = Inr (q, v)) \<longleftrightarrow> (\<exists>v. length v = 4 \<and> bytes_at buf p v \<and> q = p + 4)"
    using * [of 4] by (auto simp: read_fixed32_def)
qed

text \<open>What \<open>skip_value\<close> does for each wire type, as one equivalence per branch.\<close>

lemma skip_value_leaf:
  "wire_type tag = Varint \<Longrightarrow> skip_value sm buf p tag d = Inr q \<longleftrightarrow> (\<exists>v. read_varint buf p = Inr (q, v))"
  "wire_type tag = I64 \<Longrightarrow> skip_value sm buf p tag d = Inr q \<longleftrightarrow> (\<exists>v. read_fixed64 buf p = Inr (q, v))"
  "wire_type tag = I32 \<Longrightarrow> skip_value sm buf p tag d = Inr q \<longleftrightarrow> (\<exists>v. read_fixed32 buf p = Inr (q, v))"
  "wire_type tag = Len \<Longrightarrow> skip_value sm buf p tag d = Inr q \<longleftrightarrow>
     (\<exists>v. read_length_delimited sm buf p = Inr (q, v))"
  "wire_type tag = SGroup \<Longrightarrow> skip_value sm buf p tag d = Inr q \<longleftrightarrow>
     (\<exists>t. scan_group_end sm buf p (field_number tag) (d + 1) = Inr (q, t))"
  "wire_type tag = EGroup \<Longrightarrow> skip_value sm buf p tag d = Inr q \<longleftrightarrow> False"
  by (auto simp: skip_value_simps split: sum.splits)

abbreviation levels :: "int \<Rightarrow> nat" where
  "levels d \<equiv> nat (kMaxGroupDepth - d)"

lemma levels_Suc: "d + 1 \<le> kMaxGroupDepth \<Longrightarrow> levels d = Suc (levels (d + 1))"
  by (simp add: nat_eq_iff)

lemma skip_value_sound_step:
  assumes "skip_value sm buf p tag d = Inr q"
    and group: "\<And>q t. wire_type tag = SGroup \<Longrightarrow>
      scan_group_end sm buf p (field_number tag) (d + 1) = Inr (q, t) \<Longrightarrow>
      d + 1 \<le> kMaxGroupDepth \<and> (\<exists>body e. fields_bytes sm (levels (d + 1)) body \<and>
        tag_bytes (field_number tag) EGroup e \<and> bytes_at buf p (body @ e) \<and>
        t = p + length body \<and> q = t + length e)"
  shows "\<exists>v. value_bytes sm (levels d) (field_number tag) (wire_type tag) v \<and>
           bytes_at buf p v \<and> q = p + length v"
proof (cases "wire_type tag")
  case SGroup
  with assms(1) obtain t where "scan_group_end sm buf p (field_number tag) (d + 1) = Inr (q, t)"
    by (auto simp: skip_value_leaf)
  from group [OF SGroup this] obtain body e where
      "d + 1 \<le> kMaxGroupDepth" "fields_bytes sm (levels (d + 1)) body"
      "tag_bytes (field_number tag) EGroup e" "bytes_at buf p (body @ e)"
      "q = p + length body + length e" by blast
  with SGroup show ?thesis
    by (intro exI [of _ "body @ e"]) (auto simp: levels_Suc intro: value_group)
next
  case Varint
  with assms(1) show ?thesis by (auto simp: skip_value_leaf value_bytes_simps read_varint_iff)
next
  case I64
  with assms(1) show ?thesis
    by (auto simp: skip_value_leaf value_bytes_simps skip_fixed_iff)
next
  case I32
  with assms(1) show ?thesis
    by (auto simp: skip_value_leaf value_bytes_simps skip_fixed_iff)
next
  case Len
  with assms(1) show ?thesis
    by (fastforce simp: skip_value_leaf value_bytes_simps read_length_delimited_iff)
next
  case EGroup
  with assms(1) show ?thesis by (simp add: skip_value_leaf)
qed

lemma skip_scan_sound:
  "skip_value sm buf p tag d = Inr q \<Longrightarrow>
     \<exists>v. value_bytes sm (levels d) (field_number tag) (wire_type tag) v \<and>
         bytes_at buf p v \<and> q = p + length v"
  "scan_group_end sm buf p fn d = Inr (q, t) \<Longrightarrow>
     d \<le> kMaxGroupDepth \<and> (\<exists>body e. fields_bytes sm (levels d) body \<and> tag_bytes fn EGroup e \<and>
       bytes_at buf p (body @ e) \<and> t = p + length body \<and> q = t + length e)"
  "scan_group_loop sm buf p fn d = Inr (q, t) \<Longrightarrow>
     \<exists>body e. fields_bytes sm (levels d) body \<and> tag_bytes fn EGroup e \<and>
       bytes_at buf p (body @ e) \<and> t = p + length body \<and> q = t + length e"
proof (induction sm buf p tag d and sm buf p fn d and sm buf p fn d
    arbitrary: q and q t and q t rule: skip_value_scan_group_end_scan_group_loop.induct)
  case (1 sm buf p tag d)
  then show ?case by (intro skip_value_sound_step) blast+
next
  case (2 sm buf p fn d)
  then show ?case by (auto simp: scan_group_end.simps split: if_splits)
next
  case (3 sm buf p fn d)
  from "3.prems" obtain np tag where p: "p < length buf" and tag: "read_tag buf p = Inr (np, tag)"
    by (auto simp: scan_group_loop.simps [of sm buf p fn d] split: if_splits sum.splits prod.splits)
  from tag obtain tb where tb: "tag_bytes (field_number tag) (wire_type tag) tb" "bytes_at buf p tb"
      "np = p + length tb" by (auto simp: read_tag_iff)
  show ?case
  proof (cases "wire_type tag = EGroup")
    case True
    with "3.prems" p tag tb show ?thesis
      by (intro exI [of _ "[]"] exI [of _ tb])
        (auto simp: scan_group_loop.simps [of sm buf p fn d] split: if_splits intro: fields_nil)
  next
    case False
    with "3.prems" p tag obtain sp where sp: "skip_value sm buf np tag d = Inr sp"
      and loop: "scan_group_loop sm buf sp fn d = Inr (q, t)"
      by (auto simp: scan_group_loop.simps [of sm buf p fn d] split: sum.splits)
    from "3.IH"(1) [OF _ tag refl False sp] p obtain v where
        v: "value_bytes sm (levels d) (field_number tag) (wire_type tag) v" "bytes_at buf np v"
        "sp = np + length v" by auto
    from "3.IH"(2) [OF _ tag refl False sp loop] p obtain body e where
        b: "fields_bytes sm (levels d) body" "tag_bytes fn EGroup e" "bytes_at buf sp (body @ e)"
        "t = sp + length body" "q = t + length e" by auto
    from tb v b show ?thesis
      by (intro exI [of _ "tb @ v @ body"] exI [of _ e])
        (auto simp: bytes_at_append add.assoc intro: fields_cons)
  qed
qed

lemma skip_scan_complete:
  "value_bytes sm n fld wt v \<Longrightarrow>
     n \<le> levels d \<Longrightarrow> bytes_at buf p v \<Longrightarrow> tag = \<lparr>field_number = fld, wire_type = wt\<rparr> \<Longrightarrow>
     skip_value sm buf p tag d = Inr (p + length v)"
  "fields_bytes sm n body \<Longrightarrow>
     n \<le> levels d \<Longrightarrow> bytes_at buf p (body @ e) \<Longrightarrow> tag_bytes fn EGroup e \<Longrightarrow>
     scan_group_loop sm buf p fn d = Inr (p + length body + length e, p + length body)"
proof (induction arbitrary: d buf p tag and d buf p fn e rule: value_bytes_fields_bytes.inducts)
  case (value_varint v n fld)
  then show ?case by (auto simp: skip_value_leaf read_varint_iff)
next
  case (value_i64 v n fld)
  then show ?case using skip_fixed_iff(1) [of buf p "p + 8"] by (auto simp: skip_value_leaf)
next
  case (value_i32 v n fld)
  then show ?case using skip_fixed_iff(2) [of buf p "p + 4"] by (auto simp: skip_value_leaf)
next
  case (value_len l payload n fld)
  then have "read_length_delimited sm buf p = Inr (p + length (l @ payload), payload)"
    unfolding read_length_delimited_iff by auto
  with value_len.prems show ?case by (auto simp: skip_value_leaf)
next
  case (value_group n body fld e)
  then have "d + 1 \<le> kMaxGroupDepth" "n \<le> levels (d + 1)" by auto
  moreover from this value_group have
      "scan_group_loop sm buf p fld (d + 1) = Inr (p + length body + length e, p + length body)"
    by blast
  ultimately show ?case
    using value_group.prems by (auto simp: skip_value_leaf scan_group_end.simps)
next
  case (fields_nil n)
  then have "read_tag buf p = Inr (p + length e, \<lparr>field_number = fn, wire_type = EGroup\<rparr>)"
    by (auto simp: read_tag_iff)
  moreover have "p < length buf"
    using fields_nil bytes_at_length [of buf p e] tag_bytes_nonempty [of fn EGroup e] by (cases e) auto
  ultimately show ?case by (simp add: scan_group_loop.simps [of sm buf p fn d])
next
  case (fields_cons fld wt t n v rest)
  let ?tag = "\<lparr>field_number = fld, wire_type = wt\<rparr>"
  have "wt \<noteq> EGroup" using fields_cons.IH(1) by (auto simp: value_bytes_simps)
  have at: "bytes_at buf p t" "bytes_at buf (p + length t) v"
      "bytes_at buf (p + length t + length v) (rest @ e)"
    using fields_cons.prems by (auto simp: bytes_at_append add.assoc)
  have p: "p < length buf"
    using bytes_at_length [OF at(1)] tag_bytes_nonempty [OF fields_cons.hyps(1)] by (cases t) auto
  have tag: "read_tag buf p = Inr (p + length t, ?tag)"
    using fields_cons.hyps(1) at(1) by (auto simp: read_tag_iff)
  have "skip_value sm buf (p + length t) ?tag d = Inr (p + length t + length v)"
    using fields_cons.IH(2) [OF fields_cons.prems(1) at(2) refl] .
  moreover have "scan_group_loop sm buf (p + length t + length v) fn d =
      Inr (p + length t + length v + length rest + length e, p + length t + length v + length rest)"
    using fields_cons.IH(4) [OF fields_cons.prems(1) at(3) fields_cons.prems(3)] .
  ultimately show ?case
    using p tag \<open>wt \<noteq> EGroup\<close> by (simp add: scan_group_loop.simps [of sm buf p fn d] add.assoc)
qed

section \<open>Zigzag\<close>

lemma zigzag_parts:
  fixes v :: "'a::len word"
  shows "drop_bit 1 v XOR (0 - (v AND 1)) = (if even v then drop_bit 1 v else NOT (drop_bit 1 v))"
  by (auto simp: and_one_eq mod_2_eq_odd)

lemma sint_drop_bit_1:
  fixes v :: "'a::len word"
  shows "sint (drop_bit 1 v) = uint v div 2"
proof -
  have lt: "uint v < 2 ^ LENGTH('a)" by (rule unsigned_less)
  have "uint (drop_bit 1 v) = uint v div 2"
  proof -
    have "uint (drop_bit 1 v) = drop_bit 1 (take_bit LENGTH('a) (uint v))"
      by (rule unsigned_drop_bit_eq)
    with lt show ?thesis by (simp only: drop_bit_eq_div) (simp add: take_bit_int_eq_self)
  qed
  moreover from lt have "uint v div 2 < 2 ^ (LENGTH('a) - Suc 0)"
    by (cases "LENGTH('a)") auto
  ultimately show ?thesis
    by (simp add: sint_uint signed_take_bit_int_eq_self order_trans [of _ 0])
qed

lemma sint_NOT: "sint (NOT w) = - sint (w :: 'a::len word) - 1"
proof -
  have "2 ^ (LENGTH('a) - Suc 0) \<le> (2 :: int) ^ LENGTH('a)" by simp
  then have "- (2 ^ LENGTH('a)) \<le> - sint w - 1" "- sint w - 1 < 2 ^ LENGTH('a)"
    using sint_greater_eq [of w] sint_less [of w] by linarith+
  then have "signed_take_bit LENGTH('a) (NOT (sint w)) = NOT (sint w)"
    by (intro signed_take_bit_int_eq_self) (simp_all add: not_eq_complement)
  moreover have "sint (NOT w) = signed_take_bit LENGTH('a) (NOT (sint w))"
    by (rule signed_not_eq)
  ultimately have "sint (NOT w) = NOT (sint w)" by simp
  also have "\<dots> = - sint w - 1" by (rule not_eq_complement)
  finally show ?thesis .
qed

lemma zigzag_sint:
  fixes v :: "'a::len word"
  shows "sint (drop_bit 1 v XOR (0 - (v AND 1))) =
           (if even (uint v) then uint v div 2 else - (uint v div 2) - 1)"
proof -
  have "even v \<longleftrightarrow> even (uint v)" 
    using bit_unsigned_iff [of v 0, where 'a = int] by (simp add: bit_0)
  then show ?thesis
    by (simp only: zigzag_parts if_distrib [of sint] sint_NOT sint_drop_bit_1)
qed

text \<open>The encoder of the format: \<^verbatim>\<open>(n << 1) ^ (n >> (width - 1))\<close> with an arithmetic shift.\<close>

definition zigzag_encode :: "'a::len word \<Rightarrow> 'a word" where
  "zigzag_encode n = push_bit 1 n XOR signed_drop_bit (LENGTH('a) - 1) n"


lemma zigzag_decode_encode:
  fixes n :: "'a::len word"
  assumes "1 < LENGTH('a)"
  shows "drop_bit 1 (zigzag_encode n) XOR (0 - (zigzag_encode n AND 1)) = n"
proof -
  let ?s = "bit n (LENGTH('a) - 1)"
  have "bit (zigzag_encode n) 0 \<longleftrightarrow> ?s"
    by (simp only: zigzag_encode_def bit_xor_iff bit_push_bit_iff bit_signed_drop_bit_iff) simp
  then have odd: "odd (zigzag_encode n) \<longleftrightarrow> ?s" by (simp only: bit_0)
  have "drop_bit 1 (zigzag_encode n) = (if ?s then NOT n else n)"
  proof (rule bit_word_eqI)
    fix i
    assume i: "i < LENGTH('a)"
    show "bit (drop_bit 1 (zigzag_encode n)) i = bit (if ?s then NOT n else n) i"
      using i assms by (cases "i = LENGTH('a) - 1") (auto simp: zigzag_encode_def bit_simps bit_double_iff mult.commute [of n 2])
  qed
  with odd show ?thesis unfolding zigzag_parts by auto
qed

definition truncated_at :: "u8 list \<Rightarrow> nat \<Rightarrow> bool" where
  "truncated_at buf p \<longleftrightarrow>
     length buf - p < 10 \<and> (\<forall>j. p \<le> j \<and> j < length buf \<longrightarrow> bit (buf ! j) 7)"

definition overflow_at :: "u8 list \<Rightarrow> nat \<Rightarrow> bool" where
  "overflow_at buf p \<longleftrightarrow>
     10 \<le> length buf - p \<and> (\<forall>j < 9. bit (buf ! (p + j)) 7) \<and> buf ! (p + 9) > 1"

lemma read_varint_Inl_iff:
  "read_varint buf p = Inl e \<longleftrightarrow>
     e = TruncatedVarint \<and> truncated_at buf p \<or> e = VarintOverflow \<and> overflow_at buf p"
  using varint_outcomes [of p buf, folded truncated_at_def overflow_at_def]
    read_varint_accepts [of _ p buf] read_varint_truncated [of buf p, folded truncated_at_def]
    read_varint_overflow [of buf p] overflow_at_def [of buf p] truncated_at_def [of buf p]
  by (metis Inl_Inr_False old.sum.inject(1) read_varint_truncated)

section \<open>Where failures are reported\<close>

lemma leaf_error_not_none:
  "read_varint buf p = Inl e \<Longrightarrow> e \<noteq> WireNone"
  "read_fixed64 buf p = Inl e \<Longrightarrow> e \<noteq> WireNone"
  "read_fixed32 buf p = Inl e \<Longrightarrow> e \<noteq> WireNone"
  "read_length_delimited sm buf p = Inl e \<Longrightarrow> e \<noteq> WireNone"
  "read_tag buf p = Inl e \<Longrightarrow> e \<noteq> WireNone"
  by (auto simp: read_fixed64_def read_fixed32_def read_length_delimited_def read_tag_multi_eq
      read_tag_multi_def Let_def dest: read_varint_error_cases split: if_splits sum.splits prod.splits)

lemma skip_scan_errors:
  "skip_value sm buf p tag d = Inl (e, off) \<Longrightarrow> p \<le> length buf \<Longrightarrow>
     e \<noteq> WireNone \<and> p \<le> off \<and> off \<le> length buf"
  "scan_group_end sm buf p fn d = Inl (e, off) \<Longrightarrow> p \<le> length buf \<Longrightarrow>
     e \<noteq> WireNone \<and> p \<le> off \<and> off \<le> length buf"
  "scan_group_loop sm buf p fn d = Inl (e, off) \<Longrightarrow> p \<le> length buf \<Longrightarrow>
     e \<noteq> WireNone \<and> p \<le> off \<and> off \<le> length buf"
proof (induction sm buf p tag d and sm buf p fn d and sm buf p fn d
    arbitrary: e off and e off and e off rule: skip_value_scan_group_end_scan_group_loop.induct)
  case (1 sm buf p tag d)
  then show ?case
    by (cases "wire_type tag")
      (auto simp: skip_value.simps [of sm buf p tag d] dest: leaf_error_not_none split: sum.splits)
next
  case (2 sm buf p fn d)
  then show ?case by (auto simp: scan_group_end.simps split: if_splits)
next
  case (3 sm buf p fn d)
  show ?case
  proof (cases "p < length buf \<and> (\<exists>np tag sp. read_tag buf p = Inr (np, tag) \<and>
      wire_type tag \<noteq> EGroup \<and> skip_value sm buf np tag d = Inr sp)")
    case True
    then obtain np tag sp where p: "\<not> length buf \<le> p" and tag: "read_tag buf p = Inr (np, tag)"
      and ne: "wire_type tag \<noteq> EGroup" and sp: "skip_value sm buf np tag d = Inr sp"
      by auto
    from p tag ne sp "3.prems" have "scan_group_loop sm buf sp fn d = Inl (e, off)"
      by (simp add: scan_group_loop.simps [of sm buf p fn d])
    from "3.IH"(2) [OF p tag refl ne sp this] skip_value_bounds [OF sp] read_tag_bounds [OF tag]
    show ?thesis by simp
  next
    case False
    show ?thesis
    proof (cases "p < length buf \<and> (\<exists>np tag. read_tag buf p = Inr (np, tag) \<and> wire_type tag \<noteq> EGroup)")
      case True
      then obtain np tag where p: "\<not> length buf \<le> p" and tag: "read_tag buf p = Inr (np, tag)"
        and ne: "wire_type tag \<noteq> EGroup"
        by auto
      with False "3.prems" have "skip_value sm buf np tag d = Inl (e, off)"
        by (auto simp: scan_group_loop.simps [of sm buf p fn d] split: sum.splits)
      from "3.IH"(1) [OF p tag refl ne this] read_tag_bounds [OF tag] show ?thesis by simp
    next
      case c: False
      with "3.prems" show ?thesis
        by (auto simp: scan_group_loop.simps [of sm buf p fn d] dest: leaf_error_not_none
            split: if_splits sum.splits)
    qed
  qed
qed

section \<open>Properties\<close>

text \<open>
  Varint round trip: wherever in a buffer the encoding of a 64-bit value stands, the
  reader returns that value and the cursor just past the encoding.
\<close>

theorem varint_roundtrip:
  "read_varint (pre @ encode_varint v @ post) (length pre) =
     Inr (length pre + length (encode_varint v), v)"
  by (rule read_varint_encode)

text \<open>
  Property C2. The varint reader is exact on every buffer. It accepts precisely the well-formed
  varints (continuation bytes and one terminator, ten bytes at most, the tenth 0 or 1); it reports
  a truncation precisely when the input ends, before ten bytes, inside a run of continuation
  bytes; it reports an overflow precisely when nine continuation bytes are followed by a byte
  above 1.
\<close>

theorem read_varint_exact:
  "(read_varint buf p = Inr (np, v) \<longleftrightarrow>
      (\<exists>bs. wf_varint bs \<and> bytes_at buf p bs \<and> np = p + length bs \<and> v = varint_value bs)) \<and>
   (read_varint buf p = Inl e \<longleftrightarrow>
      e = TruncatedVarint \<and> truncated_at buf p \<or> e = VarintOverflow \<and> overflow_at buf p)"
  by (simp only: read_varint_iff read_varint_Inl_iff simp_thms)

text \<open>
  Tag round trip: for every field number from 1 to the maximum and every wire type,
  the reader recovers both from the encoded tag, wherever it stands.
\<close>

theorem tag_roundtrip:
  assumes "1 \<le> unat fld" and "unat fld \<le> unat kMaxFieldNumber"
  shows "read_tag (pre @ encode_tag fld wt @ post) (length pre) =
           Inr (length pre + length (encode_tag fld wt), \<lparr>field_number = fld, wire_type = wt\<rparr>)"
  using assms by (intro read_tag_encode) simp_all

theorem tag_roundtrip_witness:
  "read_tag ([0xFF] @ encode_tag 300 Len @ [7]) 1 =
     Inr (1 + length (encode_tag 300 Len), \<lparr>field_number = 300, wire_type = Len\<rparr>)"
proof -
  have "1 \<le> unat (300 :: u32)" "unat (300 :: u32) \<le> unat kMaxFieldNumber" by simp_all
  from tag_roundtrip [OF this, of "[0xFF]" Len "[7]"] show ?thesis by simp
qed

text \<open>
  Property C32. The fused one-byte and two-byte paths of the tag readers are optimisations only:
  on every buffer \<open>read_tag_or_end\<close> ends exactly at the end of the input and otherwise answers
  what the general path (full varint, then the three checks) answers.
\<close>

theorem read_tag_or_end_fast_paths:
  "read_tag_or_end buf p =
     (if length buf \<le> p then StateEnd p
      else (case read_tag_multi buf p of Inl e \<Rightarrow> StateError p e | Inr (np, tag) \<Rightarrow> StateTag np tag))"
proof (cases "length buf \<le> p")
  case True
  then show ?thesis by (simp add: read_tag_or_end_def)
next
  case False
  then show ?thesis
    by (simp add: read_tag_or_end_slow_eq read_tag_or_end_slow_def read_tag_multi_eq)
qed

text \<open>
  Property C16. Group scanning is exact: starting at depth \<open>d\<close>, the scan succeeds precisely when
  the bytes at the cursor are a sequence of well-formed fields, nested within what the depth cap
  leaves, followed by the end tag of the group's own number. It then stops right after that tag
  and reports where the tag starts.
\<close>

theorem scan_group_end_exact:
  "scan_group_end sm buf p fn d = Inr (q, t) \<longleftrightarrow>
     d \<le> kMaxGroupDepth \<and>
     (\<exists>body e. fields_bytes sm (nat (kMaxGroupDepth - d)) body \<and> tag_bytes fn EGroup e \<and>
        bytes_at buf p (body @ e) \<and> t = p + length body \<and> q = t + length e)"
  using skip_scan_sound(2) [of sm buf p fn d q t] skip_scan_complete(2) [of sm "levels d" _ d buf p _ fn]
  by (auto simp: scan_group_end.simps)

text \<open>
  A group body is delivered exactly: \<open>read_group\<close> returns the bytes between the
  start tag and the matching end tag, and a span of fields is never split or extended.
\<close>

theorem read_group_exact:
  "read_group sm buf p fn = Inr (q, body) \<longleftrightarrow>
     (\<exists>e. fields_bytes sm (nat (kMaxGroupDepth - 1)) body \<and> tag_bytes fn EGroup e \<and>
        bytes_at buf p (body @ e) \<and> q = p + length (body @ e))"
proof
  assume "read_group sm buf p fn = Inr (q, body)"
  then obtain t where "scan_group_end sm buf p fn 1 = Inr (q, t)" "body = take (t - p) (drop p buf)"
    by (auto simp: read_group_def split: sum.splits)
  moreover from skip_scan_sound(2) [OF this(1)] obtain b e where
    "fields_bytes sm (levels 1) b" "tag_bytes fn EGroup e" "bytes_at buf p (b @ e)"
    "t = p + length b" "q = t + length e" by blast
  moreover from this have "take (length b) (drop p buf) = b"
    by (simp add: bytes_at_append) (simp add: bytes_at_def)
  ultimately show "\<exists>e. fields_bytes sm (levels 1) body \<and> tag_bytes fn EGroup e \<and>
      bytes_at buf p (body @ e) \<and> q = p + length (body @ e)"
    by (intro exI [of _ e]) simp
next
  assume "\<exists>e. fields_bytes sm (levels 1) body \<and> tag_bytes fn EGroup e \<and>
      bytes_at buf p (body @ e) \<and> q = p + length (body @ e)"
  then obtain e where e: "fields_bytes sm (levels 1) body" "tag_bytes fn EGroup e"
      "bytes_at buf p (body @ e)" "q = p + length (body @ e)" by blast
  from skip_scan_complete(2) [OF e(1) order_refl e(3,2)]
  have "scan_group_end sm buf p fn 1 = Inr (q, p + length body)"
    using e(4) by (simp add: scan_group_end.simps kMaxGroupDepth_def)
  then show "read_group sm buf p fn = Inr (q, body)"
    using e(3) by (simp add: read_group_def bytes_at_append) (simp add: bytes_at_def)
qed

text \<open>
  Skipping is total and stays in the buffer: from a cursor inside the buffer,
  \<open>skip_value\<close> either moves strictly forward to a position inside it, or reports a real error at
  an offset between the cursor and the end.
\<close>

theorem skip_value_in_buffer:
  assumes "p \<le> length buf"
  shows "case skip_value sm buf p tag d of
           Inr q \<Rightarrow> p < q \<and> q \<le> length buf
         | Inl (e, off) \<Rightarrow> e \<noteq> WireNone \<and> p \<le> off \<and> off \<le> length buf"
  using assms skip_value_bounds [of sm buf p tag d] skip_scan_errors(1) [of sm buf p tag d]
  by (cases "skip_value sm buf p tag d") auto

theorem skip_value_in_buffer_witness:
  "case skip_value (2 ^ 64 - 1) [0x0B, 0x08, 0x01, 0x0C] 1 \<lparr>field_number = 1, wire_type = SGroup\<rparr> 0 of
     Inr q \<Rightarrow> 1 < q \<and> q \<le> length [0x0B, 0x08, 0x01, 0x0C :: u8]
   | Inl (e, off) \<Rightarrow> e \<noteq> WireNone \<and> 1 \<le> off \<and> off \<le> length [0x0B, 0x08, 0x01, 0x0C :: u8]"
  by (rule skip_value_in_buffer) simp

text \<open>
  Zigzag: both widths decode to the value the format assigns (even codes count up from
  0, odd codes down from -1), and decoding inverts the encoder.
\<close>

theorem zigzag_correct:
  "sint (zigzag_decode_32 v) = (if even (uint v) then uint v div 2 else - (uint v div 2) - 1) \<and>
   sint (zigzag_decode_64 w) = (if even (uint w) then uint w div 2 else - (uint w div 2) - 1) \<and>
   zigzag_decode_32 (zigzag_encode m) = m \<and> zigzag_decode_64 (zigzag_encode n) = n"
  using zigzag_sint [of v] zigzag_sint [of w] zigzag_decode_encode [of m] zigzag_decode_encode [of n]
  by (simp only: zigzag_decode_32_def zigzag_decode_64_def) simp

end
