(* ===== verification/Swar.thy ===== *)
theory Swar
  imports Wire_Format
begin

unbundle bit_operations_syntax

text \<open>
  The word-at-a-time primitives of \<^verbatim>\<open>namespace swar_detail\<close> in
  \<^verbatim>\<open>include/rapidproto/runtime.hpp\<close>, \<open>read_varint_packed\<close> and \<open>packed_strategy\<close>, with their
  bit-level specifications. A load outside the buffer, and \<open>ctz64\<close> of zero, are undefined in the
  C++ and \<^verbatim>\<open>None\<close> here.
\<close>

section \<open>Primitives\<close>

definition kMSB :: u64 where "kMSB = 0x8080808080808080"
definition kLow7 :: u64 where "kLow7 = 0x7F7F7F7F7F7F7F7F"

text \<open>\<open>N\<close> is a template argument, restricted to 1..8 by a \<^verbatim>\<open>static_assert\<close>.\<close>

definition low_byte_mask :: "nat \<Rightarrow> u64" where
  "low_byte_mask N = (if N \<ge> 8 then NOT 0 else push_bit (8 * N) 1 - 1)"

definition load64 :: "u8 list \<Rightarrow> nat \<Rightarrow> u64 option" where
  "load64 buf p =
     (if p + 8 \<le> length buf then
        Some (ucast (buf ! p) OR push_bit 8 (ucast (buf ! (p + 1))) OR
              push_bit 16 (ucast (buf ! (p + 2))) OR push_bit 24 (ucast (buf ! (p + 3))) OR
              push_bit 32 (ucast (buf ! (p + 4))) OR push_bit 40 (ucast (buf ! (p + 5))) OR
              push_bit 48 (ucast (buf ! (p + 6))) OR push_bit 56 (ucast (buf ! (p + 7))))
      else None)"

partial_function (option) ctz64_loop :: "u64 \<Rightarrow> nat \<Rightarrow> nat option" where
  "ctz64_loop x n = (if x AND 1 = 0 then ctz64_loop (drop_bit 1 x) (n + 1) else Some n)"

definition ctz64 :: "u64 \<Rightarrow> nat option" where
  "ctz64 x = ctz64_loop x 0"

definition compact7 :: "u64 \<Rightarrow> u64" where
  "compact7 x =
     (let x1 = drop_bit 1 (x AND 0x7F007F007F007F00) OR (x AND 0x007F007F007F007F);
          x2 = drop_bit 2 (x1 AND 0x3FFF00003FFF0000) OR (x1 AND 0x00003FFF00003FFF)
      in drop_bit 4 (x2 AND 0x0FFFFFFF00000000) OR (x2 AND 0x000000000FFFFFFF))"

definition bytemask8 :: "u64 \<Rightarrow> u64" where
  "bytemask8 w = drop_bit 56 ((w AND kMSB) * 0x0002040810204081)"

fun stopmask64_loop :: "u8 list \<Rightarrow> nat \<Rightarrow> nat list \<Rightarrow> u64 \<Rightarrow> u64 option" where
  "stopmask64_loop buf p [] m = Some m"
| "stopmask64_loop buf p (j # js) m =
     do {
       w \<leftarrow> load64 buf (p + 8 * j);
       stopmask64_loop buf p js (m OR push_bit (8 * j) (bytemask8 (NOT w)))
     }"

definition stopmask64 :: "u8 list \<Rightarrow> nat \<Rightarrow> u64 option" where
  "stopmask64 buf p = stopmask64_loop buf p [0..<8] 0"

text \<open>One packed element. The precondition, eight readable bytes at \<open>p\<close>, is not tested.\<close>

definition read_varint_packed :: "u8 list \<Rightarrow> nat \<Rightarrow> (WireError + nat \<times> u64) option" where
  "read_varint_packed buf p =
     (if \<not> p < length buf then None
      else if buf ! p < 0x80 then Some (Inr (p + 1, ucast (buf ! p)))
      else do {
        w \<leftarrow> load64 buf p;
        let stop = NOT w AND kMSB;
        if stop = 0 then Some (read_varint buf p)
        else do {
          c \<leftarrow> ctz64 stop;
          let len = c div 2 ^ 3 + 1;
          let mask = stop XOR (stop - 1);
          Some (Inr (p + len, compact7 (w AND mask AND kLow7)))
        }
      })"

section \<open>Classification\<close>

datatype PackedKernel = ByteLoop | Swar | Struct | Bulk1 | Bulk2 | Fixed

definition kPackedKernelMinSpan :: nat where
  "kPackedKernelMinSpan = 256"

text \<open>
  The scan over the terminators of the first window: \<open>last_b\<close>, \<open>g0\<close> and \<open>maxw\<close> are C++ \<^verbatim>\<open>int\<close>s
  that start at -1, -1 and 0.
\<close>

function strategy_scan :: "u64 \<Rightarrow> int \<Rightarrow> int \<Rightarrow> int \<Rightarrow> bool \<Rightarrow> (int \<times> int \<times> bool) option" where
  "strategy_scan m last_b g0 maxw homo =
     (if m \<noteq> 0 then
        do {
          c \<leftarrow> ctz64 m;
          let b = int c;
          let w = b - last_b;
          strategy_scan (m AND (m - 1)) b (if g0 < 0 then w else g0) (if w > maxw then w else maxw)
            (if g0 < 0 then homo else if w \<noteq> g0 then False else homo)
        }
      else Some (g0, maxw, homo))"
  by pat_completeness auto
termination
proof (relation "measure (\<lambda>(m, _). unat m)")
  fix m :: u64
  assume "m \<noteq> 0"
  then have "unat (m - 1) < unat m" by (simp add: unat_minus_one unat_gt_0)
  moreover have "unat (m AND (m - 1)) \<le> unat (m - 1)"
    using word_and_le1 [of m "m - 1"] by (simp add: word_le_nat_alt)
  ultimately show "\<And>c last_b g0 maxw homo l g mx h.
      ((m AND (m - 1), l, g, mx, h), m, last_b, g0, maxw, homo) \<in> measure (\<lambda>(m, _). unat m)"
    by simp
qed simp

declare strategy_scan.simps [simp del]

definition packed_strategy :: "u8 list \<Rightarrow> nat \<Rightarrow> nat \<Rightarrow> (PackedKernel \<times> int) option" where
  "packed_strategy buf p span =
     (if span < kPackedKernelMinSpan then Some (ByteLoop, 0)
      else do {
        stop \<leftarrow> stopmask64 buf p;
        if stop = 0 then Some (ByteLoop, 0)
        else do {
          (g0, maxw, homo) \<leftarrow> strategy_scan stop (-1) (-1) 0 True;
          if \<not> homo then Some (if maxw \<le> 5 then Struct else Swar, 0)
          else if g0 = 1 then Some (Bulk1, 0)
          else if g0 = 2 then Some (Bulk2, 0)
          else if g0 \<ge> 3 \<and> g0 \<le> 10 then Some (Fixed, g0)
          else Some (ByteLoop, 0)
        }
      })"

section \<open>Counting trailing zeros\<close>

lemma ctz64_loop_eq:
  "bit x k \<Longrightarrow> \<forall>j < k. \<not> bit x j \<Longrightarrow> ctz64_loop x n = Some (n + k)"
proof (induction k arbitrary: x n)
  case 0
  then have "x AND 1 \<noteq> 0" by (simp add: and_one_eq bit_0 mod_2_eq_odd)
  then show ?case by (subst ctz64_loop.simps) simp
next
  case (Suc k)
  then have "\<not> bit x 0" by blast
  then have "x AND 1 = 0" by (simp add: and_one_eq bit_0 mod_2_eq_odd)
  moreover have "ctz64_loop (drop_bit 1 x) (n + 1) = Some (n + 1 + k)"
    using Suc.prems by (intro Suc.IH) (auto simp: bit_drop_bit_eq)
  ultimately show ?case by (subst ctz64_loop.simps) simp
qed

lemma ctz64_eq: "bit x k \<Longrightarrow> \<forall>j < k. \<not> bit x j \<Longrightarrow> ctz64 x = Some k"
  by (simp add: ctz64_def ctz64_loop_eq)

lemma lowest_bit:
  assumes "(x :: 'a::len word) \<noteq> 0"
  obtains k where "bit x k" "\<forall>j < k. \<not> bit x j"
proof -
  from assms obtain n where "bit x n" by (metis bit_eqI bit_0_eq bot_apply bot_bool_def)
  then have "bit x (LEAST n. bit x n)" by (rule LeastI)
  moreover have "\<forall>j < (LEAST n. bit x n). \<not> bit x j" by (blast dest: not_less_Least)
  ultimately show ?thesis by (rule that)
qed

text \<open>Subtracting one clears the lowest set bit and sets those below it.\<close>

lemma bit_minus_one:
  fixes x :: "'a::len word"
  assumes "bit x k" and "\<forall>j < k. \<not> bit x j"
  shows "bit (x - 1) n \<longleftrightarrow> (if n < k then True else if n = k then False else bit x n)"
proof -
  have k: "k < LENGTH('a)" using assms(1) by (rule bit_imp_le_length)
  define h where "h = x AND NOT (mask (Suc k))"
  have hb: "bit h n \<longleftrightarrow> Suc k \<le> n \<and> bit x n" for n
    using bit_imp_le_length [of x n] by (auto simp: h_def bit_simps)
  have x: "x = h OR 2 ^ k"
  proof (rule bit_word_eqI)
    fix n
    show "bit x n = bit (h OR 2 ^ k) n"
      using assms k by (cases n k rule: linorder_cases) (auto simp: bit_simps hb)
  qed
  have "h OR 2 ^ k = h + 2 ^ k"
    by (rule disjunctive_add [symmetric]) (use hb in \<open>auto simp: bit_simps\<close>)
  with x have "x - 1 = h + (2 ^ k - 1)" by simp
  also have "\<dots> = h + mask k" by (simp add: mask_eq_exp_minus_1)
  also have "\<dots> = h OR mask k"
    by (rule disjunctive_add) (use hb in \<open>auto simp: bit_simps\<close>)
  finally have "bit (x - 1) n \<longleftrightarrow> bit h n \<or> n < k \<and> n < LENGTH('a)"
    by (auto simp: bit_simps)
  with hb [of n] k show ?thesis by auto
qed

lemma bit_clear_lowest:
  fixes x :: "'a::len word"
  assumes "bit x k" and "\<forall>j < k. \<not> bit x j"
  shows "bit (x AND (x - 1)) n \<longleftrightarrow> bit x n \<and> n \<noteq> k"
  using assms by (auto simp: bit_and_iff bit_minus_one [OF assms])

lemma bit_xor_minus_one:
  fixes x :: "'a::len word"
  assumes "bit x k" and "\<forall>j < k. \<not> bit x j"
  shows "bit (x XOR (x - 1)) n \<longleftrightarrow> n \<le> k"
  using assms by (auto simp: bit_xor_iff bit_minus_one [OF assms])

section \<open>Loads, masks and the seven-bit gather\<close>

lemma bit_load64:
  assumes "load64 buf p = Some w"
  shows "bit w n \<longleftrightarrow> n < 64 \<and> bit (buf ! (p + n div 8)) (n mod 8)"
proof (cases "n < 64")
  case False
  then show ?thesis using bit_imp_le_length [of w n] by auto
next
  case True
  define k where "k = n div 8"
  define j where "j = n mod 8"
  have k: "k < 8" and j: "j < 8"
    using True by (auto simp: k_def j_def)
  have small: "\<not> bit (b :: u8) i" if "8 \<le> i" for b i
    using that bit_imp_le_length [of b i] by auto
  from assms have w: "w = ucast (buf ! p) OR push_bit 8 (ucast (buf ! (p + 1))) OR
              push_bit 16 (ucast (buf ! (p + 2))) OR push_bit 24 (ucast (buf ! (p + 3))) OR
              push_bit 32 (ucast (buf ! (p + 4))) OR push_bit 40 (ucast (buf ! (p + 5))) OR
              push_bit 48 (ucast (buf ! (p + 6))) OR push_bit 56 (ucast (buf ! (p + 7)))"
    by (simp add: load64_def split: if_splits)
  have "bit w (8 * k + j) \<longleftrightarrow> bit (buf ! (p + k)) j"
    using k j unfolding less_Suc_numeral_cases [of k] w
    by (elim disjE) (simp_all add: bit_simps small)
  with True show ?thesis by (simp add: k_def j_def)
qed

lemma list_all_less: "list_all P [0..<m] \<Longrightarrow> n < m \<Longrightarrow> P n"
  by (simp add: list_all_iff)

lemma upt_64: "[0..<64] = [0, 1, 2, 3, 4, 5, 6, 7, 8, 9, 10, 11, 12, 13, 14, 15, 16, 17, 18, 19, 20, 21, 22, 23, 24, 25, 26, 27, 28, 29, 30, 31, 32, 33, 34, 35, 36, 37, 38, 39, 40, 41, 42, 43, 44, 45, 46, 47, 48, 49, 50, 51, 52, 53, 54, 55, 56, 57, 58, 59, 60, 61, 62, 63]"
  by (simp add: upt_rec)

lemma bit_kMSB: "bit kMSB n \<longleftrightarrow> n < 64 \<and> n mod 8 = 7"
proof (cases "n < 64")
  case True
  have "list_all (\<lambda>n. bit kMSB n \<longleftrightarrow> n mod 8 = 7) [0..<64]"
    unfolding upt_64 kMSB_def by simp
  from list_all_less [OF this True] True show ?thesis by simp
next
  case False
  then show ?thesis using bit_imp_le_length [of kMSB n] by auto
qed

lemma bit_kLow7: "bit kLow7 n \<longleftrightarrow> n < 64 \<and> n mod 8 \<noteq> 7"
proof (cases "n < 64")
  case True
  have "list_all (\<lambda>n. bit kLow7 n \<longleftrightarrow> n mod 8 \<noteq> 7) [0..<64]"
    unfolding upt_64 kLow7_def by simp
  from list_all_less [OF this True] True show ?thesis by simp
next
  case False
  then show ?thesis using bit_imp_le_length [of kLow7 n] by auto
qed

lemma bit_low_byte_mask: "bit (low_byte_mask N) n \<longleftrightarrow> n < 64 \<and> n < 8 * N"
proof (cases "N \<ge> 8")
  case True
  then show ?thesis by (auto simp: low_byte_mask_def bit_simps)
next
  case False
  then have "low_byte_mask N = mask (8 * N)"
    by (simp add: low_byte_mask_def mask_eq_exp_minus_1 push_bit_of_1)
  then show ?thesis by (auto simp: bit_mask_iff)
qed

lemma bit_compact7: "bit (compact7 x) n \<longleftrightarrow> n < 56 \<and> bit x (8 * (n div 7) + n mod 7)"
proof (cases "n < 64")
  case True
  have "list_all (\<lambda>n. bit (compact7 x) n \<longleftrightarrow> n < 56 \<and> bit x (8 * (n div 7) + n mod 7)) [0..<64]"
    unfolding upt_64 compact7_def Let_def
    by (simp add: bit_or_iff bit_and_iff bit_drop_bit_eq numeral_2_eq_2 [symmetric])
  from list_all_less [OF this True] show ?thesis by simp
next
  case False
  then show ?thesis using bit_imp_le_length [of "compact7 x" n] by auto
qed

lemma movemask_cases:
  "drop_bit 56 (((if b0 then 2 ^ 7 else 0) OR
      (if b1 then 2 ^ 15 else 0) OR
      (if b2 then 2 ^ 23 else 0) OR
      (if b3 then 2 ^ 31 else 0) OR
      (if b4 then 2 ^ 39 else 0) OR
      (if b5 then 2 ^ 47 else 0) OR
      (if b6 then 2 ^ 55 else 0) OR
      (if b7 then 2 ^ 63 else 0)) * 0x0002040810204081 :: u64) =
      (if b0 then 2 ^ 0 else 0) OR
      (if b1 then 2 ^ 1 else 0) OR
      (if b2 then 2 ^ 2 else 0) OR
      (if b3 then 2 ^ 3 else 0) OR
      (if b4 then 2 ^ 4 else 0) OR
      (if b5 then 2 ^ 5 else 0) OR
      (if b6 then 2 ^ 6 else 0) OR
      (if b7 then 2 ^ 7 else 0)"
  by (cases b0; cases b1; cases b2; cases b3; cases b4; cases b5; cases b6; cases b7; simp)

lemma bit_flag: "bit (if b then 2 ^ k else 0 :: u64) n \<longleftrightarrow> b \<and> n = k \<and> k < 64"
  by (auto simp: bit_exp_iff)

lemma bytes_kMSB:
  "w AND kMSB = (if bit w 7 then 2 ^ 7 else 0) OR
      (if bit w 15 then 2 ^ 15 else 0) OR
      (if bit w 23 then 2 ^ 23 else 0) OR
      (if bit w 31 then 2 ^ 31 else 0) OR
      (if bit w 39 then 2 ^ 39 else 0) OR
      (if bit w 47 then 2 ^ 47 else 0) OR
      (if bit w 55 then 2 ^ 55 else 0) OR
      (if bit w 63 then 2 ^ 63 else 0)"
proof -
  have n: "n < 64 \<and> n mod 8 = 7 \<longleftrightarrow>
      n = 7 \<or> n = 15 \<or> n = 23 \<or> n = 31 \<or> n = 39 \<or> n = 47 \<or> n = 55 \<or> n = 63" for n :: nat
    by presburger
  show ?thesis
    by (rule bit_word_eqI, simp only: bit_or_iff bit_and_iff bit_flag bit_kMSB n, simp) blast
qed

lemma bytemask8_eq:
  "bytemask8 w = (if bit w 7 then 2 ^ 0 else 0) OR
      (if bit w 15 then 2 ^ 1 else 0) OR
      (if bit w 23 then 2 ^ 2 else 0) OR
      (if bit w 31 then 2 ^ 3 else 0) OR
      (if bit w 39 then 2 ^ 4 else 0) OR
      (if bit w 47 then 2 ^ 5 else 0) OR
      (if bit w 55 then 2 ^ 6 else 0) OR
      (if bit w 63 then 2 ^ 7 else 0)"
  unfolding bytemask8_def bytes_kMSB by (rule movemask_cases)

lemma bit_bytemask8: "bit (bytemask8 w) i \<longleftrightarrow> i < 8 \<and> bit w (8 * i + 7)"
proof (cases "i < 8")
  case True
  then have "bit (bytemask8 w) i \<longleftrightarrow> bit w (8 * i + 7)"
    unfolding less_Suc_numeral_cases bytemask8_eq
    by (elim disjE) (simp_all only: bit_or_iff bit_flag, simp_all)
  with True show ?thesis by simp
next
  case False
  then show ?thesis unfolding bytemask8_eq by (simp only: bit_or_iff bit_flag) simp
qed

section \<open>Words against the scalar reader\<close>

lemma bit_varint_value:
  "bit (varint_value bs) n \<longleftrightarrow> n < 64 \<and> n div 7 < length bs \<and> bit (bs ! (n div 7)) (n mod 7)"
proof (induction bs arbitrary: n)
  case Nil
  then show ?case by simp
next
  case (Cons b bs)
  show ?case
  proof (cases "n < 7")
    case True
    then show ?thesis by (auto simp: bit_simps bits)
  next
    case False
    then obtain k where k: "n = 7 + k" using le_Suc_ex [of 7 n] by auto
    then have "n div 7 = Suc (k div 7)" "n mod 7 = k mod 7" by auto
    with k show ?thesis by (auto simp: bit_simps bits Cons.IH)
  qed
qed

text \<open>The low \<open>W\<close> bytes of \<open>w\<close> are the bytes of the buffer at \<open>p\<close>.\<close>

definition word_at :: "u8 list \<Rightarrow> nat \<Rightarrow> nat \<Rightarrow> u64 \<Rightarrow> bool" where
  "word_at buf p W w \<longleftrightarrow> W \<le> 8 \<and> p + W \<le> length buf \<and>
     (\<forall>n < 8 * W. bit w n \<longleftrightarrow> bit (buf ! (p + n div 8)) (n mod 8))"

lemma word_at_load64: "load64 buf p = Some w \<Longrightarrow> W \<le> 8 \<Longrightarrow> word_at buf p W w"
  by (auto simp: word_at_def bit_load64 load64_def split: if_splits)

lemma word_at_shift:
  "word_at buf p (V + W) w \<Longrightarrow> word_at buf (p + V) W (drop_bit (8 * V) w)"
  by (auto simp: word_at_def bit_drop_bit_eq add.assoc)

lemma word_at_msb: "word_at buf p W w \<Longrightarrow> i < W \<Longrightarrow> bit w (8 * i + 7) \<longleftrightarrow> bit (buf ! (p + i)) 7"
  by (auto simp: word_at_def)

text \<open>\<open>W\<close> bytes at \<open>p\<close> of which the last one only terminates.\<close>

definition one_varint :: "u8 list \<Rightarrow> nat \<Rightarrow> nat \<Rightarrow> bool" where
  "one_varint buf p W \<longleftrightarrow> W > 0 \<and> p + W \<le> length buf \<and>
     (\<forall>i < W - 1. bit (buf ! (p + i)) 7) \<and> \<not> bit (buf ! (p + (W - 1))) 7"

lemma one_varint_bytes:
  assumes "one_varint buf p W"
  shows "varint_bytes (take W (drop p buf))"
proof -
  from assms have W: "0 < W" "p + W \<le> length buf" by (auto simp: one_varint_def)
  then have l: "length (take W (drop p buf)) = W" by simp
  with W have ne: "take W (drop p buf) \<noteq> []" by auto
  have "last (take W (drop p buf)) = buf ! (p + (W - 1))"
    using W l by (simp add: last_conv_nth [OF ne])
  moreover have "\<forall>b \<in> set (butlast (take W (drop p buf))). bit b 7"
    using W assms by (auto simp: in_set_conv_nth nth_butlast one_varint_def)
  ultimately show ?thesis using assms ne unfolding varint_bytes_def one_varint_def by metis
qed

lemma one_varint_read:
  assumes "one_varint buf p W" and "W \<le> 10" and "W = 10 \<Longrightarrow> buf ! (p + 9) \<le> 1"
  shows "read_varint buf p = Inr (p + W, varint_value (take W (drop p buf)))"
proof -
  from assms have W: "0 < W" "p + W \<le> length buf" by (auto simp: one_varint_def)
  then have l: "length (take W (drop p buf)) = W" by simp
  have "last (take W (drop p buf)) = buf ! (p + (W - 1))"
    using W l by (subst last_conv_nth) auto
  with assms l have "wf_varint (take W (drop p buf))"
    by (auto simp: wf_varint_def one_varint_bytes)
  from read_varint_accepts [OF this, of p buf] l show ?thesis by simp
qed

lemma word_varint_value:
  assumes "word_at buf p W w" and m: "\<And>n. n < 64 \<Longrightarrow> n mod 8 \<noteq> 7 \<Longrightarrow> bit m n \<longleftrightarrow> n < 8 * W"
  shows "compact7 (w AND m AND kLow7) = varint_value (take W (drop p buf))"
proof (rule bit_word_eqI)
  fix n :: nat assume "n < LENGTH(64)"
  then have n: "n < 64" by simp
  define a where "a = n div 7"
  define r where "r = n mod 7"
  have lt: "r < 7" by (simp add: r_def)
  have na: "n = 7 * a + r" by (simp add: a_def r_def)
  from assms(1) have W: "W \<le> 8" "p + W \<le> length buf"
    and w: "\<And>n. n < 8 * W \<Longrightarrow> bit w n \<longleftrightarrow> bit (buf ! (p + n div 8)) (n mod 8)"
    by (auto simp: word_at_def)
  have k: "(8 * a + r) div 8 = a" "(8 * a + r) mod 8 = r" using lt by auto
  have kW: "8 * a + r < 8 * W \<longleftrightarrow> a < W" using lt by linarith
  show "bit (compact7 (w AND m AND kLow7)) n \<longleftrightarrow> bit (varint_value (take W (drop p buf))) n"
  proof (cases "n < 56")
    case True
    then have "8 * a + r < 64" using na lt by linarith
    with True n k lt have "bit (compact7 (w AND m AND kLow7)) n \<longleftrightarrow>
        bit w (8 * a + r) \<and> 8 * a + r < 8 * W"
      unfolding bit_compact7 a_def [symmetric] r_def [symmetric]
      by (simp add: bit_and_iff bit_kLow7 m)
    with w [of "8 * a + r"] k kW n W show ?thesis
      unfolding bit_varint_value a_def [symmetric] r_def [symmetric] by auto
  next
    case False
    then have "\<not> a < W" using W na lt by linarith
    with False show ?thesis unfolding bit_compact7 bit_varint_value a_def [symmetric] by simp
  qed
qed

lemma word_varint_read:
  assumes "word_at buf p W w" and "one_varint buf p W"
    and "\<And>n. n < 64 \<Longrightarrow> n mod 8 \<noteq> 7 \<Longrightarrow> bit m n \<longleftrightarrow> n < 8 * W"
  shows "read_varint buf p = Inr (p + W, compact7 (w AND m AND kLow7))"
proof -
  have "W \<le> 8" using assms(1) by (simp add: word_at_def)
  then have "read_varint buf p = Inr (p + W, varint_value (take W (drop p buf)))"
    by (intro one_varint_read assms(2)) auto
  moreover have "compact7 (w AND m AND kLow7) = varint_value (take W (drop p buf))"
    using assms(1,3) by (rule word_varint_value)
  ultimately show ?thesis by simp
qed

lemma load64_Some: "p + 8 \<le> length buf \<Longrightarrow> \<exists>w. load64 buf p = Some w"
  by (simp add: load64_def)

lemma stopmask64_loop_bits:
  assumes "p + 64 \<le> length buf" and "\<forall>j \<in> set js. j < 8"
  shows "\<exists>r. stopmask64_loop buf p js m = Some r \<and>
     (\<forall>i. bit r i \<longleftrightarrow> bit m i \<or> i < 64 \<and> i div 8 \<in> set js \<and> \<not> bit (buf ! (p + i)) 7)"
  using assms
proof (induction js arbitrary: m)
  case Nil
  then show ?case by simp
next
  case (Cons j js)
  then have j: "j < 8" by simp
  then obtain w where w: "load64 buf (p + 8 * j) = Some w"
    using load64_Some [of "p + 8 * j" buf] Cons.prems by auto
  let ?m = "m OR push_bit (8 * j) (bytemask8 (NOT w))"
  have b: "bit ?m i \<longleftrightarrow> bit m i \<or> i < 64 \<and> i div 8 = j \<and> \<not> bit (buf ! (p + i)) 7" for i
  proof (cases "i div 8 = j \<and> i < 64")
    case True
    define k where "k = i mod 8"
    have k: "i = 8 * j + k" "k < 8" using True by (auto simp: k_def)
    then have e: "(8 * k + 7) div 8 = k" "(8 * k + 7) mod 8 = 7" "8 * k + 7 < 64" by auto
    have "bit (push_bit (8 * j) (bytemask8 (NOT w))) i \<longleftrightarrow> \<not> bit (buf ! (p + i)) 7"
      using k e True by (simp add: bit_push_bit_iff bit_bytemask8 bit_not_iff bit_load64 [OF w] add.assoc)
    with True show ?thesis by (simp add: bit_or_iff)
  next
    case False
    then have "\<not> bit (push_bit (8 * j) (bytemask8 (NOT w))) i"
      by (auto simp: bit_push_bit_iff bit_bytemask8)
    with False show ?thesis by (auto simp: bit_or_iff)
  qed
  from Cons.IH [of ?m] Cons.prems obtain r where "stopmask64_loop buf p js ?m = Some r"
    "\<forall>i. bit r i \<longleftrightarrow> bit ?m i \<or> i < 64 \<and> i div 8 \<in> set js \<and> \<not> bit (buf ! (p + i)) 7" by auto
  with w show ?case by (auto simp: b)
qed

lemma stopmask64_bits:
  assumes "p + 64 \<le> length buf"
  obtains m where "stopmask64 buf p = Some m"
    and "\<And>i. bit m i \<longleftrightarrow> i < 64 \<and> \<not> bit (buf ! (p + i)) 7"
proof -
  have "\<forall>j \<in> set [0..<8]. j < 8" by (simp only: set_upt) simp
  from stopmask64_loop_bits [OF assms this, of 0] obtain m where
      "stopmask64_loop buf p [0..<8] 0 = Some m"
    and m: "\<forall>i. bit m i \<longleftrightarrow> bit (0 :: u64) i \<or> i < 64 \<and> i div 8 \<in> set [0..<8] \<and> \<not> bit (buf ! (p + i)) 7"
    by blast
  have "i div 8 \<in> set [0..<8]" if "i < 64" for i
    using that by (simp only: set_upt atLeastLessThan_iff) auto
  with m have "bit m i \<longleftrightarrow> i < 64 \<and> \<not> bit (buf ! (p + i)) 7" for i by auto
  moreover have "stopmask64 buf p = Some m"
    using \<open>stopmask64_loop buf p [0..<8] 0 = Some m\<close> by (simp only: stopmask64_def)
  ultimately show ?thesis using that by blast
qed

lemma read_varint_packed_eq:
  assumes "p + 8 \<le> length buf"
  shows "read_varint_packed buf p = Some (read_varint buf p)"
proof -
  from assms obtain w where w: "load64 buf p = Some w" using load64_Some by blast
  from assms have p: "p < length buf" by simp
  let ?stop = "NOT w AND kMSB"
  have stop: "bit ?stop n \<longleftrightarrow> n < 64 \<and> n mod 8 = 7 \<and> \<not> bit (buf ! (p + n div 8)) 7" for n
    by (auto simp: bit_and_iff bit_not_iff bit_kMSB bit_load64 [OF w])
  show ?thesis
  proof (cases "bit (buf ! p) 7")
    case False
    with p show ?thesis
      by (simp add: read_varint_packed_def read_varint_def u8_less_0x80 u8_continuation)
  next
    case True
    show ?thesis
    proof (cases "?stop = 0")
      case z: True
      with True p w show ?thesis by (simp add: read_varint_packed_def u8_less_0x80 Let_def)
    next
      case False
      then obtain k where k: "bit ?stop k" "\<forall>j < k. \<not> bit ?stop j" by (rule lowest_bit)
      define i where "i = k div 8"
      have ki: "k = 8 * i + 7" "i < 8" "\<not> bit (buf ! (p + i)) 7"
        using k(1) div_mult_mod_eq [of k 8] by (auto simp: stop i_def)
      have "bit (buf ! (p + j)) 7" if "j < i" for j
        using k(2) [rule_format, of "8 * j + 7"] that ki(1,2) by (simp add: stop)
      with ki assms have o: "one_varint buf p (i + 1)" by (auto simp: one_varint_def)
      have "word_at buf p (i + 1) w" using ki by (intro word_at_load64 [OF w]) simp
      then have "read_varint buf p =
          Inr (p + (i + 1), compact7 (w AND (?stop XOR (?stop - 1)) AND kLow7))"
        using o by (rule word_varint_read) (auto simp: bit_xor_minus_one [OF k] ki(1))
      moreover have "ctz64 ?stop = Some k" by (rule ctz64_eq [OF k])
      ultimately show ?thesis using True False p w
        by (simp add: read_varint_packed_def u8_less_0x80 Let_def i_def)
    qed
  qed
qed

end
