(* ===== verification/Packed.thy ===== *)
theory Packed
  imports Swar
begin

unbundle bit_operations_syntax

text \<open>
  The packed-varint decoder of \<^verbatim>\<open>include/rapidproto/runtime.hpp\<close>: the array sink, the kernels
  (bulk one-byte, bulk two-byte, fixed stride, structural, word-at-a-time), the loop that classifies
  and re-classifies the span, and the validating scalar tail; also the two arena entry points of
  \<^verbatim>\<open>include/rapidproto/arena_runtime.hpp\<close>. The contract of a kernel is the locale
  \<open>packed_kernel\<close>, interpreted on each of them: a kernel decodes a prefix of what the scalar reader
  decodes, stores it, and leaves the cursor where the scalar reader stands.

  The output array is a list of the elements allocated by the caller; a store outside of it, and a
  load outside of the span, is \<^verbatim>\<open>None\<close>.
\<close>

section \<open>The sink\<close>

definition put :: "(u64 \<Rightarrow> 'e) \<Rightarrow> 'e list \<Rightarrow> nat \<Rightarrow> u64 \<Rightarrow> 'e list option" where
  "put conv out i raw = (if i < length out then Some (out[i := conv raw]) else None)"

definition put2 :: "(u64 \<Rightarrow> 'e) \<Rightarrow> 'e list \<Rightarrow> nat \<Rightarrow> u64 \<Rightarrow> u64 \<Rightarrow> 'e list option" where
  "put2 conv out i r0 r1 = do { out1 \<leftarrow> put conv out i r0; put conv out1 (i + 1) r1 }"

section \<open>Kernels\<close>

text \<open>A kernel takes and returns the cursor, the element count and the output array.\<close>

type_synonym 'e cells = "nat \<times> nat \<times> 'e list"

fun bulk1_any :: "u8 list \<Rightarrow> nat \<Rightarrow> nat list \<Rightarrow> u64 \<Rightarrow> u64 option" where
  "bulk1_any buf q [] acc = Some acc"
| "bulk1_any buf q (j # js) acc =
     do { w \<leftarrow> load64 buf (q + 8 * j); bulk1_any buf q js (acc OR (w AND kMSB)) }"

fun bulk1_puts :: "u8 list \<Rightarrow> (u64 \<Rightarrow> 'e) \<Rightarrow> nat \<Rightarrow> nat \<Rightarrow> nat list \<Rightarrow> 'e list \<Rightarrow> 'e list option" where
  "bulk1_puts buf conv q n [] out = Some out"
| "bulk1_puts buf conv q n (i # is) out =
     (if q + i < length buf then
        do { out' \<leftarrow> put conv out (n + i) (ucast (buf ! (q + i))); bulk1_puts buf conv q n is out' }
      else None)"

function bulk1 :: "u8 list \<Rightarrow> (u64 \<Rightarrow> 'e) \<Rightarrow> nat \<Rightarrow> nat \<Rightarrow> 'e list \<Rightarrow> 'e cells option" where
  "bulk1 buf conv q n out =
     (if length buf - q \<ge> 64 then
        do {
          any \<leftarrow> bulk1_any buf q [0..<8] 0;
          if any = 0 then
            do {
              out' \<leftarrow> bulk1_puts buf conv q n [0..<64] out;
              bulk1 buf conv (q + 64) (n + 64) out'
            }
          else Some (q, n, out)
        }
      else Some (q, n, out))"
  by pat_completeness auto
termination
  by (relation "measure (\<lambda>(buf, _, q, _). length buf - q)") auto

function bulk2 :: "u8 list \<Rightarrow> (u64 \<Rightarrow> 'e) \<Rightarrow> nat \<Rightarrow> nat \<Rightarrow> 'e list \<Rightarrow> 'e cells option" where
  "bulk2 buf conv q n out =
     (if length buf - q \<ge> 8 then
        do {
          w \<leftarrow> load64 buf q;
          if w AND kMSB = 0x0080008000800080 then
            do {
              let x = w AND kLow7;
              let y = (x AND 0x007F007F007F007F) OR drop_bit 1 (x AND 0x7F007F007F007F00);
              out1 \<leftarrow> put conv out n (ucast (ucast y :: u16));
              out2 \<leftarrow> put conv out1 (n + 1) (ucast (ucast (drop_bit 16 y) :: u16));
              out3 \<leftarrow> put conv out2 (n + 2) (ucast (ucast (drop_bit 32 y) :: u16));
              out4 \<leftarrow> put conv out3 (n + 3) (ucast (ucast (drop_bit 48 y) :: u16));
              bulk2 buf conv (q + 8) (n + 4) out4
            }
          else Some (q, n, out)
        }
      else Some (q, n, out))"
  by pat_completeness auto
termination
  by (relation "measure (\<lambda>(buf, _, q, _). length buf - q)") auto

text \<open>
  The compile-time constants of \<open>fixed_fill\<close>. The width \<open>W\<close> is a template argument; outside of the
  range its \<^verbatim>\<open>static_assert\<close>s admit there is no code, and the loops below answer \<^verbatim>\<open>None\<close>.
\<close>

definition kLenMask :: "nat \<Rightarrow> u64" where "kLenMask W = low_byte_mask W"
definition kMsbW :: "nat \<Rightarrow> u64" where "kMsbW W = kMSB AND kLenMask W"
definition kOneVarint :: "nat \<Rightarrow> u64" where
  "kOneVarint W = kMsbW W XOR push_bit (8 * (W - 1)) 0x80"
definition kMsb2 :: "nat \<Rightarrow> u64" where "kMsb2 W = kMsbW W OR push_bit (8 * W) (kMsbW W)"
definition kTwoVarints :: "nat \<Rightarrow> u64" where
  "kTwoVarints W = kOneVarint W OR push_bit (8 * W) (kOneVarint W)"

function fixed_fill_narrow ::
    "nat \<Rightarrow> u8 list \<Rightarrow> (u64 \<Rightarrow> 'e) \<Rightarrow> nat \<Rightarrow> nat \<Rightarrow> 'e list \<Rightarrow> 'e cells option" where
  "fixed_fill_narrow W buf conv q n out =
     (if \<not> (1 \<le> W \<and> W \<le> 4) then None
      else if length buf - q \<ge> 8 then
        do {
          w \<leftarrow> load64 buf q;
          if w AND kMsb2 W = kTwoVarints W then
            do {
              out' \<leftarrow> put2 conv out n (compact7 (w AND kLenMask W AND kLow7))
                        (compact7 (drop_bit (8 * W) w AND kLenMask W AND kLow7));
              fixed_fill_narrow W buf conv (q + 2 * W) (n + 2) out'
            }
          else if w AND kMsbW W = kOneVarint W then
            do {
              out' \<leftarrow> put conv out n (compact7 (w AND kLenMask W AND kLow7));
              fixed_fill_narrow W buf conv (q + W) (n + 1) out'
            }
          else Some (q, n, out)
        }
      else Some (q, n, out))"
  by pat_completeness auto
termination
  by (relation "measure (\<lambda>(W, buf, _, q, _). length buf - q)") auto

function fixed_fill_word ::
    "nat \<Rightarrow> u8 list \<Rightarrow> (u64 \<Rightarrow> 'e) \<Rightarrow> nat \<Rightarrow> nat \<Rightarrow> 'e list \<Rightarrow> 'e cells option" where
  "fixed_fill_word W buf conv q n out =
     (if \<not> (1 \<le> W \<and> W \<le> 8) then None
      else if length buf - q \<ge> 8 then
        do {
          w \<leftarrow> load64 buf q;
          if w AND kMsbW W \<noteq> kOneVarint W then Some (q, n, out)
          else do {
            out' \<leftarrow> put conv out n (compact7 (w AND kLenMask W AND kLow7));
            fixed_fill_word W buf conv (q + W) (n + 1) out'
          }
        }
      else Some (q, n, out))"
  by pat_completeness auto
termination
  by (relation "measure (\<lambda>(W, buf, _, q, _). length buf - q)") auto

definition fixed_fill ::
    "nat \<Rightarrow> u8 list \<Rightarrow> (u64 \<Rightarrow> 'e) \<Rightarrow> nat \<Rightarrow> nat \<Rightarrow> 'e list \<Rightarrow> 'e cells option" where
  "fixed_fill W = (if W \<le> 4 then fixed_fill_narrow W else fixed_fill_word W)"

function fixed_fill_wide ::
    "nat \<Rightarrow> u8 list \<Rightarrow> (u64 \<Rightarrow> 'e) \<Rightarrow> nat \<Rightarrow> nat \<Rightarrow> 'e list \<Rightarrow> 'e cells option" where
  "fixed_fill_wide W buf conv q n out =
     (if \<not> (W = 9 \<or> W = 10) then None
      else if length buf - q \<ge> W then
        do {
          w0 \<leftarrow> load64 buf q;
          if w0 AND kMSB \<noteq> kMSB then Some (q, n, out)
          else do {
            let value = compact7 (w0 AND kLow7);
            let b8 = buf ! (q + 8);
            if W = 9 then
              (if b8 AND 0x80 \<noteq> 0 then Some (q, n, out)
               else do {
                 out' \<leftarrow> put conv out n (value OR push_bit 56 (ucast (b8 AND 0x7F)));
                 fixed_fill_wide W buf conv (q + W) (n + 1) out'
               })
            else do {
              let b9 = buf ! (q + 9);
              if b8 AND 0x80 = 0 \<or> b9 AND 0x80 \<noteq> 0 then Some (q, n, out)
              else if b9 > 1 then Some (q, n, out)
              else do {
                out' \<leftarrow> put conv out n
                  (value OR push_bit 56 (ucast (b8 AND 0x7F)) OR push_bit 63 (ucast b9));
                fixed_fill_wide W buf conv (q + W) (n + 1) out'
              }
            }
          }
        }
      else Some (q, n, out))"
  by pat_completeness auto
termination
  by (relation "measure (\<lambda>(W, buf, _, q, _). length buf - q)") auto

text \<open>
  The structural kernel. \<open>struct_block\<close> is the \<^verbatim>\<open>do ... while (t != 0)\<close> over the terminators of one
  64-byte block; \<open>start\<close> is relative to the block.
\<close>

type_synonym fail = "WireError \<times> nat"

definition struct_elem ::
    "u8 list \<Rightarrow> (u64 \<Rightarrow> 'e) \<Rightarrow> nat \<Rightarrow> int \<Rightarrow> nat \<Rightarrow> 'e list \<Rightarrow> (fail + nat \<times> 'e list) option" where
  "struct_elem buf conv p len n out =
     (if len \<le> 8 then
        do {
          let lenmask = (if len \<ge> 8 then NOT 0 else push_bit (8 * nat len) 1 - 1);
          w \<leftarrow> load64 buf p;
          out' \<leftarrow> put conv out n (compact7 (w AND lenmask AND kLow7));
          Some (Inr (n + 1, out'))
        }
      else
        do {
          v \<leftarrow> read_varint_packed buf p;
          case v of
            Inl e \<Rightarrow> Some (Inl (e, p))
          | Inr (_, raw) \<Rightarrow> do { out' \<leftarrow> put conv out n raw; Some (Inr (n + 1, out')) }
        })"

function struct_block ::
    "u8 list \<Rightarrow> (u64 \<Rightarrow> 'e) \<Rightarrow> nat \<Rightarrow> u64 \<Rightarrow> nat \<Rightarrow> nat \<Rightarrow> 'e list \<Rightarrow> (fail + 'e cells) option" where
  "struct_block buf conv q t start n out =
     do {
       b \<leftarrow> ctz64 t;
       let t' = t AND (t - 1);
       r \<leftarrow> struct_elem buf conv (q + start) (int b - int start + 1) n out;
       case r of
         Inl e \<Rightarrow> Some (Inl e)
       | Inr (n', out') \<Rightarrow>
           (if t' \<noteq> 0 then struct_block buf conv q t' (b + 1) n' out'
            else Some (Inr (b + 1, n', out')))
     }"
  by pat_completeness auto
termination
proof (relation "measure (\<lambda>(_, _, _, t, _). unat t)", goal_cases)
  case 1
  then show ?case by simp
next
  case (2 buf conv q t start n out b t')
  then have "t \<noteq> 0" "t' = t AND (t - 1)" by auto
  then have "unat (t - 1) < unat t" by (simp add: unat_minus_one unat_gt_0)
  moreover have "unat t' \<le> unat (t - 1)"
    using word_and_le1 [of t "t - 1"] \<open>t' = _\<close> by (simp add: word_le_nat_alt)
  ultimately show ?case by simp
qed

declare bulk1.simps [simp del] bulk2.simps [simp del] fixed_fill_narrow.simps [simp del]
  fixed_fill_word.simps [simp del] fixed_fill_wide.simps [simp del] struct_block.simps [simp del]

lemma struct_block_advances: "struct_block buf conv q t start n out = Some (Inr (s, n', out')) \<Longrightarrow> 0 < s"
proof (induction buf conv q t start n out rule: struct_block.induct)
  case (1 buf conv q t start n out)
  show ?case using 1(2)
    by (subst (asm) struct_block.simps)
      (auto simp: Let_def split: option.splits if_splits sum.splits prod.splits bind_splits dest!: 1(1))
qed

function struct_loop ::
    "u8 list \<Rightarrow> (u64 \<Rightarrow> 'e) \<Rightarrow> nat \<Rightarrow> nat \<Rightarrow> 'e list \<Rightarrow> (fail + 'e cells) option" where
  "struct_loop buf conv q n out =
     (if length buf - q \<ge> 72 then
        do {
          t \<leftarrow> stopmask64 buf q;
          if t = 0 then Some (Inr (q, n, out))
          else do {
            r \<leftarrow> struct_block buf conv q t 0 n out;
            case r of
              Inl e \<Rightarrow> Some (Inl e)
            | Inr (start, n', out') \<Rightarrow> struct_loop buf conv (q + start) n' out'
          }
        }
      else Some (Inr (q, n, out)))"
  by pat_completeness auto
termination
  by (relation "measure (\<lambda>(buf, _, q, _). length buf - q)") (auto dest: struct_block_advances)

lemma read_varint_packed_advances:
  "8 \<le> length buf - q \<Longrightarrow> read_varint_packed buf q = Some (Inr (np, v)) \<Longrightarrow> q < np \<and> np \<le> length buf"
  by (subst (asm) read_varint_packed_eq) (auto dest: read_varint_bounds)

function swar_loop ::
    "u8 list \<Rightarrow> (u64 \<Rightarrow> 'e) \<Rightarrow> nat \<Rightarrow> nat \<Rightarrow> 'e list \<Rightarrow> (fail + 'e cells) option" where
  "swar_loop buf conv q n out =
     (if length buf - q \<ge> 8 then
        do {
          v \<leftarrow> read_varint_packed buf q;
          case v of
            Inl e \<Rightarrow> Some (Inl (e, q))
          | Inr (np, raw) \<Rightarrow> do { out' \<leftarrow> put conv out n raw; swar_loop buf conv np (n + 1) out' }
        }
      else Some (Inr (q, n, out)))"
  by pat_completeness auto
termination
  by (relation "measure (\<lambda>(buf, _, q, _). length buf - q)") (auto dest: read_varint_packed_advances)

section \<open>The span decoder\<close>

definition run_kernel ::
    "PackedKernel \<Rightarrow> int \<Rightarrow> u8 list \<Rightarrow> (u64 \<Rightarrow> 'e) \<Rightarrow> nat \<Rightarrow> nat \<Rightarrow> 'e list \<Rightarrow> (fail + 'e cells) option" where
  "run_kernel kern width buf conv q n out =
     (case kern of
        Bulk1 \<Rightarrow> map_option Inr (bulk1 buf conv q n out)
      | Bulk2 \<Rightarrow> map_option Inr (bulk2 buf conv q n out)
      | Fixed \<Rightarrow> map_option Inr
          (if width = 3 then fixed_fill 3 buf conv q n out
           else if width = 4 then fixed_fill 4 buf conv q n out
           else if width = 5 then fixed_fill 5 buf conv q n out
           else if width = 6 then fixed_fill 6 buf conv q n out
           else if width = 7 then fixed_fill 7 buf conv q n out
           else if width = 8 then fixed_fill 8 buf conv q n out
           else if width = 9 then fixed_fill_wide 9 buf conv q n out
           else fixed_fill_wide 10 buf conv q n out)
      | Struct \<Rightarrow> struct_loop buf conv q n out
      | Swar \<Rightarrow> swar_loop buf conv q n out
      | ByteLoop \<Rightarrow> Some (Inr (q, n, out)))"

function classify_loop ::
    "u8 list \<Rightarrow> (u64 \<Rightarrow> 'e) \<Rightarrow> nat \<Rightarrow> nat \<Rightarrow> 'e list \<Rightarrow> (fail + 'e cells) option" where
  "classify_loop buf conv q_start n out =
     do {
       (kern, width) \<leftarrow> packed_strategy buf q_start (length buf - q_start);
       r \<leftarrow> run_kernel kern width buf conv q_start n out;
       case r of
         Inl e \<Rightarrow> Some (Inl e)
       | Inr (q, n', out') \<Rightarrow>
           (if length buf - q < 512 then Some (Inr (q, n', out'))
            else if q - q_start < 4096 then Some (Inr (q, n', out'))
            else classify_loop buf conv q n' out')
     }"
  by pat_completeness auto
termination
  by (relation "measure (\<lambda>(buf, _, q, _). length buf - q)") auto

function scalar_tail ::
    "u8 list \<Rightarrow> (u64 \<Rightarrow> 'e) \<Rightarrow> nat \<Rightarrow> nat \<Rightarrow> 'e list \<Rightarrow> (fail + nat \<times> 'e list) option" where
  "scalar_tail buf conv q n out =
     (if q < length buf then
        (case read_varint buf q of
           Inl e \<Rightarrow> Some (Inl (e, q))
         | Inr (np, raw) \<Rightarrow> do { out' \<leftarrow> put conv out n raw; scalar_tail buf conv np (n + 1) out' })
      else Some (Inr (n, out)))"
  by pat_completeness auto
termination
  by (relation "measure (\<lambda>(buf, _, q, _). length buf - q)") (auto dest: read_varint_bounds)

declare struct_loop.simps [simp del] swar_loop.simps [simp del] classify_loop.simps [simp del]
  scalar_tail.simps [simp del]

text \<open>The result is the element count and the filled array, or the error and its offset.\<close>

definition decode_packed_varints ::
    "u8 list \<Rightarrow> nat \<Rightarrow> (u64 \<Rightarrow> 'e) \<Rightarrow> 'e list \<Rightarrow> (fail + nat \<times> 'e list) option" where
  "decode_packed_varints buf p conv out =
     do {
       r \<leftarrow> (if length buf - p \<ge> kPackedKernelMinSpan then classify_loop buf conv p 0 out
            else Some (Inr (p, 0, out)));
       case r of
         Inl e \<Rightarrow> Some (Inl e)
       | Inr (q, n, out') \<Rightarrow> scalar_tail buf conv q n out'
     }"

section \<open>The reference: reading varint after varint\<close>

function decode_varints :: "u8 list \<Rightarrow> nat \<Rightarrow> fail + u64 list" where
  "decode_varints buf q =
     (if q < length buf then
        (case read_varint buf q of
           Inl e \<Rightarrow> Inl (e, q)
         | Inr (np, v) \<Rightarrow> (case decode_varints buf np of Inl f \<Rightarrow> Inl f | Inr vs \<Rightarrow> Inr (v # vs)))
      else Inr [])"
  by pat_completeness auto
termination
  by (relation "measure (\<lambda>(buf, q). length buf - q)") (auto dest: read_varint_bounds)

declare decode_varints.simps [simp del]

inductive varint_run :: "u8 list \<Rightarrow> nat \<Rightarrow> u64 list \<Rightarrow> nat \<Rightarrow> bool" for buf where
  run_Nil: "varint_run buf q [] q"
| run_Cons: "read_varint buf q = Inr (q1, v) \<Longrightarrow> varint_run buf q1 vs q2 \<Longrightarrow> varint_run buf q (v # vs) q2"

lemma varint_run_append:
  "varint_run buf q vs q1 \<Longrightarrow> varint_run buf q1 ws q2 \<Longrightarrow> varint_run buf q (vs @ ws) q2"
  by (induction rule: varint_run.induct) (auto intro: varint_run.intros)

lemma varint_run_one: "read_varint buf q = Inr (q1, v) \<Longrightarrow> varint_run buf q [v] q1"
  by (auto intro: varint_run.intros)

lemma varint_run_bounds:
  "varint_run buf q vs q' \<Longrightarrow> q \<le> length buf \<Longrightarrow> q + length vs \<le> q' \<and> q' \<le> length buf"
  by (induction rule: varint_run.induct) (auto dest!: read_varint_bounds)

lemma decode_varints_run:
  "varint_run buf q vs q' \<Longrightarrow>
     decode_varints buf q = (case decode_varints buf q' of Inl f \<Rightarrow> Inl f | Inr ws \<Rightarrow> Inr (vs @ ws))"
proof (induction rule: varint_run.induct)
  case (run_Nil q)
  then show ?case by (simp split: sum.split)
next
  case (run_Cons q q1 v vs q2)
  from read_varint_bounds [OF run_Cons.hyps(1)] have "q < length buf" by auto
  with run_Cons show ?case by (subst decode_varints.simps) (simp split: sum.split)
qed

text \<open>
  The array after a run: the elements \<open>ds\<close> stored before, the converted values of the run, then what
  the caller allocated beyond them.
\<close>

definition stored :: "(u64 \<Rightarrow> 'e) \<Rightarrow> 'e list \<Rightarrow> 'e list \<Rightarrow> u64 list \<Rightarrow> nat \<times> 'e list" where
  "stored conv ds rs vs = (length ds + length vs, ds @ map conv vs @ drop (length vs) rs)"

lemma put_next: "rs \<noteq> [] \<Longrightarrow> put conv (ds @ rs) (length ds) v = Some ((ds @ [conv v]) @ tl rs)"
  by (cases rs) (auto simp: put_def)

lemma scalar_tail_eq:
  "length buf - q \<le> length rs \<Longrightarrow>
   scalar_tail buf conv q (length ds) (ds @ rs) =
     Some (case decode_varints buf q of Inl f \<Rightarrow> Inl f | Inr vs \<Rightarrow> Inr (stored conv ds rs vs))"
proof (induction buf q arbitrary: ds rs rule: decode_varints.induct)
  case (1 buf q)
  show ?case
  proof (cases "q < length buf")
    case False
    then show ?thesis
      by (simp add: scalar_tail.simps [of buf conv q] decode_varints.simps [of buf q] stored_def)
  next
    case True
    show ?thesis
    proof (cases "read_varint buf q")
      case (Inl e)
      with True show ?thesis
        by (simp add: scalar_tail.simps [of buf conv q] decode_varints.simps [of buf q])
    next
      case (Inr r)
      then obtain np v where r: "read_varint buf q = Inr (np, v)" by (cases r) auto
      from read_varint_bounds [OF r] True 1(2) have rs: "rs \<noteq> []" "length buf - np \<le> length (tl rs)"
        by auto
      have "scalar_tail buf conv q (length ds) (ds @ rs) =
          scalar_tail buf conv np (length (ds @ [conv v])) ((ds @ [conv v]) @ tl rs)"
        using True r by (simp add: scalar_tail.simps [of buf conv q] put_next [OF rs(1)])
      also have "\<dots> = Some (case decode_varints buf np of Inl f \<Rightarrow> Inl f
          | Inr vs \<Rightarrow> Inr (stored conv (ds @ [conv v]) (tl rs) vs))"
        using 1(1) [OF True r refl rs(2)] .
      finally show ?thesis using True r rs(1)
        by (cases rs) (simp_all add: decode_varints.simps [of buf q] stored_def split: sum.split)
    qed
  qed
qed

section \<open>The contract of a kernel\<close>

definition kernel_result ::
    "u8 list \<Rightarrow> (u64 \<Rightarrow> 'e) \<Rightarrow> nat \<Rightarrow> 'e list \<Rightarrow> 'e list \<Rightarrow> (fail + 'e cells) option \<Rightarrow> bool" where
  "kernel_result buf conv q ds rs r \<longleftrightarrow>
     (\<exists>vs q'. varint_run buf q vs q' \<and>
        (r = Some (Inr (q', stored conv ds rs vs)) \<or>
         (\<exists>e. q' < length buf \<and> read_varint buf q' = Inl e \<and> r = Some (Inl (e, q')))))"

lemma kernel_result_stop: "kernel_result buf conv q ds rs (Some (Inr (q, length ds, ds @ rs)))"
  unfolding kernel_result_def stored_def
  by (rule exI [of _ "[]"], rule exI [of _ q]) (simp add: run_Nil)

lemma kernel_result_fail:
  "q < length buf \<Longrightarrow> read_varint buf q = Inl e \<Longrightarrow> kernel_result buf conv q ds rs (Some (Inl (e, q)))"
  unfolding kernel_result_def by (blast intro: run_Nil)

lemma kernel_result_step:
  assumes "varint_run buf q vs q1" and "length vs \<le> length rs"
    and "kernel_result buf conv q1 (ds @ map conv vs) (drop (length vs) rs) r"
  shows "kernel_result buf conv q ds rs r"
proof -
  have "stored conv (ds @ map conv vs) (drop (length vs) rs) ws = stored conv ds rs (vs @ ws)" for ws
    by (simp add: stored_def add.commute)
  with assms show ?thesis
    unfolding kernel_result_def by (metis varint_run_append)
qed

locale packed_kernel =
  fixes buf :: "u8 list" and conv :: "u64 \<Rightarrow> 'e"
    and kernel :: "nat \<Rightarrow> nat \<Rightarrow> 'e list \<Rightarrow> (fail + 'e cells) option"
  assumes kernel_ok: "q \<le> length buf \<Longrightarrow> length buf - q \<le> length rs \<Longrightarrow>
    kernel_result buf conv q ds rs (kernel q (length ds) (ds @ rs))"
begin

text \<open>Running the kernel first and the scalar loop afterwards is running the scalar loop.\<close>

lemma kernel_then_tail:
  assumes "q \<le> length buf" and "length buf - q \<le> length rs"
  shows "Option.bind (kernel q (length ds) (ds @ rs)) (\<lambda>r. case r of Inl e \<Rightarrow> Some (Inl e)
           | Inr (q', n, out) \<Rightarrow> scalar_tail buf conv q' n out) =
         scalar_tail buf conv q (length ds) (ds @ rs)"
proof -
  from kernel_ok [OF assms, of ds] obtain vs q' where run: "varint_run buf q vs q'" and
    "kernel q (length ds) (ds @ rs) = Some (Inr (q', stored conv ds rs vs)) \<or>
     (\<exists>e. q' < length buf \<and> read_varint buf q' = Inl e \<and> kernel q (length ds) (ds @ rs) = Some (Inl (e, q')))"
    by (auto simp: kernel_result_def)
  note b = varint_run_bounds [OF run assms(1)]
  note d = decode_varints_run [OF run]
  from b assms have l: "length buf - q' \<le> length (drop (length vs) rs)" by auto
  from \<open>_ \<or> _\<close> show ?thesis
  proof
    assume "kernel q (length ds) (ds @ rs) = Some (Inr (q', stored conv ds rs vs))"
    then show ?thesis
      using scalar_tail_eq [OF l, of conv "ds @ map conv vs"] scalar_tail_eq [OF assms(2), of conv ds] d
      by (simp add: stored_def add.commute split: sum.splits)
  next
    assume "\<exists>e. q' < length buf \<and> read_varint buf q' = Inl e \<and>
      kernel q (length ds) (ds @ rs) = Some (Inl (e, q'))"
    with scalar_tail_eq [OF assms(2), of conv ds] d show ?thesis
      by (auto simp: decode_varints.simps [of buf q'])
  qed
qed

end

section \<open>Every kernel meets the contract\<close>

lemma load64_avail: "8 \<le> length buf - q \<Longrightarrow> \<exists>w. load64 buf q = Some w"
  by (rule load64_Some) simp

lemma kernel_result_put:
  assumes "read_varint buf q = Inr (q1, v)" and "length buf - q \<le> length rs"
  shows "rs \<noteq> []" and "length buf - q1 \<le> length (tl rs)" and "q1 \<le> length buf"
    and "kernel_result buf conv q1 (ds @ [conv v]) (tl rs) r \<Longrightarrow> kernel_result buf conv q ds rs r"
proof -
  from read_varint_bounds [OF assms(1)] assms(2)
  show rs: "rs \<noteq> []" and "length buf - q1 \<le> length (tl rs)" and "q1 \<le> length buf" by auto
  assume "kernel_result buf conv q1 (ds @ [conv v]) (tl rs) r"
  with rs show "kernel_result buf conv q ds rs r"
    by (intro kernel_result_step [OF varint_run_one [OF assms(1)]]) (auto simp: Suc_le_eq drop_Suc)
qed

lemma swar_loop_ok:
  "q \<le> length buf \<Longrightarrow> length buf - q \<le> length rs \<Longrightarrow>
     kernel_result buf conv q ds rs (swar_loop buf conv q (length ds) (ds @ rs))"
proof (induction "length buf - q" arbitrary: q ds rs rule: less_induct)
  case less
  show ?case
  proof (cases "length buf - q \<ge> 8")
    case False
    then show ?thesis by (simp add: swar_loop.simps [of buf conv q] kernel_result_stop)
  next
    case True
    then have q: "q < length buf" and pk: "read_varint_packed buf q = Some (read_varint buf q)"
      using less.prems by (auto intro!: read_varint_packed_eq)
    show ?thesis
    proof (cases "read_varint buf q")
      case (Inl e)
      with True q pk show ?thesis by (simp add: swar_loop.simps [of buf conv q] kernel_result_fail)
    next
      case (Inr r)
      then obtain np v where r: "read_varint buf q = Inr (np, v)" by (cases r) auto
      note k = kernel_result_put [OF r less.prems(2)]
      have "kernel_result buf conv np (ds @ [conv v]) (tl rs)
          (swar_loop buf conv np (length (ds @ [conv v])) ((ds @ [conv v]) @ tl rs))"
        using k(2,3) read_varint_bounds [OF r] by (intro less.hyps) auto
      from k(4) [OF this] show ?thesis
        using True pk r by (simp add: swar_loop.simps [of buf conv q] put_next [OF k(1)])
    qed
  qed
qed

text \<open>A fixed width.\<close>

lemma bit_kMsbW: "bit (kMsbW W) n \<longleftrightarrow> n < 64 \<and> n mod 8 = 7 \<and> n < 8 * W"
  by (auto simp: kMsbW_def kLenMask_def bit_and_iff bit_kMSB bit_low_byte_mask)

lemma bit_kOneVarint:
  assumes "1 \<le> W" and "W \<le> 8"
  shows "bit (kOneVarint W) n \<longleftrightarrow> n mod 8 = 7 \<and> n < 8 * (W - 1)"
proof -
  have "bit (push_bit (8 * (W - 1)) 0x80 :: u64) n \<longleftrightarrow> n < 64 \<and> n = 8 * (W - 1) + 7"
    by (auto simp: bit_push_bit_iff bits)
  with assms show ?thesis
    by (auto simp: kOneVarint_def bit_xor_iff bit_kMsbW) presburger+
qed

lemma one_varint_pattern:
  assumes w: "word_at buf q W w" and W: "1 \<le> W" "W \<le> 8"
    and eq: "w AND kMsbW W = kOneVarint W"
  shows "one_varint buf q W"
proof -
  have b: "bit (buf ! (q + i)) 7 \<longleftrightarrow> i < W - 1" if i: "i < W" for i
  proof -
    have "bit (w AND kMsbW W) (8 * i + 7) \<longleftrightarrow> bit (buf ! (q + i)) 7"
      using word_at_msb [OF w i] i W by (auto simp: bit_and_iff bit_kMsbW)
    moreover have "8 * i + 7 < 8 * (W - 1) \<longleftrightarrow> i < W - 1" by presburger
    ultimately show ?thesis using W by (simp add: eq bit_kOneVarint)
  qed
  have "\<not> bit (buf ! (q + (W - 1))) 7" using b [of "W - 1"] W by simp
  with b w W show ?thesis by (auto simp: one_varint_def word_at_def)
qed

lemma fixed_read:
  assumes w: "word_at buf q W w" and W: "1 \<le> W" "W \<le> 8" and "w AND kMsbW W = kOneVarint W"
  shows "read_varint buf q = Inr (q + W, compact7 (w AND kLenMask W AND kLow7))"
  using w one_varint_pattern [OF assms]
  by (rule word_varint_read) (simp add: kLenMask_def bit_low_byte_mask)

lemma two_varints_pattern:
  assumes W: "1 \<le> W" "W \<le> 4" and eq: "w AND kMsb2 W = kTwoVarints W"
  shows "w AND kMsbW W = kOneVarint W" and "drop_bit (8 * W) w AND kMsbW W = kOneVarint W"
proof -
  have e: "bit w n \<and> bit (kMsb2 W) n \<longleftrightarrow> bit (kTwoVarints W) n" for n
    using eq by (metis bit_and_iff)
  have sh: "bit (push_bit (8 * W) x) n \<longleftrightarrow> n < 64 \<and> 8 * W \<le> n \<and> bit x (n - 8 * W)" for x :: u64 and n
    by (auto simp: bit_push_bit_iff)
  have md: "8 * W \<le> n \<Longrightarrow> (n - 8 * W) mod 8 = n mod 8" for n
    by (metis le_add_diff_inverse mod_mult_self2 add.commute)
  show "w AND kMsbW W = kOneVarint W"
  proof (rule bit_word_eqI)
    fix n
    show "bit (w AND kMsbW W) n \<longleftrightarrow> bit (kOneVarint W) n"
      using e [of n] W
      by (auto simp: kMsb2_def kTwoVarints_def bit_or_iff bit_and_iff sh bit_kMsbW bit_kOneVarint)
  qed
  show "drop_bit (8 * W) w AND kMsbW W = kOneVarint W"
  proof (rule bit_word_eqI)
    fix n
    show "bit (drop_bit (8 * W) w AND kMsbW W) n \<longleftrightarrow> bit (kOneVarint W) n"
      using e [of "8 * W + n"] W
      by (auto simp: kMsb2_def kTwoVarints_def bit_or_iff bit_and_iff sh bit_kMsbW bit_kOneVarint
          bit_drop_bit_eq)
  qed
qed

lemma fixed_fill_word_ok:
  assumes W: "1 \<le> W" "W \<le> 8"
  shows "q \<le> length buf \<Longrightarrow> length buf - q \<le> length rs \<Longrightarrow>
     kernel_result buf conv q ds rs (map_option Inr (fixed_fill_word W buf conv q (length ds) (ds @ rs)))"
proof (induction "length buf - q" arbitrary: q ds rs rule: less_induct)
  case less
  note step = fixed_fill_word.simps [of W buf conv q]
  show ?case
  proof (cases "length buf - q \<ge> 8")
    case False
    then show ?thesis using W by (simp add: step kernel_result_stop)
  next
    case True
    then obtain w where w: "load64 buf q = Some w" using load64_avail by blast
    show ?thesis
    proof (cases "w AND kMsbW W = kOneVarint W")
      case False
      with W True w show ?thesis by (simp add: step kernel_result_stop)
    next
      case eq: True
      from fixed_read [OF word_at_load64 [OF w W(2)] W eq]
      have r: "read_varint buf q = Inr (q + W, compact7 (w AND kLenMask W AND kLow7))" .
      note k = kernel_result_put [OF r less.prems(2)]
      show ?thesis
        using W True w eq k(2,3) by (simp add: step put_next [OF k(1)])
          (intro k(4) less.hyps [where ds = "_ @ [_]", simplified], auto)
    qed
  qed
qed

lemma fixed_fill_narrow_ok:
  assumes W: "1 \<le> W" "W \<le> 4"
  shows "q \<le> length buf \<Longrightarrow> length buf - q \<le> length rs \<Longrightarrow>
     kernel_result buf conv q ds rs (map_option Inr (fixed_fill_narrow W buf conv q (length ds) (ds @ rs)))"
proof (induction "length buf - q" arbitrary: q ds rs rule: less_induct)
  case less
  note step = fixed_fill_narrow.simps [of W buf conv q]
  from W have W8: "W \<le> 8" by simp
  show ?case
  proof (cases "length buf - q \<ge> 8")
    case False
    then show ?thesis using W by (simp add: step kernel_result_stop)
  next
    case True
    then obtain w where w: "load64 buf q = Some w" using load64_avail by blast
    let ?v = "compact7 (w AND kLenMask W AND kLow7)"
    show ?thesis
    proof (cases "w AND kMsbW W = kOneVarint W")
      case False
      then have "w AND kMsb2 W \<noteq> kTwoVarints W" using two_varints_pattern(1) [OF W] by blast
      with False W True w show ?thesis by (simp add: step kernel_result_stop)
    next
      case one: True
      from fixed_read [OF word_at_load64 [OF w W8] W(1) W8 one]
      have r: "read_varint buf q = Inr (q + W, ?v)" .
      note k = kernel_result_put [OF r less.prems(2)]
      show ?thesis
      proof (cases "w AND kMsb2 W = kTwoVarints W")
        case False
        then show ?thesis
          using W True w one k(2,3) by (simp add: step put_next [OF k(1)])
            (intro k(4) less.hyps [where ds = "_ @ [_]", simplified], auto)
      next
        case two: True
        have "word_at buf (q + W) W (drop_bit (8 * W) w)"
          using W by (intro word_at_shift word_at_load64 [OF w]) simp
        from fixed_read [OF this W(1) W8 two_varints_pattern(2) [OF W two]]
        have r2: "read_varint buf (q + W) =
            Inr (q + W + W, compact7 (drop_bit (8 * W) w AND kLenMask W AND kLow7))"
          (is "_ = Inr (_, ?v2)") .
        note k2 = kernel_result_put [OF r2 k(2)]
        have "put2 conv (ds @ rs) (length ds) ?v ?v2 = Some ((ds @ [conv ?v, conv ?v2]) @ tl (tl rs))"
          using put_next [OF k2(1), of conv "ds @ [conv ?v]" ?v2]
          by (simp add: put2_def put_next [OF k(1)])
        moreover have "kernel_result buf conv (q + W + W) (ds @ [conv ?v, conv ?v2]) (tl (tl rs))
            (map_option Inr (fixed_fill_narrow W buf conv (q + W + W) (length (ds @ [conv ?v, conv ?v2]))
              ((ds @ [conv ?v, conv ?v2]) @ tl (tl rs))))"
          using W k2(2,3) True by (intro less.hyps) auto
        ultimately show ?thesis
          using W True w two k(4) [OF k2(4), of conv ds]
          by (simp add: step mult_2 add.assoc [symmetric])
      qed
    qed
  qed
qed

lemma varint_value_append:
  "varint_value (xs @ ys) = varint_value xs OR push_bit (7 * length xs) (varint_value ys)"
  by (induction xs) (simp_all add: push_bit_or or.assoc)

lemma wide_value:
  assumes w: "load64 buf q = Some w" and "w AND kMSB = kMSB"
  shows "compact7 (w AND kLow7) = varint_value (take 8 (drop q buf))"
    and "\<forall>i < 8. bit (buf ! (q + i)) 7"
proof -
  have "compact7 (w AND kLow7 AND kLow7) = varint_value (take 8 (drop q buf))"
    by (rule word_varint_value [OF word_at_load64 [OF w]]) (auto simp: bit_kLow7)
  then show "compact7 (w AND kLow7) = varint_value (take 8 (drop q buf))" by simp
  show "\<forall>i < 8. bit (buf ! (q + i)) 7"
  proof (intro allI impI)
    fix i :: nat assume i: "i < 8"
    then have "bit (w AND kMSB) (8 * i + 7)" by (simp only: assms(2) bit_kMSB) auto
    then show "bit (buf ! (q + i)) 7"
      using word_at_msb [OF word_at_load64 [OF w order.refl] i] by (simp add: bit_and_iff)
  qed
qed

lemma take_Suc_nth: "n < length xs - q \<Longrightarrow> take (Suc n) (drop q xs) = take n (drop q xs) @ [xs ! (q + n)]"
  by (simp add: take_Suc_conv_app_nth)

lemma nine_read:
  assumes "9 \<le> length buf - q" and "load64 buf q = Some w" and "w AND kMSB = kMSB"
    and "\<not> bit (buf ! (q + 8)) 7"
  shows "read_varint buf q =
    Inr (q + 9, compact7 (w AND kLow7) OR push_bit 56 (ucast (buf ! (q + 8) AND 0x7F)))"
proof -
  note v = wide_value [OF assms(2,3)]
  have "one_varint buf q 9" using assms v(2) by (auto simp: one_varint_def)
  then have "read_varint buf q = Inr (q + 9, varint_value (take (Suc 8) (drop q buf)))"
    using one_varint_read [of buf q 9] by simp
  also have "take (Suc 8) (drop q buf) = take 8 (drop q buf) @ [buf ! (q + 8)]"
    using assms(1) by (intro take_Suc_nth) simp
  finally show ?thesis using assms(1) v(1) by (simp add: varint_value_append)
qed

lemma ten_read:
  assumes "10 \<le> length buf - q" and "load64 buf q = Some w" and "w AND kMSB = kMSB"
    and "bit (buf ! (q + 8)) 7" and "\<not> buf ! (q + 9) > 1"
  shows "read_varint buf q = Inr (q + 10, compact7 (w AND kLow7) OR
      push_bit 56 (ucast (buf ! (q + 8) AND 0x7F)) OR push_bit 63 (ucast (buf ! (q + 9))))"
proof -
  note v = wide_value [OF assms(2,3)]
  have le: "unat (buf ! (q + 9)) \<le> 1" using assms(5) by (simp add: not_less word_le_nat_alt)
  then have b9: "\<not> bit (buf ! (q + 9)) 7" by (simp add: bit_u8_7_iff)
  have "bit (buf ! (q + i)) 7" if "i < 9" for i
    using that v(2) assms(4) by (cases "i = 8") auto
  with assms(1) b9 have "one_varint buf q 10" by (auto simp: one_varint_def)
  then have "read_varint buf q = Inr (q + 10, varint_value (take (Suc 9) (drop q buf)))"
    using one_varint_read [of buf q 10] assms(5) by (simp add: not_less)
  also have "take (Suc 9) (drop q buf) = take (Suc 8) (drop q buf) @ [buf ! (q + 9)]"
    using take_Suc_nth [of 9 buf q] assms(1) by simp
  also have "take (Suc 8) (drop q buf) = take 8 (drop q buf) @ [buf ! (q + 8)]"
    using assms(1) by (intro take_Suc_nth) simp
  moreover have "buf ! (q + 9) AND 0x7F = buf ! (q + 9)"
    using b9 by (intro bit_word_eqI) (auto simp: bit_simps bits less_Suc_numeral_cases)
  ultimately show ?thesis using assms(1) v(1) by (simp add: varint_value_append or.assoc)
qed

lemma fixed_fill_wide_ok:
  assumes W: "W = 9 \<or> W = 10"
  shows "q \<le> length buf \<Longrightarrow> length buf - q \<le> length rs \<Longrightarrow>
     kernel_result buf conv q ds rs (map_option Inr (fixed_fill_wide W buf conv q (length ds) (ds @ rs)))"
proof (induction "length buf - q" arbitrary: q ds rs rule: less_induct)
  case less
  note step = fixed_fill_wide.simps [of W buf conv q]
  have next_ok: "kernel_result buf conv q ds rs
      (map_option Inr (do { out' \<leftarrow> put conv (ds @ rs) (length ds) v;
         fixed_fill_wide W buf conv (q + W) (length ds + 1) out' }))"
    if r: "read_varint buf q = Inr (q + W, v)" for v
  proof -
    note k = kernel_result_put [OF r less.prems(2)]
    from read_varint_bounds [OF r] have "length buf - (q + W) < length buf - q" by auto
    from k(4) [OF less.hyps [OF this k(3) k(2), of "ds @ [conv v]"]] show ?thesis
      by (simp add: put_next [OF k(1)])
  qed
  show ?case
  proof (cases "length buf - q \<ge> W")
    case False
    then show ?thesis using W by (auto simp: step kernel_result_stop)
  next
    case True
    then have "8 \<le> length buf - q" using W by auto
    then obtain w where w: "load64 buf q = Some w" using load64_avail by blast
    show ?thesis
    proof (cases "w AND kMSB = kMSB")
      case False
      with W True w show ?thesis by (auto simp: step kernel_result_stop)
    next
      case msb: True
      from W show ?thesis
      proof
        assume W9: "W = 9"
        show ?thesis using nine_read [OF _ w msb] True msb w next_ok
          by (auto simp: fixed_fill_wide.simps [of 9 buf conv q] W9 Let_def u8_continuation kernel_result_stop)
      next
        assume W10: "W = 10"
        show ?thesis using ten_read [OF _ w msb] True msb w next_ok
          by (auto simp: fixed_fill_wide.simps [of 10 buf conv q] W10 Let_def u8_continuation kernel_result_stop or.assoc)
      qed
    qed
  qed
qed

lemma and_kMSB_zero: "w AND kMSB = 0 \<longleftrightarrow> (\<forall>i < 8. \<not> bit w (8 * i + 7))"
proof -
  have "w AND kMSB = 0 \<longleftrightarrow> (\<forall>n. \<not> (bit w n \<and> n < 64 \<and> n mod 8 = 7))"
    by (simp add: bit_eq_iff bit_and_iff bit_kMSB)
  also have "\<dots> \<longleftrightarrow> (\<forall>i < 8. \<not> bit w (8 * i + 7))"
  proof
    assume a: "\<forall>i < 8. \<not> bit w (8 * i + 7)"
    show "\<forall>n. \<not> (bit w n \<and> n < 64 \<and> n mod 8 = 7)"
    proof (intro allI notI)
      fix n assume n: "bit w n \<and> n < 64 \<and> n mod 8 = 7"
      then have "n = 8 * (n div 8) + 7" using div_mult_mod_eq [of n 8] by simp
      moreover have "n div 8 < 8" using n by auto
      ultimately show False using a n by metis
    qed
  next
    assume a: "\<forall>n. \<not> (bit w n \<and> n < 64 \<and> n mod 8 = 7)"
    show "\<forall>i < 8. \<not> bit w (8 * i + 7)"
    proof (intro allI impI)
      fix i :: nat assume "i < 8"
      then show "\<not> bit w (8 * i + 7)" using a [rule_format, of "8 * i + 7"] by auto
    qed
  qed
  finally show ?thesis .
qed

lemma bulk1_any_zero:
  assumes "\<forall>j \<in> set js. q + 8 * j + 8 \<le> length buf"
  obtains r where "bulk1_any buf q js acc = Some r"
    and "r = 0 \<longleftrightarrow> acc = 0 \<and> (\<forall>j \<in> set js. \<forall>i < 8. \<not> bit (buf ! (q + 8 * j + i)) 7)"
proof -
  have "\<exists>r. bulk1_any buf q js acc = Some r \<and>
      (r = 0 \<longleftrightarrow> acc = 0 \<and> (\<forall>j \<in> set js. \<forall>i < 8. \<not> bit (buf ! (q + 8 * j + i)) 7))"
    using assms
  proof (induction js arbitrary: acc)
    case (Cons j js)
    then obtain w where w: "load64 buf (q + 8 * j) = Some w" using load64_Some by fastforce
    have "w AND kMSB = 0 \<longleftrightarrow> (\<forall>i < 8. \<not> bit (buf ! (q + 8 * j + i)) 7)"
      using and_kMSB_zero word_at_msb [OF word_at_load64 [OF w order.refl]] by auto
    moreover have "acc OR (w AND kMSB) = 0 \<longleftrightarrow> acc = 0 \<and> w AND kMSB = 0"
      by (auto simp: bit_eq_iff bit_or_iff)
    ultimately show ?case using Cons.IH [of "acc OR (w AND kMSB)"] Cons.prems w by auto
  qed simp
  then show ?thesis using that by blast
qed

lemma bulk1_puts_eq:
  assumes "q + k \<le> length buf" and "k \<le> i + length rs" and "i \<le> k" and "length ds = n + i"
  shows "bulk1_puts buf conv q n [i..<k] (ds @ rs) =
    Some (ds @ map (\<lambda>j. conv (ucast (buf ! (q + j)))) [i..<k] @ drop (k - i) rs)"
  using assms
proof (induction "k - i" arbitrary: i ds rs)
  case 0
  then show ?case by simp
next
  case (Suc m)
  then have ik: "i < k" and rs: "rs \<noteq> []" by auto
  have "bulk1_puts buf conv q n [i..<k] (ds @ rs) =
      bulk1_puts buf conv q n [Suc i..<k] ((ds @ [conv (ucast (buf ! (q + i)))]) @ tl rs)"
    using Suc.prems ik put_next [OF rs, of conv ds] by (simp add: upt_conv_Cons)
  also have "\<dots> = Some ((ds @ [conv (ucast (buf ! (q + i)))]) @
      map (\<lambda>j. conv (ucast (buf ! (q + j)))) [Suc i..<k] @ drop (k - Suc i) (tl rs))"
    using Suc ik rs by (intro Suc.hyps) auto
  finally show ?case using ik by (cases rs) (auto simp: upt_conv_Cons Suc_diff_Suc [symmetric] rs)
qed

lemma bytes_run:
  "q + k \<le> length buf \<Longrightarrow> \<forall>i < k. \<not> bit (buf ! (q + i)) 7 \<Longrightarrow>
     varint_run buf q (map (\<lambda>j. ucast (buf ! (q + j))) [0..<k]) (q + k)"
proof (induction k)
  case 0
  then show ?case by (simp add: run_Nil)
next
  case (Suc k)
  then have "read_varint buf (q + k) = Inr (q + Suc k, ucast (buf ! (q + k)))"
    by (simp add: read_varint_def u8_continuation)
  from varint_run_append [OF Suc.IH varint_run_one [OF this]] Suc.prems show ?case by simp
qed

lemma bulk1_ok:
  "q \<le> length buf \<Longrightarrow> length buf - q \<le> length rs \<Longrightarrow>
     kernel_result buf conv q ds rs (map_option Inr (bulk1 buf conv q (length ds) (ds @ rs)))"
proof (induction "length buf - q" arbitrary: q ds rs rule: less_induct)
  case less
  note step = bulk1.simps [of buf conv q]
  show ?case
  proof (cases "length buf - q \<ge> 64")
    case False
    then show ?thesis by (simp add: step kernel_result_stop)
  next
    case True
    have js: "\<forall>j \<in> set [0..<8]. q + 8 * j + 8 \<le> length buf"
      using True by (simp only: set_upt atLeastLessThan_iff) auto
    obtain r where r: "bulk1_any buf q [0..<8] 0 = Some r"
      "r = 0 \<longleftrightarrow> (\<forall>j \<in> set [0..<8]. \<forall>i < 8. \<not> bit (buf ! (q + 8 * j + i)) 7)"
      by (rule bulk1_any_zero [OF js, of 0]) blast
    show ?thesis
    proof (cases "r = 0")
      case False
      with True r(1) show ?thesis by (simp add: step kernel_result_stop del: upt_rec_numeral)
    next
      case z: True
      let ?vs = "map (\<lambda>j. ucast (buf ! (q + j))) [0..<64] :: u64 list"
      have "\<not> bit (buf ! (q + i)) 7" if "i < 64" for i
      proof -
        have "i div 8 \<in> set [0..<8]" "i mod 8 < 8" using that by (simp_all only: set_upt) auto
        with r(2) z have "\<not> bit (buf ! (q + 8 * (i div 8) + i mod 8)) 7" by blast
        then show ?thesis by (simp add: add.assoc)
      qed
      with True have run: "varint_run buf q ?vs (q + 64)" by (intro bytes_run) auto
      have "bulk1_puts buf conv q (length ds) [0..<64] (ds @ rs) =
          Some ((ds @ map conv ?vs) @ drop (length ?vs) rs)"
        using True less.prems by (subst bulk1_puts_eq) (auto simp del: upt_rec_numeral)
      moreover have "kernel_result buf conv (q + 64) (ds @ map conv ?vs) (drop (length ?vs) rs)
          (map_option Inr (bulk1 buf conv (q + 64) (length (ds @ map conv ?vs))
            ((ds @ map conv ?vs) @ drop (length ?vs) rs)))"
        using True less.prems by (intro less.hyps) (auto simp del: upt_rec_numeral)
      ultimately show ?thesis
        using True r(1) z less.prems
        by (intro kernel_result_step [OF run]) (auto simp: step simp del: upt_rec_numeral)
    qed
  qed
qed

text \<open>Four two-byte varints in a word.\<close>

lemma bulk2_masks:
  shows "bit (0x0080008000800080 :: u64) n \<longleftrightarrow> n < 64 \<and> n mod 16 = 7"
    and "bit (0x007F007F007F007F :: u64) n \<longleftrightarrow> n < 64 \<and> n mod 16 < 7"
    and "bit (0x7F007F007F007F00 :: u64) n \<longleftrightarrow> n < 64 \<and> 8 \<le> n mod 16 \<and> n mod 16 < 15"
proof -
  have "list_all (\<lambda>n. bit (0x0080008000800080 :: u64) n \<longleftrightarrow> n mod 16 = 7) [0..<64]"
    "list_all (\<lambda>n. bit (0x007F007F007F007F :: u64) n \<longleftrightarrow> n mod 16 < 7) [0..<64]"
    "list_all (\<lambda>n. bit (0x7F007F007F007F00 :: u64) n \<longleftrightarrow> 8 \<le> n mod 16 \<and> n mod 16 < 15) [0..<64]"
    unfolding upt_64 by simp_all
  note l = this [THEN list_all_less]
  have hi: "\<not> bit (x :: u64) n" if "\<not> n < 64" for x
    using that bit_imp_le_length [of x n] by auto
  show "bit (0x0080008000800080 :: u64) n \<longleftrightarrow> n < 64 \<and> n mod 16 = 7"
    using l(1) hi by blast
  show "bit (0x007F007F007F007F :: u64) n \<longleftrightarrow> n < 64 \<and> n mod 16 < 7"
    using l(2) hi by blast
  show "bit (0x7F007F007F007F00 :: u64) n \<longleftrightarrow> n < 64 \<and> 8 \<le> n mod 16 \<and> n mod 16 < 15"
    using l(3) hi by blast
qed

definition pair_gather :: "u64 \<Rightarrow> u64" where
  "pair_gather x = (x AND 0x007F007F007F007F) OR drop_bit 1 (x AND 0x7F007F007F007F00)"

lemma bit_pair_gather:
  "bit (pair_gather x) n \<longleftrightarrow> n < 64 \<and> n mod 16 < 7 \<and> bit x n \<or>
     Suc n < 64 \<and> 8 \<le> Suc n mod 16 \<and> Suc n mod 16 < 15 \<and> bit x (Suc n)"
  unfolding pair_gather_def bit_or_iff bit_and_iff bit_drop_bit_eq bulk2_masks by auto

lemma div_mod_byte: "r < 8 \<Longrightarrow> (8 * a + r) div 8 = (a :: nat) \<and> (8 * a + r) mod 8 = r"
  by simp

lemma bulk2_value:
  assumes w: "load64 buf q = Some w" and k: "k < 4"
  shows "ucast (ucast (drop_bit (16 * k) (pair_gather (w AND kLow7))) :: u16) =
    varint_value (take 2 (drop (q + 2 * k) buf))" (is "?l = ?r")
proof (rule bit_word_eqI)
  fix n :: nat assume "n < LENGTH(64)"
  then have n: "n < 64" by simp
  have len: "q + 8 \<le> length buf" using w by (simp add: load64_def split: if_splits)
  have l: "bit ?l n \<longleftrightarrow> n < 16 \<and> bit (pair_gather (w AND kLow7)) (16 * k + n)"
    by (auto simp: bit_simps)
  have m: "(16 * k + n) mod 16 = n mod 16" by simp
  have r: "bit ?r n \<longleftrightarrow> n div 7 < 2 \<and> bit (buf ! (q + 2 * k + n div 7)) (n mod 7)"
    using n k len by (auto simp: bit_varint_value)
  consider "n < 7" | "7 \<le> n" "n < 14" | "14 \<le> n" "n < 16" | "16 \<le> n" by linarith
  then show "bit ?l n \<longleftrightarrow> bit ?r n"
  proof cases
    case 1
    have "16 * k + n = 8 * (2 * k) + n" by simp
    then have "(16 * k + n) div 8 = 2 * k" "(16 * k + n) mod 8 = n"
      using 1 by (simp_all only: div_mult_self4 mod_mult_self4) auto
    moreover have "(16 * k + n) mod 16 = n" "Suc (16 * k + n) mod 16 = Suc n" using 1 by auto
    ultimately
    show ?thesis using 1 k
      unfolding l r bit_pair_gather
      by (simp add: bit_and_iff bit_kLow7 bit_load64 [OF w])
  next
    case 2
    then obtain j where j: "n = 7 + j" "j < 7" using le_Suc_ex [of 7 n] by auto
    have "Suc (16 * k + n) = 8 * (2 * k + 1) + j" using j by simp
    then have a: "Suc (16 * k + n) div 8 = 2 * k + 1" "Suc (16 * k + n) mod 8 = j"
      using div_mod_byte [of j "2 * k + 1"] j by (simp_all only:)
    have "Suc (16 * k + n) = 16 * k + (8 + j)" using j by simp
    then have b: "Suc (16 * k + n) mod 16 = 8 + j" using j by (simp only:) auto
    have c: "(16 * k + n) mod 16 = 7 + j" using j by auto
    have "n div 7 = 1" "n mod 7 = j" using j by auto
    with 2 j k a b c show ?thesis
      unfolding l r bit_pair_gather
      by (simp add: bit_and_iff bit_kLow7 bit_load64 [OF w])
  next
    case 3
    then have "n = 14 \<or> n = 15" by auto
    then have "(16 * k + n) mod 16 \<ge> 14" "Suc (16 * k + n) mod 16 = 15 \<or> Suc (16 * k + n) mod 16 = 0"
      "\<not> n div 7 < 2" by auto
    then show ?thesis
      unfolding l r bit_pair_gather
      by auto
  next
    case 4
    then show ?thesis unfolding l r by auto
  qed
qed

lemma bulk2_read:
  assumes w: "load64 buf q = Some w" and eq: "w AND kMSB = 0x0080008000800080" and k: "k < 4"
  shows "read_varint buf (q + 2 * k) = Inr (q + 2 * k + 2,
    ucast (ucast (drop_bit (16 * k) (pair_gather (w AND kLow7))) :: u16))"
proof -
  have len: "q + 8 \<le> length buf" using w by (simp add: load64_def split: if_splits)
  have b: "bit (buf ! (q + i)) 7 \<longleftrightarrow> (8 * i + 7) mod 16 = 7" if i: "i < 8" for i
  proof -
    have "bit (w AND kMSB) (8 * i + 7) \<longleftrightarrow> bit (buf ! (q + i)) 7"
      using word_at_msb [OF word_at_load64 [OF w order.refl] i] i by (auto simp: bit_and_iff bit_kMSB)
    then show ?thesis using i by (simp only: eq bulk2_masks) auto
  qed
  have e: "(8 * (2 * k) + 7) mod 16 = 7" "(8 * (2 * k + 1) + 7) mod 16 = 15" by presburger+
  have "one_varint buf (q + 2 * k) 2"
    using b [of "2 * k"] b [of "2 * k + 1"] e k len by (auto simp: one_varint_def)
  from one_varint_read [OF this] show ?thesis by (simp add: bulk2_value [OF w k])
qed

lemma bulk2_ok:
  "q \<le> length buf \<Longrightarrow> length buf - q \<le> length rs \<Longrightarrow>
     kernel_result buf conv q ds rs (map_option Inr (bulk2 buf conv q (length ds) (ds @ rs)))"
proof (induction "length buf - q" arbitrary: q ds rs rule: less_induct)
  case less
  note step = bulk2.simps [of buf conv q]
  show ?case
  proof (cases "length buf - q \<ge> 8")
    case False
    then show ?thesis by (simp add: step kernel_result_stop)
  next
    case True
    then obtain w where w: "load64 buf q = Some w" using load64_avail by blast
    show ?thesis
    proof (cases "w AND kMSB = 0x0080008000800080")
      case False
      with True w show ?thesis by (simp add: step kernel_result_stop)
    next
      case eq: True
      note rd = bulk2_read [OF w eq]
      define v where "v k = (ucast (ucast (drop_bit (16 * k) (pair_gather (w AND kLow7))) :: u16) :: u64)" for k
      have rd: "read_varint buf (q + 2 * k) = Inr (q + 2 * k + 2, v k)" if "k < 4" for k
        unfolding v_def by (rule bulk2_read [OF w eq that])
      have "varint_run buf q [v 0, v 1, v 2, v 3] (q + 8)"
      proof -
        have "read_varint buf q = Inr (q + 2, v 0)" "read_varint buf (q + 2) = Inr (q + 4, v 1)"
          "read_varint buf (q + 4) = Inr (q + 6, v 2)" "read_varint buf (q + 6) = Inr (q + 8, v 3)"
          using rd [of 0] rd [of 1] rd [of 2] rd [of 3] by (simp_all add: eval_nat_numeral)
        then show ?thesis by (blast intro: varint_run.intros)
      qed
      moreover have "4 \<le> length rs" using True less.prems by simp
      then obtain a b c d rs' where rs: "rs = a # b # c # d # rs'"
        by (auto simp: numeral_eq_Suc Suc_le_length_iff)
      moreover have "kernel_result buf conv (q + 8) (ds @ map conv [v 0, v 1, v 2, v 3]) rs'
          (map_option Inr (bulk2 buf conv (q + 8) (length (ds @ map conv [v 0, v 1, v 2, v 3]))
            ((ds @ map conv [v 0, v 1, v 2, v 3]) @ rs')))"
        using True less.prems rs by (intro less.hyps) auto
      moreover have "bulk2 buf conv q (length ds) (ds @ rs) =
          bulk2 buf conv (q + 8) (length (ds @ map conv [v 0, v 1, v 2, v 3]))
            ((ds @ map conv [v 0, v 1, v 2, v 3]) @ rs')"
        using True w eq rs
        by (simp add: step put_def Let_def v_def pair_gather_def nth_append list_update_append
            numeral_eq_Suc)
      ultimately show ?thesis
        using kernel_result_step [of buf q "[v 0, v 1, v 2, v 3]" "q + 8" rs conv ds] by simp
    qed
  qed
qed

text \<open>The structural kernel: the terminators of a block delimit its varints.\<close>

lemma varint_bytes_unique:
  assumes "varint_bytes xs" and "varint_bytes ys" and "prefix xs ys"
  shows "xs = ys"
proof (rule ccontr)
  assume "xs \<noteq> ys"
  with assms(3) have "strict_prefix xs ys" by (simp add: strict_prefix_def)
  then obtain z zs where ys: "ys = xs @ z # zs" by (rule strict_prefixE')
  from assms(1) have "last xs \<in> set (butlast ys)" "\<not> bit (last xs) 7"
    by (auto simp: ys butlast_append varint_bytes_def)
  with assms(2) show False by (auto simp: varint_bytes_def)
qed

lemma one_varint_end:
  assumes "one_varint buf p W" and "read_varint buf p = Inr (np, v)"
  shows "np = p + W"
proof -
  from assms(2) obtain bs where bs: "wf_varint bs" "take (length bs) (drop p buf) = bs" "np = p + length bs"
    by (auto simp: read_varint_Inr_iff)
  let ?ws = "take W (drop p buf)"
  have ws: "varint_bytes ?ws" "length ?ws = W"
    using one_varint_bytes [OF assms(1)] assms(1) by (auto simp: one_varint_def)
  have "prefix bs (drop p buf)" "prefix ?ws (drop p buf)"
    using bs(2) by (metis take_is_prefix)+
  then have "prefix bs ?ws \<or> prefix ?ws bs" using prefix_same_cases by blast
  then have "bs = ?ws" using bs(1) ws(1) varint_bytes_unique unfolding wf_varint_def by metis
  with ws(2) bs(3) show ?thesis by simp
qed

lemma low_mask_bits: "bit (if L \<ge> 8 then NOT 0 else push_bit (8 * L) 1 - 1 :: u64) n \<longleftrightarrow> n < 64 \<and> n < 8 * L"
  using bit_low_byte_mask [of L n] by (simp only: low_byte_mask_def)

lemma struct_elem_ok:
  assumes o: "one_varint buf p L" and len: "p + 8 \<le> length buf" and l: "length buf - p \<le> length rs"
  shows "(\<exists>e. read_varint buf p = Inl e \<and> struct_elem buf conv p (int L) (length ds) (ds @ rs) = Some (Inl (e, p))) \<or>
    (\<exists>v. read_varint buf p = Inr (p + L, v) \<and>
         struct_elem buf conv p (int L) (length ds) (ds @ rs) =
           Some (Inr (length (ds @ [conv v]), (ds @ [conv v]) @ tl rs)))"
proof -
  from len l have rs: "rs \<noteq> []" by auto
  show ?thesis
  proof (cases "L \<le> 8")
    case True
    obtain w where w: "load64 buf p = Some w" using load64_Some [OF len] by blast
    let ?m = "if L \<ge> 8 then NOT 0 else push_bit (8 * L) 1 - 1 :: u64"
    have "read_varint buf p = Inr (p + L, compact7 (w AND ?m AND kLow7))"
      using word_at_load64 [OF w True] o by (rule word_varint_read) (simp only: low_mask_bits simp_thms)
    moreover have "struct_elem buf conv p (int L) (length ds) (ds @ rs) =
        Some (Inr (length ds + 1, (ds @ [conv (compact7 (w AND ?m AND kLow7))]) @ tl rs))"
      unfolding struct_elem_def using True w put_next [OF rs] by (simp add: Let_def)
    ultimately show ?thesis by (intro disjI2) auto
  next
    case False
    show ?thesis
    proof (cases "read_varint buf p")
      case (Inl e)
      with False show ?thesis unfolding struct_elem_def by (simp add: read_varint_packed_eq [OF len])
    next
      case (Inr x)
      then obtain np v where x: "read_varint buf p = Inr (np, v)" by (cases x) auto
      with one_varint_end [OF o x] False put_next [OF rs] show ?thesis
        unfolding struct_elem_def by (simp add: read_varint_packed_eq [OF len])
    qed
  qed
qed

definition block_result ::
    "u8 list \<Rightarrow> (u64 \<Rightarrow> 'e) \<Rightarrow> nat \<Rightarrow> nat \<Rightarrow> 'e list \<Rightarrow> 'e list \<Rightarrow> (fail + 'e cells) option \<Rightarrow> bool" where
  "block_result buf conv q p ds rs r \<longleftrightarrow>
     kernel_result buf conv p ds rs (map_option (map_sum id (apfst (\<lambda>s. q + s))) r)"

lemma shifted_Inr_iff:
  "map_option (map_sum id (apfst (\<lambda>s. q + s))) r = Some (Inr (q', x)) \<longleftrightarrow>
     (\<exists>s. r = Some (Inr (s, x)) \<and> q' = q + s)" for r :: "(fail + 'e cells) option"
  by (cases r; cases "the r") auto

lemma shifted_Inl_iff:
  "map_option (map_sum id (apfst (\<lambda>s. q + s))) r = Some (Inl f) \<longleftrightarrow> r = Some (Inl f)"
  for r :: "(fail + 'e cells) option"
  by (cases r; cases "the r") auto

lemma struct_block_ok:
  assumes "q + 72 \<le> length buf" and "t \<noteq> 0" and "length buf - (q + start) \<le> length rs"
    and "\<And>i. bit t i \<longleftrightarrow> start \<le> i \<and> i < 64 \<and> \<not> bit (buf ! (q + i)) 7"
  shows "block_result buf conv q (q + start) ds rs
    (struct_block buf conv q t start (length ds) (ds @ rs))"
  using assms(2-)
proof (induction "unat t" arbitrary: t start ds rs rule: less_induct)
  case less
  from less.prems(1) obtain b where b: "bit t b" "\<forall>j < b. \<not> bit t j" by (rule lowest_bit)
  then have ctz: "ctz64 t = Some b" by (rule ctz64_eq)
  from b(1) less.prems(3) have sb: "start \<le> b" "b < 64" "\<not> bit (buf ! (q + b)) 7" by auto
  define L where "L = b - start + 1"
  have len: "q + start + 8 \<le> length buf" using assms(1) sb by simp
  have cont: "bit (buf ! (q + start + i)) 7" if "i < L - 1" for i
    using b(2) [rule_format, of "start + i"] that sb less.prems(3) [of "start + i"]
    by (auto simp: L_def add.assoc)
  have "one_varint buf (q + start) L"
    using cont sb assms(1) by (auto simp: one_varint_def L_def)
  note el = struct_elem_ok [OF this len less.prems(2), of conv ds]
  let ?t = "t AND (t - 1)"
  have t: "bit ?t i \<longleftrightarrow> b + 1 \<le> i \<and> i < 64 \<and> \<not> bit (buf ! (q + i)) 7" for i
    using b sb by (cases i b rule: linorder_cases) (auto simp: bit_clear_lowest [OF b] less.prems(3))
  have dec: "unat ?t < unat t"
  proof -
    have "unat (t - 1) < unat t" using less.prems(1) by (simp add: unat_minus_one unat_gt_0)
    moreover have "unat ?t \<le> unat (t - 1)" using word_and_le1 [of t "t - 1"] by (simp add: word_le_nat_alt)
    ultimately show ?thesis by simp
  qed
  have il: "int b - int start + 1 = int L" using sb by (simp add: L_def)
  note step = struct_block.simps [of buf conv q t start "length ds" "ds @ rs"]
  from el show ?case
  proof (elim disjE exE conjE)
    fix e assume e: "read_varint buf (q + start) = Inl e"
      and "struct_elem buf conv (q + start) (int L) (length ds) (ds @ rs) = Some (Inl (e, q + start))"
    then have "struct_block buf conv q t start (length ds) (ds @ rs) = Some (Inl (e, q + start))"
      by (subst step) (simp add: ctz il Let_def)
    with e len show ?case by (auto simp: block_result_def kernel_result_fail)
  next
    fix v assume v: "read_varint buf (q + start) = Inr (q + start + L, v)"
      and "struct_elem buf conv (q + start) (int L) (length ds) (ds @ rs) = Some (Inr (length (ds @ [conv v]), (ds @ [conv v]) @ tl rs))"
    then have s: "struct_block buf conv q t start (length ds) (ds @ rs) =
        (if ?t \<noteq> 0 then struct_block buf conv q ?t (b + 1) (length (ds @ [conv v])) ((ds @ [conv v]) @ tl rs)
         else Some (Inr (b + 1, length (ds @ [conv v]), (ds @ [conv v]) @ tl rs)))"
      by (subst step) (simp add: ctz il Let_def)
    note k = kernel_result_put [OF v less.prems(2)]
    have pos: "q + start + L = q + (b + 1)" using sb by (simp add: L_def)
    show ?case unfolding block_result_def
    proof (rule k(4))
      show "kernel_result buf conv (q + start + L) (ds @ [conv v]) (tl rs)
        (map_option (map_sum id (apfst (\<lambda>s. q + s))) (struct_block buf conv q t start (length ds) (ds @ rs)))"
      proof (cases "?t = 0")
        case True
        then show ?thesis using kernel_result_stop [of buf conv "q + (b + 1)" "ds @ [conv v]" "tl rs"]
          unfolding s pos by simp
      next
        case False
        have "block_result buf conv q (q + (b + 1)) (ds @ [conv v]) (tl rs)
          (struct_block buf conv q ?t (b + 1) (length (ds @ [conv v])) ((ds @ [conv v]) @ tl rs))"
          using k(2) unfolding pos by (intro less.hyps [OF dec False] t) auto
        with False show ?thesis unfolding s pos block_result_def by simp
      qed
    qed
  qed
qed

lemma struct_loop_ok:
  "q \<le> length buf \<Longrightarrow> length buf - q \<le> length rs \<Longrightarrow>
     kernel_result buf conv q ds rs (struct_loop buf conv q (length ds) (ds @ rs))"
proof (induction "length buf - q" arbitrary: q ds rs rule: less_induct)
  case less
  note step = struct_loop.simps [of buf conv q]
  show ?case
  proof (cases "length buf - q \<ge> 72")
    case False
    then show ?thesis by (simp add: step kernel_result_stop)
  next
    case True
    then have len: "q + 72 \<le> length buf" "q + 64 \<le> length buf" by auto
    obtain t where t: "stopmask64 buf q = Some t" "\<And>i. bit t i \<longleftrightarrow> i < 64 \<and> \<not> bit (buf ! (q + i)) 7"
      using stopmask64_bits [OF len(2)] by metis
    show ?thesis
    proof (cases "t = 0")
      case z: True
      with True t(1) show ?thesis by (simp add: step kernel_result_stop)
    next
      case False
      have "block_result buf conv q (q + 0) ds rs (struct_block buf conv q t 0 (length ds) (ds @ rs))"
        using less.prems t(2) by (intro struct_block_ok len False) auto
      then obtain vs q' where run: "varint_run buf q vs q'" and
        r: "(\<exists>s. struct_block buf conv q t 0 (length ds) (ds @ rs) = Some (Inr (s, stored conv ds rs vs)) \<and>
              q' = q + s) \<or>
           (\<exists>e. q' < length buf \<and> read_varint buf q' = Inl e \<and>
              struct_block buf conv q t 0 (length ds) (ds @ rs) = Some (Inl (e, q')))"
        unfolding block_result_def kernel_result_def shifted_Inr_iff shifted_Inl_iff by auto
      note b = varint_run_bounds [OF run less.prems(1)]
      from r show ?thesis
      proof (elim disjE exE conjE)
        fix s assume s: "struct_block buf conv q t 0 (length ds) (ds @ rs) =
            Some (Inr (s, stored conv ds rs vs))" and q': "q' = q + s"
        have "0 < s" using s struct_block_advances by (auto simp: stored_def)
        have "kernel_result buf conv q' (ds @ map conv vs) (drop (length vs) rs)
          (struct_loop buf conv q' (length (ds @ map conv vs)) ((ds @ map conv vs) @ drop (length vs) rs))"
          using b less.prems q' \<open>0 < s\<close> True by (intro less.hyps) auto
        then have "kernel_result buf conv q' (ds @ map conv vs) (drop (length vs) rs)
          (struct_loop buf conv q (length ds) (ds @ rs))"
          using True t(1) False s q' by (simp add: step stored_def)
        then show ?thesis using b less.prems by (intro kernel_result_step [OF run]) auto
      next
        fix e assume e: "q' < length buf" "read_varint buf q' = Inl e"
          "struct_block buf conv q t 0 (length ds) (ds @ rs) = Some (Inl (e, q'))"
        then have "struct_loop buf conv q (length ds) (ds @ rs) = Some (Inl (e, q'))"
          using True t(1) False by (simp add: step)
        with e run show ?thesis unfolding kernel_result_def by blast
      qed
    qed
  qed
qed

text \<open>The classifier always answers, and a fixed width is one the kernels are compiled for.\<close>

lemma strategy_scan_Some: "\<exists>r. strategy_scan m l g x h = Some r"
proof (induction m l g x h rule: strategy_scan.induct)
  case (1 m l g x h)
  show ?case
  proof (cases "m = 0")
    case True
    then show ?thesis by (simp add: strategy_scan.simps)
  next
    case False
    then obtain b where "bit m b" "\<forall>j < b. \<not> bit m j" by (rule lowest_bit)
    then have "ctz64 m = Some b" by (rule ctz64_eq)
    with 1 False show ?thesis by (subst strategy_scan.simps) (auto simp: Let_def)
  qed
qed

lemma packed_strategy_Some:
  assumes "span \<le> length buf - q"
  obtains kern width where "packed_strategy buf q span = Some (kern, width)"
    and "kern = Fixed \<Longrightarrow> 3 \<le> width \<and> width \<le> 10"
proof (cases "span < kPackedKernelMinSpan")
  case True
  then show ?thesis using that by (simp add: packed_strategy_def)
next
  case False
  with assms have "q + 64 \<le> length buf" by (simp add: kPackedKernelMinSpan_def)
  then obtain t where t: "stopmask64 buf q = Some t" by (rule stopmask64_bits)
  obtain g x h where "strategy_scan t (-1) (-1) 0 True = Some (g, x, h)"
    using strategy_scan_Some [of t "-1" "-1" 0 True] by (metis prod_cases3)
  with t False have "\<exists>kw. packed_strategy buf q span = Some kw"
    by (simp add: packed_strategy_def)
  then obtain kern width where p: "packed_strategy buf q span = Some (kern, width)" by auto
  moreover have "kern = Fixed \<Longrightarrow> 3 \<le> width \<and> width \<le> 10"
    using p by (auto simp: packed_strategy_def split: if_splits bind_splits)
  ultimately show ?thesis by (rule that)
qed

text \<open>The interpretations of the contract.\<close>

interpretation bulk1: packed_kernel buf conv "\<lambda>q n out. map_option Inr (bulk1 buf conv q n out)" for buf conv
  by unfold_locales (rule bulk1_ok)

interpretation bulk2: packed_kernel buf conv "\<lambda>q n out. map_option Inr (bulk2 buf conv q n out)" for buf conv
  by unfold_locales (rule bulk2_ok)

interpretation swar_loop: packed_kernel buf conv "swar_loop buf conv" for buf conv
  by unfold_locales (rule swar_loop_ok)

interpretation struct_loop: packed_kernel buf conv "struct_loop buf conv" for buf conv
  by unfold_locales (rule struct_loop_ok)

lemma fixed_fill_ok:
  assumes "1 \<le> W" "W \<le> 8" "q \<le> length buf" "length buf - q \<le> length rs"
  shows "kernel_result buf conv q ds rs (map_option Inr (fixed_fill W buf conv q (length ds) (ds @ rs)))"
  using assms fixed_fill_narrow_ok [of W q buf rs conv ds] fixed_fill_word_ok [of W q buf rs conv ds]
  by (cases "W \<le> 4") (auto simp: fixed_fill_def)

lemma run_kernel_ok:
  assumes w: "kern = Fixed \<Longrightarrow> 3 \<le> width \<and> width \<le> 10" and q: "q \<le> length buf" "length buf - q \<le> length rs"
  shows "kernel_result buf conv q ds rs (run_kernel kern width buf conv q (length ds) (ds @ rs))"
proof (cases kern)
  case Fixed
  then show ?thesis
    using fixed_fill_ok [OF _ _ q] fixed_fill_wide_ok [OF _ q] unfolding run_kernel_def by simp
next
  case Bulk1
  then show ?thesis using bulk1.kernel_ok [OF q] by (simp add: run_kernel_def)
next
  case Bulk2
  then show ?thesis using bulk2.kernel_ok [OF q] by (simp add: run_kernel_def)
next
  case Struct
  then show ?thesis using struct_loop.kernel_ok [OF q] by (simp add: run_kernel_def)
next
  case Swar
  then show ?thesis using swar_loop.kernel_ok [OF q] by (simp add: run_kernel_def)
next
  case ByteLoop
  then show ?thesis by (simp add: run_kernel_def kernel_result_stop)
qed

lemma classify_loop_ok:
  "q \<le> length buf \<Longrightarrow> length buf - q \<le> length rs \<Longrightarrow>
     kernel_result buf conv q ds rs (classify_loop buf conv q (length ds) (ds @ rs))"
proof (induction "length buf - q" arbitrary: q ds rs rule: less_induct)
  case less
  note step = classify_loop.simps [of buf conv q]
  obtain kern width where p: "packed_strategy buf q (length buf - q) = Some (kern, width)"
    "kern = Fixed \<Longrightarrow> 3 \<le> width \<and> width \<le> 10" using packed_strategy_Some [of "length buf - q" buf q] by blast
  have "kernel_result buf conv q ds rs (run_kernel kern width buf conv q (length ds) (ds @ rs))"
    using p(2) less.prems by (rule run_kernel_ok)
  then obtain vs q' where run: "varint_run buf q vs q'"
    and r: "run_kernel kern width buf conv q (length ds) (ds @ rs) = Some (Inr (q', stored conv ds rs vs)) \<or>
      (\<exists>e. q' < length buf \<and> read_varint buf q' = Inl e \<and>
        run_kernel kern width buf conv q (length ds) (ds @ rs) = Some (Inl (e, q')))"
    unfolding kernel_result_def by blast
  note b = varint_run_bounds [OF run less.prems(1)]
  from r show ?case
  proof (elim disjE exE conjE)
    assume k: "run_kernel kern width buf conv q (length ds) (ds @ rs) = Some (Inr (q', stored conv ds rs vs))"
    show ?thesis
    proof (cases "length buf - q' < 512 \<or> q' - q < 4096")
      case True
      then have "classify_loop buf conv q (length ds) (ds @ rs) = Some (Inr (q', stored conv ds rs vs))"
        using p(1) k by (auto simp: step stored_def)
      with run show ?thesis unfolding kernel_result_def by blast
    next
      case False
      then have "kernel_result buf conv q' (ds @ map conv vs) (drop (length vs) rs)
          (classify_loop buf conv q' (length (ds @ map conv vs)) ((ds @ map conv vs) @ drop (length vs) rs))"
        using b less.prems by (intro less.hyps) auto
      then have "kernel_result buf conv q' (ds @ map conv vs) (drop (length vs) rs)
          (classify_loop buf conv q (length ds) (ds @ rs))"
        using False p(1) k by (simp add: step stored_def)
      then show ?thesis using b less.prems by (intro kernel_result_step [OF run]) auto
    qed
  next
    fix e assume e: "q' < length buf" "read_varint buf q' = Inl e"
      "run_kernel kern width buf conv q (length ds) (ds @ rs) = Some (Inl (e, q'))"
    then have "classify_loop buf conv q (length ds) (ds @ rs) = Some (Inl (e, q'))"
      using p(1) by (simp add: step)
    with e run show ?thesis unfolding kernel_result_def by blast
  qed
qed

interpretation classify_loop: packed_kernel buf conv "classify_loop buf conv" for buf conv
  by unfold_locales (rule classify_loop_ok)

lemma decode_packed_tail:
  assumes "p \<le> length buf" "length buf - p \<le> length out"
  shows "decode_packed_varints buf p conv out = scalar_tail buf conv p 0 out"
  using classify_loop.kernel_then_tail [OF assms, of conv "[]"] by (simp add: decode_packed_varints_def)

text \<open>
  Property C1. The packed decoder is the scalar decoder. For a span from \<open>p\<close> to the end of the buffer
  and an output array with one cell per byte of the span, whichever kernels the classifier picks and
  however often it re-classifies, \<open>decode_packed_varints\<close> never loads or stores out of range; it
  fails exactly when reading varint after varint fails, with the same error at the same offset, and
  otherwise stores exactly the converted values read that way, leaving the rest of the array alone.
\<close>

theorem decode_packed_varints_correct:
  assumes "p \<le> length buf" and "length buf - p \<le> length out"
  shows "decode_packed_varints buf p conv out =
    Some (case decode_varints buf p of
            Inl f \<Rightarrow> Inl f
          | Inr vs \<Rightarrow> Inr (length vs, map conv vs @ drop (length vs) out))"
proof -
  have "decode_packed_varints buf p conv out = scalar_tail buf conv p 0 out"
    using assms by (rule decode_packed_tail)
  also have "\<dots> = Some (case decode_varints buf p of
            Inl f \<Rightarrow> Inl f
          | Inr vs \<Rightarrow> Inr (length vs, map conv vs @ drop (length vs) out))"
    using scalar_tail_eq [OF assms(2), of conv "[]"] by (simp add: stored_def split: sum.split)
  finally show ?thesis .
qed

theorem decode_packed_varints_correct_witness:
  "decode_packed_varints [0x96, 0x01, 0x05] 0 conv_uint32 [0, 0, 0, 7] =
     Some (Inr (2, [150, 5, 0, 7]))"
  using decode_packed_varints_correct [of 0 "[0x96, 0x01, 0x05]" "[0, 0, 0, 7]" conv_uint32]
  by (simp add: decode_varints.simps read_varint_def read_varint_loop.simps Let_def conv_uint32_def)

end
