(* ===== verification/Combinators.thy ===== *)
theory Combinators
  imports Prelude
begin

text \<open>
  The parser combinators of \<^verbatim>\<open>include/rapidproto/combinators.hpp\<close>, over the views of
  \<^verbatim>\<open>range.hpp\<close> and the results of \<^verbatim>\<open>result.hpp\<close>. A \<^verbatim>\<open>Range\<close> is the list of the elements it views;
  the remainder a parser returns is a tail of its input, so the number of elements consumed, a
  pointer difference in the C++, is the difference of the lengths. A parser returns the error or the
  remainder with the value.

  The contract of a parser is the locale \<open>lawful_parser\<close>: the remainder is a suffix of the input and
  an error offset does not exceed the length of the input. Every combinator preserves it.
\<close>

section \<open>Results\<close>

text \<open>A \<^verbatim>\<open>SourceId\<close> is a 32-bit index, the largest one meaning "no source".\<close>

type_synonym SourceId = u32

definition kInvalid :: SourceId where "kInvalid = 0xFFFFFFFF"

definition valid :: "SourceId \<Rightarrow> bool" where "valid s \<longleftrightarrow> s \<noteq> kInvalid"

record Error =
  source :: SourceId
  byte_offset :: nat
  message :: string
  fatal :: bool

text \<open>The two constructors of \<^verbatim>\<open>Error\<close>.\<close>

definition mk_error :: "nat \<Rightarrow> string \<Rightarrow> Error" where
  "mk_error off msg = \<lparr>source = kInvalid, byte_offset = off, message = msg, fatal = False\<rparr>"

definition mk_error_at :: "SourceId \<Rightarrow> nat \<Rightarrow> string \<Rightarrow> Error" where
  "mk_error_at src off msg = \<lparr>source = src, byte_offset = off, message = msg, fatal = False\<rparr>"

type_synonym ('i, 'o) parser = "'i list \<Rightarrow> Error + 'i list \<times> 'o"

text \<open>The clamping subspans of \<^verbatim>\<open>Range\<close>.\<close>

definition subspan :: "nat \<Rightarrow> 'i list \<Rightarrow> 'i list" where
  "subspan offset r =
     (let off = (if offset < length r then offset else length r) in drop off r)"

definition subspan_n :: "nat \<Rightarrow> nat \<Rightarrow> 'i list \<Rightarrow> 'i list" where
  "subspan_n offset count r =
     (let off = (if offset < length r then offset else length r);
          avail = length r - off;
          n = (if count < avail then count else avail)
      in take n (drop off r))"

lemma subspan_drop [simp]: "subspan n r = drop n r"
  by (simp add: subspan_def Let_def)

lemma subspan_n_take [simp]: "subspan_n 0 n r = take n r"
  by (simp add: subspan_n_def Let_def)

definition consumed :: "'i list \<Rightarrow> 'i list \<Rightarrow> nat" where
  "consumed before after = length before - length after"

text \<open>Lifting a child's error by what was consumed before it.\<close>

definition lift_err :: "nat \<Rightarrow> Error \<Rightarrow> Error" where
  "lift_err base e = e\<lparr>byte_offset := byte_offset e + base\<rparr>"

section \<open>Primitives\<close>

definition one_p :: "('i \<Rightarrow> bool) \<Rightarrow> ('i, 'i) parser" where
  "one_p pred inp =
     (if inp \<noteq> [] \<and> pred (hd inp) then Inr (subspan 1 inp, hd inp)
      else Inl (mk_error 0 ''unexpected input''))"

definition tag_p :: "string \<Rightarrow> (char, string) parser" where
  "tag_p expected inp =
     (if length inp \<ge> length expected \<and> subspan_n 0 (length expected) inp = expected
      then Inr (subspan (length expected) inp, subspan_n 0 (length expected) inp)
      else Inl (mk_error 0 (''expected '' @ [CHR 0x22] @ expected @ [CHR 0x22])))"

text \<open>The counting loop shared by \<open>take_while\<close>, \<open>take_while1\<close> and \<open>take_till\<close>.\<close>

fun count_while :: "('i \<Rightarrow> bool) \<Rightarrow> 'i list \<Rightarrow> nat" where
  "count_while pred [] = 0"
| "count_while pred (x # xs) = (if pred x then Suc (count_while pred xs) else 0)"

definition take_while_p :: "('i \<Rightarrow> bool) \<Rightarrow> ('i, 'i list) parser" where
  "take_while_p pred inp = (let n = count_while pred inp in Inr (subspan n inp, subspan_n 0 n inp))"

definition take_while1 :: "('i \<Rightarrow> bool) \<Rightarrow> ('i, 'i list) parser" where
  "take_while1 pred inp =
     (let n = count_while pred inp in
      if n = 0 then Inl (mk_error 0 ''expected at least one matching element'')
      else Inr (subspan n inp, subspan_n 0 n inp))"

definition take_till :: "('i \<Rightarrow> bool) \<Rightarrow> ('i, 'i list) parser" where
  "take_till pred inp =
     (let n = count_while (\<lambda>c. \<not> pred c) inp in Inr (subspan n inp, subspan_n 0 n inp))"

text \<open>\<^verbatim>\<open>std::string_view::find\<close>: the position of the first occurrence.\<close>

fun find_sub :: "string \<Rightarrow> string \<Rightarrow> nat option" where
  "find_sub needle [] = (if needle = [] then Some 0 else None)"
| "find_sub needle (c # cs) =
     (if take (length needle) (c # cs) = needle then Some 0 else map_option Suc (find_sub needle cs))"

definition take_until :: "string \<Rightarrow> (char, string) parser" where
  "take_until needle inp =
     (case find_sub needle inp of
        None \<Rightarrow> Inl (mk_error (length inp) (''expected '' @ [CHR 0x22] @ needle @ [CHR 0x22]))
      | Some pos \<Rightarrow> Inr (subspan pos inp, subspan_n 0 pos inp))"

section \<open>Combinators\<close>

text \<open>\<open>alt\<close> takes its first branch and the list of the others: it needs at least one.\<close>

fun alt_run :: "('i, 'o) parser \<Rightarrow> ('i, 'o) parser list \<Rightarrow> ('i, 'o) parser" where
  "alt_run p0 [] inp = p0 inp"
| "alt_run p0 (p1 # ps) inp =
     (case p0 inp of
        Inr r \<Rightarrow> Inr r
      | Inl first_err \<Rightarrow>
          if fatal first_err then Inl first_err
          else
            (case alt_run p1 ps inp of
               Inr r \<Rightarrow> Inr r
             | Inl rest \<Rightarrow>
                 if fatal rest then Inl rest
                 else if byte_offset first_err \<ge> byte_offset rest then Inl first_err
                 else Inl rest))"

definition alt :: "('i, 'o) parser \<Rightarrow> ('i, 'o) parser list \<Rightarrow> ('i, 'o) parser" where
  "alt p0 ps inp = alt_run p0 ps inp"

text \<open>
  \<open>seq\<close> of \<open>n\<close> parsers is the nesting of \<open>seq p (seq q ...)\<close>, its tuple the nested pair. The lifts of
  the nesting add up to the one lift by \<^verbatim>\<open>base\<close> of \<^verbatim>\<open>seq_run\<close>.
\<close>

definition seq :: "('i, 'a) parser \<Rightarrow> ('i, 'b) parser \<Rightarrow> ('i, 'a \<times> 'b) parser" where
  "seq p q inp =
     (case p inp of
        Inl e \<Rightarrow> Inl e
      | Inr (rest, a) \<Rightarrow>
          (case q rest of
             Inl e \<Rightarrow> Inl (lift_err (consumed inp rest) e)
           | Inr (rest', b) \<Rightarrow> Inr (rest', (a, b))))"

definition cut :: "('i, 'o) parser \<Rightarrow> ('i, 'o) parser" where
  "cut p inp = (case p inp of Inl e \<Rightarrow> Inl (e\<lparr>fatal := True\<rparr>) | Inr r \<Rightarrow> Inr r)"

definition opt :: "('i, 'o) parser \<Rightarrow> ('i, 'o option) parser" where
  "opt p inp =
     (case p inp of
        Inr (rest, v) \<Rightarrow> Inr (rest, Some v)
      | Inl e \<Rightarrow> if fatal e then Inl e else Inr (inp, None))"

function many_loop :: "('i, 'o) parser \<Rightarrow> 'i list \<Rightarrow> nat \<Rightarrow> 'o list \<Rightarrow> Error + 'i list \<times> 'o list" where
  "many_loop p rest base out =
     (case p rest of
        Inl e \<Rightarrow> if fatal e then Inl (lift_err base e) else Inr (rest, out)
      | Inr (rem, v) \<Rightarrow>
          let adv = consumed rest rem in
          if adv = 0 then Inl (mk_error base ''many: sub-parser consumed no input'')
          else many_loop p rem (base + adv) (out @ [v]))"
  by pat_completeness auto
termination
  by (relation "measure (\<lambda>(_, rest, _). length rest)") (auto simp: consumed_def)

declare many_loop.simps [simp del]

definition many :: "('i, 'o) parser \<Rightarrow> ('i, 'o list) parser" where
  "many p inp = many_loop p inp 0 []"

definition map_p :: "('i, 'a) parser \<Rightarrow> ('a \<Rightarrow> 'b) \<Rightarrow> ('i, 'b) parser" where
  "map_p p f inp = (case p inp of Inl e \<Rightarrow> Inl e | Inr (rest, v) \<Rightarrow> Inr (rest, f v))"

definition recognize :: "('i, 'o) parser \<Rightarrow> ('i, 'i list) parser" where
  "recognize p inp =
     (case p inp of
        Inl e \<Rightarrow> Inl e
      | Inr (rest, _) \<Rightarrow> Inr (rest, subspan_n 0 (consumed inp rest) inp))"

definition all_consuming :: "('i, 'o) parser \<Rightarrow> ('i, 'o) parser" where
  "all_consuming p inp =
     (case p inp of
        Inl e \<Rightarrow> Inl e
      | Inr (rest, v) \<Rightarrow>
          if rest \<noteq> [] then Inl (mk_error (consumed inp rest) ''unexpected trailing input'')
          else Inr (rest, v))"

definition delimited ::
    "('i, 'a) parser \<Rightarrow> ('i, 'b) parser \<Rightarrow> ('i, 'c) parser \<Rightarrow> ('i, 'b) parser" where
  "delimited pre mid suf inp =
     (case pre inp of
        Inl e \<Rightarrow> Inl e
      | Inr (rem1, _) \<Rightarrow>
          let b1 = consumed inp rem1 in
          (case mid rem1 of
             Inl e \<Rightarrow> Inl (lift_err b1 e)
           | Inr (rem2, v) \<Rightarrow>
               let b2 = b1 + consumed rem1 rem2 in
               (case suf rem2 of
                  Inl e \<Rightarrow> Inl (lift_err b2 e)
                | Inr (rem3, _) \<Rightarrow> Inr (rem3, v))))"

definition preceded :: "('i, 'a) parser \<Rightarrow> ('i, 'b) parser \<Rightarrow> ('i, 'b) parser" where
  "preceded pre body inp =
     (case pre inp of
        Inl e \<Rightarrow> Inl e
      | Inr (rem1, _) \<Rightarrow>
          (case body rem1 of
             Inl e \<Rightarrow> Inl (lift_err (consumed inp rem1) e)
           | Inr (rem2, v) \<Rightarrow> Inr (rem2, v)))"

text \<open>
  The progress test \<^verbatim>\<open>sadv + iadv == 0\<close> is the sum of two adjacent pointer differences, that is the
  difference between the ends.
\<close>

function separated_loop ::
    "('i, 'o) parser \<Rightarrow> ('i, 's) parser \<Rightarrow> 'i list \<Rightarrow> nat \<Rightarrow> 'o list \<Rightarrow> Error + 'i list \<times> 'o list" where
  "separated_loop item sep rest base out =
     (case sep rest of
        Inl e \<Rightarrow> if fatal e then Inl (lift_err base e) else Inr (rest, out)
      | Inr (srem, _) \<Rightarrow>
          let sadv = consumed rest srem in
          (case item srem of
             Inl e \<Rightarrow>
               if \<not> fatal e \<and> sadv = 0 then Inr (rest, out) else Inl (lift_err (base + sadv) e)
           | Inr (irem, v) \<Rightarrow>
               if consumed rest irem = 0 then Inr (rest, out)
               else separated_loop item sep irem (base + consumed rest irem) (out @ [v])))"
  by pat_completeness auto
termination
  by (relation "measure (\<lambda>(_, _, rest, _). length rest)") (auto simp: consumed_def)

declare separated_loop.simps [simp del]

definition separated_list :: "('i, 'o) parser \<Rightarrow> ('i, 's) parser \<Rightarrow> ('i, 'o list) parser" where
  "separated_list item sep inp =
     (case item inp of
        Inl e \<Rightarrow> if fatal e then Inl e else Inr (inp, [])
      | Inr (rem, v) \<Rightarrow> separated_loop item sep rem (consumed inp rem) [v])"

section \<open>The contract of a parser\<close>

locale lawful_parser =
  fixes p :: "('i, 'o) parser"
  assumes rest_suffix: "p inp = Inr (rest, v) \<Longrightarrow> suffix rest inp"
    and error_bound: "p inp = Inl e \<Longrightarrow> byte_offset e \<le> length inp"
begin

lemma rest_length: "p inp = Inr (rest, v) \<Longrightarrow> length rest \<le> length inp"
  by (blast dest: rest_suffix suffix_length_le)

lemma consumed_split: "p inp = Inr (rest, v) \<Longrightarrow> inp = take (consumed inp rest) inp @ rest"
  by (auto dest!: rest_suffix simp: suffix_def consumed_def)

lemma lifted_bound:
  assumes "p mid = Inl e" and "suffix mid inp"
  shows "byte_offset (lift_err (consumed inp mid) e) \<le> length inp"
  using error_bound [OF assms(1)] suffix_length_le [OF assms(2)]
  by (simp add: lift_err_def consumed_def)

end

text \<open>A parser whose value is the span it consumed.\<close>

locale span_parser = lawful_parser p for p :: "('i, 'i list) parser" +
  assumes span: "p inp = Inr (rest, v) \<Longrightarrow> inp = v @ rest"

lemmas lawful_parserI = lawful_parser.intro
lemmas lawful_rest = lawful_parser.rest_suffix
lemmas lawful_err = lawful_parser.error_bound

lemma lift_err_offset [simp]: "byte_offset (lift_err b e) = byte_offset e + b"
  by (simp add: lift_err_def)

lemma lift_err_fatal [simp]: "fatal (lift_err b e) = fatal e"
  by (simp add: lift_err_def)

lemma mk_error_simps [simp]:
  "byte_offset (mk_error off m) = off" "fatal (mk_error off m) = False" "message (mk_error off m) = m"
  by (simp_all add: mk_error_def)

lemma count_while_le: "count_while pred xs \<le> length xs"
  by (induction xs) auto

lemma find_sub_le: "find_sub needle hay = Some n \<Longrightarrow> n + length needle \<le> length hay"
  by (induction hay arbitrary: n) (auto split: if_splits dest: arg_cong [where f = length])

lemma lawful_one [parser_intros]: "lawful_parser (one_p pred)"
  by (rule lawful_parserI) (auto simp: one_p_def suffix_drop split: if_splits)

lemma lawful_tag [parser_intros]: "lawful_parser (tag_p expected)"
  by (rule lawful_parserI) (auto simp: tag_p_def suffix_drop split: if_splits)

lemma lawful_take_while [parser_intros]: "lawful_parser (take_while_p pred)"
  by (rule lawful_parserI) (auto simp: take_while_p_def Let_def suffix_drop)

lemma lawful_take_while1 [parser_intros]: "lawful_parser (take_while1 pred)"
  by (rule lawful_parserI) (auto simp: take_while1_def Let_def suffix_drop split: if_splits)

lemma lawful_take_till [parser_intros]: "lawful_parser (take_till pred)"
  by (rule lawful_parserI) (auto simp: take_till_def Let_def suffix_drop)

lemma lawful_take_until [parser_intros]: "lawful_parser (take_until needle)"
  by (rule lawful_parserI) (auto simp: take_until_def suffix_drop split: option.splits)

lemma lawful_alt_run:
  "lawful_parser p \<Longrightarrow> \<forall>q \<in> set ps. lawful_parser q \<Longrightarrow> lawful_parser (alt_run p ps)"
proof (induction ps arbitrary: p)
  case Nil
  then show ?case by (simp add: lawful_parser_def)
next
  case (Cons q ps)
  then have q: "lawful_parser (alt_run q ps)" by simp
  show ?case
    using lawful_rest [OF q] lawful_err [OF q] lawful_rest [OF Cons.prems(1)] lawful_err [OF Cons.prems(1)]
    by (intro lawful_parserI) (auto split: sum.splits if_splits)
qed

lemma lawful_alt [parser_intros]:
  "lawful_parser p \<Longrightarrow> list_all lawful_parser ps \<Longrightarrow> lawful_parser (alt p ps)"
  using lawful_alt_run [of p ps] by (simp add: lawful_parser_def alt_def list_all_iff)

lemma lawful_seq [parser_intros]:
  assumes p: "lawful_parser p" and q: "lawful_parser q"
  shows "lawful_parser (seq p q)"
proof (rule lawful_parserI)
  fix inp rest v
  assume "seq p q inp = Inr (rest, v)"
  then show "suffix rest inp"
    by (auto simp: seq_def split: sum.splits prod.splits
        dest!: lawful_rest [OF p] lawful_rest [OF q] intro: suffix_order.trans)
next
  fix inp e
  assume "seq p q inp = Inl e"
  then show "byte_offset e \<le> length inp"
    by (auto simp: seq_def split: sum.splits prod.splits simp del: lift_err_offset
        dest!: lawful_rest [OF p] intro: lawful_err [OF p] lawful_parser.lifted_bound [OF q])
qed

lemma lawful_cut [parser_intros]: "lawful_parser p \<Longrightarrow> lawful_parser (cut p)"
  by (rule lawful_parserI)
    (auto simp: cut_def split: sum.splits dest: lawful_rest lawful_err)

lemma lawful_opt [parser_intros]: "lawful_parser p \<Longrightarrow> lawful_parser (opt p)"
  by (rule lawful_parserI)
    (auto simp: opt_def split: sum.splits prod.splits if_splits dest: lawful_rest lawful_err)

lemma lawful_map [parser_intros]: "lawful_parser p \<Longrightarrow> lawful_parser (map_p p f)"
  by (rule lawful_parserI)
    (auto simp: map_p_def split: sum.splits prod.splits dest: lawful_rest lawful_err)

lemma lawful_recognize [parser_intros]: "lawful_parser p \<Longrightarrow> lawful_parser (recognize p)"
  by (rule lawful_parserI)
    (auto simp: recognize_def split: sum.splits prod.splits dest: lawful_rest lawful_err)

lemma lawful_all_consuming [parser_intros]: "lawful_parser p \<Longrightarrow> lawful_parser (all_consuming p)"
  by (rule lawful_parserI)
    (auto simp: all_consuming_def consumed_def split: sum.splits prod.splits if_splits
      dest: lawful_rest lawful_err)

lemma lawful_preceded [parser_intros]:
  assumes p: "lawful_parser p" and q: "lawful_parser q"
  shows "lawful_parser (preceded p q)"
proof -
  have "preceded p q = map_p (seq p q) snd"
    by (rule ext) (simp add: preceded_def map_p_def seq_def split: sum.split prod.split)
  then show ?thesis using p q by (simp add: lawful_map lawful_seq)
qed

lemma lawful_delimited [parser_intros]:
  assumes p: "lawful_parser p" and q: "lawful_parser q" and r: "lawful_parser r"
  shows "lawful_parser (delimited p q r)"
proof -
  have "delimited p q r inp = map_p (seq p (seq q r)) (fst \<circ> snd) inp" for inp
    by (auto simp: delimited_def map_p_def seq_def Let_def lift_err_def split: sum.split prod.split)
  then have "delimited p q r = map_p (seq p (seq q r)) (fst \<circ> snd)" by (rule ext)
  then show ?thesis using p q r by (simp add: lawful_map lawful_seq)
qed

lemma many_loop_lawful:
  assumes p: "lawful_parser p"
  shows "many_loop p rest base out = r \<Longrightarrow>
    (case r of Inr (rem, vs) \<Rightarrow> suffix rem rest | Inl e \<Rightarrow> byte_offset e \<le> base + length rest)"
proof (induction rest arbitrary: base out r rule: measure_induct_rule [of length])
  case (less rest)
  show ?case
  proof (cases "p rest")
    case (Inl e)
    with lawful_err [OF p Inl] less.prems show ?thesis
      by (auto simp: many_loop.simps [of p rest])
  next
    case (Inr x)
    then obtain rem v where x: "p rest = Inr (rem, v)" by (cases x) auto
    note sfx = lawful_rest [OF p x]
    show ?thesis
    proof (cases "consumed rest rem = 0")
      case True
      with less.prems x show ?thesis by (auto simp: many_loop.simps [of p rest] Let_def)
    next
      case False
      then have l: "length rem < length rest" by (simp add: consumed_def)
      with less.prems x False have "many_loop p rem (base + consumed rest rem) (out @ [v]) = r"
        by (simp add: many_loop.simps [of p rest] Let_def)
      from less.IH [OF l this] sfx l show ?thesis
        by (auto simp: consumed_def split: sum.splits intro: suffix_order.trans)
    qed
  qed
qed

lemma lawful_many [parser_intros]: "lawful_parser p \<Longrightarrow> lawful_parser (many p)"
  by (rule lawful_parserI) (auto simp: many_def dest!: many_loop_lawful)

lemma separated_loop_lawful:
  assumes p: "lawful_parser p" and q: "lawful_parser q"
  shows "separated_loop p q rest base out = r \<Longrightarrow>
    (case r of Inr (rem, vs) \<Rightarrow> suffix rem rest | Inl e \<Rightarrow> byte_offset e \<le> base + length rest)"
proof (induction rest arbitrary: base out r rule: measure_induct_rule [of length])
  case (less rest)
  note step = separated_loop.simps [of p q rest]
  show ?case
  proof (cases "q rest")
    case (Inl e)
    with lawful_err [OF q Inl] less.prems show ?thesis by (auto simp: step)
  next
    case (Inr x)
    then obtain srem u where s: "q rest = Inr (srem, u)" by (cases x) auto
    note ssfx = lawful_rest [OF q s]
    show ?thesis
    proof (cases "p srem")
      case (Inl e)
      with lawful_err [OF p Inl] suffix_length_le [OF ssfx] s less.prems show ?thesis
        by (auto simp: step Let_def consumed_def split: if_splits)
    next
      case (Inr y)
      then obtain irem v where i: "p srem = Inr (irem, v)" by (cases y) auto
      have sfx: "suffix irem rest" using lawful_rest [OF p i] ssfx by (rule suffix_order.trans)
      show ?thesis
      proof (cases "consumed rest irem = 0")
        case True
        with less.prems s i show ?thesis by (auto simp: step Let_def)
      next
        case False
        then have l: "length irem < length rest" by (simp add: consumed_def)
        with less.prems s i False
        have "separated_loop p q irem (base + consumed rest irem) (out @ [v]) = r"
          by (simp add: step Let_def)
        from less.IH [OF l this] sfx l show ?thesis
          by (auto simp: consumed_def split: sum.splits intro: suffix_order.trans)
      qed
    qed
  qed
qed

lemma lawful_separated_list [parser_intros]:
  assumes p: "lawful_parser p" and q: "lawful_parser q"
  shows "lawful_parser (separated_list p q)"
proof (rule lawful_parserI)
  fix inp rest vs
  assume "separated_list p q inp = Inr (rest, vs)"
  then show "suffix rest inp"
    by (auto simp: separated_list_def split: sum.splits if_splits prod.splits
        dest!: separated_loop_lawful [OF p q] lawful_rest [OF p] intro: suffix_order.trans)
next
  fix inp e
  assume a: "separated_list p q inp = Inl e"
  show "byte_offset e \<le> length inp"
  proof (cases "p inp")
    case (Inl e')
    with a lawful_err [OF p Inl] show ?thesis by (auto simp: separated_list_def split: if_splits)
  next
    case (Inr x)
    then obtain rem v where x: "p inp = Inr (rem, v)" by (cases x) auto
    with a have "separated_loop p q rem (consumed inp rem) [v] = Inl e" by (simp add: separated_list_def)
    from separated_loop_lawful [OF p q this] suffix_length_le [OF lawful_rest [OF p x]]
    show ?thesis by (simp add: consumed_def)
  qed
qed

section \<open>Spans\<close>

lemma span_recognize [parser_intros]: "lawful_parser p \<Longrightarrow> span_parser (recognize p)"
  by (auto simp: span_parser_def span_parser_axioms_def lawful_recognize recognize_def
      split: sum.splits prod.splits dest!: lawful_parser.consumed_split)

lemma span_take_while1 [parser_intros]: "span_parser (take_while1 pred)"
  by (auto simp: span_parser_def span_parser_axioms_def lawful_take_while1 take_while1_def Let_def
      split: if_splits)

lemma span_alt [parser_intros]:
  assumes "span_parser p" and "list_all span_parser ps"
  shows "span_parser (alt p ps)"
proof -
  have "alt_run p ps inp = Inr (rest, v) \<Longrightarrow> inp = v @ rest" for inp rest v
    using assms
  proof (induction ps arbitrary: p)
    case Nil
    then show ?case by (simp add: span_parser.span)
  next
    case (Cons q ps)
    then show ?case by (auto split: sum.splits if_splits dest: span_parser.span)
  qed
  moreover have "lawful_parser (alt p ps)"
    using assms by (intro parser_intros) (auto simp: list_all_iff span_parser_def)
  ultimately show ?thesis by (simp add: span_parser_def span_parser_axioms_def alt_def)
qed

section \<open>What the backtracking combinators compute\<close>

definition soft_fail :: "Error + 'a \<Rightarrow> bool" where
  "soft_fail r = (case r of Inl e \<Rightarrow> \<not> fatal e | Inr _ \<Rightarrow> False)"

lemma soft_fail_simps [simp]: "soft_fail (Inl e) = (\<not> fatal e)" "soft_fail (Inr x) = False"
  by (simp_all add: soft_fail_def)

lemma soft_failE: "soft_fail r \<Longrightarrow> (\<And>e. r = Inl e \<Longrightarrow> \<not> fatal e \<Longrightarrow> P) \<Longrightarrow> P"
  by (cases r) auto

lemma alt_run_commits:
  "find (\<lambda>q. \<not> soft_fail (q inp)) (p # ps) = Some q \<Longrightarrow> alt_run p ps inp = q inp"
proof (induction ps arbitrary: p)
  case Nil
  then show ?case by (simp split: if_splits)
next
  case (Cons p1 ps)
  show ?case
  proof (cases "soft_fail (p inp)")
    case True
    then obtain e where e: "p inp = Inl e" "\<not> fatal e" by (rule soft_failE)
    from Cons.prems True have f: "find (\<lambda>q. \<not> soft_fail (q inp)) (p1 # ps) = Some q" by simp
    then have "\<not> soft_fail (q inp)" unfolding find_Some_iff by blast
    with Cons.IH [OF f] e show ?thesis by (auto split: sum.splits)
  next
    case False
    with Cons.prems show ?thesis by (auto split: sum.splits)
  qed
qed

lemma alt_run_farthest:
  "\<forall>q \<in> set (p # ps). soft_fail (q inp) \<Longrightarrow>
   \<exists>xs e ys. map (\<lambda>q. q inp) (p # ps) = map Inl (xs @ e # ys) \<and> alt_run p ps inp = Inl e \<and>
      \<not> fatal e \<and> (\<forall>x \<in> set xs. byte_offset x < byte_offset e) \<and>
      (\<forall>y \<in> set ys. byte_offset y \<le> byte_offset e)"
proof (induction ps arbitrary: p)
  case Nil
  then obtain e where e: "p inp = Inl e" "\<not> fatal e" by (auto elim: soft_failE)
  then have "map (\<lambda>q. q inp) [p] = map Inl ([] @ e # [])" by simp
  with e show ?case by fastforce
next
  case (Cons p1 ps)
  from Cons.prems obtain e0 where e0: "p inp = Inl e0" "\<not> fatal e0" by (auto elim: soft_failE)
  from Cons.prems Cons.IH [of p1] obtain xs e ys where IH:
    "map (\<lambda>q. q inp) (p1 # ps) = map Inl (xs @ e # ys)" "alt_run p1 ps inp = Inl e" "\<not> fatal e"
    "\<forall>x \<in> set xs. byte_offset x < byte_offset e" "\<forall>y \<in> set ys. byte_offset y \<le> byte_offset e"
    by auto
  show ?case
  proof (cases "byte_offset e0 \<ge> byte_offset e")
    case True
    have "map (\<lambda>q. q inp) (p # p1 # ps) = map Inl ([] @ e0 # (xs @ e # ys))" using e0 IH(1) by simp
    moreover have "alt_run p (p1 # ps) inp = Inl e0" using e0 IH(2,3) True by simp
    moreover have "\<forall>y \<in> set (xs @ e # ys). byte_offset y \<le> byte_offset e0"
      using True IH(4,5) by fastforce
    ultimately show ?thesis using e0 by fastforce
  next
    case False
    have "map (\<lambda>q. q inp) (p # p1 # ps) = map Inl ((e0 # xs) @ e # ys)" using e0 IH(1) by simp
    moreover have "alt_run p (p1 # ps) inp = Inl e" using e0 IH(2,3) False by simp
    ultimately show ?thesis using IH(3-5) False by (intro exI [of _ "e0 # xs"]) auto
  qed
qed

inductive repeats :: "('i, 'o) parser \<Rightarrow> 'i list \<Rightarrow> 'o list \<Rightarrow> 'i list \<Rightarrow> bool" for p where
  repeats_Nil: "repeats p inp [] inp"
| repeats_Cons: "p inp = Inr (rem, v) \<Longrightarrow> length rem < length inp \<Longrightarrow> repeats p rem vs rest \<Longrightarrow>
    repeats p inp (v # vs) rest"

inductive_cases repeats_ConsE: "repeats p inp (v # vs) rest"

lemma repeats_length: "repeats p inp vs rest \<Longrightarrow> length vs + length rest \<le> length inp"
  by (induction rule: repeats.induct) auto

lemma repeats_stop:
  "\<forall>rem v. p inp = Inr (rem, v) \<longrightarrow> \<not> length rem < length inp \<Longrightarrow>
     repeats p inp ws rest \<longleftrightarrow> ws = [] \<and> rest = inp"
  by (auto intro: repeats_Nil elim: repeats.cases)

lemma repeats_step:
  assumes "p inp = Inr (rem, v)" and "length rem < length inp" and "soft_fail (p rest)"
  shows "repeats p inp ws rest \<longleftrightarrow> (\<exists>ws'. ws = v # ws' \<and> repeats p rem ws' rest)"
proof
  assume "repeats p inp ws rest"
  then show "\<exists>ws'. ws = v # ws' \<and> repeats p rem ws' rest"
    by (cases rule: repeats.cases) (use assms in auto)
next
  assume "\<exists>ws'. ws = v # ws' \<and> repeats p rem ws' rest"
  then show "repeats p inp ws rest" using assms(1,2) by (auto intro: repeats_Cons)
qed

lemma many_loop_repeats:
  "many_loop p inp base out = Inr (rest, vs) \<longleftrightarrow>
     (\<exists>ws. vs = out @ ws \<and> repeats p inp ws rest \<and> soft_fail (p rest))"
proof (induction inp arbitrary: base out rule: measure_induct_rule [of length])
  case (less inp)
  show ?case
  proof (cases "p inp")
    case (Inl e)
    then have "repeats p inp ws rest \<longleftrightarrow> ws = [] \<and> rest = inp" for ws by (simp add: repeats_stop)
    moreover have "many_loop p inp base out = (if fatal e then Inl (lift_err base e) else Inr (inp, out))"
      using Inl by (subst many_loop.simps) simp
    ultimately show ?thesis by (cases "rest = inp") (auto simp only: Inl soft_fail_simps split: if_splits)
  next
    case (Inr x)
    then obtain rem v where x: "p inp = Inr (rem, v)" by (cases x) auto
    show ?thesis
    proof (cases "length rem < length inp")
      case False
      with x have "repeats p inp ws rest \<longleftrightarrow> ws = [] \<and> rest = inp" for ws by (simp add: repeats_stop)
      moreover have "\<exists>e. many_loop p inp base out = Inl e"
        using x False by (subst many_loop.simps) (simp add: consumed_def)
      ultimately show ?thesis by (cases "rest = inp") (auto simp only: x soft_fail_simps)
    next
      case True
      have c: "consumed inp rem \<noteq> 0" using True by (simp add: consumed_def)
      have "many_loop p inp base out = many_loop p rem (base + consumed inp rem) (out @ [v])"
        using x c by (subst many_loop.simps) simp
      then have "many_loop p inp base out = Inr (rest, vs) \<longleftrightarrow>
          (\<exists>ws. vs = (out @ [v]) @ ws \<and> repeats p rem ws rest \<and> soft_fail (p rest))"
        by (simp only: less.IH [OF True])
      also have "\<dots> \<longleftrightarrow> (\<exists>ws. vs = out @ ws \<and> repeats p inp ws rest \<and> soft_fail (p rest))"
        by (cases "soft_fail (p rest)") (auto simp: repeats_step [of p inp rem v, OF x True])
      finally show ?thesis .
    qed
  qed
qed

section \<open>Properties\<close>

text \<open>
  Property C18. Alternation commits and reports: if some branch succeeds or fails fatally, the result
  is that of the first such branch; otherwise the result is the error of the branch that got
  farthest, the earliest one among equals.
\<close>

theorem alt_correct:
  "case find (\<lambda>q. \<not> soft_fail (q inp)) (p # ps) of
     Some q \<Rightarrow> alt p ps inp = q inp
   | None \<Rightarrow>
       \<exists>xs e ys. map (\<lambda>q. q inp) (p # ps) = map Inl (xs @ e # ys) \<and> alt p ps inp = Inl e \<and>
         (\<forall>x \<in> set xs. byte_offset x < byte_offset e) \<and>
         (\<forall>y \<in> set ys. byte_offset y \<le> byte_offset e)"
proof (cases "find (\<lambda>q. \<not> soft_fail (q inp)) (p # ps)")
  case None
  then have "\<forall>q \<in> set (p # ps). soft_fail (q inp)" unfolding find_None_iff by blast
  from alt_run_farthest [OF this] None show ?thesis unfolding alt_def by auto
next
  case (Some q)
  then show ?thesis by (simp add: alt_run_commits alt_def)
qed

theorem alt_correct_witness:
  "alt (tag_p ''ab'') [map_p (seq (tag_p ''a'') (tag_p ''c'')) fst] ''ax'' =
     Inl (mk_error 1 (''expected '' @ [CHR 0x22] @ ''c'' @ [CHR 0x22]))"
  using alt_correct [where p = "tag_p ''ab''" and ps = "[map_p (seq (tag_p ''a'') (tag_p ''c'')) fst]"
      and inp = "''ax''"]
  by (auto simp: tag_p_def map_p_def seq_def consumed_def lift_err_def mk_error_def Cons_eq_append_conv)

text \<open>
  Repetition is exact and always ends: \<open>many\<close> returns \<open>vs\<close> and \<open>rest\<close> precisely when
  applying the parser again and again, each time consuming something, yields \<open>vs\<close> and leads to
  \<open>rest\<close>, where the parser fails without commitment.
\<close>

theorem many_exact:
  "many p inp = Inr (rest, vs) \<longleftrightarrow> repeats p inp vs rest \<and> soft_fail (p rest)"
  by (simp add: many_def many_loop_repeats)

end
