(* ===== verification/Lexer.thy ===== *)
theory Lexer
  imports Combinators "HOL-Library.Char_ord"
begin

unbundle bit_operations_syntax

text \<open>
  The tokenizer of \<^verbatim>\<open>src/lexer.cpp\<close>: the lexical grammar written with the combinators, the
  classification of numbers, the decoding of string literals, and the post-pass that turns raw
  tokens into tokens. Characters are bytes. A raw token carries its span and the offset of the span
  in the source, the pointer difference \<^verbatim>\<open>span.data() - full.data()\<close> of the C++. Reading a character
  outside of a span is \<^verbatim>\<open>None\<close>.
\<close>

section \<open>Tokens\<close>

datatype (plugins only: code size) TokenKind =
    Identifier | IntLiteral | FloatLiteral | StringLiteral
  | KwSyntax | KwEdition | KwPackage | KwImport | KwWeak | KwPublic | KwOption | KwExport |
    KwLocal | KwMessage | KwEnum | KwService | KwExtend | KwExtensions | KwRpc | KwReturns |
    KwStream | KwGroup | KwOneof | KwRequired | KwOptional | KwRepeated | KwInt32 | KwInt64 |
    KwUint32 | KwUint64 | KwSint32 | KwSint64 | KwFixed32 | KwFixed64 | KwSfixed32 |
    KwSfixed64 | KwFloat | KwDouble | KwBool | KwString | KwBytes | KwReserved | KwMap | KwTo |
    KwMax | KwInf | KwNan
  | Semicolon | Comma | Dot | Colon | Slash | Equals | Minus | Plus | LAngle | RAngle |
    LParen | RParen | LBracket | RBracket | LBrace | RBrace

record Token =
  kind :: TokenKind
  tok_text :: string
  str_value :: string
  tok_offset :: nat

record LexResult =
  tokens :: "Token list"
  src_text :: string

section \<open>Character classes\<close>

definition is_whitespace :: "char \<Rightarrow> bool" where
  "is_whitespace c \<longleftrightarrow> c = CHR '' '' \<or> c = CHR 0x0A \<or> c = CHR 0x0D \<or> c = CHR 0x09 \<or> c = CHR 0x0C \<or> c = CHR 0x0B"

definition is_letter :: "char \<Rightarrow> bool" where
  "is_letter c \<longleftrightarrow> c \<ge> CHR ''a'' \<and> c \<le> CHR ''z'' \<or> c \<ge> CHR ''A'' \<and> c \<le> CHR ''Z'' \<or> c = CHR ''_''"

definition is_decimal_digit :: "char \<Rightarrow> bool" where
  "is_decimal_digit c \<longleftrightarrow> c \<ge> CHR ''0'' \<and> c \<le> CHR ''9''"

definition is_octal_digit :: "char \<Rightarrow> bool" where
  "is_octal_digit c \<longleftrightarrow> c \<ge> CHR ''0'' \<and> c \<le> CHR ''7''"

definition is_hex_digit :: "char \<Rightarrow> bool" where
  "is_hex_digit c \<longleftrightarrow>
     is_decimal_digit c \<or> c \<ge> CHR ''a'' \<and> c \<le> CHR ''f'' \<or> c \<ge> CHR ''A'' \<and> c \<le> CHR ''F''"

definition is_letter_or_digit :: "char \<Rightarrow> bool" where
  "is_letter_or_digit c \<longleftrightarrow> is_letter c \<or> is_decimal_digit c"

definition is_nonzero_digit :: "char \<Rightarrow> bool" where
  "is_nonzero_digit c \<longleftrightarrow> c \<ge> CHR ''1'' \<and> c \<le> CHR ''9''"

definition is_dot :: "char \<Rightarrow> bool" where "is_dot c \<longleftrightarrow> c = CHR ''.''"
definition is_exp_marker :: "char \<Rightarrow> bool" where "is_exp_marker c \<longleftrightarrow> c = CHR ''e'' \<or> c = CHR ''E''"
definition is_sign :: "char \<Rightarrow> bool" where "is_sign c \<longleftrightarrow> c = CHR ''+'' \<or> c = CHR ''-''"
definition is_x_marker :: "char \<Rightarrow> bool" where "is_x_marker c \<longleftrightarrow> c = CHR ''x'' \<or> c = CHR ''X''"
definition is_eol_or_nul :: "char \<Rightarrow> bool" where "is_eol_or_nul c \<longleftrightarrow> c = CHR 0x0A \<or> c = CHR 0x00"

abbreviation backslash :: char where "backslash \<equiv> CHR 0x5C"
abbreviation dquote :: char where "dquote \<equiv> CHR 0x22"
abbreviation squote :: char where "squote \<equiv> CHR 0x27"

definition is_simple_escape_char :: "char \<Rightarrow> bool" where
  "is_simple_escape_char c \<longleftrightarrow>
     c = CHR ''a'' \<or> c = CHR ''b'' \<or> c = CHR ''f'' \<or> c = CHR ''n'' \<or> c = CHR ''r'' \<or> c = CHR ''t'' \<or>
     c = CHR ''v'' \<or> c = backslash \<or> c = squote \<or> c = dquote \<or> c = CHR ''?''"

text \<open>
  The value of a character as a C++ \<^verbatim>\<open>int\<close>. \<^verbatim>\<open>char\<close> is read as unsigned; for the characters below
  0x80, the only ones the arithmetic is applied to, signedness makes no difference.
\<close>

definition char_int :: "char \<Rightarrow> int" where "char_int c = of_char c"

definition hex_value :: "char \<Rightarrow> int" where
  "hex_value c =
     (if c \<ge> CHR ''0'' \<and> c \<le> CHR ''9'' then char_int c - char_int CHR ''0''
      else if c \<ge> CHR ''a'' \<and> c \<le> CHR ''f'' then char_int c - char_int CHR ''a'' + 10
      else char_int c - char_int CHR ''A'' + 10)"

section \<open>Keywords and symbols\<close>

definition kKeywords :: "(string \<times> TokenKind) list" where
  "kKeywords =
    [(''syntax'', KwSyntax), (''edition'', KwEdition), (''package'', KwPackage),
     (''import'', KwImport), (''weak'', KwWeak), (''public'', KwPublic),
     (''option'', KwOption), (''export'', KwExport), (''local'', KwLocal),
     (''message'', KwMessage), (''enum'', KwEnum), (''service'', KwService),
     (''extend'', KwExtend), (''extensions'', KwExtensions), (''rpc'', KwRpc),
     (''returns'', KwReturns), (''stream'', KwStream), (''group'', KwGroup),
     (''oneof'', KwOneof), (''required'', KwRequired), (''optional'', KwOptional),
     (''repeated'', KwRepeated), (''int32'', KwInt32), (''int64'', KwInt64),
     (''uint32'', KwUint32), (''uint64'', KwUint64), (''sint32'', KwSint32),
     (''sint64'', KwSint64), (''fixed32'', KwFixed32), (''fixed64'', KwFixed64),
     (''sfixed32'', KwSfixed32), (''sfixed64'', KwSfixed64), (''float'', KwFloat),
     (''double'', KwDouble), (''bool'', KwBool), (''string'', KwString), (''bytes'', KwBytes),
     (''reserved'', KwReserved), (''map'', KwMap), (''to'', KwTo), (''max'', KwMax),
     (''inf'', KwInf), (''nan'', KwNan)]"

definition keyword_or_identifier :: "string \<Rightarrow> TokenKind" where
  "keyword_or_identifier txt = (case map_of kKeywords txt of None \<Rightarrow> Identifier | Some k \<Rightarrow> k)"

definition symbol_kind :: "char \<Rightarrow> TokenKind option" where
  "symbol_kind c =
     (if c = CHR '';'' then Some Semicolon
      else if c = CHR '','' then Some Comma
      else if c = CHR ''.'' then Some Dot
      else if c = CHR '':'' then Some Colon
      else if c = CHR ''/'' then Some Slash
      else if c = CHR ''='' then Some Equals
      else if c = CHR ''-'' then Some Minus
      else if c = CHR ''+'' then Some Plus
      else if c = CHR ''<'' then Some LAngle
      else if c = CHR ''>'' then Some RAngle
      else if c = CHR ''('' then Some LParen
      else if c = CHR '')'' then Some RParen
      else if c = CHR ''['' then Some LBracket
      else if c = CHR '']'' then Some RBracket
      else if c = CHR ''{'' then Some LBrace
      else if c = CHR ''}'' then Some RBrace
      else None)"

definition is_symbol_char :: "char \<Rightarrow> bool" where
  "is_symbol_char c \<longleftrightarrow> symbol_kind c \<noteq> None"

definition quote_byte :: "char \<Rightarrow> string" where
  "quote_byte c =
     (let uc = (of_char c :: nat); kHex = ''0123456789ABCDEF'' in
      if uc \<ge> 0x20 \<and> uc \<le> 0x7E then [c]
      else [backslash, CHR ''x'', kHex ! (uc div 2 ^ 4), kHex ! (uc mod 16)])"

section \<open>The lexical grammar\<close>

definition identifier_p :: "(char, string) parser" where
  "identifier_p = recognize (seq (one_p is_letter) (take_while_p is_letter_or_digit))"

definition digit_point_or_exp :: "(char, string) parser" where
  "digit_point_or_exp =
     alt (recognize (one_p is_decimal_digit))
       [recognize (one_p is_dot), recognize (seq (one_p is_exp_marker) (opt (one_p is_sign))),
        recognize (one_p is_letter)]"

definition numeric_literal :: "(char, string) parser" where
  "numeric_literal =
     recognize (seq (opt (tag_p ''.'')) (seq (one_p is_decimal_digit) (many digit_point_or_exp)))"

definition simple_escape_seq :: "(char, string) parser" where
  "simple_escape_seq = recognize (seq (tag_p [backslash]) (one_p is_simple_escape_char))"

definition hex_escape_seq :: "(char, string) parser" where
  "hex_escape_seq =
     recognize (seq (alt (tag_p [backslash, CHR ''x'']) [tag_p [backslash, CHR ''X'']])
       (seq (one_p is_hex_digit) (opt (one_p is_hex_digit))))"

definition octal_escape_seq :: "(char, string) parser" where
  "octal_escape_seq =
     recognize (seq (tag_p [backslash])
       (seq (one_p is_octal_digit) (seq (opt (one_p is_octal_digit)) (opt (one_p is_octal_digit)))))"

abbreviation hex_digit_p :: "(char, char) parser" where "hex_digit_p \<equiv> one_p is_hex_digit"

definition unicode_escape_seq :: "(char, string) parser" where
  "unicode_escape_seq =
     alt (recognize (seq (tag_p [backslash, CHR ''u''])
            (seq hex_digit_p (seq hex_digit_p (seq hex_digit_p hex_digit_p)))))
       [recognize (seq (tag_p [backslash, CHR ''U''])
            (seq hex_digit_p (seq hex_digit_p (seq hex_digit_p (seq hex_digit_p
              (seq hex_digit_p (seq hex_digit_p (seq hex_digit_p hex_digit_p))))))))]"

definition rune_escape_seq :: "(char, string) parser" where
  "rune_escape_seq = alt simple_escape_seq [hex_escape_seq, octal_escape_seq, unicode_escape_seq]"

definition string_body_char :: "char \<Rightarrow> (char, string) parser" where
  "string_body_char quote =
     alt (recognize (one_p (\<lambda>c. c \<noteq> quote \<and> c \<noteq> CHR 0x0A \<and> c \<noteq> CHR 0x00 \<and> c \<noteq> backslash)))
       [rune_escape_seq]"

definition double_quoted_string :: "(char, string) parser" where
  "double_quoted_string =
     recognize (seq (tag_p [dquote]) (cut (seq (many (string_body_char dquote)) (tag_p [dquote]))))"

definition single_quoted_string :: "(char, string) parser" where
  "single_quoted_string =
     recognize (seq (tag_p [squote]) (cut (seq (many (string_body_char squote)) (tag_p [squote]))))"

definition string_literal :: "(char, string) parser" where
  "string_literal = alt double_quoted_string [single_quoted_string]"

definition line_comment :: "(char, string) parser" where
  "line_comment = recognize (seq (tag_p ''//'') (take_till is_eol_or_nul))"

definition block_comment :: "(char, string) parser" where
  "block_comment = recognize (seq (tag_p ''/*'') (cut (seq (take_until ''*/'') (tag_p ''*/''))))"

definition comment_p :: "(char, string) parser" where
  "comment_p = alt line_comment [block_comment]"

section \<open>Classification of numbers\<close>

definition decimal_exponent :: "(char, char \<times> char option \<times> string) parser" where
  "decimal_exponent = seq (one_p is_exp_marker) (seq (opt (one_p is_sign)) (take_while1 is_decimal_digit))"

definition int_literal :: "(char, string) parser" where
  "int_literal =
     alt (recognize (seq (tag_p ''0'') (seq (one_p is_x_marker) (take_while1 is_hex_digit))))
       [recognize (seq (tag_p ''0'') (take_while1 is_octal_digit)),
        alt (tag_p ''0'') [recognize (seq (one_p is_nonzero_digit) (take_while_p is_decimal_digit))]]"

definition float_literal :: "(char, string) parser" where
  "float_literal =
     alt (recognize (seq (take_while1 is_decimal_digit) (seq (tag_p ''.'')
            (seq (take_while_p is_decimal_digit) (opt decimal_exponent)))))
       [recognize (seq (take_while1 is_decimal_digit) decimal_exponent),
        recognize (seq (tag_p ''.'') (seq (take_while1 is_decimal_digit) (opt decimal_exponent)))]"

definition classify_numeric :: "string \<Rightarrow> TokenKind option" where
  "classify_numeric txt =
     (if \<not> isl (all_consuming int_literal txt) then Some IntLiteral
      else if \<not> isl (all_consuming float_literal txt) then Some FloatLiteral
      else None)"

section \<open>The token stream\<close>

datatype Cat = Whitespace | Comment | StringLit | Numeric | Ident | Symbol

record RawToken =
  cat :: Cat
  span :: string
  span_off :: nat

text \<open>
  \<open>raw\<close> records where the span starts: the span a token parser produces begins at its input, which
  is the tail of the source \<open>full\<close> that remains.
\<close>

definition raw :: "string \<Rightarrow> Cat \<Rightarrow> (char, string) parser \<Rightarrow> (char, RawToken) parser" where
  "raw full c parser inp =
     map_p parser (\<lambda>s. \<lparr>cat = c, span = s, span_off = length full - length inp\<rparr>) inp"

definition raw_token :: "string \<Rightarrow> (char, RawToken) parser" where
  "raw_token full =
     alt (raw full Whitespace (take_while1 is_whitespace))
       [raw full Comment comment_p, raw full StringLit string_literal, raw full Numeric numeric_literal,
        raw full Ident identifier_p, raw full Symbol (recognize (one_p is_symbol_char))]"

definition token_stream :: "string \<Rightarrow> (char, RawToken list) parser" where
  "token_stream full = many (raw_token full)"

section \<open>Decoding string literals\<close>

definition kMaxCodePoint :: u32 where "kMaxCodePoint = 0x10FFFF"
definition kSurrogateLo :: u32 where "kSurrogateLo = 0xD800"
definition kSurrogateHi :: u32 where "kSurrogateHi = 0xDFFF"

definition push_byte :: "string \<Rightarrow> u32 \<Rightarrow> string" where
  "push_byte out v = out @ [char_of (unat (v AND 0xFF))]"

definition append_utf8 :: "string \<Rightarrow> u32 \<Rightarrow> string" where
  "append_utf8 out cp =
     (if cp \<le> 0x7F then push_byte out cp
      else if cp \<le> 0x7FF then
        push_byte (push_byte out (0xC0 OR drop_bit 6 cp)) (0x80 OR (cp AND 0x3F))
      else if cp \<le> 0xFFFF then
        push_byte (push_byte (push_byte out (0xE0 OR drop_bit 12 cp)) (0x80 OR (drop_bit 6 cp AND 0x3F)))
          (0x80 OR (cp AND 0x3F))
      else
        push_byte (push_byte (push_byte (push_byte out (0xF0 OR drop_bit 18 cp))
          (0x80 OR (drop_bit 12 cp AND 0x3F))) (0x80 OR (drop_bit 6 cp AND 0x3F))) (0x80 OR (cp AND 0x3F)))"

text \<open>Reads up to \<open>k\<close> digits of a \<^verbatim>\<open>\u\<close> or \<^verbatim>\<open>\U\<close> escape.\<close>

fun unicode_digits :: "string \<Rightarrow> nat \<Rightarrow> nat \<Rightarrow> u32 \<Rightarrow> nat \<times> u32" where
  "unicode_digits sp i 0 cp = (i, cp)"
| "unicode_digits sp i (Suc k) cp =
     (if i < length sp then unicode_digits sp (i + 1) k (cp * 16 + word_of_int (hex_value (sp ! i)))
      else (i, cp))"

definition append_unicode_escape ::
    "string \<Rightarrow> nat \<Rightarrow> nat \<Rightarrow> nat \<Rightarrow> string \<Rightarrow> Error + nat \<times> string" where
  "append_unicode_escape sp i digits esc_off out =
     (let (i', cp) = unicode_digits sp i digits 0 in
      if cp > kMaxCodePoint then Inl (mk_error esc_off ''unicode escape is out of range'')
      else if cp \<ge> kSurrogateLo \<and> cp \<le> kSurrogateHi then
        Inl (mk_error esc_off ''unicode escape is a surrogate code point'')
      else Inr (i', append_utf8 out cp))"

fun hex_digits :: "string \<Rightarrow> nat \<Rightarrow> nat \<Rightarrow> u32 \<Rightarrow> nat \<times> u32" where
  "hex_digits sp i 0 v = (i, v)"
| "hex_digits sp i (Suc k) v =
     (if i < length sp \<and> is_hex_digit (sp ! i) then
        hex_digits sp (i + 1) k (v * 16 + word_of_int (hex_value (sp ! i)))
      else (i, v))"

fun octal_digits :: "string \<Rightarrow> nat \<Rightarrow> nat \<Rightarrow> u32 \<Rightarrow> nat \<times> u32" where
  "octal_digits sp i 0 v = (i, v)"
| "octal_digits sp i (Suc k) v =
     (if i < length sp \<and> is_octal_digit (sp ! i) then
        octal_digits sp (i + 1) k (v * 8 + word_of_int (char_int (sp ! i) - char_int CHR ''0''))
      else (i, v))"

text \<open>The bytes of the one-letter escapes.\<close>

definition simple_escape :: "char \<Rightarrow> char option" where
  "simple_escape e =
     (if e = CHR ''a'' then Some (CHR 0x07)
      else if e = CHR ''b'' then Some (CHR 0x08)
      else if e = CHR ''f'' then Some (CHR 0x0C)
      else if e = CHR ''n'' then Some (CHR 0x0A)
      else if e = CHR ''r'' then Some (CHR 0x0D)
      else if e = CHR ''t'' then Some (CHR 0x09)
      else if e = CHR ''v'' then Some (CHR 0x0B)
      else if e = backslash then Some backslash
      else if e = squote then Some squote
      else if e = dquote then Some dquote
      else if e = CHR ''?'' then Some (CHR ''?'')
      else None)"

definition decode_escape ::
    "string \<Rightarrow> nat \<Rightarrow> nat \<Rightarrow> string \<Rightarrow> (Error + nat \<times> string) option" where
  "decode_escape sp i0 base out =
     (let esc_off = base + i0; i = i0 + 1 in
      if \<not> i < length sp then None
      else
        let e = sp ! i in
        (case simple_escape e of
           Some b \<Rightarrow> Some (Inr (i + 1, out @ [b]))
         | None \<Rightarrow>
             if e = CHR ''u'' then Some (append_unicode_escape sp (i + 1) 4 esc_off out)
             else if e = CHR ''U'' then Some (append_unicode_escape sp (i + 1) 8 esc_off out)
             else if e = CHR ''x'' \<or> e = CHR ''X'' then
               (let (i', v) = hex_digits sp (i + 1) 2 0 in Some (Inr (i', push_byte out v)))
             else (let (i', v) = octal_digits sp i 3 0 in Some (Inr (i', push_byte out v)))))"

lemma unicode_digits_ge: "unicode_digits sp i k cp = (i', v) \<Longrightarrow> i \<le> i'"
  by (induction k arbitrary: i cp) (auto split: if_splits dest: Suc_leD)

lemma hex_digits_ge: "hex_digits sp i k cp = (i', v) \<Longrightarrow> i \<le> i'"
  by (induction k arbitrary: i cp) (auto split: if_splits dest: Suc_leD)

lemma octal_digits_ge: "octal_digits sp i k cp = (i', v) \<Longrightarrow> i \<le> i'"
  by (induction k arbitrary: i cp) (auto split: if_splits dest: Suc_leD)

lemma decode_escape_advances: "decode_escape sp i base out = Some (Inr (i', out')) \<Longrightarrow> i < i'"
  by (auto simp: decode_escape_def append_unicode_escape_def Let_def
      split: if_splits option.splits prod.splits
      dest!: unicode_digits_ge hex_digits_ge octal_digits_ge)

function decode_string_loop ::
    "string \<Rightarrow> nat \<Rightarrow> nat \<Rightarrow> nat \<Rightarrow> string \<Rightarrow> (Error + string) option" where
  "decode_string_loop sp close base i out =
     (if i < close then
        if \<not> i < length sp then None
        else if sp ! i = backslash then
          (case decode_escape sp i base out of
             None \<Rightarrow> None
           | Some (Inl e) \<Rightarrow> Some (Inl e)
           | Some (Inr (i', out')) \<Rightarrow> decode_string_loop sp close base i' out')
        else decode_string_loop sp close base (i + 1) (out @ [sp ! i])
      else Some (Inr out))"
  by pat_completeness auto
termination
  by (relation "measure (\<lambda>(_, close, _, i, _). close - i)") (auto dest: decode_escape_advances)

declare decode_string_loop.simps [simp del]

definition decode_string :: "string \<Rightarrow> nat \<Rightarrow> string \<Rightarrow> (Error + string) option" where
  "decode_string sp base out = decode_string_loop sp (length sp - 1) base 1 out"

definition validate_comment :: "string \<Rightarrow> nat \<Rightarrow> Error option" where
  "validate_comment sp off =
     (let nul = count_while (\<lambda>c. c \<noteq> CHR 0x00) sp in
      if nul < length sp then Some (mk_error (off + nul) ''null character in comment'') else None)"

section \<open>The post-pass\<close>

text \<open>The inner loop over whitespace and comments between adjacent string literals.\<close>

function skip_trivia :: "RawToken list \<Rightarrow> nat \<Rightarrow> Error + nat" where
  "skip_trivia raws j =
     (if j < length raws \<and> (cat (raws ! j) = Whitespace \<or> cat (raws ! j) = Comment) then
        (case (if cat (raws ! j) = Comment then validate_comment (span (raws ! j)) (span_off (raws ! j))
               else None) of
           Some e \<Rightarrow> Inl e
         | None \<Rightarrow> skip_trivia raws (j + 1))
      else Inr j)"
  by pat_completeness auto
termination
  by (relation "measure (\<lambda>(raws, j). length raws - j)") auto

declare skip_trivia.simps [simp del]

lemma skip_trivia_ge: "skip_trivia raws j = Inr j' \<Longrightarrow> j \<le> j'"
proof (induction raws j rule: skip_trivia.induct)
  case (1 raws j)
  show ?case using 1(2) 1(1)
    by (subst (asm) skip_trivia.simps) (auto split: if_splits option.splits dest: Suc_leD)
qed

text \<open>The loop over the adjacent literals: the merged value, its end in the source and the next index.\<close>

function string_run ::
    "RawToken list \<Rightarrow> nat \<Rightarrow> string \<Rightarrow> nat \<Rightarrow> (Error + nat \<times> string \<times> nat) option" where
  "string_run raws j value end_off =
     (case skip_trivia raws j of
        Inl e \<Rightarrow> Some (Inl e)
      | Inr j1 \<Rightarrow>
          if j1 \<ge> length raws \<or> cat (raws ! j1) \<noteq> StringLit then Some (Inr (j1, value, end_off))
          else
            let noff = span_off (raws ! j1) in
            (case decode_string (span (raws ! j1)) noff value of
               None \<Rightarrow> None
             | Some (Inl e) \<Rightarrow> Some (Inl e)
             | Some (Inr value') \<Rightarrow> string_run raws (j1 + 1) value' (noff + length (span (raws ! j1)))))"
  by pat_completeness auto
termination
  by (relation "measure (\<lambda>(raws, j, _). length raws - j)") (auto dest: skip_trivia_ge)

declare string_run.simps [simp del]

lemma string_run_ge: "string_run raws j val e = Some (Inr (j', v, e')) \<Longrightarrow> j \<le> j'"
proof (induction "length raws - j" arbitrary: j val e rule: less_induct)
  case less
  note step = string_run.simps [of raws j val e]
  from less.prems obtain j1 where t: "skip_trivia raws j = Inr j1" by (auto simp: step split: sum.splits)
  note ge = skip_trivia_ge [OF t]
  show ?case
  proof (cases "j1 \<ge> length raws \<or> cat (raws ! j1) \<noteq> StringLit")
    case True
    with less.prems t ge show ?thesis by (auto simp: step)
  next
    case False
    with less.prems t obtain v1 e1 where "string_run raws (j1 + 1) v1 e1 = Some (Inr (j', v, e'))"
      by (auto simp: step Let_def split: option.splits sum.splits)
    moreover have "length raws - (j1 + 1) < length raws - j" using False ge by auto
    ultimately have "j1 + 1 \<le> j'" by (rule less.hyps [rotated])
    with ge show ?thesis by simp
  qed
qed

definition append_string_token ::
    "RawToken list \<Rightarrow> nat \<Rightarrow> string \<Rightarrow> Token list \<Rightarrow> (Error + nat \<times> Token list) option" where
  "append_string_token raws i full toks =
     (let off = span_off (raws ! i) in
      case decode_string (span (raws ! i)) off [] of
        None \<Rightarrow> None
      | Some (Inl e) \<Rightarrow> Some (Inl e)
      | Some (Inr value) \<Rightarrow>
          (case string_run raws (i + 1) value (off + length (span (raws ! i))) of
             None \<Rightarrow> None
           | Some (Inl e) \<Rightarrow> Some (Inl e)
           | Some (Inr (j, value', end_off)) \<Rightarrow>
               Some (Inr (j, toks @ [\<lparr>kind = StringLiteral, tok_text = take (end_off - off) (drop off full),
                                       str_value = value', tok_offset = off\<rparr>]))))"

definition plain_token :: "TokenKind \<Rightarrow> RawToken \<Rightarrow> Token" where
  "plain_token k rt = \<lparr>kind = k, tok_text = span rt, str_value = [], tok_offset = span_off rt\<rparr>"

function build_loop ::
    "RawToken list \<Rightarrow> string \<Rightarrow> nat \<Rightarrow> Token list \<Rightarrow> (Error + Token list) option" where
  "build_loop raws full i toks =
     (if i < length raws then
        let rt = raws ! i; off = span_off rt; sv = span rt in
        (case cat rt of
           Whitespace \<Rightarrow> build_loop raws full (i + 1) toks
         | Comment \<Rightarrow>
             (case validate_comment sv off of
                Some e \<Rightarrow> Some (Inl e)
              | None \<Rightarrow> build_loop raws full (i + 1) toks)
         | Ident \<Rightarrow> build_loop raws full (i + 1) (toks @ [plain_token (keyword_or_identifier sv) rt])
         | Symbol \<Rightarrow>
             if sv = [] then None
             else (case symbol_kind (sv ! 0) of
                     None \<Rightarrow> None
                   | Some k \<Rightarrow> build_loop raws full (i + 1) (toks @ [plain_token k rt]))
         | Numeric \<Rightarrow>
             (case classify_numeric sv of
                None \<Rightarrow> Some (Inl (mk_error off (''invalid numeric literal '' @ [squote] @ sv @ [squote])))
              | Some k \<Rightarrow> build_loop raws full (i + 1) (toks @ [plain_token k rt]))
         | StringLit \<Rightarrow>
             (case append_string_token raws i full toks of
                None \<Rightarrow> None
              | Some (Inl e) \<Rightarrow> Some (Inl e)
              | Some (Inr (i', toks')) \<Rightarrow> build_loop raws full i' toks'))
      else Some (Inr toks))"
  by pat_completeness auto
termination
  by (relation "measure (\<lambda>(raws, _, i, _). length raws - i)")
    (auto simp: append_string_token_def Let_def split: option.splits sum.splits dest!: string_run_ge)

declare build_loop.simps [simp del]

definition build_tokens :: "RawToken list \<Rightarrow> string \<Rightarrow> (Error + Token list) option" where
  "build_tokens raws full = build_loop raws full 0 []"

definition has_bom :: "string \<Rightarrow> bool" where
  "has_bom s \<longleftrightarrow> length s \<ge> 3 \<and> s ! 0 = CHR 0xEF \<and> s ! 1 = CHR 0xBB \<and> s ! 2 = CHR 0xBF"

definition lex :: "string \<Rightarrow> (Error + LexResult) option" where
  "lex full =
     (let start = (if has_bom full then 3 else 0) in
      case token_stream full (drop start full) of
        Inl e \<Rightarrow> Some (Inl (lift_err start e))
      | Inr (rem, raws) \<Rightarrow>
          (case build_tokens raws full of
             None \<Rightarrow> None
           | Some (Inl e) \<Rightarrow> Some (Inl e)
           | Some (Inr toks) \<Rightarrow>
               if rem \<noteq> [] then
                 let off = length full - length rem in
                 Some (Inl (mk_error off (''unexpected character '' @ [squote] @ quote_byte (full ! off) @ [squote])))
               else Some (Inr \<lparr>tokens = toks, src_text = full\<rparr>)))"

section \<open>The grammar is lawful and its spans tile the source\<close>

lemmas lex_defs =
  identifier_p_def digit_point_or_exp_def numeric_literal_def simple_escape_seq_def
  hex_escape_seq_def octal_escape_seq_def unicode_escape_seq_def rune_escape_seq_def
  string_body_char_def double_quoted_string_def single_quoted_string_def string_literal_def
  line_comment_def block_comment_def comment_p_def

lemma span_literals [parser_intros]:
  "span_parser comment_p" "span_parser string_literal" "span_parser numeric_literal"
  "span_parser identifier_p"
  unfolding lex_defs by (intro parser_intros | simp only: list.pred_inject | rule conjI TrueI)+

text \<open>The four literal classes keep the span contract.\<close>

interpretation comment_p: span_parser comment_p by (rule span_literals)

interpretation string_literal: span_parser string_literal by (rule span_literals)

interpretation numeric_literal: span_parser numeric_literal by (rule span_literals)

interpretation identifier_p: span_parser identifier_p by (rule span_literals)

lemma raw_span:
  assumes "span_parser parser" and "raw full c parser inp = Inr (rest, rt)"
  shows "inp = span rt @ rest" and "span_off rt = length full - length inp" and "cat rt = c"
  using assms by (auto simp: raw_def map_p_def split: sum.splits prod.splits dest: span_parser.span)

lemma lawful_raw [parser_intros]: "lawful_parser parser \<Longrightarrow> lawful_parser (raw full c parser)"
  by (rule lawful_parserI)
    (auto simp: raw_def map_p_def split: sum.splits prod.splits dest: lawful_rest lawful_err)

text \<open>What one raw token is: its span at its offset, and of the class its parser accepts.\<close>

definition raw_ok :: "string \<Rightarrow> RawToken \<Rightarrow> bool" where
  "raw_ok full rt \<longleftrightarrow>
     span_off rt + length (span rt) \<le> length full \<and>
     take (length (span rt)) (drop (span_off rt) full) = span rt \<and> span rt \<noteq> [] \<and>
     (cat rt = Symbol \<longrightarrow> is_symbol_char (hd (span rt)))"

lemma alt_run_cases:
  "alt_run p ps inp = Inr r \<Longrightarrow> \<exists>q \<in> set (p # ps). q inp = Inr r"
  by (induction ps arbitrary: p) (auto split: sum.splits if_splits)

lemma alt_cases: "alt p ps inp = Inr r \<Longrightarrow> \<exists>q \<in> set (p # ps). q inp = Inr r"
  unfolding alt_def by (rule alt_run_cases)

lemma span_symbol: "span_parser (recognize (one_p is_symbol_char))"
  by (intro parser_intros)

lemma raw_token_span:
  assumes "raw_token full inp = Inr (rest, rt)"
  shows "inp = span rt @ rest" and "span_off rt = length full - length inp"
    and "cat rt = Symbol \<Longrightarrow> is_symbol_char (hd (span rt))"
proof -
  have "raw full Whitespace (take_while1 is_whitespace) inp = Inr (rest, rt) \<or>
    raw full Comment comment_p inp = Inr (rest, rt) \<or> raw full StringLit string_literal inp = Inr (rest, rt) \<or>
    raw full Numeric numeric_literal inp = Inr (rest, rt) \<or> raw full Ident identifier_p inp = Inr (rest, rt) \<or>
    raw full Symbol (recognize (one_p is_symbol_char)) inp = Inr (rest, rt)"
    using assms by (auto simp: raw_token_def dest!: alt_cases)
  then obtain c q where q: "span_parser q" "raw full c q inp = Inr (rest, rt)"
    and sym: "c = Symbol \<longrightarrow> q = recognize (one_p is_symbol_char)"
    by (elim disjE) (erule that [rotated], (simp_all add: span_literals span_take_while1 span_symbol)[2])+
  note r = raw_span [OF q]
  then show "inp = span rt @ rest" "span_off rt = length full - length inp" by auto
  assume "cat rt = Symbol"
  with r(3) sym q(2) have "raw full c (recognize (one_p is_symbol_char)) inp = Inr (rest, rt)" by simp
  then show "is_symbol_char (hd (span rt))"
    by (auto simp: raw_def map_p_def recognize_def one_p_def consumed_def hd_take split: if_splits sum.splits)
qed

lemma lawful_raw_token [parser_intros]: "lawful_parser (raw_token full)"
proof -
  note spans = comment_p.lawful_parser_axioms string_literal.lawful_parser_axioms
    numeric_literal.lawful_parser_axioms identifier_p.lawful_parser_axioms
  show ?thesis
    unfolding raw_token_def
    by (intro lawful_alt) (simp_all add: spans lawful_raw lawful_take_while1 lawful_recognize lawful_one)
qed

interpretation token_stream: lawful_parser "token_stream full" for full
  unfolding token_stream_def by (intro parser_intros)

lemma raws_tile:
  assumes "repeats (raw_token full) inp raws rest" and "suffix inp full"
  shows "list_all (raw_ok full) raws" and "concat (map span raws) @ rest = inp"
    and "sorted_wrt (\<lambda>a b. span_off a + length (span a) \<le> span_off b) raws"
    and "\<forall>rt \<in> set raws. length full - length inp \<le> span_off rt"
proof -
  have "list_all (raw_ok full) raws \<and> concat (map span raws) @ rest = inp \<and>
    sorted_wrt (\<lambda>a b. span_off a + length (span a) \<le> span_off b) raws \<and>
    (\<forall>rt \<in> set raws. length full - length inp \<le> span_off rt)"
    using assms
  proof (induction rule: repeats.induct)
    case (repeats_Nil inp)
    then show ?case by simp
  next
    case (repeats_Cons inp rem rt raws rest)
    note s = raw_token_span [OF repeats_Cons.hyps(1)]
    obtain pre where full: "full = pre @ inp" using repeats_Cons.prems by (auto simp: suffix_def)
    have off: "span_off rt = length pre" using s(2) full by simp
    have "suffix rem full" unfolding full s(1) by (auto simp: suffix_def)
    note IH = repeats_Cons.IH [OF this]
    have "length full - length rem = length pre + length (span rt)" using full s(1) by simp
    moreover have "raw_ok full rt"
      using s(3) repeats_Cons.hyps(2) off s(1) by (auto simp: raw_ok_def full)
    ultimately show ?case using IH s(1) off full by fastforce
  qed
  then show "list_all (raw_ok full) raws" "concat (map span raws) @ rest = inp"
    "sorted_wrt (\<lambda>a b. span_off a + length (span a) \<le> span_off b) raws"
    "\<forall>rt \<in> set raws. length full - length inp \<le> span_off rt"
    by auto
qed


section \<open>The post-pass\<close>

lemma decode_escape_total:
  assumes "i + 1 < length sp"
  shows "decode_escape sp i base out \<noteq> None"
    and "decode_escape sp i base out = Some (Inl e) \<Longrightarrow> byte_offset e = base + i"
  using assms
  by (auto simp: decode_escape_def append_unicode_escape_def Let_def
      split: option.splits prod.splits if_splits)

lemma decode_string_loop_total:
  "close < length sp \<Longrightarrow> decode_string_loop sp close base i out = r \<Longrightarrow>
     r \<noteq> None \<and> (\<forall>e. r = Some (Inl e) \<longrightarrow> byte_offset e < base + close)"
proof (induction "close - i" arbitrary: i out rule: less_induct)
  case less
  note step = decode_string_loop.simps [of sp close base i out]
  show ?case
  proof (cases "i < close")
    case False
    with less.prems show ?thesis by (auto simp: step)
  next
    case True
    then have len: "i + 1 < length sp" "i < length sp" using less.prems(1) by auto
    show ?thesis
    proof (cases "sp ! i = backslash")
      case False
      then have "decode_string_loop sp close base (i + 1) (out @ [sp ! i]) = r"
        using True len less.prems(2) by (simp add: step)
      moreover have "close - (i + 1) < close - i" using True by simp
      ultimately show ?thesis using less.hyps less.prems(1) by blast
    next
      case bs: True
      note d = decode_escape_total [OF len(1), of base out]
      show ?thesis
      proof (cases "decode_escape sp i base out")
        case None
        with d(1) show ?thesis by simp
      next
        case (Some x)
        show ?thesis
        proof (cases x)
          case (Inl e)
          with d(2) Some True bs len less.prems show ?thesis by (auto simp: step)
        next
          case (Inr y)
          then obtain i' out' where y: "decode_escape sp i base out = Some (Inr (i', out'))"
            using Some by (cases y) auto
          then have "decode_string_loop sp close base i' out' = r"
            using True bs len less.prems(2) by (simp add: step)
          moreover have "close - i' < close - i" using decode_escape_advances [OF y] True by simp
          ultimately show ?thesis using less.hyps less.prems(1) by blast
        qed
      qed
    qed
  qed
qed

lemma decode_string_total:
  assumes "sp \<noteq> []"
  obtains v where "decode_string sp base out = Some (Inr v)"
  | e where "decode_string sp base out = Some (Inl e)" "byte_offset e \<le> base + length sp"
proof -
  have "length sp - 1 < length sp" using assms by simp
  from decode_string_loop_total [OF this, of base 1 out] that show ?thesis
    unfolding decode_string_def
    by (cases "decode_string_loop sp (length sp - 1) base 1 out"; cases "the (decode_string_loop sp (length sp - 1) base 1 out)")
      fastforce+
qed

lemma validate_comment_bound: "validate_comment sp off = Some e \<Longrightarrow> byte_offset e \<le> off + length sp"
  by (auto simp: validate_comment_def Let_def split: if_splits)

abbreviation raw_end :: "RawToken \<Rightarrow> nat" where
  "raw_end rt \<equiv> span_off rt + length (span rt)"

lemma raw_okD:
  assumes "list_all (raw_ok full) raws" and "k < length raws"
  shows "raw_end (raws ! k) \<le> length full" and "span (raws ! k) \<noteq> []"
    and "take (length (span (raws ! k))) (drop (span_off (raws ! k)) full) = span (raws ! k)"
    and "cat (raws ! k) = Symbol \<Longrightarrow> is_symbol_char (hd (span (raws ! k)))"
  using assms by (auto simp: list_all_length raw_ok_def)

lemma skip_trivia_error:
  assumes "list_all (raw_ok full) raws"
  shows "skip_trivia raws j = Inl e \<Longrightarrow> byte_offset e \<le> length full"
proof (induction "length raws - j" arbitrary: j rule: less_induct)
  case less
  note step = skip_trivia.simps [of raws j]
  have j: "j < length raws" using less.prems by (auto simp: step split: if_splits)
  note ok = raw_okD(1) [OF assms j]
  show ?case
  proof (cases "cat (raws ! j) = Comment \<and> validate_comment (span (raws ! j)) (span_off (raws ! j)) = Some e")
    case True
    then show ?thesis using validate_comment_bound [of "span (raws ! j)" "span_off (raws ! j)" e] ok by simp
  next
    case False
    then have "skip_trivia raws (j + 1) = Inl e"
      using less.prems j by (auto simp: step split: if_splits option.splits)
    then show ?thesis using j by (intro less.hyps [of "j + 1"]) auto
  qed
qed

lemma string_run_total:
  assumes ok: "list_all (raw_ok full) raws"
  shows "k0 < j \<Longrightarrow> e0 = raw_end (raws ! k0) \<Longrightarrow> j \<le> length raws \<Longrightarrow> string_run raws j v e0 = r \<Longrightarrow>
    (case r of None \<Rightarrow> False | Some (Inl e) \<Rightarrow> byte_offset e \<le> length full
      | Some (Inr (j', v', e')) \<Rightarrow> \<exists>k. k0 \<le> k \<and> k < j' \<and> k < length raws \<and> e' = raw_end (raws ! k))"
proof (induction "length raws - j" arbitrary: j k0 e0 v rule: less_induct)
  case less
  note step = string_run.simps [of raws j v e0]
  show ?case
  proof (cases "skip_trivia raws j")
    case (Inl e)
    then have "r = Some (Inl e)" using less.prems(4) by (simp add: step)
    then show ?thesis using skip_trivia_error [OF ok Inl] by simp
  next
    case (Inr j1)
    note ge = skip_trivia_ge [OF Inr]
    show ?thesis
    proof (cases "j1 \<ge> length raws \<or> cat (raws ! j1) \<noteq> StringLit")
      case True
      then have "r = Some (Inr (j1, v, e0))" using Inr less.prems(4) by (auto simp: step)
      then show ?thesis using less.prems ge by auto
    next
      case False
      then have j1: "j1 < length raws" by simp
      note rok = raw_okD [OF ok j1]
      show ?thesis
      proof (rule decode_string_total [OF rok(2), of "span_off (raws ! j1)" v])
        fix e
        assume "decode_string (span (raws ! j1)) (span_off (raws ! j1)) v = Some (Inl e)"
          "byte_offset e \<le> raw_end (raws ! j1)"
        moreover from this have "r = Some (Inl e)" using Inr False less.prems(4) by (simp add: step Let_def)
        ultimately show ?thesis using rok(1) by simp
      next
        fix v1
        assume "decode_string (span (raws ! j1)) (span_off (raws ! j1)) v = Some (Inr v1)"
        then have rec: "string_run raws (j1 + 1) v1 (raw_end (raws ! j1)) = r"
          using Inr False less.prems(4) by (simp add: step Let_def)
        have dec: "length raws - (j1 + 1) < length raws - j" using j1 ge by simp
        have "case r of None \<Rightarrow> False | Some (Inl e) \<Rightarrow> byte_offset e \<le> length full
          | Some (Inr (j', v', e')) \<Rightarrow> \<exists>k. j1 \<le> k \<and> k < j' \<and> k < length raws \<and> e' = raw_end (raws ! k)"
          by (rule less.hyps [OF dec _ refl _ rec]) (use j1 in auto)
        moreover have "k0 \<le> k" if "j1 \<le> k" for k using that ge less.prems(1) by simp
        ultimately show ?thesis
          by (fastforce split: option.splits sum.splits )
      qed
    qed
  qed
qed

definition tok_ok :: "string \<Rightarrow> Token \<Rightarrow> bool" where
  "tok_ok full t \<longleftrightarrow> tok_text t \<noteq> [] \<and> tok_offset t + length (tok_text t) \<le> length full \<and>
     take (length (tok_text t)) (drop (tok_offset t) full) = tok_text t"

abbreviation before :: "Token \<Rightarrow> Token \<Rightarrow> bool" where
  "before a b \<equiv> tok_offset a + length (tok_text a) \<le> tok_offset b"


text \<open>The tokens built from the raw tokens at index \<open>i\<close> and later.\<close>

definition built_from :: "string \<Rightarrow> RawToken list \<Rightarrow> nat \<Rightarrow> Token list \<Rightarrow> bool" where
  "built_from full raws i ts \<longleftrightarrow> list_all (tok_ok full) ts \<and> sorted_wrt before ts \<and>
     (\<forall>t \<in> set ts. \<exists>k. i \<le> k \<and> k < length raws \<and> tok_offset t = span_off (raws ! k))"

lemma built_from_Nil: "built_from full raws i []"
  by (simp add: built_from_def)

lemma built_from_later: "built_from full raws j ts \<Longrightarrow> i \<le> j \<Longrightarrow> built_from full raws i ts"
  unfolding built_from_def by (meson le_trans)

lemma built_from_Cons:
  assumes sorted: "sorted_wrt (\<lambda>a b. raw_end a \<le> span_off b) raws"
    and ts: "built_from full raws j ts" and t: "tok_ok full t" "tok_offset t = span_off (raws ! i)"
    and k: "i \<le> k" "k < j" "k < length raws" "tok_offset t + length (tok_text t) \<le> raw_end (raws ! k)"
  shows "built_from full raws i (t # ts)"
proof -
  have "before t t'" if "t' \<in> set ts" for t'
  proof -
    from that ts obtain m where m: "j \<le> m" "m < length raws" "tok_offset t' = span_off (raws ! m)"
      by (auto simp: built_from_def)
    then have "raw_end (raws ! k) \<le> span_off (raws ! m)"
      using sorted k(2) by (auto simp: sorted_wrt_iff_nth_less)
    with k(4) m(3) show ?thesis by simp
  qed
  moreover have "\<exists>k. i \<le> k \<and> k < length raws \<and> tok_offset t = span_off (raws ! k)"
    using t(2) k(1,3) by (intro exI [of _ i]) auto
  moreover have "built_from full raws i ts" using ts k(1,2) by (rule built_from_later [OF _ less_imp_le [OF le_less_trans]])
  ultimately show ?thesis using t(1) unfolding built_from_def by simp
qed

lemma built_from_plain:
  assumes "sorted_wrt (\<lambda>a b. raw_end a \<le> span_off b) raws" and ok: "list_all (raw_ok full) raws"
    and "built_from full raws (i + 1) ts" and i: "i < length raws"
  shows "built_from full raws i (plain_token k (raws ! i) # ts)"
  using assms raw_okD [OF ok i]
  by (intro built_from_Cons [OF assms(1,3), where k = i]) (auto simp: plain_token_def tok_ok_def)

lemma string_token_ok:
  assumes sorted: "sorted_wrt (\<lambda>a b. raw_end a \<le> span_off b) raws" and ok: "list_all (raw_ok full) raws"
    and i: "i < length raws" and "append_string_token raws i full toks = r"
  obtains e where "r = Some (Inl e)" "byte_offset e \<le> length full"
  | j t where "r = Some (Inr (j, toks @ [t]))" "i < j"
      "\<And>ts. built_from full raws j ts \<Longrightarrow> built_from full raws i (t # ts)"
proof -
  let ?rt = "raws ! i"
  note rok = raw_okD [OF ok i]
  show ?thesis
  proof (rule decode_string_total [OF rok(2), of "span_off ?rt" "[]"])
    fix e
    assume "decode_string (span ?rt) (span_off ?rt) [] = Some (Inl e)" "byte_offset e \<le> raw_end ?rt"
    with assms(4) rok(1) show ?thesis by (intro that(1) [of e]) (auto simp: append_string_token_def Let_def)
  next
    fix v
    assume v: "decode_string (span ?rt) (span_off ?rt) [] = Some (Inr v)"
    note run = string_run_total [OF ok, of i "i + 1" "raw_end ?rt", OF _ refl _ refl, of v]
    show ?thesis
    proof (cases "string_run raws (i + 1) v (raw_end ?rt)")
      case None
      with run i show ?thesis by simp
    next
      case (Some x)
      show ?thesis
      proof (cases x)
        case (Inl e)
        with run i Some v assms(4) show ?thesis
          by (intro that(1) [of e]) (auto simp: append_string_token_def Let_def)
      next
        case (Inr y)
        then obtain j v' e' where y: "string_run raws (i + 1) v (raw_end ?rt) = Some (Inr (j, v', e'))"
          using Some by (cases y) auto
        from run i y obtain k where k: "i \<le> k" "k < j" "k < length raws" "e' = raw_end (raws ! k)" by auto
        let ?t = "\<lparr>kind = StringLiteral, tok_text = take (e' - span_off ?rt) (drop (span_off ?rt) full),
          str_value = v', tok_offset = span_off ?rt\<rparr>"
        have "raw_end ?rt \<le> e'"
        proof (cases "i = k")
          case False
          with k have "raw_end ?rt \<le> span_off (raws ! k)"
            using sorted_wrt_nth_less [OF sorted, of i k] by simp
          then show ?thesis using k(4) by simp
        qed (simp add: k(4))
        moreover have "e' \<le> length full" using raw_okD(1) [OF ok k(3)] k(4) by simp
        ultimately have le: "raw_end ?rt \<le> e'" "e' \<le> length full" .
        have "span_off ?rt < e'" using le rok(2) by (cases "span ?rt") auto
        then have "tok_ok full ?t" using le by (auto simp: tok_ok_def min_def)
        moreover have "tok_offset ?t + length (tok_text ?t) \<le> raw_end (raws ! k)" using le k(4) by simp
        ultimately have "built_from full raws j ts \<Longrightarrow> built_from full raws i (?t # ts)" for ts
          using k by (intro built_from_Cons [OF sorted]) auto
        moreover have "r = Some (Inr (j, toks @ [?t]))"
          using assms(4) v y by (simp add: append_string_token_def Let_def)
        ultimately show ?thesis using k by (intro that(2) [of j ?t]) auto
      qed
    qed
  qed
qed

lemma build_loop_total:
  assumes sorted: "sorted_wrt (\<lambda>a b. raw_end a \<le> span_off b) raws" and ok: "list_all (raw_ok full) raws"
  shows "build_loop raws full i toks = r \<Longrightarrow>
    (\<exists>e. r = Some (Inl e) \<and> byte_offset e \<le> length full) \<or>
    (\<exists>ts. r = Some (Inr (toks @ ts)) \<and> built_from full raws i ts)"
proof (induction "length raws - i" arbitrary: i toks rule: less_induct)
  case less
  note step = build_loop.simps [of raws full i toks]
  show ?case
  proof (cases "i < length raws")
    case False
    then show ?thesis using less.prems built_from_Nil by (auto simp: step)
  next
    case True
    note rok = raw_okD [OF ok True]
    have dec: "length raws - (i + 1) < length raws - i" using True by simp
    have skip: ?thesis if "build_loop raws full (i + 1) toks = r"
      using less.hyps [OF dec that] built_from_later [of full raws "i + 1" _ i] by fastforce
    have plain: ?thesis if "build_loop raws full (i + 1) (toks @ [plain_token k (raws ! i)]) = r" for k
      using less.hyps [OF dec that] built_from_plain [OF sorted ok _ True] by force
    show ?thesis
    proof (cases "cat (raws ! i)")
      case Whitespace
      then show ?thesis using less.prems True by (intro skip) (simp add: step)
    next
      case Comment
      show ?thesis
      proof (cases "validate_comment (span (raws ! i)) (span_off (raws ! i))")
        case None
        then show ?thesis using Comment less.prems True by (intro skip) (simp add: step)
      next
        case (Some e)
        then show ?thesis
          using Comment less.prems True validate_comment_bound [OF Some] rok(1) by (auto simp: step)
      qed
    next
      case Ident
      then show ?thesis using less.prems True
        by (intro plain [of "keyword_or_identifier (span (raws ! i))"]) (simp add: step Let_def)
    next
      case Symbol
      then obtain k where "symbol_kind (hd (span (raws ! i))) = Some k"
        using rok(4) by (auto simp: is_symbol_char_def)
      then show ?thesis using Symbol less.prems True rok(2)
        by (intro plain [of k]) (simp add: step hd_conv_nth)
    next
      case Numeric
      show ?thesis
      proof (cases "classify_numeric (span (raws ! i))")
        case None
        then have "\<exists>m. r = Some (Inl (mk_error (span_off (raws ! i)) m))"
          using Numeric less.prems True by (simp add: step Let_def) blast
        then show ?thesis using rok(1) by fastforce
      next
        case (Some k)
        then show ?thesis using Numeric less.prems True by (intro plain [of k]) (simp add: step)
      qed
    next
      case StringLit
      show ?thesis
      proof (rule string_token_ok [OF sorted ok True, of toks])
        show "append_string_token raws i full toks = append_string_token raws i full toks" by (rule refl)
      next
        fix e
        assume "append_string_token raws i full toks = Some (Inl e)" "byte_offset e \<le> length full"
        then show ?thesis using StringLit less.prems True by (auto simp: step)
      next
        fix j t
        assume a: "append_string_token raws i full toks = Some (Inr (j, toks @ [t]))" "i < j"
          and b: "\<And>ts. built_from full raws j ts \<Longrightarrow> built_from full raws i (t # ts)"
        have "build_loop raws full j (toks @ [t]) = r" using a StringLit less.prems True by (simp add: step)
        moreover have "length raws - j < length raws - i" using a(2) True by simp
        ultimately have "(\<exists>e. r = Some (Inl e) \<and> byte_offset e \<le> length full) \<or>
          (\<exists>ts. r = Some (Inr ((toks @ [t]) @ ts)) \<and> built_from full raws j ts)" by (rule less.hyps [rotated])
        then show ?thesis using b by force
      qed
    qed
  qed
qed

section \<open>Properties\<close>

lemma token_stream_tiles:
  assumes "token_stream full (drop start full) = Inr (rest, raws)"
  shows "list_all (raw_ok full) raws" and "concat (map span raws) @ rest = drop start full"
    and "sorted_wrt (\<lambda>a b. raw_end a \<le> span_off b) raws"
proof -
  have "repeats (raw_token full) (drop start full) raws rest"
    using assms by (simp add: token_stream_def many_def many_loop_repeats)
  note t = raws_tile [OF this suffix_drop]
  show "list_all (raw_ok full) raws" "concat (map span raws) @ rest = drop start full"
    "sorted_wrt (\<lambda>a b. raw_end a \<le> span_off b) raws" by (fact t)+
qed

lemma raws_offsets:
  "repeats (raw_token full) inp raws rest \<Longrightarrow> suffix inp full \<Longrightarrow> k < length raws \<Longrightarrow>
     span_off (raws ! k) = length full - length inp + length (concat (map span (take k raws)))"
proof (induction arbitrary: k rule: repeats.induct)
  case (repeats_Nil inp)
  then show ?case by simp
next
  case (repeats_Cons inp rem rt raws rest)
  note s = raw_token_span [OF repeats_Cons.hyps(1)]
  obtain pre where full: "full = pre @ inp" using repeats_Cons.prems(1) by (auto simp: suffix_def)
  have "suffix rem full" unfolding full s(1) by (auto simp: suffix_def)
  note IH = repeats_Cons.IH [OF this]
  show ?case
  proof (cases k)
    case 0
    then show ?thesis using s(2) by simp
  next
    case (Suc k')
    then have "span_off (raws ! k') = length full - length rem + length (concat (map span (take k' raws)))"
      using IH [of k'] repeats_Cons.prems(2) by simp
    then show ?thesis using Suc s(1) full by simp
  qed
qed

lemma lex_cases:
  "case lex full of
     None \<Rightarrow> False
   | Some (Inl e) \<Rightarrow> byte_offset e \<le> length full
   | Some (Inr r) \<Rightarrow>
       src_text r = full \<and> list_all (tok_ok full) (tokens r) \<and> sorted_wrt before (tokens r)"
proof -
  define start where "start = (if has_bom full then 3 else 0 :: nat)"
  have start: "start \<le> length full" by (simp add: start_def has_bom_def)
  show ?thesis
  proof (cases "token_stream full (drop start full)")
    case (Inl e)
    with token_stream.error_bound [OF Inl] start show ?thesis
      by (simp add: lex_def start_def [symmetric] Let_def)
  next
    case (Inr x)
    then obtain rest raws where x: "token_stream full (drop start full) = Inr (rest, raws)" by (cases x) auto
    note t = token_stream_tiles [OF x]
    from build_loop_total [OF t(3,1) refl, of 0 "[]"] consider
      e where "build_tokens raws full = Some (Inl e)" "byte_offset e \<le> length full"
      | ts where "build_tokens raws full = Some (Inr ts)" "built_from full raws 0 ts"
      by (auto simp: build_tokens_def)
    then show ?thesis
    proof cases
      case 1
      with x show ?thesis by (simp add: lex_def start_def [symmetric] Let_def)
    next
      case 2
      with x show ?thesis by (simp add: lex_def start_def [symmetric] Let_def built_from_def)
    qed
  qed
qed

text \<open>
  Property C17. Lexing is total and its tokens lie in the source. For every source, \<open>lex\<close> ends without
  reading a character out of range. An error offset lies in the source. On success every token is
  non-empty, its text is the stretch of the source at its offset, and the tokens are in source order
  without overlap.
\<close>

theorem lex_sound:
  "case lex full of
     None \<Rightarrow> False
   | Some (Inl e) \<Rightarrow> byte_offset e \<le> length full
   | Some (Inr r) \<Rightarrow>
       src_text r = full \<and> list_all (tok_ok full) (tokens r) \<and> sorted_wrt before (tokens r)"
  by (rule lex_cases)

text \<open>
  Property C33. Tokenizing loses nothing: the spans of the raw tokens, whitespace and comments
  included, followed by the unread rest, spell the input; each span starts where the previous one
  ended.
\<close>

theorem token_stream_lossless:
  assumes "token_stream full (drop start full) = Inr (rest, raws)"
  shows "concat (map span raws) @ rest = drop start full \<and>
    (\<forall>k < length raws. span_off (raws ! k) = start + length (concat (map span (take k raws))))"
proof -
  have r: "repeats (raw_token full) (drop start full) raws rest"
    using assms by (simp add: token_stream_def many_def many_loop_repeats)
  have "span_off (raws ! k) = start + length (concat (map span (take k raws)))" if k: "k < length raws" for k
  proof -
    from repeats_length [OF r] k have "length full - length (drop start full) = start" by auto
    with raws_offsets [OF r suffix_drop k] show ?thesis by simp
  qed
  with token_stream_tiles(2) [OF assms] show ?thesis by blast
qed

theorem token_stream_lossless_witness:
  "concat (map span (snd (projr (token_stream ''ab=1'' (drop 0 ''ab=1''))))) = ''ab=1''"
proof -
  have "token_stream ''ab=1'' (drop 0 ''ab=1'') = Inr ([],
    [\<lparr>cat = Ident, span = ''ab'', span_off = 0\<rparr>, \<lparr>cat = Symbol, span = ''='', span_off = 2\<rparr>,
     \<lparr>cat = Numeric, span = ''1'', span_off = 3\<rparr>])" (is "?s = Inr (_, ?raws)")
    by code_simp
  from token_stream_lossless [OF this] this show ?thesis by simp
qed

section \<open>UTF-8\<close>

text \<open>The value a sequence of bytes encodes, restricted to the shortest form.\<close>

fun utf8_value :: "nat list \<Rightarrow> nat option" where
  "utf8_value [a] = (if a < 0x80 then Some a else None)"
| "utf8_value [a, b] =
     (let v = (a - 0xC0) * 64 + (b - 0x80) in
      if 0xC0 \<le> a \<and> a < 0xE0 \<and> 0x80 \<le> b \<and> b < 0xC0 \<and> 0x80 \<le> v then Some v else None)"
| "utf8_value [a, b, c] =
     (let v = ((a - 0xE0) * 64 + (b - 0x80)) * 64 + (c - 0x80) in
      if 0xE0 \<le> a \<and> a < 0xF0 \<and> 0x80 \<le> b \<and> b < 0xC0 \<and> 0x80 \<le> c \<and> c < 0xC0 \<and> 0x800 \<le> v
      then Some v else None)"
| "utf8_value [a, b, c, d] =
     (let v = (((a - 0xF0) * 64 + (b - 0x80)) * 64 + (c - 0x80)) * 64 + (d - 0x80) in
      if 0xF0 \<le> a \<and> a < 0xF8 \<and> 0x80 \<le> b \<and> b < 0xC0 \<and> 0x80 \<le> c \<and> c < 0xC0 \<and>
         0x80 \<le> d \<and> d < 0xC0 \<and> 0x10000 \<le> v
      then Some v else None)"
| "utf8_value _ = None"

lemma or_disjoint:
  assumes "unat (x :: u32) < 2 ^ k" and "unat a * 2 ^ k + unat x < 2 ^ 32"
  shows "unat (push_bit k a OR x) = unat a * 2 ^ k + unat x"
proof -
  have k: "\<forall>n \<ge> k. \<not> bit x n" using assms(1) by (simp only: less_exp_iff_bits)
  have "push_bit k a OR x = push_bit k a + x"
    by (rule disjunctive_add [symmetric]) (use k in \<open>auto simp: bit_push_bit_iff\<close>)
  moreover have "unat (push_bit k a) = unat a * 2 ^ k"
  proof -
    have "unat (push_bit k a) = take_bit 32 (push_bit k (unat a))"
      by (simp only: unsigned_push_bit_eq) simp
    also have "push_bit k (unat a) = unat a * 2 ^ k" by (simp only: push_bit_eq_mult)
    also have "take_bit 32 (unat a * 2 ^ k) = unat a * 2 ^ k"
      using assms(2) by (simp only: take_bit_nat_eq_self_iff)
    finally show ?thesis .
  qed
  ultimately show ?thesis using assms(2) by (simp add: unat_word_ariths)
qed

lemma low6: "unat (x AND 0x3F :: u32) = unat x mod 64"
proof -
  have m: "(0x3F :: u32) = mask 6" by (simp add: mask_eq_exp_minus_1)
  have "unat (x AND mask 6) = take_bit 6 (unat x)"
    by (simp only: take_bit_eq_mask [symmetric] unsigned_take_bit_eq)
  then show ?thesis unfolding m by (simp add: take_bit_eq_mod)
qed

lemma cont_byte: "unat (0x80 OR (x AND 0x3F) :: u32) = 0x80 + unat x mod 64"
  using or_disjoint [of "x AND 0x3F" 6 2] low6 [of x] by (simp add: low6)

lemma lead_byte:
  assumes "unat (x :: u32) < 2 ^ k" and "unat a * 2 ^ k + unat x < 256"
  shows "unat (push_bit k a OR x) = unat a * 2 ^ k + unat x"
  using assms by (intro or_disjoint) auto

lemma push_byte_eq: "unat v < 256 \<Longrightarrow> push_byte out v = out @ [char_of (unat v)]"
proof -
  assume "unat v < 256"
  then have "unat v < 2 ^ 8" by simp
  then have n: "\<forall>k \<ge> 8. \<not> bit v k" by (simp only: less_exp_iff_bits)
  have "v AND 0xFF = v"
    by (rule bit_word_eqI) (use n in \<open>auto simp: bit_and_iff bits not_le [symmetric]\<close>)
  then show ?thesis by (simp add: push_byte_def)
qed

lemma utf8_bytes:
  assumes "cp \<le> kMaxCodePoint"
  defines "n \<equiv> unat cp"
  shows "map of_char (append_utf8 [] cp) =
    (if n \<le> 0x7F then [n]
     else if n \<le> 0x7FF then [0xC0 + n div 64, 0x80 + n mod 64]
     else if n \<le> 0xFFFF then [0xE0 + n div 4096, 0x80 + n div 64 mod 64, 0x80 + n mod 64]
     else [0xF0 + n div 262144, 0x80 + n div 4096 mod 64, 0x80 + n div 64 mod 64, 0x80 + n mod 64])"
proof -
  have n: "n \<le> 0x10FFFF" using assms(1) by (simp add: n_def kMaxCodePoint_def word_le_nat_alt)
  have d: "unat (drop_bit k cp) = n div 2 ^ k" for k
    by (simp add: n_def unat_drop_bit_div)
  have c: "unat (0x80 OR (x AND 0x3F) :: u32) < 256" for x
    unfolding cont_byte by (rule less_le_trans [of _ "0x80 + 64"]) auto
  have l2: "unat (0xC0 OR drop_bit 6 cp) = 0xC0 + n div 64" if "n \<le> 0x7FF"
    using lead_byte [of "drop_bit 6 cp" 5 6] that d [of 6] by auto
  have l3: "unat (0xE0 OR drop_bit 12 cp) = 0xE0 + n div 4096" if "n \<le> 0xFFFF"
    using lead_byte [of "drop_bit 12 cp" 4 14] that d [of 12] by auto
  have l4: "unat (0xF0 OR drop_bit 18 cp) = 0xF0 + n div 262144"
    using lead_byte [of "drop_bit 18 cp" 3 30] n d [of 18] by auto
  have le: "cp \<le> 0x7F \<longleftrightarrow> n \<le> 0x7F" "cp \<le> 0x7FF \<longleftrightarrow> n \<le> 0x7FF" "cp \<le> 0xFFFF \<longleftrightarrow> n \<le> 0xFFFF"
    by (simp_all add: n_def word_le_nat_alt)
  show ?thesis
    unfolding append_utf8_def le
    using n l2 l3 l4 by (auto simp: push_byte_eq cont_byte c d n_def [symmetric])
qed

lemma utf8_value_bytes:
  assumes "n \<le> 0x10FFFF"
  shows "utf8_value
    (if n \<le> 0x7F then [n]
     else if n \<le> 0x7FF then [0xC0 + n div 64, 0x80 + n mod 64]
     else if n \<le> 0xFFFF then [0xE0 + n div 4096, 0x80 + n div 64 mod 64, 0x80 + n mod 64]
     else [0xF0 + n div 262144, 0x80 + n div 4096 mod 64, 0x80 + n div 64 mod 64, 0x80 + n mod 64]) = Some n"
proof -
  have e1: "n div 64 * 64 + n mod 64 = n" by (rule div_mult_mod_eq)
  have e2: "n div 4096 * 64 + n div 64 mod 64 = n div 64"
    using div_mult_mod_eq [of "n div 64" 64] by (simp add: div_mult2_eq [symmetric])
  have e3: "n div 262144 * 64 + n div 4096 mod 64 = n div 4096"
    using div_mult_mod_eq [of "n div 4096" 64] by (simp add: div_mult2_eq [symmetric])
  have lt: "n mod 64 < 64" "n div 64 mod 64 < 64" "n div 4096 mod 64 < 64" by simp_all
  consider "n \<le> 0x7F" | "0x7F < n" "n \<le> 0x7FF" | "0x7FF < n" "n \<le> 0xFFFF" | "0xFFFF < n" by linarith
  then show ?thesis
  proof cases
    case 1
    then show ?thesis by simp
  next
    case 2
    then show ?thesis using e1 lt by (auto simp: Let_def)
  next
    case 3
    then show ?thesis using e1 e2 lt by (auto simp: Let_def)
  next
    case 4
    then show ?thesis using e1 e2 e3 lt assms by (auto simp: Let_def)
  qed
qed

text \<open>
  Unicode escapes are encoded correctly: for every code point up to the maximum,
  \<open>append_utf8\<close> appends the shortest UTF-8 encoding, whose value is the code point.
\<close>

theorem append_utf8_roundtrip:
  assumes "cp \<le> kMaxCodePoint"
  shows "append_utf8 out cp = out @ append_utf8 [] cp \<and>
    utf8_value (map of_char (append_utf8 [] cp)) = Some (unat cp)"
proof
  show "append_utf8 out cp = out @ append_utf8 [] cp" by (simp add: append_utf8_def push_byte_def)
  have "unat cp \<le> 0x10FFFF" using assms by (simp add: kMaxCodePoint_def word_le_nat_alt)
  then show "utf8_value (map of_char (append_utf8 [] cp)) = Some (unat cp)"
    unfolding utf8_bytes [OF assms] by (rule utf8_value_bytes)
qed

theorem append_utf8_roundtrip_witness:
  "append_utf8 ''x'' 0x20AC = ''x'' @ append_utf8 [] 0x20AC \<and>
    utf8_value (map of_char (append_utf8 [] 0x20AC)) = Some 0x20AC"
  using append_utf8_roundtrip [where cp = "0x20AC" and out = "''x''"] by (simp add: kMaxCodePoint_def)

section \<open>Numbers\<close>

lemma count_while_all: "count_while P xs = length xs \<longleftrightarrow> list_all P xs"
  using count_while_le [of P] by (induction xs) (auto dest: le_neq_implies_less)


lemma drop_count_while: "drop (count_while P xs) xs = [] \<longleftrightarrow> list_all P xs"
  using count_while_all [of P xs] count_while_le [of P xs] by auto

definition digits_rest :: "(char \<Rightarrow> bool) \<Rightarrow> string \<Rightarrow> string option" where
  "digits_rest P xs = (if count_while P xs = 0 then None else Some (drop (count_while P xs) xs))"

definition soft_success :: "(char, 'o) parser \<Rightarrow> string \<Rightarrow> string option" where
  "soft_success p inp = (case p inp of Inl _ \<Rightarrow> None | Inr (rest, _) \<Rightarrow> Some rest)"

lemma soft_success_simps:
  "soft_success (recognize p) inp = soft_success p inp"
  "soft_success (one_p P) inp = (case inp of [] \<Rightarrow> None | c # cs \<Rightarrow> if P c then Some cs else None)"
  "soft_success (tag_p [c]) inp = (case inp of [] \<Rightarrow> None | d # cs \<Rightarrow> if d = c then Some cs else None)"
  "soft_success (take_while1 P) inp = digits_rest P inp"
  "soft_success (take_while_p P) inp = Some (drop (count_while P inp) inp)"
  by (auto simp: soft_success_def recognize_def one_p_def tag_p_def take_while1_def take_while_p_def
      digits_rest_def Let_def split: sum.splits prod.splits list.splits)

lemma soft_success_seq:
  "soft_success (seq p q) inp = Option.bind (soft_success p inp) (soft_success q)"
  by (auto simp: soft_success_def seq_def split: sum.splits prod.splits)

definition never_fatal :: "('i, 'o) parser \<Rightarrow> bool" where
  "never_fatal p \<longleftrightarrow> (\<forall>inp e. p inp = Inl e \<longrightarrow> \<not> fatal e)"

lemma never_fatal_intros:
  "never_fatal (one_p P)" "never_fatal (tag_p s)" "never_fatal (take_while1 P)" "never_fatal (take_while_p P)"
  "never_fatal p \<Longrightarrow> never_fatal (recognize p)"
  "never_fatal p \<Longrightarrow> never_fatal q' \<Longrightarrow> never_fatal (seq p q')"
  "never_fatal p \<Longrightarrow> never_fatal (opt p)"
  by (auto simp: never_fatal_def one_p_def tag_p_def take_while1_def take_while_p_def recognize_def seq_def
      opt_def Let_def split: if_splits sum.splits prod.splits)

lemma soft_success_alt:
  "never_fatal p \<Longrightarrow> soft_success (alt p (q # qs)) inp =
     (case soft_success p inp of Some r \<Rightarrow> Some r | None \<Rightarrow> soft_success (alt q qs) inp)"
  "soft_success (alt p []) inp = soft_success p inp"
  by (auto simp: soft_success_def alt_def never_fatal_def split: sum.splits if_splits)

lemma all_consuming_iff: "isl (all_consuming p inp) \<longleftrightarrow> soft_success p inp \<noteq> Some []"
  by (auto simp: all_consuming_def soft_success_def split: sum.splits prod.splits)

text \<open>The three forms of an integer literal, on the characters.\<close>

definition int_form :: "string \<Rightarrow> bool" where
  "int_form txt \<longleftrightarrow>
     (\<exists>x ds. txt = CHR ''0'' # x # ds \<and> is_x_marker x \<and> ds \<noteq> [] \<and> list_all is_hex_digit ds) \<or>
     (\<exists>ds. txt = CHR ''0'' # ds \<and> list_all is_octal_digit ds) \<or>
     (\<exists>d ds. txt = d # ds \<and> is_nonzero_digit d \<and> list_all is_decimal_digit ds)"

lemma digits_rest_Nil: "digits_rest P xs = Some [] \<longleftrightarrow> xs \<noteq> [] \<and> list_all P xs"
  using drop_count_while [of P xs] count_while_all [of P xs] by (auto simp: digits_rest_def)

lemma digits_rest_None: "digits_rest P xs = None \<longleftrightarrow> xs = [] \<or> \<not> P (hd xs)"
  by (cases xs) (auto simp: digits_rest_def)

lemma x_marker_not_octal: "is_x_marker c \<Longrightarrow> \<not> is_octal_digit c"
  by (auto simp: is_x_marker_def is_octal_digit_def less_eq_char_def)

lemma int_literal_success:
  "soft_success int_literal txt =
    (case txt of
       [] \<Rightarrow> None
     | c # cs \<Rightarrow>
         if c = CHR ''0'' then
           (case (case cs of x # ds \<Rightarrow> if is_x_marker x then digits_rest is_hex_digit ds else None | [] \<Rightarrow> None) of
              Some r \<Rightarrow> Some r
            | None \<Rightarrow> (case digits_rest is_octal_digit cs of Some r \<Rightarrow> Some r | None \<Rightarrow> Some cs))
         else if is_nonzero_digit c then Some (drop (count_while is_decimal_digit cs) cs)
         else None)"
proof -
  have nf: "never_fatal (recognize (seq (tag_p ''0'') (seq (one_p is_x_marker) (take_while1 is_hex_digit))))"
    "never_fatal (recognize (seq (tag_p ''0'') (take_while1 is_octal_digit)))"
    "never_fatal (tag_p ''0'')"
    by (intro never_fatal_intros)+
  show ?thesis
    unfolding int_literal_def soft_success_alt(1) [OF nf(1)] soft_success_alt(1) [OF nf(2)]
      soft_success_alt(2) soft_success_alt(1) [OF nf(3)] soft_success_simps soft_success_seq
    by (auto simp: is_nonzero_digit_def less_eq_char_def split: list.splits option.splits)
qed

lemma int_literal_form: "soft_success int_literal txt = Some [] \<longleftrightarrow> int_form txt"
proof (cases "txt")
  case Nil
  then show ?thesis by (simp add: int_literal_success int_form_def)
next
  case (Cons c cs)
  have nz: "\<not> is_nonzero_digit CHR ''0''" by (simp add: is_nonzero_digit_def less_eq_char_def)
  show ?thesis
  proof (cases "c = CHR ''0''")
    case False
    then show ?thesis using Cons drop_count_while [of is_decimal_digit cs]
      by (auto simp: int_literal_success int_form_def)
  next
    case True
    have form: "int_form txt \<longleftrightarrow>
        (\<exists>x ds. cs = x # ds \<and> is_x_marker x \<and> ds \<noteq> [] \<and> list_all is_hex_digit ds) \<or> list_all is_octal_digit cs"
      using True Cons nz by (auto simp: int_form_def)
    show ?thesis
    proof (cases cs)
      case Nil
      then show ?thesis using True Cons
        by (simp add: int_literal_success int_form_def digits_rest_def)
    next
      case (Cons x ds)
      have o: "(case digits_rest is_octal_digit cs of None \<Rightarrow> Some cs | Some r \<Rightarrow> Some r) = Some [] \<longleftrightarrow>
          list_all is_octal_digit cs"
        using Cons digits_rest_Nil [of is_octal_digit cs] by (auto split: option.splits)
      show ?thesis
      proof (cases "is_x_marker x \<and> digits_rest is_hex_digit ds \<noteq> None")
        case hex: True
        then have "soft_success int_literal txt = digits_rest is_hex_digit ds"
          using \<open>txt = c # cs\<close> True Cons by (auto simp: int_literal_success)
        moreover have "\<not> list_all is_octal_digit cs" using hex Cons x_marker_not_octal by simp
        ultimately show ?thesis unfolding form using hex Cons by (auto simp: digits_rest_Nil)
      next
        case nohex: False
        then have "soft_success int_literal txt =
            (case digits_rest is_octal_digit cs of None \<Rightarrow> Some cs | Some r \<Rightarrow> Some r)"
          using \<open>txt = c # cs\<close> True Cons by (auto simp: int_literal_success split: option.splits)
        moreover have "\<not> (\<exists>x ds. cs = x # ds \<and> is_x_marker x \<and> ds \<noteq> [] \<and> list_all is_hex_digit ds)"
          using nohex Cons digits_rest_Nil [of is_hex_digit ds] by auto
        ultimately show ?thesis unfolding form by (simp only: o) blast
      qed
    qed
  qed
qed

text \<open>
  Integer literals are classified exactly: a numeric token is an integer literal
  precisely when it is hexadecimal (\<open>0x\<close> and hexadecimal digits), octal (\<open>0\<close> and octal digits, \<open>0\<close>
  itself included) or decimal (a non-zero digit and decimal digits).
\<close>

theorem classify_numeric_int: "classify_numeric txt = Some IntLiteral \<longleftrightarrow> int_form txt"
  by (simp add: classify_numeric_def all_consuming_iff int_literal_form [symmetric])

end
