(* ===== verification/Ast.thy ===== *)
theory Ast
  imports Combinators
begin

text \<open>
  The schema model of \<^verbatim>\<open>include/rapidproto/ast.hpp\<close> and the scalar names of \<^verbatim>\<open>scalar.hpp\<close>. A C++ struct
  is a record; its members carry a prefix because several structs share member names. The two
  recursive structs are datatypes: option values, and messages, whose non-recursive members are the
  record \<open>MessageData\<close>. A 32-bit signed number is a 32-bit word, read with \<open>sint\<close>. A floating-point
  value is kept as the text it was read from, or as the infinity or not-a-number it denotes, with
  its sign: nothing in the program computes with it.
\<close>

section \<open>Enumerations\<close>

datatype SyntaxLevel = Proto2 | Proto3 | Edition
datatype FieldPresence = Explicit | Implicit | Required
datatype EnumOpenness = Open | Closed
datatype RepeatedEncoding = Packed | Expanded
datatype MessageEncoding = LengthPrefixed | Delimited
datatype ImportKind = ImportStandard | ImportPublic | ImportWeak | ImportOption
datatype Visibility = VisDefault | VisExport | VisLocal

definition kMaxMessageFieldNumber :: u32 where "kMaxMessageFieldNumber = 536870911"
definition kMaxEnumNumber :: u32 where "kMaxEnumNumber = 0x7FFFFFFF"

section \<open>Option values\<close>

datatype double = FloatText string bool | Infinity bool | NotANumber bool

datatype MessageFieldNameKind = Simple | Extension | AnyTypeUrl

datatype OptionValue =
    OBool bool
  | OInt u64
  | OUint u64
  | ODouble double
  | OIdentifier string
  | OString string
  | OMessage "MessageLiteralField list"
  | OList "OptionValue list"
and MessageLiteralField =
    MessageLiteralField (name_kind: MessageFieldNameKind) (mlf_name: string) (any_type: string)
      (mlf_value: OptionValue)

record OptionNameComponent =
  comp_name :: string
  is_extension :: bool

record OptionNode =
  opt_name :: "OptionNameComponent list"
  opt_value :: OptionValue

section \<open>Declarations\<close>

record NumberRange =
  range_start :: u32
  range_end :: u32

record ReservedNode =
  res_ranges :: "NumberRange list"
  res_names :: "string list"

record EnumValueNode =
  ev_name :: string
  ev_number :: u32
  ev_options :: "OptionNode list"
  ev_fqn :: string

record EnumNode =
  en_name :: string
  en_visibility :: Visibility
  openness :: EnumOpenness
  en_values :: "EnumValueNode list"
  en_reserved :: "ReservedNode list"
  en_options :: "OptionNode list"
  en_fqn :: string

record FieldNode =
  fld_name :: string
  type_name :: string
  fld_number :: u32
  fld_offset :: nat
  presence :: FieldPresence
  is_repeated :: bool
  repeated_encoding :: RepeatedEncoding
  is_group :: bool
  message_encoding :: MessageEncoding
  default_value :: "OptionValue option"
  fld_options :: "OptionNode list"
  fld_fqn :: string
  resolved_type_fqn :: string
  is_message_type :: bool
  is_enum_type :: bool

record MapFieldNode =
  mf_name :: string
  key_type :: string
  value_type :: string
  mf_number :: u32
  mf_offset :: nat
  mf_options :: "OptionNode list"
  resolved_value_type_fqn :: string
  value_is_message :: bool
  value_is_enum :: bool

record OneofNode =
  oo_name :: string
  oo_fields :: "FieldNode list"
  oo_options :: "OptionNode list"

record ExtensionRangeNode =
  xr_ranges :: "NumberRange list"
  xr_options :: "OptionNode list"

record ExtendNode =
  extendee_type_name :: string
  ext_offset :: nat
  ext_fields :: "FieldNode list"

record MessageData =
  msg_name :: string
  msg_visibility :: Visibility
  msg_fields :: "FieldNode list"
  map_fields :: "MapFieldNode list"
  oneofs :: "OneofNode list"
  msg_enums :: "EnumNode list"
  msg_reserved :: "ReservedNode list"
  extension_ranges :: "ExtensionRangeNode list"
  msg_extends :: "ExtendNode list"
  msg_options :: "OptionNode list"
  msg_fqn :: string

datatype MessageNode = MessageNode (msg_data: MessageData) (nested_messages: "MessageNode list")

record ImportNode =
  imp_path :: string
  imp_kind :: ImportKind

record FileNode =
  syntax_level :: SyntaxLevel
  edition :: string
  edition_offset :: nat
  file_package :: string
  filename :: string
  file_source :: SourceId
  imports_of :: "ImportNode list"
  file_messages :: "MessageNode list"
  file_enums :: "EnumNode list"
  file_extends :: "ExtendNode list"
  file_options :: "OptionNode list"

text \<open>The values a default-initialised struct has.\<close>

definition default_field :: FieldNode where
  "default_field = \<lparr>fld_name = [], type_name = [], fld_number = 0, fld_offset = 0, presence = Explicit,
     is_repeated = False, repeated_encoding = Expanded, is_group = False,
     message_encoding = LengthPrefixed, default_value = None, fld_options = [], fld_fqn = [],
     resolved_type_fqn = [], is_message_type = False, is_enum_type = False\<rparr>"

definition default_map_field :: MapFieldNode where
  "default_map_field = \<lparr>mf_name = [], key_type = [], value_type = [], mf_number = 0, mf_offset = 0,
     mf_options = [], resolved_value_type_fqn = [], value_is_message = False, value_is_enum = False\<rparr>"

definition default_enum :: EnumNode where
  "default_enum = \<lparr>en_name = [], en_visibility = VisDefault, openness = Open, en_values = [],
     en_reserved = [], en_options = [], en_fqn = []\<rparr>"

definition default_message :: MessageData where
  "default_message = \<lparr>msg_name = [], msg_visibility = VisDefault, msg_fields = [], map_fields = [],
     oneofs = [], msg_enums = [], msg_reserved = [], extension_ranges = [], msg_extends = [],
     msg_options = [], msg_fqn = []\<rparr>"

definition default_file :: FileNode where
  "default_file = \<lparr>syntax_level = Proto2, edition = [], edition_offset = 0, file_package = [],
     filename = [], file_source = kInvalid, imports_of = [], file_messages = [], file_enums = [],
     file_extends = [], file_options = []\<rparr>"

definition default_literal_field :: MessageLiteralField where
  "default_literal_field = MessageLiteralField Simple [] [] (OBool False)"

section \<open>Scalar types\<close>

definition is_scalar_type :: "string \<Rightarrow> bool" where
  "is_scalar_type t \<longleftrightarrow>
     t = ''int32'' \<or> t = ''int64'' \<or> t = ''uint32'' \<or> t = ''uint64'' \<or> t = ''sint32'' \<or> t = ''sint64'' \<or>
     t = ''fixed32'' \<or> t = ''fixed64'' \<or> t = ''sfixed32'' \<or> t = ''sfixed64'' \<or> t = ''float'' \<or>
     t = ''double'' \<or> t = ''bool'' \<or> t = ''string'' \<or> t = ''bytes''"

definition is_packable_scalar :: "string \<Rightarrow> bool" where
  "is_packable_scalar t \<longleftrightarrow> is_scalar_type t \<and> t \<noteq> ''string'' \<and> t \<noteq> ''bytes''"

definition is_valid_map_key_type :: "string \<Rightarrow> bool" where
  "is_valid_map_key_type t \<longleftrightarrow> is_scalar_type t \<and> t \<noteq> ''float'' \<and> t \<noteq> ''double'' \<and> t \<noteq> ''bytes''"

end
