(* ===== verification/Parser.thy ===== *)
theory Parser
  imports Lexer Ast
begin

unbundle bit_operations_syntax

text \<open>
  The schema parser of \<^verbatim>\<open>src/parser.cpp\<close>, token by token with the combinators. The recursion depth the
  C++ counts in a thread-local (\<^verbatim>\<open>DepthGuard\<close>, limit \<open>kMaxParseDepth\<close>) is the first argument \<open>d\<close> of
  the parsers: the number of levels that may still be entered. A parser with a guard fails at 0 and
  runs its body one level lower, which is also why the recursion ends. The counter is shared by
  message bodies and option literals, so every parser that may reach a guard takes it.

  The C++ names the recursive points as functions; here the bodies that name each other are
  definitions over the parsers they call (\<open>..._of\<close>), and the recursion is closed by
  \<open>parse_message_literal\<close>, \<open>parse_list_literal\<close> and \<open>message_body\<close>.
\<close>

section \<open>Depth guard and token matchers\<close>

definition kMaxParseDepth :: nat where "kMaxParseDepth = 50"

definition too_deep :: Error where
  "too_deep = (mk_error 0 ''maximum nesting depth exceeded'')\<lparr>fatal := True\<rparr>"

definition is_keyword :: "TokenKind \<Rightarrow> bool" where
  "is_keyword k \<longleftrightarrow> k \<in> set (map snd kKeywords)"

definition is_name_token :: "Token \<Rightarrow> bool" where
  "is_name_token t \<longleftrightarrow> kind t = Identifier \<or> is_keyword (kind t)"

definition kind_p :: "TokenKind \<Rightarrow> (Token, Token) parser" where
  "kind_p k = one_p (\<lambda>t. kind t = k)"

definition name_token :: "(Token, Token) parser" where
  "name_token = one_p is_name_token"

definition sign_token :: "(Token, Token) parser" where
  "sign_token = one_p (\<lambda>t. kind t = Minus \<or> kind t = Plus)"

definition number_token :: "(Token, Token) parser" where
  "number_token =
     one_p (\<lambda>t. kind t = IntLiteral \<or> kind t = FloatLiteral \<or> kind t = KwInf \<or> kind t = KwNan)"

section \<open>Numbers\<close>

definition split_int_literal :: "string \<Rightarrow> nat \<times> string" where
  "split_int_literal s =
     (if length s \<ge> 2 \<and> s ! 0 = CHR ''0'' \<and> (s ! 1 = CHR ''x'' \<or> s ! 1 = CHR ''X'') then (16, drop 2 s)
      else if length s > 1 \<and> s ! 0 = CHR ''0'' then (8, drop 1 s)
      else (10, s))"

text \<open>
  \<^verbatim>\<open>std::from_chars\<close> into an unsigned 64-bit integer: the longest prefix of digits of the base. With
  no digit, or a value out of range, the destination keeps its value.
\<close>

datatype errc = NoError | InvalidArgument | ResultOutOfRange

definition digit_value :: "char \<Rightarrow> nat option" where
  "digit_value c =
     (if is_decimal_digit c then Some (of_char c - 48)
      else if c \<ge> CHR ''a'' \<and> c \<le> CHR ''z'' then Some (of_char c - 87)
      else if c \<ge> CHR ''A'' \<and> c \<le> CHR ''Z'' then Some (of_char c - 55)
      else None)"

definition is_base_digit :: "nat \<Rightarrow> char \<Rightarrow> bool" where
  "is_base_digit base c \<longleftrightarrow> (case digit_value c of Some v \<Rightarrow> v < base | None \<Rightarrow> False)"

definition digits_value :: "nat \<Rightarrow> string \<Rightarrow> nat" where
  "digits_value base ds = foldl (\<lambda>acc c. acc * base + the (digit_value c)) 0 ds"

definition from_chars :: "nat \<Rightarrow> string \<Rightarrow> u64 \<Rightarrow> errc \<times> u64" where
  "from_chars base s dest =
     (let ds = take (count_while (is_base_digit base) s) s; v = digits_value base ds in
      if ds = [] then (InvalidArgument, dest)
      else if v \<ge> 2 ^ 64 then (ResultOutOfRange, dest)
      else (NoError, of_nat v))"

definition make_float :: "string \<Rightarrow> bool \<Rightarrow> OptionValue" where
  "make_float s negative = ODouble (FloatText s negative)"

definition make_int :: "string \<Rightarrow> bool \<Rightarrow> OptionValue" where
  "make_int s negative =
     (let (base, digits) = split_int_literal s;
          (ec, mag) = from_chars base digits 0
      in if ec = ResultOutOfRange then make_float s negative
         else if negative then
           let int64_min_magnitude = push_bit 63 1 in
           if mag > int64_min_magnitude then make_float s negative
           else OInt (if mag = int64_min_magnitude then 0x8000000000000000 else - mag)
         else OUint mag)"

definition interpret_number :: "Token option \<Rightarrow> Token \<Rightarrow> OptionValue" where
  "interpret_number sign num =
     (let negative = (case sign of Some t \<Rightarrow> kind t = Minus | None \<Rightarrow> False) in
      if kind num = IntLiteral then make_int (tok_text num) negative
      else if kind num = FloatLiteral then make_float (tok_text num) negative
      else if kind num = KwInf then ODouble (Infinity negative)
      else ODouble (NotANumber negative))"

definition parse_int32 :: "string \<Rightarrow> bool \<Rightarrow> u32" where
  "parse_int32 s negative =
     (let (base, digits) = split_int_literal s;
          (ec, mag) = from_chars base digits 0;
          v = (if negative then 0 - mag else mag)
      in ucast v)"

section \<open>Names\<close>

definition qualified_ident :: "(Token, string) parser" where
  "qualified_ident =
     map_p (seq name_token (many (preceded (kind_p Dot) name_token)))
       (\<lambda>(first, rest). tok_text first @ concat (map (\<lambda>t. ''.'' @ tok_text t) rest))"

definition field_name :: "(Token, MessageLiteralField) parser" where
  "field_name =
     alt (map_p name_token (\<lambda>t. MessageLiteralField Simple (tok_text t) [] (OBool False)))
       [map_p (seq (kind_p LBracket) (seq qualified_ident
            (seq (opt (preceded (kind_p Slash) qualified_ident)) (kind_p RBracket))))
          (\<lambda>(_, n, type, _).
             case type of
               Some ty \<Rightarrow> MessageLiteralField AnyTypeUrl n ty (OBool False)
             | None \<Rightarrow> MessageLiteralField Extension n [] (OBool False))]"

definition option_name_component :: "(Token, OptionNameComponent) parser" where
  "option_name_component =
     alt (map_p name_token (\<lambda>t. \<lparr>comp_name = tok_text t, is_extension = False\<rparr>))
       [map_p (seq (kind_p LParen) (seq (opt (kind_p Dot)) (seq qualified_ident (kind_p RParen))))
          (\<lambda>(_, dot, n, _). \<lparr>comp_name = (if dot \<noteq> None then ''.'' else []) @ n, is_extension = True\<rparr>)]"

definition parse_option_name :: "(Token, OptionNameComponent list) parser" where
  "parse_option_name =
     map_p (seq option_name_component (many (preceded (kind_p Dot) option_name_component)))
       (\<lambda>(first, rest). first # rest)"

section \<open>Option values\<close>

definition parse_scalar :: "(Token, OptionValue) parser" where
  "parse_scalar =
     alt (map_p (seq (opt sign_token) number_token) (\<lambda>(sign, num). interpret_number sign num))
       [map_p (kind_p StringLiteral) (\<lambda>t. OString (str_value t)),
        map_p name_token (\<lambda>t. OIdentifier (tok_text t))]"

type_synonym literal_parser = "(Token, MessageLiteralField list) parser"
type_synonym list_parser = "(Token, OptionValue list) parser"

definition value_of :: "literal_parser \<Rightarrow> list_parser \<Rightarrow> (Token, OptionValue) parser" where
  "value_of ml ll = alt (map_p ml OMessage) [map_p ll OList, parse_scalar]"

definition field_value_of :: "literal_parser \<Rightarrow> list_parser \<Rightarrow> (Token, OptionValue) parser" where
  "field_value_of ml ll =
     alt (preceded (kind_p Colon) (value_of ml ll)) [map_p ml OMessage, map_p ll OList]"

definition message_field_of :: "literal_parser \<Rightarrow> list_parser \<Rightarrow> (Token, MessageLiteralField) parser" where
  "message_field_of ml ll =
     map_p (seq field_name (field_value_of ml ll))
       (\<lambda>(f, v). MessageLiteralField (name_kind f) (mlf_name f) (any_type f) v)"

definition literal_body_of :: "literal_parser \<Rightarrow> list_parser \<Rightarrow> (Token, MessageLiteralField list) parser" where
  "literal_body_of ml ll =
     map_p (many (seq (message_field_of ml ll) (opt (alt (kind_p Comma) [kind_p Semicolon])))) (map fst)"

fun parse_message_literal :: "nat \<Rightarrow> literal_parser"
  and parse_list_literal :: "nat \<Rightarrow> list_parser" where
  "parse_message_literal 0 = (\<lambda>inp. Inl too_deep)"
| "parse_message_literal (Suc d) =
     (let body = literal_body_of (parse_message_literal d) (parse_list_literal d) in
      alt (delimited (kind_p LBrace) body (cut (kind_p RBrace)))
        [delimited (kind_p LAngle) body (cut (kind_p RAngle))])"
| "parse_list_literal 0 = (\<lambda>inp. Inl too_deep)"
| "parse_list_literal (Suc d) =
     delimited (kind_p LBracket)
       (separated_list (value_of (parse_message_literal d) (parse_list_literal d)) (kind_p Comma))
       (cut (kind_p RBracket))"

definition parse_value :: "nat \<Rightarrow> (Token, OptionValue) parser" where
  "parse_value d = value_of (parse_message_literal d) (parse_list_literal d)"

definition parse_field_value :: "nat \<Rightarrow> (Token, OptionValue) parser" where
  "parse_field_value d = field_value_of (parse_message_literal d) (parse_list_literal d)"

definition parse_message_field :: "nat \<Rightarrow> (Token, MessageLiteralField) parser" where
  "parse_message_field d = message_field_of (parse_message_literal d) (parse_list_literal d)"

section \<open>Options\<close>

definition compact_option :: "nat \<Rightarrow> (Token, OptionNode) parser" where
  "compact_option d =
     map_p (seq parse_option_name (seq (cut (kind_p Equals)) (cut (parse_value d))))
       (\<lambda>(n, _, v). \<lparr>opt_name = n, opt_value = v\<rparr>)"

definition parse_option_decl :: "nat \<Rightarrow> (Token, OptionNode) parser" where
  "parse_option_decl d =
     map_p (seq (kind_p KwOption) (seq (cut parse_option_name) (seq (cut (kind_p Equals))
         (seq (cut (parse_value d)) (cut (kind_p Semicolon))))))
       (\<lambda>(_, n, _, v, _). \<lparr>opt_name = n, opt_value = v\<rparr>)"

definition parse_compact_options :: "nat \<Rightarrow> (Token, OptionNode list) parser" where
  "parse_compact_options d =
     delimited (kind_p LBracket) (separated_list (compact_option d) (kind_p Comma)) (cut (kind_p RBracket))"

definition options_or_empty :: "OptionNode list option \<Rightarrow> OptionNode list" where
  "options_or_empty os = (case os of Some xs \<Rightarrow> xs | None \<Rightarrow> [])"

section \<open>Enums and reserved ranges\<close>

definition signed_int :: "(Token, u32) parser" where
  "signed_int =
     map_p (seq (opt (kind_p Minus)) (kind_p IntLiteral))
       (\<lambda>(minus, t). parse_int32 (tok_text t) (minus \<noteq> None))"

definition reserved_range :: "u32 \<Rightarrow> (Token, NumberRange) parser" where
  "reserved_range max_sentinel =
     (let bound = alt (map_p (kind_p KwMax) (\<lambda>_. max_sentinel)) [signed_int] in
      map_p (seq signed_int (opt (preceded (kind_p KwTo) bound)))
        (\<lambda>(start, e). \<lparr>range_start = start, range_end = (case e of Some x \<Rightarrow> x | None \<Rightarrow> start)\<rparr>))"

definition reserved_name :: "(Token, string) parser" where
  "reserved_name = alt (map_p (kind_p StringLiteral) str_value) [map_p name_token tok_text]"

definition parse_reserved :: "u32 \<Rightarrow> (Token, ReservedNode) parser" where
  "parse_reserved max_sentinel =
     (let ranges = map_p (seq (reserved_range max_sentinel)
                      (many (preceded (kind_p Comma) (reserved_range max_sentinel))))
                    (\<lambda>(first, rest). \<lparr>res_ranges = first # rest, res_names = []\<rparr>);
          names = map_p (seq reserved_name (many (preceded (kind_p Comma) reserved_name)))
                    (\<lambda>(first, rest). \<lparr>res_ranges = [], res_names = first # rest\<rparr>)
      in delimited (kind_p KwReserved) (alt ranges [names]) (cut (kind_p Semicolon)))"

definition enum_value_decl :: "nat \<Rightarrow> (Token, EnumValueNode) parser" where
  "enum_value_decl d =
     map_p (seq name_token (seq (cut (kind_p Equals)) (seq (cut signed_int)
         (seq (opt (parse_compact_options d)) (cut (kind_p Semicolon))))))
       (\<lambda>(n, _, v, os, _).
          \<lparr>ev_name = tok_text n, ev_number = v, ev_options = options_or_empty os, ev_fqn = []\<rparr>)"

definition visibility_modifier :: "(Token, Visibility option) parser" where
  "visibility_modifier =
     opt (alt (map_p (kind_p KwExport) (\<lambda>_. VisExport)) [map_p (kind_p KwLocal) (\<lambda>_. VisLocal)])"

datatype EnumElement =
    EEValue EnumValueNode | EEOption OptionNode | EEReserved ReservedNode | EEEmpty

definition enum_body :: "nat \<Rightarrow> (Token, EnumElement list) parser" where
  "enum_body d =
     many (alt (map_p (parse_option_decl d) EEOption)
       [map_p (parse_reserved kMaxEnumNumber) EEReserved, map_p (enum_value_decl d) EEValue,
        map_p (kind_p Semicolon) (\<lambda>_. EEEmpty)])"

fun add_enum_element :: "EnumElement \<Rightarrow> EnumNode \<Rightarrow> EnumNode" where
  "add_enum_element (EEValue v) node = node\<lparr>en_values := en_values node @ [v]\<rparr>"
| "add_enum_element (EEOption o') node = node\<lparr>en_options := en_options node @ [o']\<rparr>"
| "add_enum_element (EEReserved r) node = node\<lparr>en_reserved := en_reserved node @ [r]\<rparr>"
| "add_enum_element EEEmpty node = node"

definition assemble_enum :: "string \<Rightarrow> EnumElement list \<Rightarrow> SyntaxLevel \<Rightarrow> EnumNode" where
  "assemble_enum n elements syn =
     fold add_enum_element elements
       (default_enum\<lparr>en_name := n, openness := (if syn = Proto2 then Closed else Open)\<rparr>)"

definition parse_enum :: "nat \<Rightarrow> SyntaxLevel \<Rightarrow> (Token, EnumNode) parser" where
  "parse_enum d syn =
     map_p (seq visibility_modifier (seq (kind_p KwEnum) (seq (cut name_token)
         (seq (cut (kind_p LBrace)) (seq (enum_body d) (cut (kind_p RBrace)))))))
       (\<lambda>(vis, _, n, _, elements, _).
          let node = assemble_enum (tok_text n) elements syn in
          case vis of Some v \<Rightarrow> node\<lparr>en_visibility := v\<rparr> | None \<Rightarrow> node)"

section \<open>Fields\<close>

definition type_name_p :: "(Token, string) parser" where
  "type_name_p =
     map_p (seq (opt (kind_p Dot)) qualified_ident) (\<lambda>(dot, n). (if dot \<noteq> None then ''.'' else []) @ n)"

definition field_number_p :: "(Token, u32) parser" where
  "field_number_p = map_p (kind_p IntLiteral) (\<lambda>t. parse_int32 (tok_text t) False)"

datatype Cardinality = CardRequired | CardOptional | CardRepeated

definition cardinality :: "(Token, Cardinality) parser" where
  "cardinality =
     alt (map_p (kind_p KwRequired) (\<lambda>_. CardRequired))
       [map_p (kind_p KwOptional) (\<lambda>_. CardOptional), map_p (kind_p KwRepeated) (\<lambda>_. CardRepeated)]"

definition default_repeated_encoding :: "string \<Rightarrow> SyntaxLevel \<Rightarrow> RepeatedEncoding" where
  "default_repeated_encoding ty syn =
     (if \<not> is_packable_scalar ty then Expanded else if syn = Proto2 then Expanded else Packed)"

definition build_field ::
    "Cardinality option \<Rightarrow> string \<Rightarrow> string \<Rightarrow> u32 \<Rightarrow> OptionNode list option \<Rightarrow> SyntaxLevel \<Rightarrow> FieldNode" where
  "build_field crd ty n number os syn =
     (let field = default_field\<lparr>fld_name := n, type_name := ty, fld_number := number,
                                 fld_options := options_or_empty os\<rparr> in
      if crd = Some CardRepeated then
        field\<lparr>is_repeated := True, repeated_encoding := default_repeated_encoding ty syn\<rparr>
      else if crd = Some CardRequired then field\<lparr>presence := Required\<rparr>
      else if crd = None \<and> syn = Proto3 then field\<lparr>presence := Implicit\<rparr>
      else field\<lparr>presence := Explicit\<rparr>)"

definition oneof_field :: "nat \<Rightarrow> (Token, FieldNode) parser" where
  "oneof_field d =
     map_p (seq type_name_p (seq name_token (seq (cut (kind_p Equals)) (seq (cut field_number_p)
         (seq (opt (parse_compact_options d)) (cut (kind_p Semicolon)))))))
       (\<lambda>(ty, n, _, number, os, _).
          default_field\<lparr>type_name := ty, fld_name := tok_text n, fld_offset := tok_offset n,
            fld_number := number, presence := Explicit, fld_options := options_or_empty os\<rparr>)"

definition parse_field :: "nat \<Rightarrow> SyntaxLevel \<Rightarrow> (Token, FieldNode) parser" where
  "parse_field d syn =
     map_p (seq (opt cardinality) (seq type_name_p (seq name_token
         (seq (preceded (cut (kind_p Equals)) (cut field_number_p))
           (seq (opt (parse_compact_options d)) (cut (kind_p Semicolon)))))))
       (\<lambda>(crd, ty, n, number, os, _).
          (build_field crd ty (tok_text n) number os syn)\<lparr>fld_offset := tok_offset n\<rparr>)"

definition parse_map_field :: "nat \<Rightarrow> (Token, MapFieldNode) parser" where
  "parse_map_field d =
     map_p (seq (preceded (seq (kind_p KwMap) (cut (kind_p LAngle))) (cut type_name_p))
         (seq (preceded (cut (kind_p Comma)) (cut type_name_p))
           (seq (preceded (cut (kind_p RAngle)) (cut name_token))
             (seq (preceded (cut (kind_p Equals)) (cut field_number_p))
               (seq (opt (parse_compact_options d)) (cut (kind_p Semicolon)))))))
       (\<lambda>(k, v, n, number, os, _).
          default_map_field\<lparr>key_type := k, value_type := v, mf_name := tok_text n,
            mf_offset := tok_offset n, mf_number := number, mf_options := options_or_empty os\<rparr>)"

definition extension_range :: "nat \<Rightarrow> (Token, ExtensionRangeNode) parser" where
  "extension_range d =
     (let ranges = map_p (seq (reserved_range kMaxMessageFieldNumber)
                      (many (preceded (kind_p Comma) (reserved_range kMaxMessageFieldNumber))))
                    (\<lambda>(first, rest). first # rest)
      in map_p (seq (preceded (kind_p KwExtensions) ranges)
             (seq (opt (parse_compact_options d)) (cut (kind_p Semicolon))))
           (\<lambda>(rs, os, _). \<lparr>xr_ranges = rs, xr_options = options_or_empty os\<rparr>))"

definition to_lower :: "string \<Rightarrow> string" where
  "to_lower s = map (\<lambda>c. if c \<ge> CHR ''A'' \<and> c \<le> CHR ''Z'' then char_of (of_char c + 32 :: nat) else c) s"

section \<open>Messages, groups, oneofs and extend blocks\<close>

record GroupDecl =
  grp_field :: FieldNode
  grp_message :: MessageNode

record ExtendBundle =
  eb_node :: ExtendNode
  eb_group_messages :: "MessageNode list"

record OneofBundle =
  ob_node :: OneofNode
  ob_group_messages :: "MessageNode list"

datatype OneofElement = OEField FieldNode | OEGroup GroupDecl | OEOption OptionNode

datatype ExtendElement = XEField FieldNode | XEGroup GroupDecl

datatype MessageElement =
    MEField FieldNode | MEMap MapFieldNode | MEOneof OneofBundle | MEEnum EnumNode
  | MEMessage MessageNode | MEReserved ReservedNode | MEExtRange ExtensionRangeNode
  | MEExtend ExtendBundle | MEOption OptionNode | MEGroup GroupDecl | MEEmpty

fun add_oneof_element :: "OneofElement \<Rightarrow> OneofBundle \<Rightarrow> OneofBundle" where
  "add_oneof_element (OEField f) b =
     b\<lparr>ob_node := (ob_node b)\<lparr>oo_fields := oo_fields (ob_node b) @ [f]\<rparr>\<rparr>"
| "add_oneof_element (OEGroup g) b =
     b\<lparr>ob_node := (ob_node b)\<lparr>oo_fields := oo_fields (ob_node b) @ [grp_field g]\<rparr>,
       ob_group_messages := ob_group_messages b @ [grp_message g]\<rparr>"
| "add_oneof_element (OEOption x) b =
     b\<lparr>ob_node := (ob_node b)\<lparr>oo_options := oo_options (ob_node b) @ [x]\<rparr>\<rparr>"

definition assemble_oneof :: "string \<Rightarrow> OneofElement list \<Rightarrow> OneofBundle" where
  "assemble_oneof n elements =
     fold add_oneof_element elements
       \<lparr>ob_node = \<lparr>oo_name = n, oo_fields = [], oo_options = []\<rparr>, ob_group_messages = []\<rparr>"

definition upd_data :: "(MessageData \<Rightarrow> MessageData) \<Rightarrow> MessageNode \<Rightarrow> MessageNode" where
  "upd_data f node = MessageNode (f (msg_data node)) (nested_messages node)"

definition push_nested :: "MessageNode list \<Rightarrow> MessageNode \<Rightarrow> MessageNode" where
  "push_nested ms node = MessageNode (msg_data node) (nested_messages node @ ms)"

fun add_message_element :: "MessageElement \<Rightarrow> MessageNode \<Rightarrow> MessageNode" where
  "add_message_element (MEField f) node = upd_data (\<lambda>m. m\<lparr>msg_fields := msg_fields m @ [f]\<rparr>) node"
| "add_message_element (MEMap f) node = upd_data (\<lambda>m. m\<lparr>map_fields := map_fields m @ [f]\<rparr>) node"
| "add_message_element (MEOneof b) node =
     push_nested (ob_group_messages b) (upd_data (\<lambda>m. m\<lparr>oneofs := oneofs m @ [ob_node b]\<rparr>) node)"
| "add_message_element (MEEnum e) node = upd_data (\<lambda>m. m\<lparr>msg_enums := msg_enums m @ [e]\<rparr>) node"
| "add_message_element (MEMessage c) node = push_nested [c] node"
| "add_message_element (MEReserved r) node = upd_data (\<lambda>m. m\<lparr>msg_reserved := msg_reserved m @ [r]\<rparr>) node"
| "add_message_element (MEExtRange x) node =
     upd_data (\<lambda>m. m\<lparr>extension_ranges := extension_ranges m @ [x]\<rparr>) node"
| "add_message_element (MEExtend b) node =
     push_nested (eb_group_messages b) (upd_data (\<lambda>m. m\<lparr>msg_extends := msg_extends m @ [eb_node b]\<rparr>) node)"
| "add_message_element (MEOption x) node = upd_data (\<lambda>m. m\<lparr>msg_options := msg_options m @ [x]\<rparr>) node"
| "add_message_element (MEGroup g) node =
     push_nested [grp_message g] (upd_data (\<lambda>m. m\<lparr>msg_fields := msg_fields m @ [grp_field g]\<rparr>) node)"
| "add_message_element MEEmpty node = node"

definition assemble_message :: "string \<Rightarrow> MessageElement list \<Rightarrow> MessageNode" where
  "assemble_message n elements =
     fold add_message_element elements (MessageNode (default_message\<lparr>msg_name := n\<rparr>) [])"

type_synonym body_parser = "(Token, MessageElement list) parser"

definition parse_message_of :: "body_parser \<Rightarrow> (Token, MessageNode) parser" where
  "parse_message_of body =
     map_p (seq visibility_modifier (seq (kind_p KwMessage) (seq (cut name_token)
         (delimited (cut (kind_p LBrace)) body (cut (kind_p RBrace))))))
       (\<lambda>(vis, _, n, elements).
          let node = assemble_message (tok_text n) elements in
          case vis of Some v \<Rightarrow> upd_data (\<lambda>m. m\<lparr>msg_visibility := v\<rparr>) node | None \<Rightarrow> node)"

definition parse_group_of :: "nat \<Rightarrow> body_parser \<Rightarrow> SyntaxLevel \<Rightarrow> (Token, GroupDecl) parser" where
  "parse_group_of d body syn =
     map_p (seq (opt cardinality) (seq (preceded (kind_p KwGroup) (cut name_token))
         (seq (preceded (cut (kind_p Equals)) (cut field_number_p)) (seq (opt (parse_compact_options d))
           (delimited (cut (kind_p LBrace)) body (cut (kind_p RBrace)))))))
       (\<lambda>(crd, n, number, os, elements).
          let group_name = tok_text n;
              field = build_field crd group_name (to_lower group_name) number os syn
          in \<lparr>grp_field = field\<lparr>fld_offset := tok_offset n, is_group := True, message_encoding := Delimited\<rparr>,
               grp_message = assemble_message group_name elements\<rparr>)"

definition is_label :: "TokenKind \<Rightarrow> bool" where
  "is_label k \<longleftrightarrow> k = KwRequired \<or> k = KwOptional \<or> k = KwRepeated"

definition oneof_element_of :: "nat \<Rightarrow> body_parser \<Rightarrow> SyntaxLevel \<Rightarrow> (Token, OneofElement) parser" where
  "oneof_element_of d body syn inp =
     (if inp \<noteq> [] \<and> is_label (kind (hd inp)) then
        Inl ((mk_error 0 ''a oneof member must not have a label (required/optional/repeated)'')\<lparr>fatal := True\<rparr>)
      else
        alt (map_p (parse_option_decl d) OEOption)
          [map_p (parse_group_of d body syn) OEGroup, map_p (oneof_field d) OEField] inp)"

definition parse_oneof_of :: "nat \<Rightarrow> body_parser \<Rightarrow> SyntaxLevel \<Rightarrow> (Token, OneofBundle) parser" where
  "parse_oneof_of d body syn =
     map_p (seq (kind_p KwOneof) (seq (cut name_token) (seq (cut (kind_p LBrace))
         (seq (many (oneof_element_of d body syn)) (cut (kind_p RBrace))))))
       (\<lambda>(_, n, _, elements, _). assemble_oneof (tok_text n) elements)"

fun add_extend_element :: "ExtendElement \<Rightarrow> ExtendBundle \<Rightarrow> ExtendBundle" where
  "add_extend_element (XEField f) b =
     b\<lparr>eb_node := (eb_node b)\<lparr>ext_fields := ext_fields (eb_node b) @ [f]\<rparr>\<rparr>"
| "add_extend_element (XEGroup g) b =
     b\<lparr>eb_node := (eb_node b)\<lparr>ext_fields := ext_fields (eb_node b) @ [grp_field g]\<rparr>,
       eb_group_messages := eb_group_messages b @ [grp_message g]\<rparr>"

definition extend_element_of :: "nat \<Rightarrow> body_parser \<Rightarrow> SyntaxLevel \<Rightarrow> (Token, ExtendElement) parser" where
  "extend_element_of d body syn =
     alt (map_p (parse_group_of d body syn) XEGroup) [map_p (parse_field d syn) XEField]"

definition parse_extend_of :: "nat \<Rightarrow> body_parser \<Rightarrow> SyntaxLevel \<Rightarrow> (Token, ExtendBundle) parser" where
  "parse_extend_of d body syn inp =
     (let offset = (if inp = [] then 0 else tok_offset (hd inp)) in
      map_p (seq (preceded (kind_p KwExtend) (cut type_name_p))
          (delimited (cut (kind_p LBrace)) (many (extend_element_of d body syn)) (cut (kind_p RBrace))))
        (\<lambda>(ty, elements).
           fold add_extend_element elements
             \<lparr>eb_node = \<lparr>extendee_type_name = ty, ext_offset = offset, ext_fields = []\<rparr>,
               eb_group_messages = []\<rparr>) inp)"

definition message_element_of :: "nat \<Rightarrow> body_parser \<Rightarrow> SyntaxLevel \<Rightarrow> (Token, MessageElement) parser" where
  "message_element_of d body syn =
     alt (map_p (parse_option_decl d) MEOption)
       [map_p (parse_map_field d) MEMap,
        map_p (parse_oneof_of d body syn) MEOneof,
        map_p (parse_reserved kMaxMessageFieldNumber) MEReserved,
        map_p (extension_range d) MEExtRange,
        map_p (parse_extend_of d body syn) MEExtend,
        map_p (parse_message_of body) MEMessage,
        map_p (parse_enum d syn) MEEnum,
        map_p (parse_group_of d body syn) MEGroup,
        map_p (parse_field d syn) MEField,
        map_p (kind_p Semicolon) (\<lambda>_. MEEmpty)]"

primrec message_body :: "nat \<Rightarrow> SyntaxLevel \<Rightarrow> body_parser" where
  "message_body 0 = (\<lambda>syn inp. Inl too_deep)"
| "message_body (Suc d) = (\<lambda>syn. many (message_element_of d (message_body d syn) syn))"

definition parse_message :: "nat \<Rightarrow> SyntaxLevel \<Rightarrow> (Token, MessageNode) parser" where
  "parse_message d syn = parse_message_of (message_body d syn)"

definition parse_group :: "nat \<Rightarrow> SyntaxLevel \<Rightarrow> (Token, GroupDecl) parser" where
  "parse_group d syn = parse_group_of d (message_body d syn) syn"

definition parse_extend :: "nat \<Rightarrow> SyntaxLevel \<Rightarrow> (Token, ExtendBundle) parser" where
  "parse_extend d syn = parse_extend_of d (message_body d syn) syn"

section \<open>Files\<close>

text \<open>\<open>depth\<close> is a \<^verbatim>\<open>size_t\<close> that starts at 0; the first token is a brace, so it never drops below 1
  before a decrement.\<close>

fun balanced_loop :: "Token list \<Rightarrow> nat \<Rightarrow> Token list option" where
  "balanced_loop [] depth = None"
| "balanced_loop (t # ts) depth =
     (if kind t = LBrace then balanced_loop ts (depth + 1)
      else if kind t = RBrace then
        (if depth - 1 = 0 then Some ts else balanced_loop ts (depth - 1))
      else balanced_loop ts depth)"

definition balanced_braces :: "(Token, unit) parser" where
  "balanced_braces inp =
     (if inp = [] \<or> kind (hd inp) \<noteq> LBrace then Inl (mk_error 0 (''expected '' @ [squote] @ ''{'' @ [squote]))
      else
        (case balanced_loop inp 0 of
           Some rest \<Rightarrow> Inr (rest, ())
         | None \<Rightarrow> Inl (mk_error (length inp) (''unterminated '' @ [squote] @ ''{'' @ [squote] @ '' block''))))"

definition import_decl :: "(Token, ImportNode) parser" where
  "import_decl =
     map_p (seq (preceded (kind_p KwImport) (opt (alt (kind_p KwWeak) [kind_p KwPublic, kind_p KwOption])))
         (seq (cut (kind_p StringLiteral)) (cut (kind_p Semicolon))))
       (\<lambda>(modifier, path, _).
          \<lparr>imp_path = str_value path,
            imp_kind =
              (case modifier of
                 None \<Rightarrow> ImportStandard
               | Some t \<Rightarrow>
                   if kind t = KwWeak then ImportWeak
                   else if kind t = KwPublic then ImportPublic
                   else if kind t = KwOption then ImportOption
                   else ImportStandard)\<rparr>)"

definition package_decl :: "(Token, string) parser" where
  "package_decl =
     map_p (seq (preceded (kind_p KwPackage) (cut qualified_ident)) (cut (kind_p Semicolon))) fst"

definition service_decl :: "(Token, unit) parser" where
  "service_decl =
     map_p (seq (kind_p KwService) (seq (cut name_token) (cut balanced_braces))) (\<lambda>_. ())"

record SyntaxInfo =
  si_level :: SyntaxLevel
  si_edition :: string
  si_edition_offset :: nat

definition syntax_decl :: "(Token, SyntaxInfo) parser" where
  "syntax_decl =
     alt (map_p (seq (preceded (kind_p KwSyntax) (cut (kind_p Equals)))
            (seq (cut (kind_p StringLiteral)) (cut (kind_p Semicolon))))
          (\<lambda>(_, s, _). \<lparr>si_level = (if str_value s = ''proto3'' then Proto3 else Proto2),
                         si_edition = [], si_edition_offset = 0\<rparr>))
       [map_p (seq (preceded (kind_p KwEdition) (cut (kind_p Equals)))
            (seq (cut (kind_p StringLiteral)) (cut (kind_p Semicolon))))
          (\<lambda>(_, s, _). \<lparr>si_level = Edition, si_edition = str_value s, si_edition_offset = tok_offset s\<rparr>)]"

datatype FileElement =
    FEImport ImportNode | FEPackage string | FEOption OptionNode | FEMessage MessageNode
  | FEEnum EnumNode | FEExtend ExtendBundle | FEEmpty

definition file_element :: "nat \<Rightarrow> SyntaxLevel \<Rightarrow> (Token, FileElement) parser" where
  "file_element d syn =
     alt (map_p (parse_option_decl d) FEOption)
       [map_p import_decl FEImport, map_p package_decl FEPackage, map_p service_decl (\<lambda>_. FEEmpty),
        map_p (parse_extend d syn) FEExtend, map_p (parse_message d syn) FEMessage,
        map_p (parse_enum d syn) FEEnum, map_p (kind_p Semicolon) (\<lambda>_. FEEmpty)]"

fun apply_file_element :: "FileElement \<Rightarrow> FileNode \<Rightarrow> FileNode" where
  "apply_file_element (FEImport i) file = file\<lparr>imports_of := imports_of file @ [i]\<rparr>"
| "apply_file_element (FEPackage p) file = file\<lparr>file_package := p\<rparr>"
| "apply_file_element (FEOption x) file = file\<lparr>file_options := file_options file @ [x]\<rparr>"
| "apply_file_element (FEMessage m) file = file\<lparr>file_messages := file_messages file @ [m]\<rparr>"
| "apply_file_element (FEEnum e) file = file\<lparr>file_enums := file_enums file @ [e]\<rparr>"
| "apply_file_element (FEExtend b) file =
     file\<lparr>file_extends := file_extends file @ [eb_node b],
          file_messages := file_messages file @ eb_group_messages b\<rparr>"
| "apply_file_element FEEmpty file = file"

definition parse_file_body ::
    "Token list \<Rightarrow> Token list \<Rightarrow> SyntaxInfo \<Rightarrow> Error + Token list \<times> FileNode" where
  "parse_file_body inp rest si =
     (case many (file_element kMaxParseDepth (si_level si)) rest of
        Inl e \<Rightarrow> Inl (lift_err (consumed inp rest) e)
      | Inr (rem, elements) \<Rightarrow>
          Inr (rem, fold apply_file_element elements
            (default_file\<lparr>syntax_level := si_level si, edition := si_edition si,
               edition_offset := si_edition_offset si\<rparr>)))"

definition parse_file :: "(Token, FileNode) parser" where
  "parse_file inp =
     (case syntax_decl inp of
        Inr (rest, si) \<Rightarrow> parse_file_body inp rest si
      | Inl e \<Rightarrow>
          if fatal e then Inl e
          else parse_file_body inp inp \<lparr>si_level = Proto2, si_edition = [], si_edition_offset = 0\<rparr>)"

section \<open>Every parser keeps the contract\<close>

lemmas list_all_rules = list.pred_inject

lemma lawful_tokens [parser_intros]:
  "lawful_parser (kind_p k)" "lawful_parser name_token" "lawful_parser sign_token"
  "lawful_parser number_token"
  unfolding kind_p_def name_token_def sign_token_def number_token_def by (intro parser_intros)+

lemma lawful_names [parser_intros]:
  "lawful_parser qualified_ident" "lawful_parser field_name" "lawful_parser option_name_component"
  "lawful_parser parse_option_name" "lawful_parser parse_scalar"
  unfolding qualified_ident_def field_name_def option_name_component_def parse_option_name_def parse_scalar_def
  by (intro parser_intros conjI TrueI | simp only: list_all_rules)+

lemma lawful_values [parser_intros]:
  assumes "lawful_parser ml" and "lawful_parser ll"
  shows "lawful_parser (value_of ml ll)" and "lawful_parser (literal_body_of ml ll)"
    and "lawful_parser (field_value_of ml ll)" and "lawful_parser (message_field_of ml ll)"
  unfolding value_of_def literal_body_of_def message_field_of_def field_value_of_def
  by (intro parser_intros assms conjI TrueI | simp only: list_all_rules)+

lemma lawful_too_deep: "lawful_parser (\<lambda>inp. Inl too_deep)"
  by (rule lawful_parserI) (auto simp: too_deep_def)

lemma lawful_literals [parser_intros]:
  "lawful_parser (parse_message_literal d)" "lawful_parser (parse_list_literal d)"
proof (induction d)
  case 0
  show "lawful_parser (parse_message_literal 0)" "lawful_parser (parse_list_literal 0)"
    by (simp_all add: lawful_too_deep)
next
  case (Suc d)
  show "lawful_parser (parse_message_literal (Suc d))" "lawful_parser (parse_list_literal (Suc d))"
    unfolding parse_message_literal.simps parse_list_literal.simps Let_def
    by (intro parser_intros Suc conjI TrueI | simp only: list_all_rules)+
qed

lemma lawful_options [parser_intros]:
  "lawful_parser (parse_value d)" "lawful_parser (compact_option d)" "lawful_parser (parse_option_decl d)"
  "lawful_parser (parse_compact_options d)"
  unfolding parse_value_def compact_option_def parse_option_decl_def parse_compact_options_def
  by (intro parser_intros conjI TrueI | simp only: list_all_rules)+

lemma lawful_ranges [parser_intros]:
  "lawful_parser signed_int" "lawful_parser (reserved_range m)" "lawful_parser reserved_name"
  "lawful_parser (parse_reserved m)" "lawful_parser visibility_modifier"
  unfolding signed_int_def reserved_range_def reserved_name_def parse_reserved_def visibility_modifier_def Let_def
  by (intro parser_intros conjI TrueI | simp only: list_all_rules)+

lemma lawful_enums [parser_intros]:
  "lawful_parser (enum_value_decl d)" "lawful_parser (enum_body d)" "lawful_parser (parse_enum d syn)"
  unfolding enum_value_decl_def enum_body_def parse_enum_def
  by (intro parser_intros conjI TrueI | simp only: list_all_rules)+

lemma lawful_fields [parser_intros]:
  "lawful_parser type_name_p" "lawful_parser field_number_p" "lawful_parser cardinality"
  "lawful_parser (oneof_field d)" "lawful_parser (parse_field d syn)" "lawful_parser (parse_map_field d)"
  "lawful_parser (extension_range d)"
  unfolding type_name_p_def field_number_p_def cardinality_def oneof_field_def parse_field_def
    parse_map_field_def extension_range_def Let_def
  by (intro parser_intros conjI TrueI | simp only: list_all_rules)+

lemma lawful_if:
  "(\<And>inp. c inp \<Longrightarrow> q inp = Inl e) \<Longrightarrow> byte_offset e = 0 \<Longrightarrow> (\<And>inp. \<not> c inp \<Longrightarrow> q inp = p inp) \<Longrightarrow>
     lawful_parser p \<Longrightarrow> lawful_parser q"
  by (rule lawful_parserI) (metis Inl_Inr_False lawful_rest, metis Inl_inject lawful_err le0)

lemma lawful_bodies [parser_intros]:
  assumes b: "lawful_parser body"
  shows "lawful_parser (parse_message_of body)" and "lawful_parser (parse_group_of d body syn)"
    and "lawful_parser (parse_oneof_of d body syn)" and "lawful_parser (parse_extend_of d body syn)"
    and "lawful_parser (message_element_of d body syn)"
proof -
  show m: "lawful_parser (parse_message_of body)" and g: "lawful_parser (parse_group_of d body syn)"
    unfolding parse_message_of_def parse_group_of_def
    by (intro parser_intros b conjI TrueI | simp only: list_all_rules)+
  have oe: "lawful_parser (oneof_element_of d body syn)"
  proof (rule lawful_if [where c = "\<lambda>inp. inp \<noteq> [] \<and> is_label (kind (hd inp))"])
    show "lawful_parser (alt (map_p (parse_option_decl d) OEOption)
        [map_p (parse_group_of d body syn) OEGroup, map_p (oneof_field d) OEField])"
      by (intro parser_intros g conjI TrueI | simp only: list_all_rules)+
  qed (auto simp: oneof_element_of_def)
  show o: "lawful_parser (parse_oneof_of d body syn)"
    unfolding parse_oneof_of_def by (intro parser_intros oe)
  have "lawful_parser (extend_element_of d body syn)"
    unfolding extend_element_of_def by (intro parser_intros g conjI TrueI | simp only: list_all_rules)+
  then have "lawful_parser (map_p (seq (preceded (kind_p KwExtend) (cut type_name_p))
          (delimited (cut (kind_p LBrace)) (many (extend_element_of d body syn)) (cut (kind_p RBrace)))) f)"
    for f :: "string \<times> ExtendElement list \<Rightarrow> ExtendBundle"
    by (intro parser_intros)
  then show x: "lawful_parser (parse_extend_of d body syn)"
    unfolding parse_extend_of_def Let_def lawful_parser_def by blast
  show "lawful_parser (message_element_of d body syn)"
    unfolding message_element_of_def
    by (intro parser_intros m g o x conjI TrueI | simp only: list_all_rules)+
qed

lemma lawful_message_body [parser_intros]: "lawful_parser (message_body d syn)"
proof (induction d)
  case 0
  show ?case by (simp add: lawful_too_deep)
next
  case (Suc d)
  show ?case unfolding message_body.simps by (intro parser_intros Suc)
qed

lemma balanced_loop_suffix: "balanced_loop ts n = Some rest \<Longrightarrow> suffix rest ts"
  by (induction ts n rule: balanced_loop.induct) (auto split: if_splits intro: suffix_ConsI)

lemma lawful_braces [parser_intros]: "lawful_parser balanced_braces"
  by (rule lawful_parserI)
    (auto simp: balanced_braces_def split: if_splits option.splits dest: balanced_loop_suffix)

lemma lawful_file_parts [parser_intros]:
  "lawful_parser import_decl" "lawful_parser package_decl" "lawful_parser service_decl"
  "lawful_parser syntax_decl" "lawful_parser (parse_extend d syn)" "lawful_parser (parse_message d syn)"
  "lawful_parser (file_element d syn)"
  unfolding import_decl_def package_decl_def service_decl_def syntax_decl_def parse_extend_def
    parse_message_def file_element_def
  by (intro parser_intros conjI TrueI | simp only: list_all_rules)+

lemma parse_file_body_lawful:
  assumes "suffix rest inp"
  shows "parse_file_body inp rest si = Inr (rem, f) \<Longrightarrow> suffix rem inp"
    and "parse_file_body inp rest si = Inl e \<Longrightarrow> byte_offset e \<le> length inp"
proof -
  have m: "lawful_parser (many (file_element kMaxParseDepth (si_level si)))" by (intro parser_intros)
  show "parse_file_body inp rest si = Inr (rem, f) \<Longrightarrow> suffix rem inp"
    using assms by (auto simp: parse_file_body_def split: sum.splits
        dest!: lawful_rest [OF m] intro: suffix_order.trans)
  show "parse_file_body inp rest si = Inl e \<Longrightarrow> byte_offset e \<le> length inp"
    using lawful_parser.lifted_bound [OF m _ assms]
    by (auto simp: parse_file_body_def split: sum.splits simp del: lift_err_offset)
qed

interpretation parse_file: lawful_parser parse_file
proof
  fix inp rest f
  assume "parse_file inp = Inr (rest, f)"
  then show "suffix rest inp"
    by (auto simp: parse_file_def split: sum.splits if_splits
        dest!: lawful_rest [OF lawful_file_parts(4)] intro: parse_file_body_lawful)
next
  fix inp e
  assume "parse_file inp = Inl e"
  then show "byte_offset e \<le> length inp"
    by (auto simp: parse_file_def split: sum.splits if_splits intro: lawful_err [OF lawful_file_parts(4)]
        dest: parse_file_body_lawful(2) [OF lawful_rest [OF lawful_file_parts(4)]]
          parse_file_body_lawful(2) [OF suffix_order.refl])
qed

end
