(* ===== verification/Parser_Correct.thy ===== *)
theory Parser_Correct
  imports Parser Strings
begin

text \<open>
  What the schema parser guarantees: errors and remainders lie in the token range, the depth limit
  bounds every syntax tree and is exact, number literals are exact or become floating-point, service
  blocks are skipped exactly, and printed field declarations are read back.
\<close>

section \<open>Positions\<close>

text \<open>
  Property C34. Parser positions lie in the token range: for every token list, \<open>parse_file\<close> returns
  either a remainder that is a suffix of the input or an error whose index is at most the number of
  tokens, so it can be mapped back to a source offset.
\<close>

theorem parse_file_in_range:
  "case parse_file inp of
     Inl e \<Rightarrow> byte_offset e \<le> length inp
   | Inr (rest, file) \<Rightarrow> suffix rest inp"
  by (auto split: sum.split intro: parse_file.error_bound parse_file.rest_suffix)

section \<open>The depth bound\<close>

text \<open>\<open>yields p P\<close>: every value \<open>p\<close> succeeds with satisfies \<open>P\<close>.\<close>

definition yields :: "('i, 'o) parser \<Rightarrow> ('o \<Rightarrow> bool) \<Rightarrow> bool" where
  "yields p P \<longleftrightarrow> (\<forall>inp rest v. p inp = Inr (rest, v) \<longrightarrow> P v)"

lemma yieldsI: "(\<And>inp rest v. p inp = Inr (rest, v) \<Longrightarrow> P v) \<Longrightarrow> yields p P"
  by (simp add: yields_def)

lemma yieldsD: "yields p P \<Longrightarrow> p inp = Inr (rest, v) \<Longrightarrow> P v"
  by (simp add: yields_def)

lemma yields_True: "yields p (\<lambda>_. True)"
  by (simp add: yields_def)

lemma yields_map: "yields p (\<lambda>v. Q (f v)) \<Longrightarrow> yields (map_p p f) Q"
  by (auto simp: yields_def map_p_def split: sum.splits)

lemma yields_alt: "yields p P \<Longrightarrow> list_all (\<lambda>q. yields q P) ps \<Longrightarrow> yields (alt p ps) P"
  unfolding yields_def by (auto simp: list_all_iff dest!: alt_cases)

lemma yields_seq:
  assumes "yields p P" "yields q Q" "\<And>x y. P x \<Longrightarrow> Q y \<Longrightarrow> R (x, y)"
  shows "yields (seq p q) R"
  using assms by (auto simp: yields_def seq_def split: sum.splits)

lemma yields_cut: "yields p P \<Longrightarrow> yields (cut p) P"
  by (auto simp: yields_def cut_def split: sum.splits)

lemma yields_preceded: "yields q P \<Longrightarrow> yields (preceded p q) P"
  by (auto simp: yields_def preceded_def split: sum.splits)

lemma yields_delimited: "yields q P \<Longrightarrow> yields (delimited p q r) P"
  by (auto simp: yields_def delimited_def Let_def split: sum.splits)

lemma repeats_yields: "repeats p inp vs rest \<Longrightarrow> yields p P \<Longrightarrow> list_all P vs"
  by (induction rule: repeats.induct) (auto dest: yieldsD)

lemma yields_many: "yields p P \<Longrightarrow> yields (many p) (list_all P)"
  by (rule yieldsI) (auto simp: many_def many_loop_repeats dest: repeats_yields)

text \<open>The height of a message: how many message bodies nest in it, its own included.\<close>

fun msg_height :: "MessageNode \<Rightarrow> nat" where
  "msg_height (MessageNode m ns) = Suc (Max (insert 0 (set (map msg_height ns))))"

definition heights_le :: "nat \<Rightarrow> MessageNode list \<Rightarrow> bool" where
  "heights_le d = list_all (\<lambda>m. msg_height m \<le> d)"

lemma msg_height_le: "msg_height m \<le> Suc d \<longleftrightarrow> heights_le d (nested_messages m)"
  by (cases m) (auto simp: heights_le_def list_all_iff)

lemma heights_le_append [simp]: "heights_le d (xs @ ys) \<longleftrightarrow> heights_le d xs \<and> heights_le d ys"
  by (simp add: heights_le_def)

lemma heights_le_Nil [simp]: "heights_le d []"
  by (simp add: heights_le_def)

lemma heights_le_Cons [simp]: "heights_le d (x # xs) \<longleftrightarrow> msg_height x \<le> d \<and> heights_le d xs"
  by (simp add: heights_le_def)

text \<open>The messages an element contributes to the message around it.\<close>

fun element_messages :: "MessageElement \<Rightarrow> MessageNode list" where
  "element_messages (MEMessage c) = [c]"
| "element_messages (MEGroup g) = [grp_message g]"
| "element_messages (MEOneof b) = ob_group_messages b"
| "element_messages (MEExtend b) = eb_group_messages b"
| "element_messages _ = []"

lemma nested_add_element:
  "nested_messages (add_message_element e node) = nested_messages node @ element_messages e"
  by (cases e) (simp_all add: upd_data_def push_nested_def)

lemma nested_fold_elements:
  "nested_messages (fold add_message_element es node) =
     nested_messages node @ concat (map element_messages es)"
  by (induction es arbitrary: node) (simp_all add: nested_add_element)

lemma nested_assemble:
  "nested_messages (assemble_message n es) = concat (map element_messages es)"
  by (simp add: assemble_message_def nested_fold_elements)

lemma heights_le_concat:
  "heights_le d (concat xss) \<longleftrightarrow> list_all (heights_le d) xss"
  by (induction xss) simp_all

lemma assemble_height:
  "list_all (\<lambda>e. heights_le d (element_messages e)) es \<Longrightarrow> msg_height (assemble_message n es) \<le> Suc d"
  by (simp add: msg_height_le nested_assemble heights_le_concat list.pred_map comp_def)

lemma oneof_bundle_messages:
  "ob_group_messages (fold add_oneof_element es b) =
     ob_group_messages b @ concat (map (\<lambda>e. case e of OEGroup g \<Rightarrow> [grp_message g] | _ \<Rightarrow> []) es)"
proof (induction es arbitrary: b)
  case (Cons e es)
  then show ?case by (cases e) simp_all
qed simp

lemma extend_bundle_messages:
  "eb_group_messages (fold add_extend_element es b) =
     eb_group_messages b @ concat (map (\<lambda>e. case e of XEGroup g \<Rightarrow> [grp_message g] | _ \<Rightarrow> []) es)"
proof (induction es arbitrary: b)
  case (Cons e es)
  then show ?case by (cases e) simp_all
qed simp

abbreviation body_le :: "nat \<Rightarrow> body_parser \<Rightarrow> bool" where
  "body_le d body \<equiv> yields body (\<lambda>es. \<forall>n. msg_height (assemble_message n es) \<le> d)"

lemma yields_seq2: "yields q (\<lambda>y. \<forall>x. R (x, y)) \<Longrightarrow> yields (seq p q) R"
  by (auto simp: yields_def seq_def split: sum.splits)

lemma yields_seq1: "yields p (\<lambda>x. \<forall>y. R (x, y)) \<Longrightarrow> yields (seq p q) R"
  by (auto simp: yields_def seq_def split: sum.splits)

lemma yields_mono: "yields p P \<Longrightarrow> (\<And>v. P v \<Longrightarrow> Q v) \<Longrightarrow> yields p Q"
  by (simp add: yields_def)

lemma msg_height_upd [simp]: "msg_height (upd_data f m) = msg_height m"
  by (cases m) (simp add: upd_data_def)

lemma parse_message_height:
  assumes body: "body_le d body"
  shows "yields (parse_message_of body) (\<lambda>m. msg_height m \<le> d)"
  unfolding parse_message_of_def
  by (intro yields_map yields_seq2 yields_delimited, rule yields_mono [OF body])
    (auto simp: Let_def msg_height_upd split: option.splits)

lemma parse_group_height:
  assumes body: "body_le d body"
  shows "yields (parse_group_of k body syn) (\<lambda>g. msg_height (grp_message g) \<le> d)"
  unfolding parse_group_of_def
  by (intro yields_map yields_seq2 yields_delimited, rule yields_mono [OF body])
    (auto simp: Let_def)

lemma group_messages_le:
  "list_all (\<lambda>e. heights_le d (f e)) es \<Longrightarrow> heights_le d (concat (map f es))"
  by (simp add: heights_le_concat list.pred_map comp_def)

lemma parse_oneof_height:
  assumes body: "body_le d body"
  shows "yields (parse_oneof_of k body syn) (\<lambda>b. heights_le (d) (ob_group_messages b))"
proof -
  let ?f = "\<lambda>e. case e of OEGroup g \<Rightarrow> [grp_message g] | _ \<Rightarrow> []"
  have "yields (alt (map_p (parse_option_decl k) OEOption)
      [map_p (parse_group_of k body syn) OEGroup, map_p (oneof_field k) OEField])
      (\<lambda>e. heights_le (d) (?f e))"
    by (intro yields_alt yields_map)
      (auto intro!: yields_map yields_mono [OF parse_group_height [OF body]] simp: yields_True)
  then have "yields (oneof_element_of k body syn) (\<lambda>e. heights_le (d) (?f e))"
    by (auto simp: yields_def oneof_element_of_def)
  from yields_many [OF this] show ?thesis
    unfolding parse_oneof_of_def
    by (intro yields_map yields_seq2 yields_seq1, elim yields_mono)
      (auto simp: assemble_oneof_def oneof_bundle_messages intro: group_messages_le)
qed

lemma parse_extend_height:
  assumes body: "body_le d body"
  shows "yields (parse_extend_of k body syn) (\<lambda>b. heights_le (d) (eb_group_messages b))"
proof -
  let ?f = "\<lambda>e. case e of XEGroup g \<Rightarrow> [grp_message g] | _ \<Rightarrow> []"
  have e: "yields (extend_element_of k body syn) (\<lambda>e. heights_le (d) (?f e))"
    unfolding extend_element_of_def
    by (intro yields_alt yields_map)
      (auto intro!: yields_map yields_mono [OF parse_group_height [OF body]] simp: yields_True)
  have "yields (map_p (seq (preceded (kind_p KwExtend) (cut type_name_p))
          (delimited (cut (kind_p LBrace)) (many (extend_element_of k body syn)) (cut (kind_p RBrace))))
        (\<lambda>(ty, elements). fold add_extend_element elements
             \<lparr>eb_node = \<lparr>extendee_type_name = ty, ext_offset = off, ext_fields = []\<rparr>,
               eb_group_messages = []\<rparr>)) (\<lambda>b. heights_le (d) (eb_group_messages b))" for off
    using yields_many [OF e]
    by (intro yields_map yields_seq2 yields_delimited, elim yields_mono)
      (auto simp: extend_bundle_messages intro: group_messages_le)
  then show ?thesis unfolding parse_extend_of_def Let_def yields_def by blast
qed

lemma message_element_height:
  assumes body: "body_le d body"
  shows "yields (message_element_of k body syn) (\<lambda>e. heights_le (d) (element_messages e))"
  unfolding message_element_of_def
  using parse_message_height [OF body] parse_group_height [OF body, of k syn]
    parse_oneof_height [OF body, of k syn] parse_extend_height [OF body, of k syn]
  by (intro yields_alt yields_map) (auto intro!: yields_map simp: yields_True)

lemma message_body_height: "body_le d (message_body d syn)"
proof (induction d)
  case 0
  show ?case by (simp add: yields_def)
next
  case (Suc d)
  have "yields (message_body (Suc d) syn) (list_all (\<lambda>e. heights_le d (element_messages e)))"
    unfolding message_body.simps by (intro yields_many message_element_height Suc)
  then show ?case by (rule yields_mono) (blast intro: assemble_height)
qed

fun file_element_messages :: "FileElement \<Rightarrow> MessageNode list" where
  "file_element_messages (FEMessage m) = [m]"
| "file_element_messages (FEExtend b) = eb_group_messages b"
| "file_element_messages _ = []"

lemma file_messages_fold:
  "file_messages (fold apply_file_element es f) = file_messages f @ concat (map file_element_messages es)"
proof (induction es arbitrary: f)
  case (Cons e es)
  then show ?case by (cases e) simp_all
qed simp

lemma file_element_height:
  "yields (file_element d syn) (\<lambda>e. heights_le d (file_element_messages e))"
  unfolding file_element_def parse_extend_def parse_message_def
  using parse_extend_height [OF message_body_height, of d d syn]
    parse_message_height [OF message_body_height, of d syn]
  by (intro yields_alt yields_map) (auto intro!: yields_map simp: yields_True)

text \<open>
  Property C15. The nesting of the syntax tree is bounded. Every message of a file that parses, groups
  included, has height at most \<open>kMaxParseDepth\<close>, so the later passes that recurse over nested messages
  recurse at most that deep.
\<close>

theorem parse_file_height:
  "parse_file inp = Inr (rest, file) \<Longrightarrow> \<forall>m \<in> set (file_messages file). msg_height m \<le> kMaxParseDepth"
proof -
  assume ok: "parse_file inp = Inr (rest, file)"
  then obtain start si where "parse_file_body inp start si = Inr (rest, file)"
    by (auto simp: parse_file_def split: sum.splits if_splits)
  then obtain es where "many (file_element kMaxParseDepth (si_level si)) start = Inr (rest, es)"
    and "file_messages file = concat (map file_element_messages es)"
    by (auto simp: parse_file_body_def file_messages_fold default_file_def split: sum.splits)
  with yieldsD [OF yields_many [OF file_element_height]] group_messages_le
  show ?thesis by (fastforce simp: heights_le_def list_all_iff)
qed

section \<open>The depth limit is exact\<close>

definition tk :: "TokenKind \<Rightarrow> string \<Rightarrow> Token" where
  "tk k s = \<lparr>kind = k, tok_text = s, str_value = [], tok_offset = 0\<rparr>"

lemma kind_tk [simp]: "kind (tk k s) = k" "tok_text (tk k s) = s"
  by (simp_all add: tk_def)

text \<open>\<open>wrap n ts\<close>: the tokens \<open>ts\<close> in the innermost of \<open>n\<close> nested messages.\<close>

primrec wrap :: "nat \<Rightarrow> Token list \<Rightarrow> Token list" where
  "wrap 0 ts = ts"
| "wrap (Suc n) ts =
     [tk KwMessage ''message'', tk Identifier ''M'', tk LBrace ''{''] @ wrap n ts @ [tk RBrace ''}'']"

text \<open>The same with a name for each message.\<close>

primrec enclose :: "Token list \<Rightarrow> Token list \<Rightarrow> Token list" where
  "enclose [] ts = ts"
| "enclose (n # ns) ts =
     [tk KwMessage ''message'', n, tk LBrace ''{''] @ enclose ns ts @ [tk RBrace ''}'']"

lemma wrap_enclose: "wrap n ts = enclose (replicate n (tk Identifier ''M'')) ts"
  by (induction n) simp_all

lemma kind_p_Cons [simp]:
  "kind_p k (t # ts) = (if kind t = k then Inr (ts, t) else Inl (mk_error 0 ''unexpected input''))"
  by (simp add: kind_p_def one_p_def)

lemma name_token_Cons [simp]:
  "name_token (t # ts) = (if is_name_token t then Inr (ts, t) else Inl (mk_error 0 ''unexpected input''))"
  by (simp add: name_token_def one_p_def)

lemmas run_simps = map_p_def seq_def preceded_def delimited_def cut_def opt_def alt_def Let_def
  consumed_def

lemma is_name_kinds [simp]:
  "is_name_token t \<Longrightarrow> kind t \<noteq> RBrace"
  by (auto simp: is_name_token_def is_keyword_def kKeywords_def)

text \<open>A declaration led by \<open>message\<close> is a nested message: the branches before it fail without commitment.\<close>

lemma message_element_message:
  assumes "kind t = KwMessage"
  shows "parse_message_of body (t # ts) = Inr (rest, m) \<Longrightarrow>
      message_element_of k body syn (t # ts) = Inr (rest, MEMessage m)"
    and "parse_message_of body (t # ts) = Inl e \<Longrightarrow> fatal e \<Longrightarrow>
      message_element_of k body syn (t # ts) = Inl e"
  using assms
  by (simp_all add: message_element_of_def run_simps parse_option_decl_def parse_map_field_def parse_oneof_of_def
      parse_reserved_def extension_range_def parse_extend_of_def)

lemma message_element_brace:
  assumes "kind t = RBrace"
  shows "soft_fail (message_element_of k body syn (t # ts))"
  using assms
  by (simp add: message_element_of_def run_simps parse_option_decl_def parse_map_field_def parse_oneof_of_def
      parse_reserved_def extension_range_def parse_extend_of_def parse_message_of_def visibility_modifier_def
      parse_enum_def parse_group_of_def cardinality_def parse_field_def type_name_p_def qualified_ident_def
      is_name_token_def is_keyword_def kKeywords_def)

lemma many_intro: "repeats p inp vs rest \<Longrightarrow> soft_fail (p rest) \<Longrightarrow> many p inp = Inr (rest, vs)"
  by (simp add: many_def many_loop_repeats)

lemma many_stop: "soft_fail (p inp) \<Longrightarrow> many p inp = Inr (inp, [])"
  by (blast intro: many_intro repeats_Nil)

lemma many_one:
  "p inp = Inr (rest, v) \<Longrightarrow> length rest < length inp \<Longrightarrow> soft_fail (p rest) \<Longrightarrow> many p inp = Inr (rest, [v])"
  by (blast intro: many_intro repeats_Cons repeats_Nil)

lemma many_fatal: "p inp = Inl e \<Longrightarrow> fatal e \<Longrightarrow> many p inp = Inl e"
  by (simp add: many_def many_loop.simps lift_err_def)

lemma is_name_identifier [simp]: "is_name_token (tk Identifier s)"
  by (simp add: is_name_token_def)

lemma visibility_message [simp]:
  "visibility_modifier (tk KwMessage s # ts) = Inr (tk KwMessage s # ts, None)"
  by (simp add: visibility_modifier_def run_simps)

lemma parse_message_enclose:
  "is_name_token n \<Longrightarrow> body (inner @ tk RBrace ''}'' # rest) = Inr (tk RBrace ''}'' # rest, es) \<Longrightarrow>
     parse_message_of body (tk KwMessage ''message'' # n # tk LBrace ''{'' # inner @ tk RBrace ''}'' # rest) =
       Inr (rest, assemble_message (tok_text n) es)"
  "is_name_token n \<Longrightarrow> body (inner @ tk RBrace ''}'' # rest) = Inl e \<Longrightarrow>
     parse_message_of body (tk KwMessage ''message'' # n # tk LBrace ''{'' # inner @ tk RBrace ''}'' # rest) = Inl (lift_err 3 e)"
  by (simp_all add: parse_message_of_def run_simps lift_err_def)

lemma message_body_enclose:
  assumes "is_name_token n"
  shows "message_body d syn (inner @ tk RBrace ''}'' # tk RBrace ''}'' # rest) = Inr (tk RBrace ''}'' # tk RBrace ''}'' # rest, es) \<Longrightarrow>
     message_body (Suc d) syn (tk KwMessage ''message'' # n # tk LBrace ''{'' # inner @ tk RBrace ''}'' # tk RBrace ''}'' # rest) =
       Inr (tk RBrace ''}'' # rest, [MEMessage (assemble_message (tok_text n) es)])"
    and "message_body d syn (inner @ tk RBrace ''}'' # tk RBrace ''}'' # rest) = Inl e \<Longrightarrow> fatal e \<Longrightarrow>
     message_body (Suc d) syn (tk KwMessage ''message'' # n # tk LBrace ''{'' # inner @ tk RBrace ''}'' # tk RBrace ''}'' # rest) = Inl (lift_err 3 e)"
proof -
  let ?R = "tk RBrace ''}''" and ?us = "n # tk LBrace ''{'' # inner @ tk RBrace ''}'' # tk RBrace ''}'' # rest"
  let ?el = "message_element_of d (message_body d syn) syn"
  note el = message_element_message [of "tk KwMessage ''message''" _ ?us, OF kind_tk(1)]
  show "message_body (Suc d) syn (tk KwMessage ''message'' # ?us) = Inr (?R # rest, [MEMessage (assemble_message (tok_text n) es)])"
    if "message_body d syn (inner @ ?R # ?R # rest) = Inr (?R # ?R # rest, es)"
  proof -
    from parse_message_enclose(1) [of n "message_body d syn", OF assms that]
    have "?el (tk KwMessage ''message'' # ?us) = Inr (?R # rest, MEMessage (assemble_message (tok_text n) es))" by (rule el(1))
    then show ?thesis
      unfolding message_body.simps by (rule many_one) (simp_all add: message_element_brace)
  qed
  show "message_body (Suc d) syn (tk KwMessage ''message'' # ?us) = Inl (lift_err 3 e)"
    if "message_body d syn (inner @ ?R # ?R # rest) = Inl e" "fatal e"
  proof -
    from parse_message_enclose(2) [of n "message_body d syn", OF assms that(1)]
    have "?el (tk KwMessage ''message'' # ?us) = Inl (lift_err 3 e)" by (rule el(2)) (simp add: that(2))
    then show ?thesis unfolding message_body.simps by (rule many_fatal) (simp add: that(2))
  qed
qed

text \<open>Success and committed failure of the innermost body carry through any number of messages around it.\<close>

primrec chain :: "Token list \<Rightarrow> MessageElement list \<Rightarrow> MessageElement list" where
  "chain [] es = es"
| "chain (n # ns) es = [MEMessage (assemble_message (tok_text n) (chain ns es))]"

lemma lift_err_0 [simp]: "lift_err 0 e = e" and lift_err_lift [simp]: "lift_err a (lift_err b e) = lift_err (a + b) e"
  by (simp_all add: lift_err_def ac_simps)

lemma message_body_encloses:
  "(\<And>rest. message_body d syn (ts @ tk RBrace ''}'' # rest) = Inr (tk RBrace ''}'' # rest, es)) \<Longrightarrow> list_all is_name_token ns \<Longrightarrow>
     message_body (length ns + d) syn (enclose ns ts @ tk RBrace ''}'' # rest) = Inr (tk RBrace ''}'' # rest, chain ns es)"
  "(\<And>rest. message_body d syn (ts @ tk RBrace ''}'' # rest) = Inl e) \<Longrightarrow> fatal e \<Longrightarrow> list_all is_name_token ns \<Longrightarrow>
     message_body (length ns + d) syn (enclose ns ts @ tk RBrace ''}'' # rest) = Inl (lift_err (3 * length ns) e)"
proof (induction ns arbitrary: rest)
  case (Cons n ns)
  {
    case 1
    from Cons(1) [OF 1(1)] 1(2) show ?case by (simp add: message_body_enclose(1) del: message_body.simps)
  next
    case 2
    have "lift_err (3 * Suc (length ns)) e = lift_err 3 (lift_err (3 * length ns) e)" by simp
    with message_body_enclose(2) [of n "length ns + d" syn "enclose ns ts", OF _ Cons(2) [OF 2(1,2)]] 2(2,3) show ?case
      by (simp del: message_body.simps)
  }
qed simp_all

lemma message_body_wraps:
  "(\<And>rest. message_body d syn (ts @ tk RBrace ''}'' # rest) = Inr (tk RBrace ''}'' # rest, es)) \<Longrightarrow>
     message_body (n + d) syn (wrap n ts @ tk RBrace ''}'' # rest) = Inr (tk RBrace ''}'' # rest, chain (replicate n (tk Identifier ''M'')) es)"
  "(\<And>rest. message_body d syn (ts @ tk RBrace ''}'' # rest) = Inl e) \<Longrightarrow> fatal e \<Longrightarrow>
     message_body (n + d) syn (wrap n ts @ tk RBrace ''}'' # rest) = Inl (lift_err (3 * n) e)"
  using message_body_encloses [where ns = "replicate n (tk Identifier ''M'')"] by (simp_all add: wrap_enclose list_all_iff)

lemma file_element_message:
  assumes "kind t = KwMessage"
  shows "parse_message d syn (t # ts) = Inr (rest, m) \<Longrightarrow> file_element d syn (t # ts) = Inr (rest, FEMessage m)"
    and "parse_message d syn (t # ts) = Inl e \<Longrightarrow> fatal e \<Longrightarrow> file_element d syn (t # ts) = Inl e"
  using assms
  by (simp_all add: file_element_def run_simps parse_option_decl_def import_decl_def package_decl_def
      service_decl_def parse_extend_def parse_extend_of_def)

lemma file_element_Nil: "soft_fail (file_element d syn [])"
  by code_simp

lemma syntax_decl_message:
  "\<exists>e. syntax_decl (tk KwMessage s # ts) = Inl e \<and> \<not> fatal e"
  by (simp add: syntax_decl_def run_simps)

lemma parse_file_message:
  assumes "kind t = KwMessage"
  shows "parse_message kMaxParseDepth Proto2 (t # ts) = Inr ([], m) \<Longrightarrow>
      parse_file (t # ts) = Inr ([], default_file\<lparr>file_messages := [m]\<rparr>)"
    and "parse_message kMaxParseDepth Proto2 (t # ts) = Inl e \<Longrightarrow> fatal e \<Longrightarrow> parse_file (t # ts) = Inl e"
proof -
  have "\<exists>e. syntax_decl (t # ts) = Inl e \<and> \<not> fatal e"
    using assms by (simp add: syntax_decl_def run_simps)
  then have pf: "parse_file (t # ts) =
      parse_file_body (t # ts) (t # ts) \<lparr>si_level = Proto2, si_edition = [], si_edition_offset = 0\<rparr>"
    by (auto simp: parse_file_def)
  note el = file_element_message [OF assms]
  show "parse_file (t # ts) = Inr ([], default_file\<lparr>file_messages := [m]\<rparr>)"
    if "parse_message kMaxParseDepth Proto2 (t # ts) = Inr ([], m)"
    unfolding pf parse_file_body_def
    by (simp add: many_one [of "file_element kMaxParseDepth Proto2", OF el(1) [OF that]] file_element_Nil default_file_def)
  show "parse_file (t # ts) = Inl e"
    if "parse_message kMaxParseDepth Proto2 (t # ts) = Inl e" "fatal e"
    unfolding pf parse_file_body_def
    by (simp add: many_fatal [of "file_element kMaxParseDepth Proto2", OF el(2) [OF that] that(2)] consumed_def)
qed

lemma parse_file_wrap:
  "message_body kMaxParseDepth Proto2 (wrap n ts @ [tk RBrace ''}'']) = Inr ([tk RBrace ''}''], es) \<Longrightarrow>
     parse_file (wrap (Suc n) ts) =
       Inr ([], default_file\<lparr>file_messages := [assemble_message ''M'' es]\<rparr>)"
  "message_body kMaxParseDepth Proto2 (wrap n ts @ [tk RBrace ''}'']) = Inl e \<Longrightarrow> fatal e \<Longrightarrow>
     parse_file (wrap (Suc n) ts) = Inl (lift_err 3 e)"
  using parse_message_enclose [where n = "tk Identifier ''M''" and body = "message_body kMaxParseDepth Proto2" and inner = "wrap n ts" and rest = "[]"]
  by (simp_all add: parse_file_message parse_message_def)

text \<open>The syntax tree of \<open>n\<close> nested messages.\<close>

primrec nest :: "nat \<Rightarrow> MessageNode list" where
  "nest 0 = []"
| "nest (Suc n) = [MessageNode (default_message\<lparr>msg_name := ''M''\<rparr>) (nest n)]"

lemma chain_nest: "[assemble_message ''M'' (chain (replicate n (tk Identifier ''M'')) [])] = nest (Suc n)"
  by (induction n) (simp_all add: assemble_message_def push_nested_def)

lemma too_deep_fatal [simp]: "fatal too_deep"
  by (simp add: too_deep_def)

lemma parse_file_nest:
  "n \<le> kMaxParseDepth \<Longrightarrow> parse_file (wrap n []) = Inr ([], default_file\<lparr>file_messages := nest n\<rparr>)"
proof (cases n)
  case 0
  have "syntax_decl [] = Inl (mk_error 0 ''unexpected input'')" by code_simp
  with 0 show ?thesis
    by (simp add: parse_file_def parse_file_body_def many_stop file_element_Nil default_file_def)
next
  case (Suc m)
  let ?R = "tk RBrace ''}''"
  assume le: "n \<le> kMaxParseDepth"
  define d where "d = kMaxParseDepth - Suc m"
  have d: "kMaxParseDepth = m + Suc d" using le Suc by (simp add: d_def)
  have "message_body (Suc d) Proto2 ([] @ ?R # rest) = Inr (?R # rest, [])" for rest
    by (simp add: many_stop message_element_brace)
  from parse_file_wrap(1) [of m "[]" "chain (replicate m (tk Identifier ''M'')) []", unfolded d, OF message_body_wraps(1) [OF this]]
  show ?thesis using Suc by (simp add: chain_nest)
qed

lemma wrap_add: "wrap (m + n) ts = wrap m (wrap n ts)"
  by (induction m) simp_all

text \<open>
  Property C31. The depth limit is exact. A file of \<open>n\<close> nested empty messages parses to the tree of
  \<open>n\<close> nested messages if \<open>n\<close> is at most \<open>kMaxParseDepth\<close>; one level more and the parse fails with the
  committed depth error, at the token after the opening brace of the first message that is too deep.
\<close>

theorem nesting_limit_exact:
  "parse_file (wrap n []) =
     (if n \<le> kMaxParseDepth then Inr ([], default_file\<lparr>file_messages := nest n\<rparr>)
      else Inl (lift_err (3 * Suc kMaxParseDepth) too_deep))"
proof (cases "n \<le> kMaxParseDepth")
  case False
  define k where "k = n - Suc kMaxParseDepth"
  have n: "n = Suc (kMaxParseDepth + k)" using False by (simp add: k_def)
  have "message_body 0 Proto2 (wrap k [] @ tk RBrace ''}'' # rest) = Inl too_deep" for rest by simp
  from parse_file_wrap(2) [of "kMaxParseDepth + k" "[]", unfolded wrap_add,
      OF message_body_wraps(2) [OF this, of kMaxParseDepth, simplified]]
  show ?thesis using False by (simp add: n wrap_add)
qed (simp add: parse_file_nest)

theorem parse_file_height_witness:
  "\<exists>f. parse_file (wrap 2 []) = Inr ([], f) \<and> (\<forall>m \<in> set (file_messages f). msg_height m \<le> kMaxParseDepth)"
  using parse_file_height [OF parse_file_nest [of 2]] parse_file_nest [of 2]
  by (simp add: kMaxParseDepth_def)

section \<open>Numbers\<close>

lemma is_decimal_digit_char [simp]: "d < 10 \<Longrightarrow> is_decimal_digit (digit_char d)"
  by (simp add: is_decimal_digit_def less_eq_char_def)

lemma digit_value_char [simp]: "d < 10 \<Longrightarrow> digit_value (digit_char d) = Some d"
  by (simp add: digit_value_def)

lemma count_while_whole: "(\<And>x. x \<in> set xs \<Longrightarrow> P x) \<Longrightarrow> count_while P xs = length xs"
  by (simp add: count_while_all list_all_iff)

lemma base_digits_to_string: "c \<in> set (to_string n) \<Longrightarrow> is_base_digit 10 c"
  by (auto simp: is_base_digit_def decimal_digit_def dest!: to_string_digits)

lemma digits_value_to_string [simp]: "digits_value 10 (to_string n) = n"
proof (induction n rule: to_string.induct)
  case (1 n)
  then show ?case
    by (subst to_string.simps) (simp add: digits_value_def)
qed

lemma from_chars_to_string:
  "from_chars 10 (to_string n) dest = (if n < 2 ^ 64 then (NoError, of_nat n) else (ResultOutOfRange, dest))"
  by (simp add: from_chars_def Let_def count_while_whole base_digits_to_string)

lemma split_int_to_string [simp]: "split_int_literal (to_string n) = (10, to_string n)"
proof (cases "n < 10")
  case True
  then show ?thesis by (simp add: split_int_literal_def to_string.simps [of n])
next
  case False
  with to_string_head [of n] have "to_string n ! 0 \<noteq> CHR ''0''"
    by (simp add: hd_conv_nth)
  then show ?thesis by (simp add: split_int_literal_def)
qed

lemma u32_of_u64: "ucast (word_of_int k :: u64) = (word_of_int k :: u32)"
  by transfer (simp add: min_def)

text \<open>
  Integer option values are exact or become floating-point. The decimal spelling of \<open>n\<close>
  yields \<open>n\<close> as an unsigned 64-bit value, and after a minus sign \<open>-n\<close> as a signed one, the most
  negative value included; beyond those ranges the literal is kept as a floating-point one.
\<close>

theorem make_int_decimal:
  "make_int (to_string n) negative =
     (if negative then
        (if n \<le> 2 ^ 63 then OInt (word_of_int (- int n)) else make_float (to_string n) True)
      else if n < 2 ^ 64 then OUint (word_of_nat n) else make_float (to_string n) False)"
proof -
  have sh: "push_bit 63 (1 :: u64) = 2 ^ 63" by (simp add: push_bit_eq_mult)
  have le: "(word_of_nat n :: u64) > 2 ^ 63 \<longleftrightarrow> \<not> n \<le> 2 ^ 63" if "n < 2 ^ 64"
    using that by (simp add: word_less_nat_alt unat_u64_of_nat not_le)
  have eq: "(word_of_nat n :: u64) = 2 ^ 63 \<longleftrightarrow> n = 2 ^ 63" if "n < 2 ^ 64"
    using that by (auto simp: word_unat_eq_iff unat_u64_of_nat)
  have min: "(0x8000000000000000 :: u64) = word_of_int (- int (2 ^ 63))" by simp
  have neg: "- (word_of_nat n :: u64) = word_of_int (- int n)" by simp
  show ?thesis
  proof (cases "n < 2 ^ 64")
    case True
    note facts = le [OF True] eq [OF True] from_chars_to_string
    from True show ?thesis
      by (simp add: make_int_def facts sh [simplified] del: not_le) (auto simp: facts [simplified])
  next
    case False
    then show ?thesis by (simp add: make_int_def from_chars_to_string)
  qed
qed

text \<open>
  Field and enum numbers round-trip: the decimal spelling of a 32-bit number, with a
  minus sign for a negative one, is read back as that number.
\<close>

theorem parse_int32_decimal:
  "- (2 ^ 31) \<le> i \<Longrightarrow> i < 2 ^ 31 \<Longrightarrow> sint (parse_int32 (to_string (nat \<bar>i\<bar>)) (i < 0)) = i"
proof -
  assume i: "- (2 ^ 31) \<le> i" "i < 2 ^ 31"
  then have n: "nat \<bar>i\<bar> < 2 ^ 64" by (simp add: nat_less_iff)
  have "parse_int32 (to_string (nat \<bar>i\<bar>)) (i < 0) = (word_of_int i :: u32)"
  proof (cases "i < 0")
    case True
    then have "(0 :: u64) - word_of_nat (nat \<bar>i\<bar>) = word_of_int i" by simp
    with n True show ?thesis by (simp add: parse_int32_def from_chars_to_string u32_of_u64 del: abs_of_neg)
  next
    case False
    then have "(word_of_nat (nat \<bar>i\<bar>) :: u64) = word_of_int i" by simp
    with n False show ?thesis by (simp add: parse_int32_def from_chars_to_string u32_of_u64)
  qed
  moreover have "sint (word_of_int i :: u32) = signed_take_bit 31 i" by transfer simp
  ultimately show ?thesis using i by (simp add: signed_take_bit_int_eq_self)
qed

theorem parse_int32_decimal_witness:
  "- (2 ^ 31) \<le> (- 2147483648 :: int) \<and> sint (parse_int32 (to_string (nat \<bar>- 2147483648\<bar>)) True) = - 2147483648"
  using parse_int32_decimal [of "- 2147483648"] by simp

section \<open>Skipped service blocks\<close>

inductive balanced :: "Token list \<Rightarrow> bool" where
  balanced_Nil: "balanced []"
| balanced_token: "kind t \<noteq> LBrace \<Longrightarrow> kind t \<noteq> RBrace \<Longrightarrow> balanced ts \<Longrightarrow> balanced (t # ts)"
| balanced_block: "kind l = LBrace \<Longrightarrow> kind r = RBrace \<Longrightarrow> balanced ts \<Longrightarrow> balanced us \<Longrightarrow>
    balanced (l # ts @ r # us)"

lemma balanced_loop_skip: "balanced ts \<Longrightarrow> balanced_loop (ts @ us) (Suc n) = balanced_loop us (Suc n)"
  by (induction arbitrary: us n rule: balanced.induct) simp_all

lemma balanced_loop_split:
  "balanced_loop ts (Suc n) = Some rest \<Longrightarrow>
     \<exists>a r us. ts = a @ r # us \<and> balanced a \<and> kind r = RBrace \<and>
       (if n = 0 then us = rest else balanced_loop us n = Some rest)"
proof (induction "length ts" arbitrary: ts n rest rule: less_induct)
  case less
  from less.prems obtain t ts' where ts: "ts = t # ts'" by (cases ts) auto
  consider "kind t = RBrace" | "kind t = LBrace" | "kind t \<noteq> LBrace" "kind t \<noteq> RBrace" by blast
  then show ?case
  proof cases
    case 1
    then show ?thesis using less.prems ts
      by (intro exI [of _ "[]"] exI [of _ t] exI [of _ ts']) (auto intro: balanced_Nil split: if_splits)
  next
    case 2
    with less.prems ts have "balanced_loop ts' (Suc (Suc n)) = Some rest" by simp
    from less.hyps [OF _ this] ts obtain a r us where 1: "ts' = a @ r # us" "balanced a" "kind r = RBrace"
      "balanced_loop us (Suc n) = Some rest" by auto
    from less.hyps [OF _ 1(4)] 1(1) ts obtain b r' vs where q: "us = b @ r' # vs" "balanced b" "kind r' = RBrace"
      "if n = 0 then vs = rest else balanced_loop vs n = Some rest" by auto
    show ?thesis
      using 1 q ts balanced_block [OF 2 1(3,2) q(2)]
      by (intro exI [of _ "t # a @ r # b"] exI [of _ r'] exI [of _ vs]) simp
  next
    case 3
    with less.prems ts have "balanced_loop ts' (Suc n) = Some rest" by simp
    from less.hyps [OF _ this] ts obtain a r us where 1: "ts' = a @ r # us" "balanced a" "kind r = RBrace"
      "if n = 0 then us = rest else balanced_loop us n = Some rest" by auto
    show ?thesis
      using 1 ts balanced_token [OF 3 1(2)]
      by (intro exI [of _ "t # a"] exI [of _ r] exI [of _ us]) simp
  qed
qed

text \<open>
  A service block is skipped exactly: \<open>balanced_braces\<close> succeeds precisely when the input
  starts with a brace block whose inside is balanced, and continues right after its closing brace.
\<close>

theorem balanced_braces_exact:
  "balanced_braces inp = Inr (rest, ()) \<longleftrightarrow>
     (\<exists>l ts r. inp = l # ts @ r # rest \<and> kind l = LBrace \<and> kind r = RBrace \<and> balanced ts)"
proof
  assume ok: "balanced_braces inp = Inr (rest, ())"
  then obtain l ts where inp: "inp = l # ts" "kind l = LBrace"
    by (cases inp) (auto simp: balanced_braces_def split: if_splits)
  with ok have "balanced_loop ts (Suc 0) = Some rest"
    by (auto simp: balanced_braces_def split: option.splits)
  from balanced_loop_split [OF this] inp
  show "\<exists>l ts r. inp = l # ts @ r # rest \<and> kind l = LBrace \<and> kind r = RBrace \<and> balanced ts" by auto
next
  assume "\<exists>l ts r. inp = l # ts @ r # rest \<and> kind l = LBrace \<and> kind r = RBrace \<and> balanced ts"
  then show "balanced_braces inp = Inr (rest, ())"
    by (auto simp: balanced_braces_def balanced_loop_skip)
qed

section \<open>Field declarations round-trip\<close>

text \<open>
  A printed field declaration: an optional label, an optional leading dot, the dotted type name, the
  field name and the number.
\<close>

fun label_tokens :: "Cardinality option \<Rightarrow> Token list" where
  "label_tokens None = []"
| "label_tokens (Some CardRequired) = [tk KwRequired ''required'']"
| "label_tokens (Some CardOptional) = [tk KwOptional ''optional'']"
| "label_tokens (Some CardRepeated) = [tk KwRepeated ''repeated'']"

definition type_tokens :: "bool \<Rightarrow> Token \<Rightarrow> Token list \<Rightarrow> Token list" where
  "type_tokens absolute first parts =
     (if absolute then [tk Dot ''.''] else []) @ first # concat (map (\<lambda>t. [tk Dot ''.'', t]) parts)"

definition type_text :: "bool \<Rightarrow> Token \<Rightarrow> Token list \<Rightarrow> string" where
  "type_text absolute first parts =
     (if absolute then ''.'' else []) @ tok_text first @ concat (map (\<lambda>t. ''.'' @ tok_text t) parts)"

definition field_tokens ::
    "Cardinality option \<Rightarrow> bool \<Rightarrow> Token \<Rightarrow> Token list \<Rightarrow> Token \<Rightarrow> nat \<Rightarrow> Token list" where
  "field_tokens crd absolute first parts n number =
     label_tokens crd @ type_tokens absolute first parts @
       [n, tk Equals ''='', tk IntLiteral (to_string number), tk Semicolon '';'']"

lemma name_not_dot: "is_name_token t \<Longrightarrow> kind t \<noteq> Dot"
  by (auto simp: is_name_token_def is_keyword_def kKeywords_def)

lemma many_dotted:
  assumes "\<forall>t \<in> set parts. is_name_token t" "kind u \<noteq> Dot"
  shows "many (preceded (kind_p Dot) name_token) (concat (map (\<lambda>t. [tk Dot ''.'', t]) parts) @ u # us) =
    Inr (u # us, parts)"
proof (rule many_intro)
  show "repeats (preceded (kind_p Dot) name_token) (concat (map (\<lambda>t. [tk Dot ''.'', t]) parts) @ u # us)
      parts (u # us)"
    using assms(1) by (induction parts) (auto intro!: repeats.intros simp: preceded_def)
  show "soft_fail (preceded (kind_p Dot) name_token (u # us))"
    using assms(2) by (simp add: preceded_def)
qed

lemma type_name_tokens:
  assumes "is_name_token first" "\<forall>t \<in> set parts. is_name_token t" "is_name_token n"
  shows "type_name_p (type_tokens absolute first parts @ n # us) = Inr (n # us, type_text absolute first parts)"
  using assms many_dotted [OF assms(2) name_not_dot [OF assms(3)]] name_not_dot [OF assms(1)]
  by (simp add: type_name_p_def qualified_ident_def type_tokens_def type_text_def map_p_def seq_def opt_def)

lemma field_number_decimal:
  "number < 2 ^ 31 \<Longrightarrow> field_number_p (tk IntLiteral (to_string number) # us) = Inr (us, word_of_nat number)"
  using u32_of_u64 [of "int number"]
  by (simp add: field_number_p_def map_p_def parse_int32_def from_chars_to_string)

lemma cardinality_label:
  "opt cardinality (label_tokens crd @ ts) = Inr (ts, crd)"
  if "crd = None \<longrightarrow> ts \<noteq> [] \<and> kind (hd ts) \<notin> {KwRequired, KwOptional, KwRepeated}"
  using that by (cases crd rule: label_tokens.cases; cases ts) (auto simp: cardinality_def run_simps)

lemma parse_field_tokens:
  assumes "is_name_token first" "\<forall>t \<in> set parts. is_name_token t" "is_name_token n" "number < 2 ^ 31"
    and "kind first \<notin> {KwRequired, KwOptional, KwRepeated}"
  shows "parse_field d syn (field_tokens crd absolute first parts n number @ rest) =
    Inr (rest, (build_field crd (type_text absolute first parts) (tok_text n) (word_of_nat number) None syn)
      \<lparr>fld_offset := tok_offset n\<rparr>)"
proof -
  have lab: "opt cardinality (label_tokens crd @ type_tokens absolute first parts @ ts) =
      Inr (type_tokens absolute first parts @ ts, crd)" for ts
    using assms(5) by (intro cardinality_label) (auto simp: type_tokens_def)
  show ?thesis
    using type_name_tokens [OF assms(1-3)] field_number_decimal [OF assms(4)] assms(3)
    by (simp add: parse_field_def map_p_def seq_def [of "opt cardinality"] lab field_tokens_def)
      (simp add: seq_def preceded_def cut_def opt_def parse_compact_options_def delimited_def)
qed

lemma parse_group_field_tokens:
  assumes "kind first \<notin> {KwRequired, KwOptional, KwRepeated, KwGroup}"
  shows "soft_fail (parse_group_of d body syn (field_tokens crd absolute first parts n number @ rest))"
proof -
  let ?ts = "[n, tk Equals ''='', tk IntLiteral (to_string number), tk Semicolon '';''] @ rest"
  have lab: "opt cardinality (label_tokens crd @ type_tokens absolute first parts @ ?ts) =
      Inr (type_tokens absolute first parts @ ?ts, crd)"
    using assms by (intro cardinality_label) (auto simp: type_tokens_def)
  show ?thesis
    using assms lab
    by (simp add: parse_group_of_def map_p_def seq_def preceded_def field_tokens_def)
      (simp add: type_tokens_def split: if_splits)
qed



end
