(* ===== verification/Parser_Roundtrip.thy ===== *)
theory Parser_Roundtrip
  imports Parser_Correct
begin

text \<open>
  Printed options and field declarations are read back. The spellings are relations between token lists and
  what they mean, written without the parser: option names with their extension components, scalar values,
  compact option lists, and field declarations with the field that a label means in a syntax level.
\<close>

section \<open>Spellings\<close>

inductive sign_spelled :: "Token list \<Rightarrow> bool \<Rightarrow> bool" where
  sign_none: "sign_spelled [] False"
| sign_plus: "kind t = Plus \<Longrightarrow> sign_spelled [t] False"
| sign_minus: "kind t = Minus \<Longrightarrow> sign_spelled [t] True"

text \<open>A scalar option value: a decimal integer is exact as far as 64 bits reach.\<close>

inductive scalar_spelled :: "Token list \<Rightarrow> OptionValue \<Rightarrow> bool" where
  spelled_name: "is_name_token t \<Longrightarrow> kind t \<noteq> KwInf \<Longrightarrow> kind t \<noteq> KwNan \<Longrightarrow> scalar_spelled [t] (OIdentifier (tok_text t))"
| spelled_string: "kind t = StringLiteral \<Longrightarrow> scalar_spelled [t] (OString (str_value t))"
| spelled_float: "sign_spelled s neg \<Longrightarrow> kind t = FloatLiteral \<Longrightarrow> scalar_spelled (s @ [t]) (ODouble (FloatText (tok_text t) neg))"
| spelled_inf: "sign_spelled s neg \<Longrightarrow> kind t = KwInf \<Longrightarrow> scalar_spelled (s @ [t]) (ODouble (Infinity neg))"
| spelled_nan: "sign_spelled s neg \<Longrightarrow> kind t = KwNan \<Longrightarrow> scalar_spelled (s @ [t]) (ODouble (NotANumber neg))"
| spelled_uint: "sign_spelled s False \<Longrightarrow> kind t = IntLiteral \<Longrightarrow> tok_text t = to_string n \<Longrightarrow> n < 2 ^ 64 \<Longrightarrow>
    scalar_spelled (s @ [t]) (OUint (word_of_nat n))"
| spelled_int: "sign_spelled s True \<Longrightarrow> kind t = IntLiteral \<Longrightarrow> tok_text t = to_string n \<Longrightarrow> n \<le> 2 ^ 63 \<Longrightarrow>
    scalar_spelled (s @ [t]) (OInt (word_of_int (- int n)))"

inductive component_spelled :: "Token list \<Rightarrow> OptionNameComponent \<Rightarrow> bool" where
  component_simple: "is_name_token t \<Longrightarrow> component_spelled [t] \<lparr>comp_name = tok_text t, is_extension = False\<rparr>"
| component_extension: "kind l = LParen \<Longrightarrow> kind r = RParen \<Longrightarrow> is_name_token first \<Longrightarrow> \<forall>t \<in> set parts. is_name_token t \<Longrightarrow>
    component_spelled (l # type_tokens absolute first parts @ [r]) \<lparr>comp_name = type_text absolute first parts, is_extension = True\<rparr>"

inductive name_spelled :: "Token list \<Rightarrow> OptionNameComponent list \<Rightarrow> bool" where
  name_one: "component_spelled ts c \<Longrightarrow> name_spelled ts [c]"
| name_more: "component_spelled ts c \<Longrightarrow> kind d = Dot \<Longrightarrow> name_spelled us cs \<Longrightarrow> name_spelled (ts @ d # us) (c # cs)"

inductive option_spelled :: "Token list \<Rightarrow> OptionNode \<Rightarrow> bool" where
  option_pair: "name_spelled ns c \<Longrightarrow> kind e = Equals \<Longrightarrow> scalar_spelled vs v \<Longrightarrow>
    option_spelled (ns @ e # vs) \<lparr>opt_name = c, opt_value = v\<rparr>"

inductive list_spelled :: "Token list \<Rightarrow> OptionNode list \<Rightarrow> bool" where
  list_one: "option_spelled ts x \<Longrightarrow> list_spelled ts [x]"
| list_more: "option_spelled ts x \<Longrightarrow> kind c = Comma \<Longrightarrow> list_spelled us xs \<Longrightarrow> list_spelled (ts @ c # us) (x # xs)"

inductive options_spelled :: "Token list \<Rightarrow> OptionNode list \<Rightarrow> bool" where
  options_none: "options_spelled [] []"
| options_some: "kind l = LBracket \<Longrightarrow> kind r = RBracket \<Longrightarrow> list_spelled ts xs \<Longrightarrow> options_spelled (l # ts @ [r]) xs"

section \<open>Options are read back\<close>

lemma qualified_tokens:
  assumes "is_name_token first" "\<forall>t \<in> set parts. is_name_token t" "kind u \<noteq> Dot"
  shows "seq (opt (kind_p Dot)) (seq qualified_ident p) (type_tokens absolute first parts @ u # us) =
    (case p (u # us) of Inl e \<Rightarrow> Inl (lift_err (length (type_tokens absolute first parts)) e)
     | Inr (rest, v) \<Rightarrow> Inr (rest, (if absolute then Some (tk Dot ''.'') else None,
         tok_text first @ concat (map (\<lambda>t. ''.'' @ tok_text t) parts), v)))"
  using assms many_dotted [OF assms(2,3)] name_not_dot [OF assms(1)]
  by (auto simp: qualified_ident_def type_tokens_def run_simps lift_err_def split: sum.splits)

lemma component_read:
  assumes "component_spelled ts c"
  shows "option_name_component (ts @ us) = Inr (us, c)"
  using assms
proof cases
  case (component_extension l r first parts absolute)
  have "kind r \<noteq> Dot" "\<not> is_name_token l" using component_extension by (auto simp: is_name_token_def is_keyword_def kKeywords_def)
  with component_extension qualified_tokens [of first parts r, where p = "kind_p RParen" and absolute = absolute and us = us] show ?thesis
    by (simp add: option_name_component_def alt_def map_p_def seq_def [of "kind_p LParen"] type_text_def)
qed (simp add: option_name_component_def run_simps)

lemma component_ne: "component_spelled ts c \<Longrightarrow> ts \<noteq> []"
  by (auto elim: component_spelled.cases)

lemma dotted_components:
  "name_spelled ts cs \<Longrightarrow> kind u \<noteq> Dot \<Longrightarrow> kind d = Dot \<Longrightarrow>
     repeats (preceded (kind_p Dot) option_name_component) (d # ts @ u # us) cs (u # us)"
proof (induction arbitrary: d rule: name_spelled.induct)
  case (name_one ts c)
  with component_read [of ts c "u # us"] show ?case
    by (intro repeats_Cons [OF _ _ repeats_Nil]) (simp_all add: preceded_def)
next
  case (name_more ts c d' us' cs)
  with component_read [of ts c "d' # us' @ u # us"] show ?case
    by (intro repeats_Cons [of _ _ "d' # us' @ u # us"]) (simp_all add: preceded_def)
qed

lemma name_read:
  assumes "name_spelled ts cs" "kind u \<noteq> Dot"
  shows "parse_option_name (ts @ u # us) = Inr (u # us, cs)"
  using assms(1)
proof cases
  case (name_one c)
  have "many (preceded (kind_p Dot) option_name_component) (u # us) = Inr (u # us, [])"
    using assms(2) by (intro many_stop) (simp add: preceded_def)
  with name_one component_read [of ts c "u # us"] show ?thesis by (simp add: parse_option_name_def map_p_def seq_def)
next
  case (name_more ts' c d us' cs')
  have "many (preceded (kind_p Dot) option_name_component) (d # us' @ u # us) = Inr (u # us, cs')"
    by (rule many_intro [OF dotted_components]) (use name_more assms(2) in \<open>simp_all add: preceded_def\<close>)
  with name_more component_read [of ts' c "d # us' @ u # us"] show ?thesis
    by (simp add: parse_option_name_def map_p_def seq_def)
qed

text \<open>A scalar starts with a token that opens no aggregate.\<close>

definition opens_literal :: "TokenKind \<Rightarrow> bool" where
  "opens_literal k \<longleftrightarrow> k \<in> {LBrace, LAngle, LBracket}"

lemma literal_soft:
  assumes "\<not> opens_literal (kind t)"
  shows "soft_fail (parse_message_literal (Suc d) (t # ts))" "soft_fail (parse_list_literal (Suc d) (t # ts))"
  using assms by (simp_all add: opens_literal_def run_simps)

lemma value_scalar:
  assumes "\<not> opens_literal (kind t)" "parse_scalar (t # ts) = Inr (us, v)"
  shows "parse_value (Suc d) (t # ts) = Inr (us, v)"
proof -
  obtain e where e: "parse_message_literal (Suc d) (t # ts) = Inl e" "\<not> fatal e"
    by (rule soft_failE [OF literal_soft(1) [OF assms(1), of d ts]])
  obtain e' where "parse_list_literal (Suc d) (t # ts) = Inl e'" "\<not> fatal e'"
    by (rule soft_failE [OF literal_soft(2) [OF assms(1), of d ts]])
  with e assms(2) show ?thesis by (simp add: parse_value_def value_of_def alt_def map_p_def del: parse_message_literal.simps parse_list_literal.simps)
qed

lemma number_read:
  assumes "sign_spelled s neg" "kind t \<in> {IntLiteral, FloatLiteral, KwInf, KwNan}"
  shows "parse_scalar (s @ t # us) = Inr (us, if kind t = IntLiteral then make_int (tok_text t) neg
     else if kind t = FloatLiteral then make_float (tok_text t) neg
     else if kind t = KwInf then ODouble (Infinity neg) else ODouble (NotANumber neg))"
  using assms
  by cases (auto simp: parse_scalar_def run_simps sign_token_def number_token_def one_p_def interpret_number_def)

lemma name_kinds:
  "is_name_token t \<Longrightarrow> kind t \<notin> {Minus, Plus, IntLiteral, FloatLiteral, StringLiteral, LBrace, LAngle, LBracket, LParen, Equals}"
  by (auto simp: is_name_token_def is_keyword_def kKeywords_def)

lemma scalar_read:
  assumes "scalar_spelled vs v"
  shows "parse_scalar (vs @ us) = Inr (us, v)"
  using assms
proof cases
  case (spelled_name t)
  then show ?thesis using name_kinds [of t] by (simp add: parse_scalar_def run_simps sign_token_def number_token_def one_p_def)
next
  case (spelled_string t)
  then show ?thesis by (simp add: parse_scalar_def run_simps sign_token_def number_token_def one_p_def)
next
  case (spelled_uint s t n)
  then show ?thesis using number_read [of s False t us] by (simp add: make_int_decimal)
next
  case (spelled_int s t n)
  then show ?thesis using number_read [of s True t us] by (simp add: make_int_decimal)
qed (use number_read in \<open>simp_all add: make_float_def\<close>)

lemma scalar_head: "scalar_spelled vs v \<Longrightarrow> \<exists>t ts. vs = t # ts \<and> \<not> opens_literal (kind t)"
  by (auto elim!: scalar_spelled.cases sign_spelled.cases simp: opens_literal_def dest: name_kinds)

lemma value_read: "scalar_spelled vs v \<Longrightarrow> parse_value (Suc d) (vs @ us) = Inr (us, v)"
  using scalar_head [of vs v] scalar_read [of vs v us] value_scalar by fastforce


lemma option_read:
  assumes "option_spelled ts x"
  shows "compact_option (Suc d) (ts @ us) = Inr (us, x)"
  using assms
proof cases
  case (option_pair ns c e vs v)
  have "parse_option_name (ns @ e # vs @ us) = Inr (e # vs @ us, c)" by (rule name_read) (use option_pair in simp_all)
  with option_pair value_read [of vs v d us] show ?thesis by (simp add: compact_option_def map_p_def seq_def cut_def)
qed

lemma option_ne: "option_spelled ts x \<Longrightarrow> ts \<noteq> []"
  by (auto elim: option_spelled.cases)

lemma separated_rest:
  "list_spelled ts xs \<Longrightarrow> kind c = Comma \<Longrightarrow> kind r \<noteq> Comma \<Longrightarrow>
     separated_loop (compact_option (Suc d)) (kind_p Comma) (c # ts @ r # us) base out = Inr (r # us, out @ xs)"
proof (induction arbitrary: c base out rule: list_spelled.induct)
  case (list_one ts x)
  then show ?case using option_read [of ts x d "r # us"]
    by (subst separated_loop.simps) (simp add: Let_def consumed_def separated_loop.simps [of _ _ "r # us"])
next
  case (list_more ts x c' us' xs)
  then show ?case using option_read [of ts x d "c' # us' @ r # us"]
    by (subst separated_loop.simps) (simp add: Let_def consumed_def)
qed

lemma list_read:
  assumes "list_spelled ts xs" "kind r \<noteq> Comma"
  shows "separated_list (compact_option (Suc d)) (kind_p Comma) (ts @ r # us) = Inr (r # us, xs)"
  using assms(1)
proof cases
  case (list_one x)
  then show ?thesis using option_read [of ts x d "r # us"] assms(2)
    by (simp add: separated_list_def separated_loop.simps [of _ _ "r # us"])
next
  case (list_more ts' x c us' xs')
  then show ?thesis using option_read [of ts' x d "c # us' @ r # us"] separated_rest [of us' xs' c r d us] assms(2)
    by (simp add: separated_list_def)
qed

lemma options_read:
  assumes "options_spelled os xs" "xs = [] \<or> 0 < d" "kind u \<noteq> LBracket"
  obtains x where "opt (parse_compact_options d) (os @ u # us) = Inr (u # us, x)" "options_or_empty x = xs"
  using assms(1)
proof cases
  case options_none
  then show ?thesis using assms(3) that [of None]
    by (simp add: opt_def parse_compact_options_def delimited_def options_or_empty_def)
next
  case (options_some l r ts)
  have "xs \<noteq> []" using options_some(4) by (auto elim: list_spelled.cases)
  then obtain d' where "d = Suc d'" using assms(2) by (cases d) auto
  with options_some list_read [of ts xs r d' "u # us"] show ?thesis
    by (intro that [of "Some xs"]) (simp_all add: opt_def parse_compact_options_def delimited_def cut_def options_or_empty_def)
qed

section \<open>Field declarations\<close>

text \<open>
  The field that a declaration with a label means: protobuf's rules for presence and for the encoding of
  repeated fields in each syntax level.
\<close>

definition numeric_types :: "string list" where
  "numeric_types = [''double'', ''float'', ''int32'', ''int64'', ''uint32'', ''uint64'', ''sint32'', ''sint64'', ''fixed32'', ''fixed64'',
     ''sfixed32'', ''sfixed64'', ''bool'']"

fun label_presence :: "SyntaxLevel \<Rightarrow> Cardinality option \<Rightarrow> FieldPresence" where
  "label_presence syn (Some CardRequired) = Required"
| "label_presence Proto3 None = Implicit"
| "label_presence syn crd = Explicit"

definition declared :: "SyntaxLevel \<Rightarrow> Cardinality option \<Rightarrow> string \<Rightarrow> Token \<Rightarrow> u32 \<Rightarrow> OptionNode list \<Rightarrow> FieldNode" where
  "declared syn crd ty n number os =
     \<lparr>fld_name = tok_text n, type_name = ty, fld_number = number, fld_offset = tok_offset n,
      presence = label_presence syn crd, is_repeated = (crd = Some CardRepeated),
      repeated_encoding = (if crd = Some CardRepeated \<and> syn \<noteq> Proto2 \<and> ty \<in> set numeric_types then Packed else Expanded),
      is_group = False, message_encoding = LengthPrefixed, default_value = None, fld_options = os, fld_fqn = [],
      resolved_type_fqn = [], is_message_type = False, is_enum_type = False\<rparr>"

lemma packable_numeric: "is_packable_scalar ty \<longleftrightarrow> ty \<in> set numeric_types"
  by (auto simp: is_packable_scalar_def is_scalar_type_def numeric_types_def)

lemma build_field_declared:
  "(build_field crd ty (tok_text n) number os syn)\<lparr>fld_offset := tok_offset n\<rparr> = declared syn crd ty n number (options_or_empty os)"
  by (cases crd rule: label_tokens.cases; cases syn)
    (simp_all add: build_field_def declared_def default_field_def default_repeated_encoding_def packable_numeric Let_def)


text \<open>
  Where a declaration can only be a field: behind a label any type name but \<open>group\<close>, behind a dot any; without either,
  no word that leads another declaration. \<open>extensions\<close> leads one only before a number, \<open>export\<close> and \<open>local\<close> before
  \<open>message\<close> and \<open>enum\<close>.
\<close>

definition starts_field :: "Cardinality option \<Rightarrow> bool \<Rightarrow> Token \<Rightarrow> Token list \<Rightarrow> Token \<Rightarrow> bool" where
  "starts_field crd absolute first parts n \<longleftrightarrow> absolute \<or>
     (if crd \<noteq> None then kind first \<noteq> KwGroup
      else kind first \<notin> {KwOption, KwMap, KwOneof, KwReserved, KwExtend, KwMessage, KwEnum, KwGroup, KwRequired, KwOptional, KwRepeated} \<and>
        (kind first \<in> {KwExport, KwLocal} \<longrightarrow> parts \<noteq> [] \<or> kind n \<notin> {KwMessage, KwEnum}))"

inductive field_spelled :: "SyntaxLevel \<Rightarrow> Token list \<Rightarrow> FieldNode \<Rightarrow> bool" for syn where
  field_decl: "is_name_token first \<Longrightarrow> \<forall>t \<in> set parts. is_name_token t \<Longrightarrow> is_name_token n \<Longrightarrow>
    starts_field crd absolute first parts n \<Longrightarrow> kind e = Equals \<Longrightarrow> kind i = IntLiteral \<Longrightarrow> tok_text i = to_string (unat number) \<Longrightarrow>
    options_spelled os xs \<Longrightarrow> kind s = Semicolon \<Longrightarrow>
    field_spelled syn (label_tokens crd @ type_tokens absolute first parts @ n # e # i # os @ [s])
      (declared syn crd (type_text absolute first parts) n number xs)"

lemma parse_int32_u32: "parse_int32 (to_string (unat (number :: u32))) False = number"
proof -
  have "unat number < 2 ^ 32" using unsigned_less [of number] by simp
  then have "unat number < 2 ^ 64" by simp
  then show ?thesis using u32_of_u64 [of "int (unat number)"] by (simp add: parse_int32_def from_chars_to_string)
qed

lemma label_read:
  assumes "starts_field crd absolute first parts n"
  shows "opt cardinality (label_tokens crd @ type_tokens absolute first parts @ us) = Inr (type_tokens absolute first parts @ us, crd)"
  using assms by (intro cardinality_label) (auto simp: type_tokens_def starts_field_def)

lemma field_read:
  assumes "is_name_token first" "\<forall>t \<in> set parts. is_name_token t" "is_name_token n" "starts_field crd absolute first parts n"
    and "kind e = Equals" "kind i = IntLiteral" "tok_text i = to_string (unat number)" "options_spelled os xs" "kind s = Semicolon" "xs = [] \<or> 0 < d"
  shows "parse_field d syn (label_tokens crd @ type_tokens absolute first parts @ n # e # i # os @ s # rest) =
    Inr (rest, declared syn crd (type_text absolute first parts) n number xs)"
proof -
  have "kind s \<noteq> LBracket" using assms(9) by simp
  from options_read [OF assms(8,10) this] obtain x where x: "opt (parse_compact_options d) (os @ s # rest) = Inr (s # rest, x)" "options_or_empty x = xs" .
  note ty = type_name_tokens [OF assms(1-3), of absolute "e # i # os @ s # rest"]
  have num: "field_number_p (i # os @ s # rest) = Inr (os @ s # rest, number)"
    using assms(6,7) by (simp add: field_number_p_def map_p_def parse_int32_u32)
  show ?thesis
    unfolding parse_field_def map_p_def seq_def [of "opt cardinality"] label_read [OF assms(4)]
    using ty num x(1) assms(3,5,9) build_field_declared [where crd = crd and n = n and number = number and os = x and syn = syn]
    by (simp add: seq_def preceded_def cut_def x(2))
qed

lemma group_soft:
  assumes "is_name_token first" "starts_field crd absolute first parts n"
  shows "soft_fail (parse_group_of d body syn (label_tokens crd @ type_tokens absolute first parts @ us))"
  unfolding parse_group_of_def map_p_def seq_def [of "opt cardinality"] label_read [OF assms(2)]
  using assms by (auto simp: seq_def preceded_def type_tokens_def starts_field_def split: if_splits)

text \<open>The alternatives of a message body before a field fail without commitment.\<close>

lemma element_is_field:
  assumes "is_name_token first" "is_name_token n" "starts_field crd absolute first parts n"
    and "parse_field d syn (label_tokens crd @ type_tokens absolute first parts @ n # us) = Inr (rest, f)"
  shows "message_element_of d body syn (label_tokens crd @ type_tokens absolute first parts @ n # us) = Inr (rest, MEField f)"
proof -
  obtain e where g: "parse_group_of d body syn (label_tokens crd @ type_tokens absolute first parts @ n # us) = Inl e" "\<not> fatal e"
    by (rule soft_failE [OF group_soft [OF assms(1,3)]])
  have n: "kind n \<notin> {Minus, IntLiteral}" using name_kinds [OF assms(2)] by simp
  have f: "kind first \<noteq> Semicolon" using assms(1) by (auto simp: is_name_token_def is_keyword_def kKeywords_def)
  consider (label) l where "crd \<noteq> None" "label_tokens crd = [l]" "kind l \<in> {KwRequired, KwOptional, KwRepeated}"
    | (dot) "crd = None" "absolute" | (bare) "crd = None" "\<not> absolute"
    by (cases crd rule: label_tokens.cases; cases absolute) auto
  then show ?thesis
  proof cases
    case label
    with g assms(4) show ?thesis
      by (auto simp: message_element_of_def run_simps parse_option_decl_def parse_map_field_def parse_oneof_of_def
        parse_reserved_def extension_range_def parse_extend_of_def parse_message_of_def visibility_modifier_def parse_enum_def)
  next
    case dot
    with g assms(4) show ?thesis
      by (simp add: type_tokens_def message_element_of_def run_simps parse_option_decl_def parse_map_field_def parse_oneof_of_def
        parse_reserved_def extension_range_def parse_extend_of_def parse_message_of_def visibility_modifier_def parse_enum_def)
  next
    case bare
    obtain t ts where t: "concat (map (\<lambda>t. [tk Dot ''.'', t]) parts) @ n # us = t # ts" "kind t \<notin> {Minus, IntLiteral}"
      "kind first \<in> {KwExport, KwLocal} \<longrightarrow> kind t \<notin> {KwMessage, KwEnum}"
      using n assms(3) bare by (cases parts) (auto simp: starts_field_def)
    have eq: "label_tokens crd @ type_tokens absolute first parts @ n # us = first # t # ts"
      using bare t(1) by (simp add: type_tokens_def)
    from bare assms(3) t(2,3) g assms(4) show ?thesis
      unfolding eq
      by (auto simp: starts_field_def message_element_of_def run_simps parse_option_decl_def parse_map_field_def parse_oneof_of_def
        parse_reserved_def extension_range_def reserved_range_def signed_int_def parse_extend_of_def parse_message_of_def
        visibility_modifier_def parse_enum_def)
  qed
qed


text \<open>
  Property C35. Field declarations round-trip in a message body. A declaration of a field (an optional label, a type name
  with or without a leading dot, a name, any 32-bit number in decimal and an optional list of options with scalar values) is parsed
  by \<open>message_element\<close> as exactly the field that it declares, with the presence and the repeated encoding that the label means in
  the file's syntax, and no earlier alternative takes or commits on it. The type name must not be one that
  makes the declaration another one: without a label and a dot it is no word that leads a declaration
  (\<open>message f = 1;\<close> is not a field), behind a label it is not \<open>group\<close>. A field with options needs a level
  of nesting to be left: see the options at the depth limit below.
\<close>

theorem message_element_field_roundtrip:
  assumes "field_spelled syn ts f" "fld_options f = [] \<or> 0 < d"
  shows "message_element_of d body syn (ts @ rest) = Inr (rest, MEField f)"
  using assms(1)
proof cases
  case (field_decl first parts n crd absolute e i number os xs s)
  have "xs = [] \<or> 0 < d" using assms(2) field_decl(2) by (simp add: declared_def)
  note read = field_read [OF field_decl(3-11) this, of syn rest]
  from element_is_field [OF field_decl(3,5,6) read] show ?thesis by (simp add: field_decl(1,2))
qed

lemma demo_field:
  "field_spelled Proto3
     [tk KwRepeated ''repeated'', tk KwMessage ''message'', tk Dot ''.'', tk Identifier ''M'', tk Identifier ''f'', tk Equals ''='', tk IntLiteral ''7'',
      tk LBracket ''['', tk Identifier ''packed'', tk Equals ''='', tk Identifier ''true'', tk RBracket '']'', tk Semicolon '';'']
     (declared Proto3 (Some CardRepeated) ''message.M'' (tk Identifier ''f'') 7
        [\<lparr>opt_name = [\<lparr>comp_name = ''packed'', is_extension = False\<rparr>], opt_value = OIdentifier ''true''\<rparr>])"
proof -
  let ?os = "tk LBracket ''['' # [tk Identifier ''packed'', tk Equals ''='', tk Identifier ''true''] @ [tk RBracket '']'']"
  have c: "component_spelled [tk Identifier ''packed''] \<lparr>comp_name = ''packed'', is_extension = False\<rparr>"
    using component_simple [of "tk Identifier ''packed''"] by simp
  have v: "scalar_spelled [tk Identifier ''true''] (OIdentifier ''true'')" using spelled_name [of "tk Identifier ''true''"] by simp
  have o: "options_spelled ?os [\<lparr>opt_name = [\<lparr>comp_name = ''packed'', is_extension = False\<rparr>], opt_value = OIdentifier ''true''\<rparr>]"
    using option_pair [OF name_one [OF c] _ v, of "tk Equals ''=''"] by (intro options_some list_one) simp_all
  have s: "starts_field (Some CardRepeated) False (tk KwMessage ''message'') [tk Identifier ''M''] (tk Identifier ''f'')"
    by (simp add: starts_field_def)
  have m: "is_name_token (tk KwMessage ''message'')" by (simp add: is_name_token_def is_keyword_def kKeywords_def)
  have "to_string (unat (7 :: u32)) = ''7''" by code_simp
  with field_decl [OF m _ _ s, of "tk Equals ''=''" "tk IntLiteral ''7''" 7 ?os _ "tk Semicolon '';''" Proto3, OF _ _ _ _ _ o] show ?thesis
    by (simp add: type_tokens_def type_text_def)
qed

theorem message_element_field_roundtrip_witness:
  "message_element_of 3 (message_body 3 Proto3) Proto3
     ([tk KwRepeated ''repeated'', tk KwMessage ''message'', tk Dot ''.'', tk Identifier ''M'', tk Identifier ''f'', tk Equals ''='', tk IntLiteral ''7'',
      tk LBracket ''['', tk Identifier ''packed'', tk Equals ''='', tk Identifier ''true'', tk RBracket '']'', tk Semicolon '';''] @ [tk RBrace ''}'']) =
   Inr ([tk RBrace ''}''], MEField (declared Proto3 (Some CardRepeated) ''message.M'' (tk Identifier ''f'') 7
        [\<lparr>opt_name = [\<lparr>comp_name = ''packed'', is_extension = False\<rparr>], opt_value = OIdentifier ''true''\<rparr>]))"
  by (rule message_element_field_roundtrip [OF demo_field]) simp

section \<open>Options at the depth limit\<close>

text \<open>A scalar value in any spelling, hexadecimal and octal numbers included.\<close>

inductive scalar_tokens :: "Token list \<Rightarrow> bool" where
  scalar_name: "is_name_token t \<Longrightarrow> scalar_tokens [t]"
| scalar_string: "kind t = StringLiteral \<Longrightarrow> scalar_tokens [t]"
| scalar_number: "sign_spelled s neg \<Longrightarrow> kind t \<in> {IntLiteral, FloatLiteral, KwInf, KwNan} \<Longrightarrow> scalar_tokens (s @ [t])"

lemma scalar_tokens_read:
  assumes "scalar_tokens vs"
  obtains v where "\<And>d us. parse_value (Suc d) (vs @ us) = Inr (us, v)"
proof -
  have "\<exists>v. \<forall>us. parse_scalar (vs @ us) = Inr (us, v)" using assms
  proof cases
    case (scalar_name t)
    show ?thesis
    proof (cases "kind t = KwInf \<or> kind t = KwNan")
      case True
      with scalar_name number_read [OF sign_none, of t] show ?thesis by (intro exI) auto
    next
      case False
      with scalar_name scalar_read [OF spelled_name, of t] show ?thesis by auto
    qed
  next
    case (scalar_string t)
    with scalar_read [OF spelled_string, of t] show ?thesis by auto
  next
    case (scalar_number s neg t)
    with number_read [of s neg t] show ?thesis by auto
  qed
  then obtain v where v: "\<And>us. parse_scalar (vs @ us) = Inr (us, v)" by blast
  obtain t ts where t: "vs = t # ts" "\<not> opens_literal (kind t)"
    using assms by cases (auto elim!: sign_spelled.cases simp: opens_literal_def dest: name_kinds)
  then have "parse_value (Suc d) (vs @ us) = Inr (us, v)" for d us using value_scalar [of t "ts @ us" us v d] v [of us] by simp
  with that show ?thesis by blast
qed

inductive file_header :: "Token list \<Rightarrow> SyntaxInfo \<Rightarrow> bool" where
  header_none: "file_header [] \<lparr>si_level = Proto2, si_edition = [], si_edition_offset = 0\<rparr>"
| header_syntax: "kind k = KwSyntax \<Longrightarrow> kind e = Equals \<Longrightarrow> kind l = StringLiteral \<Longrightarrow> kind s = Semicolon \<Longrightarrow>
    file_header [k, e, l, s] \<lparr>si_level = (if str_value l = ''proto3'' then Proto3 else Proto2), si_edition = [], si_edition_offset = 0\<rparr>"
| header_edition: "kind k = KwEdition \<Longrightarrow> kind e = Equals \<Longrightarrow> kind l = StringLiteral \<Longrightarrow> kind s = Semicolon \<Longrightarrow>
    file_header [k, e, l, s] \<lparr>si_level = Edition, si_edition = str_value l, si_edition_offset = tok_offset l\<rparr>"

lemma header_read:
  assumes "file_header hs si" "kind t = KwMessage"
  shows "parse_file (hs @ t # ts) = parse_file_body (hs @ t # ts) (t # ts) si"
  using assms(1)
proof cases
  case header_none
  have "\<exists>e. syntax_decl (t # ts) = Inl e \<and> \<not> fatal e" using assms(2) by (simp add: syntax_decl_def run_simps)
  with header_none show ?thesis by (auto simp: parse_file_def)
next
  case (header_syntax k e l s)
  then have "syntax_decl (hs @ t # ts) = Inr (t # ts, si)" by (simp add: syntax_decl_def run_simps)
  then show ?thesis by (simp add: parse_file_def)
next
  case (header_edition k e l s)
  then have "syntax_decl (hs @ t # ts) = Inr (t # ts, si)" by (simp add: syntax_decl_def run_simps)
  then show ?thesis by (simp add: parse_file_def)
qed


text \<open>An option declaration as the only element of the innermost message.\<close>

inductive declares_option :: "Token list \<Rightarrow> OptionNameComponent list \<Rightarrow> nat \<Rightarrow> Token list \<Rightarrow> bool" where
  option_decl: "kind k = KwOption \<Longrightarrow> name_spelled ns c \<Longrightarrow> kind e = Equals \<Longrightarrow> kind s = Semicolon \<Longrightarrow>
    declares_option (k # ns @ e # vs @ [s]) c (length ns + 2) vs"

lemma option_refused:
  assumes "declares_option ts c pos vs"
  shows "message_body (Suc 0) syn (ts @ rest) = Inl (lift_err pos too_deep)"
  using assms
proof cases
  case (option_decl k ns e s)
  have "parse_option_name (ns @ e # vs @ s # rest) = Inr (e # vs @ s # rest, c)" by (rule name_read) (use option_decl in simp_all)
  with option_decl have "message_element_of 0 (message_body 0 syn) syn (ts @ rest) = Inl (lift_err pos too_deep)"
    by (simp add: message_element_of_def parse_option_decl_def run_simps parse_value_def value_of_def lift_err_def too_deep_def)
  then show ?thesis unfolding message_body.simps(2) by (rule many_fatal) (simp add: lift_err_def)
qed

lemma option_accepted:
  assumes "declares_option ts c pos vs" "\<And>d us. parse_value (Suc d) (vs @ us) = Inr (us, v)"
  shows "message_body (Suc (Suc d)) syn (ts @ tk RBrace ''}'' # rest) = Inr (tk RBrace ''}'' # rest, [MEOption \<lparr>opt_name = c, opt_value = v\<rparr>])"
  using assms(1)
proof cases
  case (option_decl k ns e s)
  let ?us = "s # tk RBrace ''}'' # rest"
  have "parse_option_name (ns @ e # vs @ ?us) = Inr (e # vs @ ?us, c)" by (rule name_read) (use option_decl in simp_all)
  with option_decl assms(2) [of d ?us] have el: "message_element_of (Suc d) (message_body (Suc d) syn) syn (ts @ tk RBrace ''}'' # rest) =
      Inr (tk RBrace ''}'' # rest, MEOption \<lparr>opt_name = c, opt_value = v\<rparr>)"
    by (simp add: message_element_of_def parse_option_decl_def map_p_def seq_def cut_def alt_def del: message_body.simps)
  show ?thesis unfolding message_body.simps(2) [of "Suc d"]
    by (rule many_one [where p = "message_element_of (Suc d) (message_body (Suc d) syn) syn", OF el])
      (simp_all add: option_decl message_element_brace)
qed

text \<open>The tree of nested messages around options.\<close>

fun shell :: "Token list \<Rightarrow> OptionNode list \<Rightarrow> MessageNode list" where
  "shell [] os = []"
| "shell [n] os = [MessageNode (default_message\<lparr>msg_name := tok_text n, msg_options := os\<rparr>) []]"
| "shell (n # ns) os = [MessageNode (default_message\<lparr>msg_name := tok_text n\<rparr>) (shell ns os)]"

lemma chain_shell: "[assemble_message (tok_text n) (chain ns [MEOption x])] = shell (n # ns) [x]"
  by (induction ns arbitrary: n) (simp_all add: assemble_message_def push_nested_def upd_data_def default_message_def)

lemma parse_file_enclose:
  assumes "file_header hs si" "list_all is_name_token (n # ns)"
  shows "message_body kMaxParseDepth (si_level si) (enclose ns ts @ [tk RBrace ''}'']) = Inr ([tk RBrace ''}''], es) \<Longrightarrow>
      parse_file (hs @ enclose (n # ns) ts) = Inr ([], default_file\<lparr>syntax_level := si_level si, edition := si_edition si,
        edition_offset := si_edition_offset si, file_messages := [assemble_message (tok_text n) es]\<rparr>)"
    and "message_body kMaxParseDepth (si_level si) (enclose ns ts @ [tk RBrace ''}'']) = Inl e \<Longrightarrow> fatal e \<Longrightarrow>
      parse_file (hs @ enclose (n # ns) ts) = Inl (lift_err (length hs + 3) e)"
proof -
  let ?us = "n # tk LBrace ''{'' # enclose ns ts @ [tk RBrace ''}'']" and ?m = "tk KwMessage ''message''"
  let ?el = "file_element kMaxParseDepth (si_level si)"
  have tokens: "enclose (n # ns) ts = ?m # ?us" by simp
  have n: "is_name_token n" using assms(2) by simp
  note pf = header_read [OF assms(1), of ?m ?us, OF kind_tk(1)]
  note el = file_element_message [of ?m kMaxParseDepth "si_level si" ?us, OF kind_tk(1)]
  note msg = parse_message_enclose [OF n, of "message_body kMaxParseDepth (si_level si)" "enclose ns ts" "[]"]
  show "parse_file (hs @ enclose (n # ns) ts) = Inr ([], default_file\<lparr>syntax_level := si_level si, edition := si_edition si,
        edition_offset := si_edition_offset si, file_messages := [assemble_message (tok_text n) es]\<rparr>)"
    if "message_body kMaxParseDepth (si_level si) (enclose ns ts @ [tk RBrace ''}'']) = Inr ([tk RBrace ''}''], es)"
  proof -
    from el(1) [unfolded parse_message_def, OF msg(1) [OF that]]
    have "many ?el (?m # ?us) = Inr ([], [FEMessage (assemble_message (tok_text n) es)])"
      by (rule many_one) (simp_all add: file_element_Nil)
    then show ?thesis unfolding tokens pf parse_file_body_def by (simp add: default_file_def)
  qed
  show "parse_file (hs @ enclose (n # ns) ts) = Inl (lift_err (length hs + 3) e)"
    if "message_body kMaxParseDepth (si_level si) (enclose ns ts @ [tk RBrace ''}'']) = Inl e" "fatal e"
  proof -
    from el(2) [unfolded parse_message_def, OF msg(2) [OF that(1)]] that(2)
    have "many ?el (?m # ?us) = Inl (lift_err 3 e)" by (intro many_fatal) (simp_all add: lift_err_def)
    then show ?thesis unfolding tokens pf parse_file_body_def by (simp add: consumed_def)
  qed
qed

text \<open>
  Property C40. At the depth limit even a scalar option value is refused. Let a file of any syntax level consist of nested messages
  with any names, and the innermost contain an option with any name and any scalar value (a name, a string, or a number in any spelling with or
  without a sign). With fewer than \<open>kMaxParseDepth\<close> messages the file parses to those messages with that option, of the value that its
  tokens spell; with exactly \<open>kMaxParseDepth\<close>, which are accepted without the option, the parse fails with the depth error at the value,
  although nothing nests in it, because a value is first tried as an aggregate.
\<close>

theorem option_at_limit:
  assumes "file_header hs si" "list_all is_name_token ns" "ns \<noteq> []" "length ns \<le> kMaxParseDepth"
    and "declares_option ts c pos vs" "scalar_tokens vs"
  shows "if length ns = kMaxParseDepth then parse_file (hs @ enclose ns ts) = Inl (lift_err (length hs + 3 * kMaxParseDepth + pos) too_deep)
    else \<exists>v. (\<forall>w. scalar_spelled vs w \<longrightarrow> v = w) \<and> parse_file (hs @ enclose ns ts) =
      Inr ([], default_file\<lparr>syntax_level := si_level si, edition := si_edition si, edition_offset := si_edition_offset si,
        file_messages := shell ns [\<lparr>opt_name = c, opt_value = v\<rparr>]\<rparr>)"
proof -
  obtain n ns' where ns: "ns = n # ns'" using assms(3) by (cases ns) auto
  have names: "list_all is_name_token ns'" using assms(2) ns by simp
  note pf = parse_file_enclose [OF assms(1,2) [unfolded ns], where ts = ts, folded ns]
  show ?thesis
  proof (cases "length ns = kMaxParseDepth")
    case True
    then have len: "kMaxParseDepth = length ns' + Suc 0" by (simp add: ns)
    have "fatal (lift_err pos too_deep)" by (simp add: lift_err_def)
    from message_body_encloses(2) [OF option_refused [OF assms(5)] this names, of "si_level si" "[]"]
    have "message_body kMaxParseDepth (si_level si) (enclose ns' ts @ [tk RBrace ''}'']) = Inl (lift_err (3 * length ns' + pos) too_deep)"
      unfolding len by simp
    from pf(2) [OF this] True show ?thesis by (simp add: ns lift_err_def too_deep_def)
  next
    case False
    obtain v where v: "\<And>d us. parse_value (Suc d) (vs @ us) = Inr (us, v)" by (rule scalar_tokens_read [OF assms(6)]) blast
    have "v = w" if "scalar_spelled vs w" for w using value_read [OF that, of 0 "[]"] v [of 0 "[]"] by simp
    moreover define d where "d = kMaxParseDepth - Suc (length ns)"
    have len: "kMaxParseDepth = length ns' + Suc (Suc d)" using assms(4) False by (simp add: d_def ns)
    from message_body_encloses(1) [OF option_accepted [OF assms(5) v] names, of d "si_level si" "[]", folded len]
    have "message_body kMaxParseDepth (si_level si) (enclose ns' ts @ [tk RBrace ''}'']) =
        Inr ([tk RBrace ''}''], chain ns' [MEOption \<lparr>opt_name = c, opt_value = v\<rparr>])" .
    from pf(1) [OF this, unfolded chain_shell, folded ns] False show ?thesis using calculation by auto
  qed
qed

theorem option_at_limit_witness:
  "parse_file (enclose (replicate kMaxParseDepth (tk Identifier ''M''))
     [tk KwOption ''option'', tk Identifier ''deprecated'', tk Equals ''='', tk Identifier ''true'', tk Semicolon '';'']) =
   Inl (lift_err (3 * kMaxParseDepth + 3) too_deep)"
proof -
  have "component_spelled [tk Identifier ''deprecated''] \<lparr>comp_name = ''deprecated'', is_extension = False\<rparr>"
    using component_simple [of "tk Identifier ''deprecated''"] by simp
  from option_decl [OF _ name_one [OF this], of "tk KwOption ''option''" "tk Equals ''=''" "tk Semicolon '';''" "[tk Identifier ''true'']"]
  have decl: "declares_option [tk KwOption ''option'', tk Identifier ''deprecated'', tk Equals ''='', tk Identifier ''true'', tk Semicolon '';'']
      [\<lparr>comp_name = ''deprecated'', is_extension = False\<rparr>] 3 [tk Identifier ''true'']" by (simp add: numeral_3_eq_3)
  have "scalar_tokens [tk Identifier ''true'']" by (rule scalar_name) simp
  with option_at_limit [OF header_none _ _ _ decl, of "replicate kMaxParseDepth (tk Identifier ''M'')"] show ?thesis
    by (simp add: list_all_iff kMaxParseDepth_def)
qed

end
