(* ===== verification/Source.thy ===== *)
theory Source
  imports Combinators Strings
begin

text \<open>
  The source registry and the error renderer of \<^verbatim>\<open>src/source.cpp\<close>: files are registered in order and
  get dense ids, an id and a byte offset are rendered as \<^verbatim>\<open>file:line:col\<close>. Its contract for clients is
  the locale \<open>source_registry\<close>.
\<close>

record Source =
  src_filename :: string
  src_content :: string

type_synonym SourceRegistry = "Source list"

record LineCol =
  line :: nat
  column :: nat

definition add_source :: "string \<Rightarrow> string \<Rightarrow> SourceRegistry \<Rightarrow> SourceId \<times> SourceRegistry" where
  "add_source fname content reg =
     (word_of_nat (length reg), reg @ [\<lparr>src_filename = fname, src_content = content\<rparr>])"

definition registered :: "SourceRegistry \<Rightarrow> SourceId \<Rightarrow> bool" where
  "registered reg i \<longleftrightarrow> \<not> (\<not> valid i \<or> unat i \<ge> length reg)"

definition filename_of :: "SourceRegistry \<Rightarrow> SourceId \<Rightarrow> string" where
  "filename_of reg i = (if \<not> registered reg i then [] else src_filename (reg ! unat i))"

fun line_col_loop :: "string \<Rightarrow> LineCol \<Rightarrow> LineCol" where
  "line_col_loop [] pos = pos"
| "line_col_loop (c # cs) pos =
     line_col_loop cs
       (if c = CHR 0x0A then pos\<lparr>line := line pos + 1, column := 1\<rparr>
        else pos\<lparr>column := column pos + 1\<rparr>)"

definition line_col :: "SourceRegistry \<Rightarrow> SourceId \<Rightarrow> nat \<Rightarrow> LineCol" where
  "line_col reg i byte_off =
     (if \<not> registered reg i then \<lparr>line = 1, column = 1\<rparr>
      else
        let content = src_content (reg ! unat i); e = min byte_off (length content) in
        line_col_loop (take e content) \<lparr>line = 1, column = 1\<rparr>)"

definition render_error :: "Error \<Rightarrow> SourceRegistry \<Rightarrow> string" where
  "render_error err reg =
     (let fname = filename_of reg (source err) in
      if fname = [] then message err
      else
        let pos = line_col reg (source err) (byte_offset err) in
        fname @ '':'' @ to_string (line pos) @ '':'' @ to_string (column pos) @ '': '' @ message err)"

section \<open>The registry contract\<close>

text \<open>
  What the import resolver relies on: adding a source returns an id under which its name is found,
  as long as ids last, and leaves every earlier id alone.
\<close>

locale source_registry =
  fixes add :: "string \<Rightarrow> string \<Rightarrow> 'r \<Rightarrow> SourceId \<times> 'r"
    and size_of :: "'r \<Rightarrow> nat"
    and name_of :: "'r \<Rightarrow> SourceId \<Rightarrow> string"
  assumes size_add: "size_of (snd (add f t r)) = Suc (size_of r)"
    and id_add: "unat (fst (add f t r)) = size_of r mod 2 ^ 32"
    and name_add: "size_of r < unat kInvalid \<Longrightarrow> name_of (snd (add f t r)) (fst (add f t r)) = f"
    and name_keep: "unat i < size_of r \<Longrightarrow> name_of (snd (add f t r)) i = name_of r i"
begin

definition adds :: "(string \<times> string) list \<Rightarrow> 'r \<Rightarrow> 'r" where
  "adds fs r = fold (\<lambda>(f, t) r. snd (add f t r)) fs r"

lemma adds_simps [simp]:
  "adds [] r = r" "adds ((f, t) # fs) r = adds fs (snd (add f t r))"
  by (simp_all add: adds_def)

lemma size_adds: "size_of (adds fs r) = size_of r + length fs"
  by (induction fs arbitrary: r) (auto simp: size_add)

lemma name_adds_keep: "unat i < size_of r \<Longrightarrow> name_of (adds fs r) i = name_of r i"
  by (induction fs arbitrary: r) (auto simp: size_add name_keep)

lemma name_adds:
  assumes "size_of r < unat kInvalid"
  shows "name_of (adds fs (snd (add f t r))) (fst (add f t r)) = f"
proof -
  from assms have "size_of r < 2 ^ 32" by (simp add: kInvalid_def)
  then have "unat (fst (add f t r)) < size_of (snd (add f t r))" by (simp add: id_add size_add)
  with name_adds_keep name_add [OF assms] show ?thesis by simp
qed

end

lemma unat_kInvalid: "unat kInvalid = 2 ^ 32 - 1"
  by (simp add: kInvalid_def)

lemma valid_iff: "valid i \<longleftrightarrow> unat i < 2 ^ 32 - 1"
proof -
  have "unat i < 2 ^ 32" using unsigned_less [of i] by simp
  then show ?thesis by (auto simp: valid_def word_unat_eq_iff unat_kInvalid)
qed

interpretation sources: source_registry add_source length filename_of
proof
  fix f t :: string and r :: SourceRegistry and i :: SourceId
  show "length (snd (add_source f t r)) = Suc (length r)" by (simp add: add_source_def)
  show "unat (fst (add_source f t r)) = length r mod 2 ^ 32"
    by (simp add: add_source_def unat_of_nat take_bit_eq_mod)
  show "filename_of (snd (add_source f t r)) (fst (add_source f t r)) = f" if "length r < unat kInvalid"
    using that
    by (simp add: add_source_def filename_of_def registered_def valid_iff unat_of_nat take_bit_nat_eq_self_iff
        unat_kInvalid)
  show "filename_of (snd (add_source f t r)) i = filename_of r i" if "unat i < length r"
    using that by (simp add: add_source_def filename_of_def registered_def nth_append)
qed

section \<open>Lines and columns\<close>

abbreviation newline :: char where "newline \<equiv> CHR 0x0A"

lemma line_col_loop_line: "line (line_col_loop cs pos) = line pos + count_list cs newline"
  by (induction cs arbitrary: pos) auto

lemma line_col_loop_snoc:
  "line_col_loop (cs @ [c]) pos =
     (let p = line_col_loop cs pos in
      if c = newline then p\<lparr>line := line p + 1, column := 1\<rparr> else p\<lparr>column := column p + 1\<rparr>)"
  by (induction cs arbitrary: pos) (auto simp: Let_def)

lemma line_col_loop_column:
  "column (line_col_loop cs \<lparr>line = l, column = 1\<rparr>) = Suc (length (takeWhile (\<lambda>c. c \<noteq> newline) (rev cs)))"
  by (induction cs rule: rev_induct) (auto simp: line_col_loop_snoc Let_def)

text \<open>
  Property C39. Positions are exact: for a registered source and an offset in its text, the line is one
  more than the number of newlines before the offset, and the column one more than the number of
  bytes since the last newline.
\<close>

theorem line_col_exact:
  assumes "registered reg i" and "off \<le> length (src_content (reg ! unat i))"
  shows "line (line_col reg i off) = Suc (count_list (take off (src_content (reg ! unat i))) newline) \<and>
    column (line_col reg i off) =
      Suc (length (takeWhile (\<lambda>c. c \<noteq> newline) (rev (take off (src_content (reg ! unat i))))))"
  using assms by (simp add: line_col_def Let_def min_def line_col_loop_line line_col_loop_column [unfolded One_nat_def])

theorem line_col_exact_witness:
  "line (line_col [\<lparr>src_filename = ''a'', src_content = ''x'' @ [newline] @ ''yz''\<rparr>] 0 4) = 2 \<and>
   column (line_col [\<lparr>src_filename = ''a'', src_content = ''x'' @ [newline] @ ''yz''\<rparr>] 0 4) = 3"
  using line_col_exact [of "[\<lparr>src_filename = ''a'', src_content = ''x'' @ [newline] @ ''yz''\<rparr>]" 0 4]
  by (simp add: registered_def valid_def kInvalid_def)

lemma line_col_mono:
  assumes "a < b" "b \<le> length cs"
  shows "line_col_loop (take a cs) \<lparr>line = 1, column = 1\<rparr> \<noteq> line_col_loop (take b cs) \<lparr>line = 1, column = 1\<rparr>"
proof -
  define mid where "mid = take (b - a) (drop a cs)"
  have mid: "take b cs = take a cs @ mid" "mid \<noteq> []"
    using assms by (auto simp: mid_def simp flip: take_add)
  let ?f = "\<lambda>s. line_col_loop s \<lparr>line = 1, column = 1\<rparr>"
  show ?thesis
  proof (cases "newline \<in> set mid")
    case True
    then have "count_list mid newline \<noteq> 0" by (simp add: count_list_0_iff)
    then have "line (?f (take a cs)) < line (?f (take b cs))"
      by (simp add: mid(1) line_col_loop_line)
    then show ?thesis by auto
  next
    case False
    then have "takeWhile (\<lambda>c. c \<noteq> newline) (rev mid @ rev (take a cs)) =
        rev mid @ takeWhile (\<lambda>c. c \<noteq> newline) (rev (take a cs))"
      by (intro takeWhile_append2) auto
    then have "column (?f (take a cs)) < column (?f (take b cs))"
      using mid(2) by (simp add: mid(1) line_col_loop_column [unfolded One_nat_def])
    then show ?thesis by auto
  qed
qed

text \<open>
  A rendered position determines the byte: within one source, two offsets have the same
  line and column only if they are the same offset.
\<close>

theorem line_col_injective:
  assumes "registered reg i" "a \<le> length (src_content (reg ! unat i))" "b \<le> length (src_content (reg ! unat i))"
  shows "line_col reg i a = line_col reg i b \<longleftrightarrow> a = b"
  using assms line_col_mono [of a b "src_content (reg ! unat i)"]
    line_col_mono [of b a "src_content (reg ! unat i)"]
  by (cases a b rule: linorder_cases) (auto simp: line_col_def Let_def min_def)

theorem line_col_injective_witness:
  "line_col [\<lparr>src_filename = ''a'', src_content = [newline, newline]\<rparr>] 0 1 \<noteq>
   line_col [\<lparr>src_filename = ''a'', src_content = [newline, newline]\<rparr>] 0 2"
  using line_col_injective [of "[\<lparr>src_filename = ''a'', src_content = [newline, newline]\<rparr>]" 0 1 2]
  by (simp add: registered_def valid_def kInvalid_def)

end
