(* ===== verification/Paths.thy ===== *)
theory Paths
  imports Strings
begin

text \<open>
  The lexical path operations of \<^verbatim>\<open>std::filesystem\<close> the import resolver uses, on POSIX paths:
  \<^verbatim>\<open>operator/\<close> and \<^verbatim>\<open>lexically_normal\<close>, which gives an import path its canonical spelling.
\<close>

abbreviation slash :: char where "slash \<equiv> CHR ''/''"

definition path_append :: "string \<Rightarrow> string \<Rightarrow> string" where
  "path_append a b =
     (if b \<noteq> [] \<and> hd b = slash then b
      else if a = [] \<or> last a = slash then a @ b
      else a @ [slash] @ b)"

fun split_slash :: "string \<Rightarrow> string list" where
  "split_slash [] = [[]]"
| "split_slash (c # cs) =
     (if c = slash then [] # split_slash cs
      else (c # hd (split_slash cs)) # tl (split_slash cs))"

fun join_slash :: "string list \<Rightarrow> string" where
  "join_slash [] = []"
| "join_slash [p] = p"
| "join_slash (p # q # ps) = p @ [slash] @ join_slash (q # ps)"

text \<open>
  One filename of the path: a dot, an empty filename (a repeated or trailing separator) and a
  \<^verbatim>\<open>..\<close> that cancels leave a directory, a \<^verbatim>\<open>..\<close> at the root disappears.
\<close>

fun normal_step :: "bool \<Rightarrow> string \<Rightarrow> string list \<times> bool \<Rightarrow> string list \<times> bool" where
  "normal_step rooted p (st, dir) =
     (if p = [] \<or> p = ''.'' then (st, True)
      else if p = ''..'' then
        (if st \<noteq> [] \<and> last st \<noteq> ''..'' then (butlast st, True)
         else if rooted then (st, True)
         else (st @ [''..''], False))
      else (st @ [p], False))"

definition lexically_normal :: "string \<Rightarrow> string" where
  "lexically_normal p =
     (if p = [] then []
      else
        let rooted = (hd p = slash);
            (st, dir) = fold (normal_step rooted) (split_slash p) ([], False);
            r = (if rooted then [slash] else []) @ join_slash st @
                (if dir \<and> st \<noteq> [] \<and> last st \<noteq> ''..'' then [slash] else [])
        in if r = [] then ''.'' else r)"

section \<open>Splitting and joining\<close>

lemma split_slash_not_Nil [simp]: "split_slash s \<noteq> []"
  by (cases s) simp_all

lemma split_slash_plain: "slash \<notin> set s \<Longrightarrow> split_slash s = [s]"
  by (induction s) auto

lemma split_slash_append: "slash \<notin> set s \<Longrightarrow> split_slash (s @ slash # cs) = s # split_slash cs"
  by (induction s) auto

lemma split_join:
  "ps \<noteq> [] \<Longrightarrow> \<forall>p \<in> set ps. slash \<notin> set p \<Longrightarrow> split_slash (join_slash ps) = ps"
  by (induction ps rule: join_slash.induct) (simp_all add: split_slash_plain split_slash_append)

lemma split_join_dir:
  "ps \<noteq> [] \<Longrightarrow> \<forall>p \<in> set ps. slash \<notin> set p \<Longrightarrow> split_slash (join_slash ps @ [slash]) = ps @ [[]]"
  by (induction ps rule: join_slash.induct) (simp_all add: split_slash_append)

lemma split_no_slash: "p \<in> set (split_slash s) \<Longrightarrow> slash \<notin> set p"
proof (induction s arbitrary: p)
  case (Cons c cs)
  have "hd (split_slash cs) \<in> set (split_slash cs)" by simp
  with Cons.IH have "slash \<notin> set (hd (split_slash cs))" by blast
  with Cons show ?case by (auto split: if_splits dest: list.set_sel(2) [OF split_slash_not_Nil])
qed simp

section \<open>Normal forms\<close>

text \<open>The filename stack of a normal path: \<^verbatim>\<open>..\<close>s only in front, and none below a root.\<close>

definition plain_names :: "string list \<Rightarrow> bool" where
  "plain_names ns \<longleftrightarrow> (\<forall>p \<in> set ns. p \<noteq> [] \<and> p \<noteq> ''.'' \<and> p \<noteq> ''..'' \<and> slash \<notin> set p)"

definition normal_stack :: "bool \<Rightarrow> string list \<Rightarrow> bool" where
  "normal_stack rooted st \<longleftrightarrow> (\<exists>k ns. st = replicate k ''..'' @ ns \<and> plain_names ns \<and> (rooted \<longrightarrow> k = 0))"

lemma plain_names_simps [simp]:
  "plain_names []"
  "plain_names (p # ns) \<longleftrightarrow> p \<noteq> [] \<and> p \<noteq> ''.'' \<and> p \<noteq> ''..'' \<and> slash \<notin> set p \<and> plain_names ns"
  "plain_names (ms @ ns) \<longleftrightarrow> plain_names ms \<and> plain_names ns"
  by (auto simp: plain_names_def)

lemma normal_stackI: "plain_names ns \<Longrightarrow> rooted \<longrightarrow> k = 0 \<Longrightarrow> normal_stack rooted (replicate k ''..'' @ ns)"
  unfolding normal_stack_def by blast

lemma normal_stackE:
  assumes "normal_stack rooted st"
  obtains (dots) k where "st = replicate k ''..''" "rooted \<longrightarrow> k = 0"
    | (names) k ns n where "st = replicate k ''..'' @ ns @ [n]" "plain_names (ns @ [n])" "rooted \<longrightarrow> k = 0"
proof -
  from assms obtain k ns where *: "st = replicate k ''..'' @ ns" "plain_names ns" "rooted \<longrightarrow> k = 0"
    unfolding normal_stack_def by blast
  show thesis
  proof (cases ns rule: rev_cases)
    case Nil
    with * dots show thesis by simp
  next
    case (snoc ms n)
    with * names show thesis by simp
  qed
qed

lemma normal_stack_Nil: "normal_stack rooted []"
  using normal_stackI [of "[]" rooted 0] by simp

lemma normal_stack_push:
  assumes "normal_stack rooted st" "plain_names [p]"
  shows "normal_stack rooted (st @ [p])"
proof -
  from assms(1) obtain k ns where "st = replicate k ''..'' @ ns" "plain_names ns" "rooted \<longrightarrow> k = 0"
    unfolding normal_stack_def by blast
  with assms(2) normal_stackI [of "ns @ [p]" rooted k] show ?thesis by simp
qed

lemma normal_stack_pop:
  assumes "normal_stack rooted st" "st \<noteq> []" "last st \<noteq> ''..''"
  shows "normal_stack rooted (butlast st)"
  using assms(1)
proof (cases rule: normal_stackE)
  case (dots k)
  with assms show ?thesis by (simp add: last_replicate)
next
  case (names k ns n)
  with normal_stackI [of ns rooted k] show ?thesis by (simp add: butlast_append)
qed

lemma normal_stack_up:
  assumes "normal_stack rooted st" "st = [] \<or> last st = ''..''" "\<not> rooted"
  shows "normal_stack rooted (st @ [''..''])"
  using assms(1)
proof (cases rule: normal_stackE)
  case (dots k)
  with assms normal_stackI [of "[]" rooted "Suc k"] show ?thesis by (simp add: replicate_append_same)
next
  case (names k ns n)
  with assms show ?thesis by simp
qed

lemma normal_step_stack:
  "normal_stack rooted (fst s) \<Longrightarrow> slash \<notin> set p \<Longrightarrow> normal_stack rooted (fst (normal_step rooted p s))"
  by (cases s; cases rooted)
    (auto simp: normal_stack_push normal_stack_pop normal_stack_up)

lemma fold_normal_stack:
  "\<forall>p \<in> set ps. slash \<notin> set p \<Longrightarrow> normal_stack rooted (fst s) \<Longrightarrow>
     normal_stack rooted (fst (fold (normal_step rooted) ps s))"
  by (induction ps arbitrary: s) (auto simp: normal_step_stack simp del: normal_step.simps)

text \<open>A normal stack is rebuilt from its own filenames.\<close>

lemma fold_dotdots:
  "fold (normal_step False) (replicate k ''..'') (replicate j ''..'', d) =
     (replicate (j + k) ''..'', if k = 0 then d else False)"
proof (induction k arbitrary: j d)
  case (Suc k)
  have "replicate j ''..'' @ [''..''] = replicate (Suc j) ''..''" by (simp add: replicate_append_same)
  moreover have "last (replicate j ''..'') = ''..''" if "j \<noteq> 0" using that by simp
  ultimately show ?case using Suc [of "Suc j" False] by (cases j) simp_all
qed simp

lemma fold_names:
  "plain_names ns \<Longrightarrow>
     fold (normal_step rooted) ns (st, d) = (st @ ns, if ns = [] then d else False)"
  by (induction ns arbitrary: st d) auto

lemma fold_normal_self:
  assumes "normal_stack rooted st"
  shows "fold (normal_step rooted) st ([], d) = (st, if st = [] then d else False)"
proof -
  from assms obtain k ns where st: "st = replicate k ''..'' @ ns" "plain_names ns" "rooted \<longrightarrow> k = 0"
    unfolding normal_stack_def by blast
  have "fold (normal_step rooted) (replicate k ''..'') ([], d) = (replicate k ''..'', if k = 0 then d else False)"
    using st(3) fold_dotdots [of k 0 d] by (cases rooted) auto
  then show ?thesis by (simp add: st(1) fold_names [OF st(2)])
qed

lemma join_slash_head:
  assumes "st \<noteq> []" "\<forall>p \<in> set st. p \<noteq> [] \<and> slash \<notin> set p"
  shows "join_slash st \<noteq> [] \<and> hd (join_slash st) \<noteq> slash"
proof -
  from assms obtain p ps where st: "st = p # ps" "p \<noteq> []" "slash \<notin> set p" by (cases st) auto
  from st(2,3) have "hd p \<noteq> slash" by (metis hd_in_set)
  have "\<exists>s. join_slash st = p @ s" using st(1) by (cases ps) auto
  with st(2) \<open>hd p \<noteq> slash\<close> show ?thesis by auto
qed

text \<open>The spelling of a filename stack, and that it is its own normal form.\<close>

definition spelling :: "bool \<Rightarrow> string list \<Rightarrow> bool \<Rightarrow> string" where
  "spelling rooted st dir =
     (let r = (if rooted then [slash] else []) @ join_slash st @
         (if dir \<and> st \<noteq> [] \<and> last st \<noteq> ''..'' then [slash] else [])
      in if r = [] then ''.'' else r)"

lemma lexically_normal_spelling:
  "p \<noteq> [] \<Longrightarrow> lexically_normal p =
     (case fold (normal_step (hd p = slash)) (split_slash p) ([], False) of
        (st, dir) \<Rightarrow> spelling (hd p = slash) st dir)"
  by (simp add: lexically_normal_def spelling_def Let_def)

lemma spelling_Nil: "spelling rooted [] dir = (if rooted then [slash] else ''.'')"
  by (simp add: spelling_def)

lemma spelling_dir: "spelling rooted st (dir \<and> last st \<noteq> ''..'') = spelling rooted st dir"
  by (simp add: spelling_def)

lemma normal_stack_plain:
  assumes "normal_stack rooted st" "p \<in> set st"
  shows "p \<noteq> [] \<and> slash \<notin> set p"
proof -
  from assms(1) obtain k ns where st: "st = replicate k ''..'' @ ns" "plain_names ns"
    unfolding normal_stack_def by blast
  from assms(2) st(1) have "p = ''..'' \<or> p \<in> set ns" by simp blast
  then show ?thesis using st(2) by (elim disjE) (simp_all add: plain_names_def)
qed

lemma spelling_eq:
  assumes "normal_stack rooted st" "st \<noteq> []"
  shows "spelling rooted st dir = (if rooted then [slash] else []) @ join_slash st @
      (if dir \<and> last st \<noteq> ''..'' then [slash] else [])"
  using assms join_slash_head [of st] normal_stack_plain by (simp add: spelling_def)

lemma split_spelling:
  assumes "normal_stack rooted st" "st \<noteq> []"
  shows "spelling rooted st dir \<noteq> []" and "hd (spelling rooted st dir) = slash \<longleftrightarrow> rooted"
  using join_slash_head [of st] normal_stack_plain [OF assms(1)] assms(2)
  by (auto simp: spelling_eq [OF assms] hd_append)

lemma split_spelling_names:
  assumes "normal_stack rooted st" "st \<noteq> []"
  shows "split_slash (spelling rooted st dir) =
      (if rooted then [[]] else []) @ st @ (if dir \<and> last st \<noteq> ''..'' then [[]] else [])"
proof -
  have pl: "\<forall>p \<in> set st. slash \<notin> set p" using normal_stack_plain [OF assms(1)] by blast
  show ?thesis
    unfolding spelling_eq [OF assms] using split_join [OF assms(2) pl] split_join_dir [OF assms(2) pl] by simp
qed

lemma fold_spelling:
  assumes "normal_stack rooted st" "st \<noteq> []"
  shows "fold (normal_step rooted) (split_slash (spelling rooted st dir)) ([], False) =
    (st, dir \<and> last st \<noteq> ''..'')"
  unfolding split_spelling_names [OF assms]
  using assms(2) fold_normal_self [OF assms(1)]
  by (cases rooted; cases "dir \<and> last st \<noteq> ''..''") simp_all

text \<open>Normalising a normal path changes nothing.\<close>

lemma lexically_normal_idempotent: "lexically_normal (lexically_normal p) = lexically_normal p"
proof (cases "p = []")
  case True
  then show ?thesis by (simp add: lexically_normal_def)
next
  case False
  define rooted where "rooted \<longleftrightarrow> hd p = slash"
  obtain st dir where fold: "fold (normal_step rooted) (split_slash p) ([], False) = (st, dir)" by fastforce
  have norm: "normal_stack rooted st"
    using fold_normal_stack [of "split_slash p" rooted "([], False)"] fold
    by (simp add: split_no_slash normal_stack_Nil)
  have sp: "lexically_normal p = spelling rooted st dir"
    using False fold by (simp add: lexically_normal_spelling rooted_def [symmetric])
  show ?thesis
  proof (cases "st = []")
    case True
    have "lexically_normal [slash] = [slash]" "lexically_normal ''.'' = ''.''" by code_simp+
    with True show ?thesis by (simp add: sp spelling_Nil)
  next
    case st: False
    show ?thesis
      unfolding sp lexically_normal_spelling [OF split_spelling(1) [OF norm st]] split_spelling(2) [OF norm st]
        fold_spelling [OF norm st]
      by (simp add: spelling_dir)
  qed
qed

end
