(* ===== verification/Import_Resolver.thy ===== *)
theory Import_Resolver
  imports Parser_Correct Source Paths
begin

text \<open>
  The import resolver of \<^verbatim>\<open>src/resolver.cpp\<close>: lexing and parsing one source, and the depth-first
  traversal of the import graph with cycle detection, a depth limit and post-order collection.

  What the resolver reads from its environment is the record \<open>Environment\<close>: whether a path exists,
  the contents of a file, the two canonicalisation queries to the file system, and the embedded
  well-known types. No assumption is made about them.
\<close>

record ResolverConfig =
  include_paths :: "string list"
  use_wellknown :: bool

record ResolvedFileSet =
  files :: "FileNode list"
  file_index :: "(string \<times> nat) list"

record Environment =
  fs_exists :: "string \<Rightarrow> bool"
  fs_read :: "string \<Rightarrow> string option"
  fs_weakly_canonical :: "string \<Rightarrow> string option"
  fs_relative :: "string \<Rightarrow> string \<Rightarrow> string option"
  wellknown_source :: "string \<Rightarrow> string option"

definition kMaxImportDepth :: nat where "kMaxImportDepth = 100"

section \<open>One source\<close>

text \<open>\<open>None\<close> is the lexer reading out of range, which never happens.\<close>

definition parse_source :: "string \<Rightarrow> string \<Rightarrow> SourceId \<Rightarrow> (Error + FileNode) option" where
  "parse_source fname content i =
     (case lex content of
        None \<Rightarrow> None
      | Some (Inl e) \<Rightarrow> Some (Inl (e\<lparr>source := i\<rparr>))
      | Some (Inr lexed) \<Rightarrow>
          Some (case parse_file (tokens lexed) of
             Inl e \<Rightarrow>
               let token_index = byte_offset e;
                   off = (if token_index < length (tokens lexed) then tok_offset (tokens lexed ! token_index)
                          else length (src_text lexed))
               in Inl (e\<lparr>byte_offset := off, source := i\<rparr>)
           | Inr (remaining, file) \<Rightarrow>
               if remaining \<noteq> [] then
                 let cons = length (tokens lexed) - length remaining;
                     off = (if cons < length (tokens lexed) then tok_offset (tokens lexed ! cons) else 0)
                 in Inl (mk_error_at i off ''unexpected trailing input'')
               else Inr (file\<lparr>filename := fname\<rparr>)))"

section \<open>Paths\<close>

definition canonical_import_path :: "string \<Rightarrow> string" where
  "canonical_import_path p = lexically_normal p"

fun entry_under :: "Environment \<Rightarrow> string \<Rightarrow> string list \<Rightarrow> string option" where
  "entry_under env abs_entry [] = None"
| "entry_under env abs_entry (inc # incs) =
     (case fs_weakly_canonical env inc of
        None \<Rightarrow> entry_under env abs_entry incs
      | Some abs_include \<Rightarrow>
          (case fs_relative env abs_entry abs_include of
             None \<Rightarrow> entry_under env abs_entry incs
           | Some rel \<Rightarrow>
               if rel = [] then entry_under env abs_entry incs
               else if take 2 rel \<noteq> ''..'' then Some rel
               else entry_under env abs_entry incs))"

definition canonical_entry_name :: "Environment \<Rightarrow> string \<Rightarrow> string list \<Rightarrow> string" where
  "canonical_entry_name env ent incs =
     (case fs_weakly_canonical env ent of
        None \<Rightarrow> ent
      | Some abs_entry \<Rightarrow> (case entry_under env abs_entry incs of Some n \<Rightarrow> n | None \<Rightarrow> ent))"

fun search_includes :: "Environment \<Rightarrow> string list \<Rightarrow> string \<Rightarrow> string option option" where
  "search_includes env [] p = None"
| "search_includes env (inc # incs) p =
     (if inc = [] then search_includes env incs p
      else if fs_exists env (path_append inc p) then Some (fs_read env (path_append inc p))
      else search_includes env incs p)"

definition read_import :: "Environment \<Rightarrow> ResolverConfig \<Rightarrow> string \<Rightarrow> string option" where
  "read_import env config p =
     (case search_includes env (include_paths config) p of
        Some r \<Rightarrow> r
      | None \<Rightarrow> if use_wellknown config then wellknown_source env p else None)"

section \<open>The traversal\<close>

datatype Color = Gray | Black

record Resolver =
  m_sources :: SourceRegistry
  m_color :: "string \<Rightarrow> Color option"
  m_parsed :: "string \<Rightarrow> FileNode option"
  m_stack :: "string list"
  m_order :: "string list"

definition render_cycle :: "Resolver \<Rightarrow> string \<Rightarrow> string" where
  "render_cycle st p =
     ''import cycle: '' @ concat (map (\<lambda>n. n @ '' -> '') (dropWhile (\<lambda>n. n \<noteq> p) (m_stack st))) @ p"

definition depth_message :: string where
  "depth_message = ''import chain exceeds maximum depth ('' @ to_string kMaxImportDepth @ '')''"

definition not_found_message :: "ResolverConfig \<Rightarrow> string \<Rightarrow> string \<Rightarrow> string" where
  "not_found_message config p name =
     ''import not found: '' @ p @ '' (imported by '' @ name @ '')'' @
     (if include_paths config = [] then ''; no include paths were given -- add -I <dir>''
      else ''; searched '' @ to_string (length (include_paths config)) @
        '' include path(s) -- add the right -I <dir>'')"

text \<open>The result of a visit: an error if any, and the state. Out of fuel is \<open>None\<close>.\<close>

type_synonym visit_result = "(Error option \<times> Resolver) option"

fun visit_imports ::
    "(string \<Rightarrow> string \<Rightarrow> Resolver \<Rightarrow> visit_result) \<Rightarrow> Environment \<Rightarrow> ResolverConfig \<Rightarrow> string \<Rightarrow>
      string list \<Rightarrow> Resolver \<Rightarrow> visit_result" where
  "visit_imports visit env config name [] st = Some (None, st)"
| "visit_imports visit env config name (raw_import # rest) st =
     (let p = canonical_import_path raw_import in
      case m_color st p of
        Some Gray \<Rightarrow> Some (Some (mk_error 0 (render_cycle st p)), st)
      | Some Black \<Rightarrow> visit_imports visit env config name rest st
      | None \<Rightarrow>
          (case read_import env config p of
             None \<Rightarrow> Some (Some (mk_error 0 (not_found_message config p name)), st)
           | Some content \<Rightarrow>
               (case visit p content st of
                  None \<Rightarrow> None
                | Some (Some e, st') \<Rightarrow> Some (Some e, st')
                | Some (None, st') \<Rightarrow> visit_imports visit env config name rest st')))"

primrec visit ::
    "nat \<Rightarrow> Environment \<Rightarrow> ResolverConfig \<Rightarrow> string \<Rightarrow> string \<Rightarrow> Resolver \<Rightarrow> visit_result" where
  "visit 0 env config name content st = None"
| "visit (Suc d) env config name content st =
     (if length (m_stack st) \<ge> kMaxImportDepth then Some (Some (mk_error 0 depth_message), st)
      else
        let (i, srcs) = add_source name content (m_sources st);
            st1 = st\<lparr>m_color := (m_color st)(name \<mapsto> Gray), m_stack := m_stack st @ [name], m_sources := srcs\<rparr>
        in case parse_source name content i of
             None \<Rightarrow> None
           | Some (Inl e) \<Rightarrow> Some (Some e, st1)
           | Some (Inr parsed) \<Rightarrow>
               let file = parsed\<lparr>file_source := i\<rparr>;
                   imports = map imp_path (imports_of file);
                   st2 = (if m_parsed st1 name = None then st1\<lparr>m_parsed := (m_parsed st1)(name \<mapsto> file)\<rparr> else st1)
               in case visit_imports (visit d env config) env config name imports st2 of
                    None \<Rightarrow> None
                  | Some (Some e, st3) \<Rightarrow> Some (Some e, st3)
                  | Some (None, st3) \<Rightarrow>
                      Some (None, st3\<lparr>m_color := (m_color st3)(name \<mapsto> Black),
                        m_stack := butlast (m_stack st3), m_order := m_order st3 @ [name]\<rparr>))"

fun run_entries :: "Environment \<Rightarrow> ResolverConfig \<Rightarrow> string list \<Rightarrow> Resolver \<Rightarrow> visit_result" where
  "run_entries env config [] st = Some (None, st)"
| "run_entries env config (entry_file # rest) st =
     (let entry_name = canonical_entry_name env entry_file (include_paths config) in
      if m_parsed st entry_name \<noteq> None then run_entries env config rest st
      else
        (case fs_read env entry_file of
           None \<Rightarrow> Some (Some (mk_error 0 (''entry file not found: '' @ entry_file)), st)
         | Some content \<Rightarrow>
             (case visit (Suc kMaxImportDepth) env config entry_name content st of
                None \<Rightarrow> None
              | Some (Some e, st') \<Rightarrow> Some (Some e, st')
              | Some (None, st') \<Rightarrow> run_entries env config rest st')))"

definition add_file :: "Resolver \<Rightarrow> string \<Rightarrow> ResolvedFileSet \<Rightarrow> ResolvedFileSet" where
  "add_file st name fset =
     fset\<lparr>file_index :=
            (if map_of (file_index fset) name = None then file_index fset @ [(name, length (files fset))]
             else file_index fset),
          files := files fset @ [case m_parsed st name of Some f \<Rightarrow> f | None \<Rightarrow> default_file]\<rparr>"

definition run ::
    "Environment \<Rightarrow> ResolverConfig \<Rightarrow> string list \<Rightarrow> Resolver \<Rightarrow> ((Error + ResolvedFileSet) \<times> Resolver) option" where
  "run env config entry_files st =
     (case run_entries env config entry_files st of
        None \<Rightarrow> None
      | Some (Some e, st') \<Rightarrow> Some (Inl e, st')
      | Some (None, st') \<Rightarrow>
          Some (Inr (fold (add_file st') (m_order st') \<lparr>files = [], file_index = []\<rparr>), st'))"

definition resolve ::
    "Environment \<Rightarrow> string list \<Rightarrow> ResolverConfig \<Rightarrow> SourceRegistry \<Rightarrow>
      ((Error + ResolvedFileSet) \<times> SourceRegistry) option" where
  "resolve env entry_files config srcs =
     (case run env config entry_files
        \<lparr>m_sources = srcs, m_color = (\<lambda>_. None), m_parsed = (\<lambda>_. None), m_stack = [], m_order = []\<rparr> of
        None \<Rightarrow> None
      | Some (r, st) \<Rightarrow> Some (r, m_sources st))"

section \<open>Parsing a source is total and its errors point into it\<close>

lemma tok_ok_offset: "tok_ok content t \<Longrightarrow> tok_offset t \<le> length content"
  by (simp add: tok_ok_def)

lemma lexE:
  obtains (err) e where "lex content = Some (Inl e)" "byte_offset e \<le> length content"
    | (ok) r where "lex content = Some (Inr r)" "src_text r = content"
        "\<And>t. t \<in> set (tokens r) \<Longrightarrow> tok_offset t \<le> length content"
  using lex_cases [of content]
  by (auto split: option.splits sum.splits simp: list_all_iff dest: tok_ok_offset)

lemma parse_sourceE:
  obtains (err) e where "parse_source n content i = Some (Inl e)" "source e = i" "byte_offset e \<le> length content"
    | (ok) f where "parse_source n content i = Some (Inr f)" "filename f = n"
proof (cases rule: lexE [of content])
  case (err e)
  with that(1) show thesis by (simp add: parse_source_def)
next
  case lexed: (ok r)
  have off: "tok_offset (tokens r ! k) \<le> length content" if "k < length (tokens r)" for k
    using that lexed(3) by simp
  show thesis
  proof (cases "parse_file (tokens r)")
    case (Inl e)
    with that(1) lexed off show thesis by (simp add: parse_source_def Let_def)
  next
    case (Inr x)
    with that lexed off show thesis
      by (cases x; cases "fst x = []") (simp_all add: parse_source_def Let_def mk_error_at_def)
  qed
qed

text \<open>
  The canonical name of an import is stable: canonicalising it again changes nothing,
  so it can serve as the identity of a file.
\<close>

theorem canonical_import_path_idempotent:
  "canonical_import_path (canonical_import_path p) = canonical_import_path p"
  by (simp add: canonical_import_path_def lexically_normal_idempotent)

text \<open>
  Property C30. Loading a source is total and locates its errors: for every name and text,
  \<open>parse_source\<close> returns, an error carries the id of the source and an offset in its text, and a
  successful result carries the name.
\<close>

theorem parse_source_located:
  "case parse_source n content i of
     None \<Rightarrow> False
   | Some (Inl e) \<Rightarrow> source e = i \<and> byte_offset e \<le> length content
   | Some (Inr f) \<Rightarrow> filename f = n"
  by (cases rule: parse_sourceE [of n content i]) simp_all

section \<open>The traversal's invariant\<close>

definition import_names :: "FileNode \<Rightarrow> string list" where
  "import_names f = map (\<lambda>i. canonical_import_path (imp_path i)) (imports_of f)"

text \<open>
  The gray names are the stack, the black names the order; every name seen has been parsed under that
  name, from a registered source of that name; and the imports of a collected file are collected
  before it.
\<close>

definition named_sources :: "Resolver \<Rightarrow> bool" where
  "named_sources st \<longleftrightarrow> (length (m_sources st) \<le> unat kInvalid \<longrightarrow>
     (\<forall>n f. m_parsed st n = Some f \<longrightarrow>
        unat (file_source f) < length (m_sources st) \<and> filename_of (m_sources st) (file_source f) = n))"

definition imports_before :: "Resolver \<Rightarrow> bool" where
  "imports_before st \<longleftrightarrow> (\<forall>k < length (m_order st). \<forall>f. m_parsed st (m_order st ! k) = Some f \<longrightarrow>
     set (import_names f) \<subseteq> set (take k (m_order st)))"

definition resolver_inv :: "Resolver \<Rightarrow> bool" where
  "resolver_inv st \<longleftrightarrow>
     distinct (m_stack st) \<and> distinct (m_order st) \<and>
     (\<forall>n. m_color st n = Some Gray \<longleftrightarrow> n \<in> set (m_stack st)) \<and>
     (\<forall>n. m_color st n = Some Black \<longleftrightarrow> n \<in> set (m_order st)) \<and>
     (\<forall>n. m_parsed st n = None \<longleftrightarrow> m_color st n = None) \<and>
     (\<forall>n f. m_parsed st n = Some f \<longrightarrow> filename f = n) \<and>
     named_sources st \<and> imports_before st"

lemmas resolver_inv_defs = resolver_inv_def named_sources_def imports_before_def

text \<open>What a traversal step adds: nothing is taken back.\<close>

definition extends :: "Resolver \<Rightarrow> Resolver \<Rightarrow> bool" where
  "extends st st' \<longleftrightarrow>
     m_stack st' = m_stack st \<and> (\<exists>new. m_order st' = m_order st @ new) \<and>
     (\<forall>n f. m_parsed st n = Some f \<longrightarrow> m_parsed st' n = Some f)"

lemma extends_refl: "extends st st"
  by (simp add: extends_def)

lemma extends_trans: "extends a b \<Longrightarrow> extends b c \<Longrightarrow> extends a c"
  by (auto simp: extends_def)

lemma extends_order: "extends st st' \<Longrightarrow> n \<in> set (m_order st) \<Longrightarrow> n \<in> set (m_order st')"
  by (auto simp: extends_def)

text \<open>The contract of one visit, which \<open>visit_imports\<close> needs of the visits it makes.\<close>

definition visits :: "nat \<Rightarrow> (string \<Rightarrow> string \<Rightarrow> Resolver \<Rightarrow> visit_result) \<Rightarrow> bool" where
  "visits d v \<longleftrightarrow>
     (\<forall>p content st. resolver_inv st \<longrightarrow> m_color st p = None \<longrightarrow>
        length (m_stack st) \<le> kMaxImportDepth \<longrightarrow> kMaxImportDepth < length (m_stack st) + d \<longrightarrow>
        (\<exists>r st'. v p content st = Some (r, st') \<and>
           (r = None \<longrightarrow> resolver_inv st' \<and> extends st st' \<and> p \<in> set (m_order st'))))"

lemma visitsE:
  assumes "visits d v" "resolver_inv st" "m_color st p = None" "length (m_stack st) \<le> kMaxImportDepth"
    "kMaxImportDepth < length (m_stack st) + d"
  obtains r st' where "v p content st = Some (r, st')"
    "r = None \<longrightarrow> resolver_inv st' \<and> extends st st' \<and> p \<in> set (m_order st')"
  using assms unfolding visits_def by blast

lemma visit_imports_correct:
  assumes v: "visits d v" and d: "L \<le> kMaxImportDepth" "kMaxImportDepth < L + d"
  shows "resolver_inv st \<Longrightarrow> length (m_stack st) = L \<Longrightarrow>
    \<exists>r st'. visit_imports v env config name imps st = Some (r, st') \<and>
      (r = None \<longrightarrow> resolver_inv st' \<and> extends st st' \<and>
         canonical_import_path ` set imps \<subseteq> set (m_order st'))"
proof (induction imps arbitrary: st)
  case Nil
  then show ?case by (simp add: extends_refl)
next
  case (Cons raw rest)
  let ?p = "canonical_import_path raw"
  consider "m_color st ?p = Some Gray" | "m_color st ?p = Some Black"
    | "m_color st ?p = None" "read_import env config ?p = None"
    | content where "m_color st ?p = None" "read_import env config ?p = Some content"
    by (metis Color.exhaust not_None_eq)
  then show ?case
  proof cases
    case 2
    then have "?p \<in> set (m_order st)" using Cons.prems(1) by (simp add: resolver_inv_def)
    moreover obtain r st' where "visit_imports v env config name rest st = Some (r, st')"
      "r = None \<longrightarrow> resolver_inv st' \<and> extends st st' \<and> canonical_import_path ` set rest \<subseteq> set (m_order st')"
      using Cons.IH [OF Cons.prems] by blast
    ultimately show ?thesis using 2
      by (intro exI [of _ r] exI [of _ st']) (auto intro: extends_order)
  next
    case 4
    from d Cons.prems(2) have "length (m_stack st) \<le> kMaxImportDepth" "kMaxImportDepth < length (m_stack st) + d"
      by simp_all
    from visitsE [OF v Cons.prems(1) 4(1) this] obtain r st' where r: "v ?p content st = Some (r, st')"
      "r = None \<longrightarrow> resolver_inv st' \<and> extends st st' \<and> ?p \<in> set (m_order st')" .
    show ?thesis
    proof (cases r)
      case None
      with r have st': "resolver_inv st'" "extends st st'" "?p \<in> set (m_order st')" by auto
      then have "length (m_stack st') = L" using Cons.prems(2) by (simp add: extends_def)
      from Cons.IH [OF st'(1) this] obtain q su where "visit_imports v env config name rest st' = Some (q, su)"
        "q = None \<longrightarrow> resolver_inv su \<and> extends st' su \<and> canonical_import_path ` set rest \<subseteq> set (m_order su)"
        by blast
      with 4 r(1) None st' show ?thesis
        by (intro exI [of _ q] exI [of _ su]) (auto intro: extends_trans extends_order)
    next
      case (Some e)
      with 4 r show ?thesis by simp
    qed
  qed simp_all
qed

text \<open>Entering a file: it becomes gray, parsed and the top of the stack.\<close>

definition enter :: "string \<Rightarrow> string \<Rightarrow> FileNode \<Rightarrow> Resolver \<Rightarrow> Resolver" where
  "enter name content file st =
     st\<lparr>m_color := (m_color st)(name \<mapsto> Gray), m_stack := m_stack st @ [name],
        m_sources := snd (add_source name content (m_sources st)),
        m_parsed := (m_parsed st)(name \<mapsto> file\<lparr>file_source := fst (add_source name content (m_sources st))\<rparr>)\<rparr>"

definition leave :: "string \<Rightarrow> Resolver \<Rightarrow> Resolver" where
  "leave name st = st\<lparr>m_color := (m_color st)(name \<mapsto> Black), m_stack := butlast (m_stack st),
     m_order := m_order st @ [name]\<rparr>"

lemma named_sources_enter:
  assumes "named_sources st" "m_parsed st name = None"
  shows "named_sources (enter name content file st)"
proof (unfold named_sources_def, intro impI allI)
  fix n f
  let ?srcs = "m_sources st"
  assume len: "length (m_sources (enter name content file st)) \<le> unat kInvalid"
    and f: "m_parsed (enter name content file st) n = Some f"
  from len have l: "length ?srcs < unat kInvalid" by (simp add: enter_def sources.size_add)
  then have i: "unat (fst (add_source name content ?srcs)) = length ?srcs"
    by (simp add: sources.id_add unat_kInvalid)
  show "unat (file_source f) < length (m_sources (enter name content file st)) \<and>
      filename_of (m_sources (enter name content file st)) (file_source f) = n"
  proof (cases "n = name")
    case True
    with f i sources.name_add [OF l] show ?thesis by (auto simp: enter_def sources.size_add)
  next
    case False
    with f have "m_parsed st n = Some f" by (simp add: enter_def)
    with assms(1) l have "unat (file_source f) < length ?srcs \<and> filename_of ?srcs (file_source f) = n"
      by (simp add: named_sources_def)
    then show ?thesis by (simp add: enter_def sources.size_add sources.name_keep)
  qed
qed

lemma resolver_inv_members:
  assumes "resolver_inv st"
  shows "n \<in> set (m_stack st) \<longleftrightarrow> m_color st n = Some Gray"
    and "n \<in> set (m_order st) \<longleftrightarrow> m_color st n = Some Black"
    and "m_parsed st n = None \<longleftrightarrow> m_color st n = None"
  using assms by (simp_all add: resolver_inv_def)

lemma resolver_inv_enter:
  assumes inv: "resolver_inv st" and c: "m_color st name = None" and f: "filename file = name"
  shows "resolver_inv (enter name content file st)"
proof -
  from inv c have fresh: "name \<notin> set (m_stack st)" "name \<notin> set (m_order st)" "m_parsed st name = None"
    by (simp_all add: resolver_inv_members [OF inv])
  have "named_sources (enter name content file st)"
    using inv fresh by (intro named_sources_enter) (auto simp: resolver_inv_def)
  moreover have "imports_before (enter name content file st)"
    using inv fresh by (auto simp: resolver_inv_def imports_before_def enter_def)
  ultimately show ?thesis
    using inv fresh f by (auto simp: resolver_inv_def enter_def)
qed

lemma resolver_inv_leave:
  assumes inv: "resolver_inv st" and top: "m_stack st = stk @ [name]"
    and f: "m_parsed st name = Some f" "set (import_names f) \<subseteq> set (m_order st)"
  shows "resolver_inv (leave name st)"
proof -
  from resolver_inv_members(1) [OF inv, of name] top have gray: "m_color st name = Some Gray" by simp
  then have "name \<notin> set (m_order st)" by (simp add: resolver_inv_members [OF inv])
  with inv top have fresh: "name \<notin> set stk" "name \<notin> set (m_order st)" "distinct stk"
    by (simp_all add: resolver_inv_def)
  have "imports_before (leave name st)"
    using inv f by (auto simp: resolver_inv_def imports_before_def leave_def nth_append less_Suc_eq)
  moreover have "named_sources (leave name st)"
    using inv by (simp add: resolver_inv_def named_sources_def leave_def)
  ultimately show ?thesis
    using inv fresh top f by (auto simp: resolver_inv_def leave_def)
qed

lemma visit_step:
  assumes "m_parsed st name = None" "length (m_stack st) < kMaxImportDepth"
    and "parse_source name content (fst (add_source name content (m_sources st))) = Some (Inr f)"
  shows "visit (Suc d) env config name content st =
    (case visit_imports (visit d env config) env config name (map imp_path (imports_of f)) (enter name content f st) of
       None \<Rightarrow> None | Some (Some e, st') \<Rightarrow> Some (Some e, st') | Some (None, st') \<Rightarrow> Some (None, leave name st'))"
  using assms
  by (auto simp: Let_def enter_def leave_def prod.case_eq_if split: option.splits prod.splits)

lemma extends_enter_leave:
  assumes "m_parsed st name = None" "extends (enter name content f st) su"
  shows "extends st (leave name su)"
  unfolding extends_def
proof (intro conjI allI impI)
  show "m_stack (leave name su) = m_stack st" "\<exists>new. m_order (leave name su) = m_order st @ new"
    using assms(2) by (auto simp: extends_def leave_def enter_def)
  show "m_parsed (leave name su) n = Some g" if "m_parsed st n = Some g" for n g
  proof -
    from that assms(1) have "m_parsed (enter name content f st) n = Some g" by (auto simp: enter_def)
    with assms(2) show ?thesis by (simp add: extends_def leave_def)
  qed
qed

lemma import_names_source [simp]: "import_names (f\<lparr>file_source := i\<rparr>) = import_names f"
  by (simp add: import_names_def)

text \<open>One visit of a file that parses, over visits that keep the contract.\<close>

lemma visit_file_correct:
  assumes v: "visits d (visit d env config)" and inv: "resolver_inv st" and fresh: "m_color st name = None"
    and room: "length (m_stack st) < kMaxImportDepth" and fuel: "kMaxImportDepth < length (m_stack st) + Suc d"
    and ok: "parse_source name content (fst (add_source name content (m_sources st))) = Some (Inr f)"
      "filename f = name"
  shows "\<exists>r st'. visit (Suc d) env config name content st = Some (r, st') \<and>
    (r = None \<longrightarrow> resolver_inv st' \<and> extends st st' \<and> name \<in> set (m_order st'))"
proof -
  let ?st = "enter name content f st"
  from fresh have np: "m_parsed st name = None" by (simp add: resolver_inv_members [OF inv])
  have inv2: "resolver_inv ?st" using inv fresh ok(2) by (rule resolver_inv_enter)
  have len: "length (m_stack ?st) = Suc (length (m_stack st))" by (simp add: enter_def)
  from room fuel have "Suc (length (m_stack st)) \<le> kMaxImportDepth"
    "kMaxImportDepth < Suc (length (m_stack st)) + d" by simp_all
  from visit_imports_correct [OF v this inv2 len, of env config name "map imp_path (imports_of f)"]
  obtain r su where su:
    "visit_imports (visit d env config) env config name (map imp_path (imports_of f)) ?st = Some (r, su)"
    "r = None \<longrightarrow> resolver_inv su \<and> extends ?st su \<and>
       canonical_import_path ` set (map imp_path (imports_of f)) \<subseteq> set (m_order su)"
    by blast
  note step = visit_step [OF np room ok(1), of d env config, unfolded su(1)]
  show ?thesis
  proof (cases r)
    case (Some e)
    with step show ?thesis by simp
  next
    case None
    with su(2) have su': "resolver_inv su" "extends ?st su" "set (import_names f) \<subseteq> set (m_order su)"
      by (auto simp: import_names_def)
    then have top: "m_stack su = m_stack st @ [name]"
      and pf: "m_parsed su name = Some (f\<lparr>file_source := fst (add_source name content (m_sources st))\<rparr>)"
      by (auto simp: extends_def enter_def)
    have "resolver_inv (leave name su)" by (rule resolver_inv_leave [OF su'(1) top pf]) (simp add: su'(3))
    moreover have "extends st (leave name su)" using np su'(2) by (rule extends_enter_leave)
    moreover have "name \<in> set (m_order (leave name su))" by (simp add: leave_def)
    ultimately show ?thesis using step None by simp
  qed
qed

lemma visit_correct: "visits d (visit d env config)"
proof (induction d)
  case (Suc d)
  show ?case unfolding visits_def
  proof (intro allI impI)
    fix name content st
    assume pre: "resolver_inv st" "m_color st name = None" "kMaxImportDepth < length (m_stack st) + Suc d"
    show "\<exists>r st'. visit (Suc d) env config name content st = Some (r, st') \<and>
        (r = None \<longrightarrow> resolver_inv st' \<and> extends st st' \<and> name \<in> set (m_order st'))"
    proof (cases "kMaxImportDepth \<le> length (m_stack st)")
      case False
      then have room: "length (m_stack st) < kMaxImportDepth" by simp
      show ?thesis
      proof (cases rule: parse_sourceE [of name content "fst (add_source name content (m_sources st))"])
        case (err e)
        with room show ?thesis by (simp add: Let_def prod.case_eq_if)
      next
        case (ok f)
        with visit_file_correct [OF Suc pre(1,2) room pre(3)] show ?thesis by blast
      qed
    qed simp
  qed
qed (simp add: visits_def)

section \<open>The file set\<close>

lemma run_entries_correct:
  "resolver_inv st \<Longrightarrow> m_stack st = [] \<Longrightarrow>
    \<exists>r st'. run_entries env config es st = Some (r, st') \<and>
      (r = None \<longrightarrow> resolver_inv st' \<and> m_stack st' = [] \<and>
         (\<forall>e \<in> set es. canonical_entry_name env e (include_paths config) \<in> set (m_order st')) \<and>
         set (m_order st) \<subseteq> set (m_order st'))"
proof (induction es arbitrary: st)
  case (Cons e es)
  let ?n = "canonical_entry_name env e (include_paths config)"
  show ?case
  proof (cases "m_parsed st ?n")
    case (Some f)
    then have "m_color st ?n \<noteq> None" using resolver_inv_members(3) [OF Cons.prems(1), of ?n] by simp
    then have "?n \<in> set (m_order st)"
      using resolver_inv_members(1,2) [OF Cons.prems(1), of ?n] Cons.prems(2)
      by (cases "the (m_color st ?n)") auto
    with Cons.IH [OF Cons.prems] Some show ?thesis by fastforce
  next
    case None
    then have fresh: "m_color st ?n = None" by (simp add: resolver_inv_members [OF Cons.prems(1)])
    show ?thesis
    proof (cases "fs_read env e")
      case (Some content)
      have "length (m_stack st) \<le> kMaxImportDepth" "kMaxImportDepth < length (m_stack st) + Suc kMaxImportDepth"
        using Cons.prems(2) by simp_all
      from visitsE [OF visit_correct Cons.prems(1) fresh this] obtain r su where su: "visit (Suc kMaxImportDepth) env config ?n content st = Some (r, su)"
        "r = None \<longrightarrow> resolver_inv su \<and> extends st su \<and> ?n \<in> set (m_order su)" .
      show ?thesis
      proof (cases r)
        case None
        with su have su': "resolver_inv su" "m_stack su = []" "?n \<in> set (m_order su)"
          "set (m_order st) \<subseteq> set (m_order su)"
          using Cons.prems(2) by (auto simp: extends_def)
        from Cons.IH [OF su'(1,2)] obtain q sv where "run_entries env config es su = Some (q, sv)"
          "q = None \<longrightarrow> resolver_inv sv \<and> m_stack sv = [] \<and>
             (\<forall>e \<in> set es. canonical_entry_name env e (include_paths config) \<in> set (m_order sv)) \<and>
             set (m_order su) \<subseteq> set (m_order sv)" by blast
        with su(1) su' None \<open>m_parsed st ?n = None\<close> Some show ?thesis
          by (intro exI [of _ q] exI [of _ sv]) (auto simp del: visit.simps)
      next
        case err: (Some er)
        with su(1) \<open>m_parsed st ?n = None\<close> Some show ?thesis by (simp del: visit.simps)
      qed
    qed (use None in \<open>simp del: visit.simps\<close>)
  qed
qed simp

definition parsed_file :: "Resolver \<Rightarrow> string \<Rightarrow> FileNode" where
  "parsed_file st n = (case m_parsed st n of Some f \<Rightarrow> f | None \<Rightarrow> default_file)"

lemma fold_add_file:
  "distinct ns \<Longrightarrow> fold (add_file st) ns \<lparr>files = [], file_index = []\<rparr> =
     \<lparr>files = map (parsed_file st) ns, file_index = zip ns [0..<length ns]\<rparr>"
proof (induction ns rule: rev_induct)
  case (snoc n ns)
  then have "map_of (zip ns [0..<length ns]) n = None" by (simp add: map_of_zip_is_None)
  with snoc show ?case by (simp add: add_file_def parsed_file_def)
qed simp

lemma map_of_zip_upt:
  "distinct ns \<Longrightarrow> map_of (zip ns [0..<length ns]) n = Some i \<longleftrightarrow> i < length ns \<and> ns ! i = n"
  by (subst map_of_eq_Some_iff) (auto simp: in_set_zip)

lemma resolver_init:
  "resolver_inv \<lparr>m_sources = srcs, m_color = (\<lambda>_. None), m_parsed = (\<lambda>_. None), m_stack = [], m_order = []\<rparr>"
  by (simp add: resolver_inv_defs)

lemma resolveE:
  assumes "resolve env entry_files config srcs = Some (Inr fset, srcs')"
  obtains st where "resolver_inv st" "m_stack st = []" "m_sources st = srcs'"
    "fset = \<lparr>files = map (parsed_file st) (m_order st), file_index = zip (m_order st) [0..<length (m_order st)]\<rparr>"
    "\<forall>e \<in> set entry_files. canonical_entry_name env e (include_paths config) \<in> set (m_order st)"
proof -
  note run = run_entries_correct [OF resolver_init, of srcs env config entry_files]
  from run assms obtain st where st: "resolver_inv st" "m_stack st = []" "m_sources st = srcs'"
    "fset = fold (add_file st) (m_order st) \<lparr>files = [], file_index = []\<rparr>"
    "\<forall>e \<in> set entry_files. canonical_entry_name env e (include_paths config) \<in> set (m_order st)"
    by (auto simp: resolve_def run_def split: option.splits sum.splits prod.splits)
  moreover from st(1) have "distinct (m_order st)" by (simp add: resolver_inv_def)
  ultimately show thesis using that by (simp add: fold_add_file)
qed

lemma order_parsed:
  assumes "resolver_inv st" "n \<in> set (m_order st)"
  shows "m_parsed st n = Some (parsed_file st n)" and "filename (parsed_file st n) = n"
proof -
  from assms have "m_parsed st n \<noteq> None" by (simp add: resolver_inv_members)
  then show "m_parsed st n = Some (parsed_file st n)" by (auto simp: parsed_file_def)
  with assms(1) show "filename (parsed_file st n) = n" by (simp add: resolver_inv_def)
qed

text \<open>
  Property C21. Import resolution always returns: whatever the environment, the entries and the files
  in it, the traversal ends with a file set or an error, within the fuel it is given.
\<close>

theorem resolve_total: "\<exists>r srcs'. resolve env entry_files config srcs = Some (r, srcs')"
  using run_entries_correct [OF resolver_init, of srcs env config entry_files]
  by (auto simp: resolve_def run_def split: option.splits)

text \<open>
  A file set is topological when every import of a file stands at an earlier position under its
  canonical name, and indexed when its index maps exactly the names of the files to their positions.
\<close>

definition topological :: "ResolvedFileSet \<Rightarrow> bool" where
  "topological fset \<longleftrightarrow>
     (\<forall>i < length (files fset). \<forall>n \<in> set (import_names (files fset ! i)).
        \<exists>j < i. map_of (file_index fset) n = Some j)"

definition indexed :: "ResolvedFileSet \<Rightarrow> bool" where
  "indexed fset \<longleftrightarrow>
     (\<forall>n i. map_of (file_index fset) n = Some i \<longleftrightarrow> i < length (files fset) \<and> filename (files fset ! i) = n)"

definition set_of_state :: "Resolver \<Rightarrow> ResolvedFileSet" where
  "set_of_state st =
     \<lparr>files = map (parsed_file st) (m_order st), file_index = zip (m_order st) [0..<length (m_order st)]\<rparr>"

lemma set_of_state_names:
  assumes "resolver_inv st"
  shows "map filename (files (set_of_state st)) = m_order st"
  using order_parsed(2) [OF assms] by (simp add: set_of_state_def map_idI)

lemma set_of_state_indexed: "resolver_inv st \<Longrightarrow> indexed (set_of_state st)"
proof -
  assume inv: "resolver_inv st"
  then have "distinct (m_order st)" by (simp add: resolver_inv_def)
  moreover have "filename (parsed_file st (m_order st ! k)) = m_order st ! k" if "k < length (m_order st)" for k
    using order_parsed(2) [OF inv] that by simp
  ultimately show ?thesis by (auto simp: indexed_def set_of_state_def map_of_zip_upt simp del: map_of_eq_Some_iff)
qed

lemma set_of_state_topological: "resolver_inv st \<Longrightarrow> topological (set_of_state st)"
  unfolding topological_def
proof (intro allI impI ballI)
  fix i n
  assume inv: "resolver_inv st" and "i < length (files (set_of_state st))"
    and n: "n \<in> set (import_names (files (set_of_state st) ! i))"
  then have i: "i < length (m_order st)" by (simp add: set_of_state_def)
  have dist: "distinct (m_order st)" and before: "imports_before st"
    using inv by (simp_all add: resolver_inv_def)
  have "m_parsed st (m_order st ! i) = Some (parsed_file st (m_order st ! i))"
    using order_parsed(1) [OF inv] i by simp
  with before i have "set (import_names (parsed_file st (m_order st ! i))) \<subseteq> set (take i (m_order st))"
    by (simp add: imports_before_def)
  with n i have "n \<in> set (take i (m_order st))" by (auto simp: set_of_state_def)
  then obtain j where "j < i" "m_order st ! j = n" using i by (auto simp: in_set_conv_nth)
  with i dist show "\<exists>j < i. map_of (file_index (set_of_state st)) n = Some j"
    by (intro exI [of _ j]) (simp add: set_of_state_def map_of_zip_upt del: map_of_eq_Some_iff)
qed

text \<open>
  Property C3. The file set is topologically ordered and indexed by name. When resolution succeeds,
  every import of every file stands at an earlier position under its canonical name (so the import
  graph has no cycle), the index maps exactly the names of the files to their positions, no name
  occurs twice, and every entry file is in the set.
\<close>

theorem resolve_topological:
  "resolve env entry_files config srcs = Some (Inr fset, srcs') \<Longrightarrow>
     topological fset \<and> indexed fset \<and> distinct (map filename (files fset)) \<and>
     (\<lambda>e. canonical_entry_name env e (include_paths config)) ` set entry_files
       \<subseteq> set (map filename (files fset))"
proof -
  assume "resolve env entry_files config srcs = Some (Inr fset, srcs')"
  then obtain st where inv: "resolver_inv st" and fset: "fset = set_of_state st"
    and ent: "\<forall>e \<in> set entry_files. canonical_entry_name env e (include_paths config) \<in> set (m_order st)"
    unfolding set_of_state_def by (rule resolveE)
  have "distinct (m_order st)" using inv by (simp add: resolver_inv_def)
  then show ?thesis
    using ent unfolding fset set_of_state_names [OF inv]
    by (simp add: set_of_state_topological [OF inv] set_of_state_indexed [OF inv] image_subset_iff)
qed

text \<open>
  Property C37. Diagnostics name the right file: after a successful resolution, as long as the registry
  holds at most \<open>2 ^ 32 - 1\<close> sources, the source id stored in each file is registered under the name
  of that file.
\<close>

theorem resolve_sources_named:
  assumes "resolve env entry_files config srcs = Some (Inr fset, srcs')"
    and "length srcs' < 2 ^ 32" and "f \<in> set (files fset)"
  shows "registered srcs' (file_source f) \<and> filename_of srcs' (file_source f) = filename f"
proof -
  from assms(1) obtain st where st: "resolver_inv st" "m_sources st = srcs'"
    "fset = \<lparr>files = map (parsed_file st) (m_order st), file_index = zip (m_order st) [0..<length (m_order st)]\<rparr>"
    by (rule resolveE)
  from assms(3) st(3) obtain n where n: "n \<in> set (m_order st)" "f = parsed_file st n" by auto
  have "unat (file_source f) < length srcs'" "filename_of srcs' (file_source f) = n"
    using st(1,2) assms(2) order_parsed(1) [OF st(1) n(1)] n(2)
    by (auto simp: resolver_inv_def named_sources_def unat_kInvalid)
  with assms(2) order_parsed(2) [OF st(1) n(1)] n(2) show ?thesis
    by (simp add: registered_def valid_iff)
qed

section \<open>A concrete resolution\<close>

text \<open>An entry file that imports a file found on the include path.\<close>

definition demo_text :: string where "demo_text = ''import '' @ [dquote] @ ''./b'' @ [dquote] @ '';''"

definition demo_env :: Environment where
  "demo_env =
     \<lparr>fs_exists = (\<lambda>p. p = ''inc/b''),
      fs_read = (\<lambda>p. if p = ''a'' then Some demo_text else if p = ''inc/b'' then Some [] else None),
      fs_weakly_canonical = (\<lambda>_. None), fs_relative = (\<lambda>_ _. None), wellknown_source = (\<lambda>_. None)\<rparr>"

definition demo_config :: ResolverConfig where
  "demo_config = \<lparr>include_paths = [''inc''], use_wellknown = True\<rparr>"

definition demo_tokens :: "Token list" where
  "demo_tokens = [\<lparr>kind = KwImport, tok_text = ''import'', str_value = [], tok_offset = 0\<rparr>,
     \<lparr>kind = StringLiteral, tok_text = [dquote] @ ''./b'' @ [dquote], str_value = ''./b'', tok_offset = 7\<rparr>,
     \<lparr>kind = Semicolon, tok_text = '';'', str_value = [], tok_offset = 12\<rparr>]"

lemma lex_demo: "lex demo_text = Some (Inr \<lparr>tokens = demo_tokens, src_text = demo_text\<rparr>)"
  by code_simp

lemma lex_empty: "lex [] = Some (Inr \<lparr>tokens = [], src_text = []\<rparr>)"
  by code_simp

lemma parse_demo: "parse_file demo_tokens = Inr ([], default_file\<lparr>imports_of := [\<lparr>imp_path = ''./b'', imp_kind = ImportStandard\<rparr>]\<rparr>)"
proof -
  have "\<exists>e. syntax_decl demo_tokens = Inl e \<and> \<not> fatal e"
    by (simp add: syntax_decl_def run_simps demo_tokens_def)
  moreover have "file_element d Proto2 demo_tokens = Inr ([], FEImport \<lparr>imp_path = ''./b'', imp_kind = ImportStandard\<rparr>)" for d
    by (simp add: demo_tokens_def file_element_def run_simps parse_option_decl_def import_decl_def)
  ultimately show ?thesis
    by (auto simp: parse_file_def parse_file_body_def many_one [of "file_element kMaxParseDepth Proto2"]
        file_element_Nil default_file_def demo_tokens_def)
qed

lemma parse_source_demo:
  "parse_source n demo_text i =
     Some (Inr (default_file\<lparr>imports_of := [\<lparr>imp_path = ''./b'', imp_kind = ImportStandard\<rparr>], filename := n\<rparr>))"
  "parse_source n [] i = Some (Inr (default_file\<lparr>filename := n\<rparr>))"
  using parse_file_nest [of 0]
  by (simp_all add: parse_source_def lex_demo lex_empty parse_demo default_file_def)

definition demo_set :: ResolvedFileSet where
  "demo_set = \<lparr>files = [default_file\<lparr>filename := ''b'', file_source := 1\<rparr>,
       default_file\<lparr>imports_of := [\<lparr>imp_path = ''./b'', imp_kind = ImportStandard\<rparr>], filename := ''a'', file_source := 0\<rparr>],
     file_index = [(''b'', 0), (''a'', 1)]\<rparr>"

definition demo_sources :: SourceRegistry where
  "demo_sources = [\<lparr>src_filename = ''a'', src_content = demo_text\<rparr>, \<lparr>src_filename = ''b'', src_content = []\<rparr>]"

lemma imports_default [simp]: "imports_of default_file = []"
  by (simp add: default_file_def)

lemma demo_path: "canonical_import_path ''./b'' = ''b''"
  by code_simp

lemma resolve_demo: "resolve demo_env [''a''] demo_config [] = Some (Inr demo_set, demo_sources)"
proof -
  have entry: "canonical_entry_name demo_env e incs = e" for e incs
    by (simp add: canonical_entry_name_def demo_env_def)
  have read: "read_import demo_env demo_config ''b'' = Some []" "fs_read demo_env ''a'' = Some demo_text"
    by (simp_all add: read_import_def demo_env_def demo_config_def path_append_def)
  let ?st = "\<lparr>m_sources = [], m_color = (\<lambda>_. None), m_parsed = (\<lambda>_. None), m_stack = [], m_order = []\<rparr>"
  have "visit (Suc (Suc d)) demo_env demo_config ''a'' demo_text ?st =
      Some (None, \<lparr>m_sources = demo_sources, m_color = [''a'' \<mapsto> Black, ''b'' \<mapsto> Black],
        m_parsed = [''a'' \<mapsto> files demo_set ! 1, ''b'' \<mapsto> files demo_set ! 0], m_stack = [], m_order = [''b'', ''a'']\<rparr>)" for d
    by (simp add: read parse_source_demo demo_path add_source_def kMaxImportDepth_def Let_def demo_set_def
        demo_sources_def fun_upd_twist)
  from this [of 99] have "visit (Suc kMaxImportDepth) demo_env demo_config ''a'' demo_text ?st =
      Some (None, \<lparr>m_sources = demo_sources, m_color = [''a'' \<mapsto> Black, ''b'' \<mapsto> Black],
        m_parsed = [''a'' \<mapsto> files demo_set ! 1, ''b'' \<mapsto> files demo_set ! 0], m_stack = [], m_order = [''b'', ''a'']\<rparr>)"
    by (simp add: kMaxImportDepth_def del: visit.simps)
  then show ?thesis
    unfolding resolve_def run_def run_entries.simps entry
    by (simp add: read add_file_def demo_set_def del: visit.simps)
qed

theorem resolve_topological_witness:
  "resolve demo_env [''a''] demo_config [] = Some (Inr demo_set, demo_sources) \<and>
   topological demo_set \<and> indexed demo_set"
  using resolve_demo resolve_topological [OF resolve_demo] by blast

theorem resolve_sources_named_witness:
  "filename_of demo_sources (file_source (files demo_set ! 0)) = ''b''"
proof -
  have "files demo_set ! 0 \<in> set (files demo_set)" "length demo_sources < 2 ^ 32"
    by (simp_all add: demo_set_def demo_sources_def)
  from resolve_sources_named [OF resolve_demo this(2,1)] show ?thesis by (simp add: demo_set_def)
qed

end
