(* ===== verification/Features.thy ===== *)
theory Features
  imports Import_Resolver
begin

text \<open>
  The editions feature pass of \<^verbatim>\<open>src/features.cpp\<close>: feature settings are inherited from the edition
  defaults through the file, the enclosing messages and the element itself, and the resolved values
  are written into the syntax tree.
\<close>

record ResolvedFeatures =
  rf_presence :: FieldPresence
  rf_enum_type :: EnumOpenness
  rf_message_encoding :: MessageEncoding
  rf_repeated_encoding :: RepeatedEncoding
  rf_utf8_verify :: bool

definition kKnownEditions :: "string list" where "kKnownEditions = [''2023'', ''2024'']"

definition is_known_edition :: "string \<Rightarrow> bool" where
  "is_known_edition ed \<longleftrightarrow> ed \<in> set kKnownEditions"

definition edition_defaults :: "string \<Rightarrow> ResolvedFeatures" where
  "edition_defaults ed =
     \<lparr>rf_presence = Explicit, rf_enum_type = Open, rf_message_encoding = LengthPrefixed,
      rf_repeated_encoding = Packed, rf_utf8_verify = True\<rparr>"

definition apply_one_feature :: "string \<Rightarrow> string \<Rightarrow> ResolvedFeatures \<Rightarrow> ResolvedFeatures" where
  "apply_one_feature n v out =
     (if n = ''field_presence'' then
        (if v = ''EXPLICIT'' then out\<lparr>rf_presence := Explicit\<rparr>
         else if v = ''IMPLICIT'' then out\<lparr>rf_presence := Implicit\<rparr>
         else if v = ''LEGACY_REQUIRED'' then out\<lparr>rf_presence := Required\<rparr>
         else out)
      else if n = ''enum_type'' then
        (if v = ''OPEN'' then out\<lparr>rf_enum_type := Open\<rparr>
         else if v = ''CLOSED'' then out\<lparr>rf_enum_type := Closed\<rparr>
         else out)
      else if n = ''repeated_field_encoding'' then
        (if v = ''PACKED'' then out\<lparr>rf_repeated_encoding := Packed\<rparr>
         else if v = ''EXPANDED'' then out\<lparr>rf_repeated_encoding := Expanded\<rparr>
         else out)
      else if n = ''message_encoding'' then
        (if v = ''LENGTH_PREFIXED'' then out\<lparr>rf_message_encoding := LengthPrefixed\<rparr>
         else if v = ''DELIMITED'' then out\<lparr>rf_message_encoding := Delimited\<rparr>
         else out)
      else if n = ''utf8_validation'' then
        (if v = ''VERIFY'' then out\<lparr>rf_utf8_verify := True\<rparr>
         else if v = ''NONE'' then out\<lparr>rf_utf8_verify := False\<rparr>
         else out)
      else out)"

fun apply_aggregate_features :: "MessageLiteralField list \<Rightarrow> ResolvedFeatures \<Rightarrow> ResolvedFeatures" where
  "apply_aggregate_features [] out = out"
| "apply_aggregate_features (f # fs) out =
     apply_aggregate_features fs
       (if name_kind f \<noteq> Simple then out
        else (case mlf_value f of OIdentifier v \<Rightarrow> apply_one_feature (mlf_name f) v out | _ \<Rightarrow> out))"

fun apply_features :: "OptionNode list \<Rightarrow> ResolvedFeatures \<Rightarrow> ResolvedFeatures" where
  "apply_features [] out = out"
| "apply_features (op # ops) out =
     apply_features ops
       (if opt_name op = [] \<or> is_extension (opt_name op ! 0) \<or> comp_name (opt_name op ! 0) \<noteq> ''features'' then out
        else if length (opt_name op) = 1 then
          (case opt_value op of OMessage fs \<Rightarrow> apply_aggregate_features fs out | _ \<Rightarrow> out)
        else if length (opt_name op) = 2 then
          (case opt_value op of OIdentifier v \<Rightarrow> apply_one_feature (comp_name (opt_name op ! 1)) v out | _ \<Rightarrow> out)
        else out)"

definition feature_field :: "ResolvedFeatures \<Rightarrow> bool \<Rightarrow> FieldNode \<Rightarrow> FieldNode" where
  "feature_field scope0 is_oneof_member fld0 =
     (let scope = apply_features (fld_options fld0) scope0;
          fld1 = (if \<not> is_oneof_member then fld0\<lparr>presence := rf_presence scope\<rparr> else fld0);
          fld2 = (if \<not> is_group fld1 then fld1\<lparr>message_encoding := rf_message_encoding scope\<rparr> else fld1)
      in if is_repeated fld2 \<and> is_packable_scalar (type_name fld2)
         then fld2\<lparr>repeated_encoding := rf_repeated_encoding scope\<rparr> else fld2)"

definition feature_enum :: "ResolvedFeatures \<Rightarrow> EnumNode \<Rightarrow> EnumNode" where
  "feature_enum scope node = node\<lparr>openness := rf_enum_type (apply_features (en_options node) scope)\<rparr>"

definition feature_extend :: "ResolvedFeatures \<Rightarrow> ExtendNode \<Rightarrow> ExtendNode" where
  "feature_extend scope node = node\<lparr>ext_fields := map (feature_field scope False) (ext_fields node)\<rparr>"

definition feature_oneof :: "ResolvedFeatures \<Rightarrow> OneofNode \<Rightarrow> OneofNode" where
  "feature_oneof scope oneof =
     oneof\<lparr>oo_fields := map (feature_field (apply_features (oo_options oneof) scope) True) (oo_fields oneof)\<rparr>"

fun feature_message :: "ResolvedFeatures \<Rightarrow> MessageNode \<Rightarrow> MessageNode" where
  "feature_message scope0 (MessageNode m ns) =
     (let scope = apply_features (msg_options m) scope0 in
      MessageNode
        (m\<lparr>msg_fields := map (feature_field scope False) (msg_fields m),
           oneofs := map (feature_oneof scope) (oneofs m),
           msg_enums := map (feature_enum scope) (msg_enums m),
           msg_extends := map (feature_extend scope) (msg_extends m)\<rparr>)
        (map (feature_message scope) ns))"

text \<open>The list of known editions in the diagnostic.\<close>

fun join_known :: "string \<Rightarrow> string list \<Rightarrow> string" where
  "join_known known [] = known"
| "join_known known (n # ns) = join_known (known @ (if known = [] then [] else '', '') @ n) ns"

definition resolve_features :: "FileNode \<Rightarrow> Error + FileNode" where
  "resolve_features file =
     (if syntax_level file \<noteq> Edition then Inr file
      else if \<not> is_known_edition (edition file) then
        Inl (mk_error_at (file_source file) (edition_offset file)
          (''unknown edition '' @ [dquote] @ edition file @ [dquote] @
           ''; this decoder knows the feature defaults for '' @ join_known [] kKnownEditions @
           '' only, and a later edition may change one -- decoding it by those rules could be silently wrong''))
      else
        let scope = apply_features (file_options file) (edition_defaults (edition file)) in
        Inr (file\<lparr>file_messages := map (feature_message scope) (file_messages file),
                  file_enums := map (feature_enum scope) (file_enums file),
                  file_extends := map (feature_extend scope) (file_extends file)\<rparr>))"

fun resolve_features_files :: "FileNode list \<Rightarrow> Error + FileNode list" where
  "resolve_features_files [] = Inr []"
| "resolve_features_files (file # rest) =
     (case resolve_features file of
        Inl e \<Rightarrow> Inl e
      | Inr file' \<Rightarrow>
          (case resolve_features_files rest of Inl e \<Rightarrow> Inl e | Inr rest' \<Rightarrow> Inr (file' # rest')))"

definition resolve_features_set :: "ResolvedFileSet \<Rightarrow> Error + ResolvedFileSet" where
  "resolve_features_set fset =
     (case resolve_features_files (files fset) of
        Inl e \<Rightarrow> Inl e
      | Inr fs \<Rightarrow> Inr (fset\<lparr>files := fs\<rparr>))"

section \<open>Inheritance\<close>

lemma apply_features_append: "apply_features (xs @ ys) out = apply_features ys (apply_features xs out)"
  by (induction xs arbitrary: out) simp_all

text \<open>
  The feature settings an option list makes, in order, whichever form they are written in: dotted
  \<^verbatim>\<open>features.name = VALUE\<close> or aggregate.
\<close>

definition literal_settings :: "MessageLiteralField list \<Rightarrow> (string \<times> string) list" where
  "literal_settings fs =
     concat (map (\<lambda>f. case (name_kind f, mlf_value f) of (Simple, OIdentifier v) \<Rightarrow> [(mlf_name f, v)] | _ \<Rightarrow> []) fs)"

definition option_settings :: "OptionNode \<Rightarrow> (string \<times> string) list" where
  "option_settings op =
     (case (opt_name op, opt_value op) of
        ([c], OMessage fs) \<Rightarrow>
          if \<not> is_extension c \<and> comp_name c = ''features'' then literal_settings fs else []
      | ([c, n], OIdentifier v) \<Rightarrow>
          if \<not> is_extension c \<and> comp_name c = ''features'' then [(comp_name n, v)] else []
      | _ \<Rightarrow> [])"

definition settings :: "OptionNode list \<Rightarrow> (string \<times> string) list" where
  "settings ops = concat (map option_settings ops)"

lemma apply_aggregate_settings:
  "apply_aggregate_features fs out = fold (\<lambda>(n, v). apply_one_feature n v) (literal_settings fs) out"
  by (induction fs arbitrary: out)
    (auto simp: literal_settings_def split: OptionValue.splits MessageFieldNameKind.splits)

lemma option_step_settings:
  "apply_features [op] out = fold (\<lambda>(n, v). apply_one_feature n v) (option_settings op) out"
proof -
  consider "opt_name op = []" | c where "opt_name op = [c]" | c n where "opt_name op = [c, n]"
    | c n k ks where "opt_name op = c # n # k # ks"
    by (metis list.exhaust)
  then show ?thesis
    by cases (auto simp: option_settings_def apply_aggregate_settings split: OptionValue.splits)
qed

lemma apply_features_settings:
  "apply_features ops out = fold (\<lambda>(n, v). apply_one_feature n v) (settings ops) out"
proof (induction ops arbitrary: out)
  case (Cons op ops)
  have "apply_features (op # ops) out = apply_features ops (apply_features [op] out)"
    using apply_features_append [of "[op]" ops] by simp
  then show ?case by (simp only: Cons.IH option_step_settings) (simp add: settings_def)
qed (simp add: settings_def)

text \<open>The reference: the last setting of a feature that has a known value.\<close>

definition presence_value :: "string \<Rightarrow> FieldPresence option" where
  "presence_value v = map_of [(''EXPLICIT'', Explicit), (''IMPLICIT'', Implicit), (''LEGACY_REQUIRED'', Required)] v"

definition enum_value :: "string \<Rightarrow> EnumOpenness option" where
  "enum_value v = map_of [(''OPEN'', Open), (''CLOSED'', Closed)] v"

definition repeated_value :: "string \<Rightarrow> RepeatedEncoding option" where
  "repeated_value v = map_of [(''PACKED'', Packed), (''EXPANDED'', Expanded)] v"

definition message_value :: "string \<Rightarrow> MessageEncoding option" where
  "message_value v = map_of [(''LENGTH_PREFIXED'', LengthPrefixed), (''DELIMITED'', Delimited)] v"

definition utf8_value_of :: "string \<Rightarrow> bool option" where
  "utf8_value_of v = map_of [(''VERIFY'', True), (''NONE'', False)] v"

lemmas feature_values = presence_value_def enum_value_def repeated_value_def message_value_def utf8_value_of_def

definition last_setting :: "'a \<Rightarrow> string \<Rightarrow> (string \<Rightarrow> 'a option) \<Rightarrow> (string \<times> string) list \<Rightarrow> 'a" where
  "last_setting d n val ss = last (d # List.map_filter (\<lambda>(m, v). if m = n then val v else None) ss)"

lemma last_setting_simps [simp]:
  "last_setting d n val [] = d"
  "last_setting d n val (ss @ [(m, v)]) =
     (if m = n then (case val v of Some x \<Rightarrow> x | None \<Rightarrow> last_setting d n val ss) else last_setting d n val ss)"
  by (simp_all add: last_setting_def List.map_filter_def split: option.splits)

definition set_feature :: "'a \<Rightarrow> string \<Rightarrow> (string \<Rightarrow> 'a option) \<Rightarrow> string \<Rightarrow> string \<Rightarrow> 'a" where
  "set_feature d n val m v = (if m = n then (case val v of Some x \<Rightarrow> x | None \<Rightarrow> d) else d)"

lemma apply_one_presence:
  "rf_presence (apply_one_feature m v out) = set_feature (rf_presence out) ''field_presence'' presence_value m v"
  by (simp add: apply_one_feature_def set_feature_def presence_value_def)

lemma apply_one_enum:
  "rf_enum_type (apply_one_feature m v out) = set_feature (rf_enum_type out) ''enum_type'' enum_value m v"
  by (simp add: apply_one_feature_def set_feature_def enum_value_def)

lemma apply_one_message:
  "rf_message_encoding (apply_one_feature m v out) =
     set_feature (rf_message_encoding out) ''message_encoding'' message_value m v"
  by (simp add: apply_one_feature_def set_feature_def message_value_def)

lemma apply_one_repeated:
  "rf_repeated_encoding (apply_one_feature m v out) =
     set_feature (rf_repeated_encoding out) ''repeated_field_encoding'' repeated_value m v"
  by (simp add: apply_one_feature_def set_feature_def repeated_value_def)

lemma apply_one_utf8:
  "rf_utf8_verify (apply_one_feature m v out) =
     set_feature (rf_utf8_verify out) ''utf8_validation'' utf8_value_of m v"
  by (simp add: apply_one_feature_def set_feature_def utf8_value_of_def)

lemma fold_last_setting:
  assumes "\<And>m v out. sel (apply_one_feature m v out) = set_feature (sel out) n val m v"
  shows "sel (fold (\<lambda>(n, v). apply_one_feature n v) ss out) = last_setting (sel out) n val ss"
proof (induction ss rule: rev_induct)
  case (snoc s ss)
  then show ?case by (cases s) (simp add: assms set_feature_def)
qed simp

text \<open>
  Later feature settings win: applying an option list leaves each feature at the value of
  its last setting with a known value, in dotted or aggregate form, and at its inherited value when
  there is none. Unknown features and values, and extension options, have no effect.
\<close>

theorem apply_features_last_wins:
  "apply_features ops out =
     \<lparr>rf_presence = last_setting (rf_presence out) ''field_presence'' presence_value (settings ops),
      rf_enum_type = last_setting (rf_enum_type out) ''enum_type'' enum_value (settings ops),
      rf_message_encoding = last_setting (rf_message_encoding out) ''message_encoding'' message_value (settings ops),
      rf_repeated_encoding = last_setting (rf_repeated_encoding out) ''repeated_field_encoding'' repeated_value (settings ops),
      rf_utf8_verify = last_setting (rf_utf8_verify out) ''utf8_validation'' utf8_value_of (settings ops)\<rparr>"
  unfolding apply_features_settings
  by (rule ResolvedFeatures.equality)
    (simp_all only: fold_last_setting [OF apply_one_presence] fold_last_setting [OF apply_one_enum]
      fold_last_setting [OF apply_one_message] fold_last_setting [OF apply_one_repeated]
      fold_last_setting [OF apply_one_utf8] ResolvedFeatures.select_convs unit_eq)

text \<open>
  The fields of a message, its nested messages included, each with the options that apply to it from
  the outermost scope inwards, and whether it is a oneof member.
\<close>

fun field_chain :: "OptionNode list \<Rightarrow> MessageNode \<Rightarrow> (OptionNode list \<times> bool \<times> FieldNode) list" where
  "field_chain os (MessageNode m ns) =
     (let os' = os @ msg_options m in
      map (\<lambda>f. (os' @ fld_options f, False, f)) (msg_fields m) @
      concat (map (\<lambda>oo. map (\<lambda>f. (os' @ oo_options oo @ fld_options f, True, f)) (oo_fields oo)) (oneofs m)) @
      concat (map (\<lambda>x. map (\<lambda>f. (os' @ fld_options f, False, f)) (ext_fields x)) (msg_extends m)) @
      concat (map (field_chain os') ns))"

fun all_fields :: "MessageNode \<Rightarrow> FieldNode list" where
  "all_fields (MessageNode m ns) =
     msg_fields m @ concat (map oo_fields (oneofs m)) @ concat (map ext_fields (msg_extends m)) @
     concat (map all_fields ns)"

definition file_fields :: "FileNode \<Rightarrow> FieldNode list" where
  "file_fields file = concat (map all_fields (file_messages file)) @ concat (map ext_fields (file_extends file))"

definition file_chain :: "FileNode \<Rightarrow> (OptionNode list \<times> bool \<times> FieldNode) list" where
  "file_chain file =
     concat (map (field_chain (file_options file)) (file_messages file)) @
     concat (map (\<lambda>x. map (\<lambda>f. (file_options file @ fld_options f, False, f)) (ext_fields x)) (file_extends file))"

definition inherited :: "ResolvedFeatures \<Rightarrow> OptionNode list \<times> bool \<times> FieldNode \<Rightarrow> FieldNode" where
  "inherited defaults = (\<lambda>(os, oneof_member, f).
     let s = apply_features os defaults in
     f\<lparr>presence := (if oneof_member then presence f else rf_presence s),
       message_encoding := (if is_group f then message_encoding f else rf_message_encoding s),
       repeated_encoding :=
         (if is_repeated f \<and> is_packable_scalar (type_name f) then rf_repeated_encoding s else repeated_encoding f)\<rparr>)"

lemma feature_fields_inherited:
  "map (feature_field (apply_features os defaults) oo) fs =
     map (\<lambda>f. inherited defaults (os @ fld_options f, oo, f)) fs"
  by (simp add: feature_field_def inherited_def apply_features_append Let_def)

lemma feature_message_inherited:
  "all_fields (feature_message (apply_features os defaults) m) = map (inherited defaults) (field_chain os m)"
proof (induction os m rule: field_chain.induct)
  case (1 os m ns)
  let ?s = "apply_features (os @ msg_options m) defaults"
  have ns: "concat (map (\<lambda>x. all_fields (feature_message ?s x)) ns) =
      concat (map (\<lambda>x. map (inherited defaults) (field_chain (os @ msg_options m) x)) ns)"
    using 1 by (intro arg_cong [where f = concat] map_cong) simp_all
  have oo: "apply_features (oo_options x) ?s = apply_features (os @ msg_options m @ oo_options x) defaults" for x
    by (simp add: apply_features_append)
  show ?case
    by (simp add: ns Let_def feature_oneof_def feature_extend_def feature_fields_inherited oo
        map_concat comp_def flip: apply_features_append)
qed

text \<open>
  Property C38. Feature inheritance is by nesting. For a file of a known edition, the fields after the
  pass are the fields before it, each with the presence, message encoding and repeated encoding that
  the edition defaults get from all option lists between the file and the field, applied from the
  outside in; a oneof member keeps its presence, a group its encoding, and only packable scalars take
  the repeated encoding.
\<close>

theorem resolve_features_inherited:
  "syntax_level file = Edition \<Longrightarrow> is_known_edition (edition file) \<Longrightarrow>
     map_sum id file_fields (resolve_features file) =
       Inr (map (inherited (edition_defaults (edition file))) (file_chain file))"
  by (simp add: resolve_features_def Let_def file_fields_def file_chain_def map_concat comp_def
      feature_message_inherited feature_extend_def feature_fields_inherited)

definition demo_edition :: FileNode where
  "demo_edition = default_file\<lparr>syntax_level := Edition, edition := ''2023'',
     file_options := [\<lparr>opt_name = [\<lparr>comp_name = ''features'', is_extension = False\<rparr>,
         \<lparr>comp_name = ''field_presence'', is_extension = False\<rparr>], opt_value = OIdentifier ''IMPLICIT''\<rparr>],
     file_messages := [MessageNode (default_message\<lparr>msg_fields := [default_field]\<rparr>) []]\<rparr>"

theorem resolve_features_inherited_witness:
  "map_sum id file_fields (resolve_features demo_edition) = Inr [default_field\<lparr>presence := Implicit\<rparr>]"
proof -
  have "syntax_level demo_edition = Edition" "is_known_edition (edition demo_edition)" by code_simp+
  moreover have "map (inherited (edition_defaults (edition demo_edition))) (file_chain demo_edition) =
      [default_field\<lparr>presence := Implicit\<rparr>]"
    by code_simp
  ultimately show ?thesis using resolve_features_inherited [of demo_edition] by simp
qed

lemma feature_field_idem: "feature_field s oo (feature_field s oo f) = feature_field s oo f"
  by (simp add: feature_field_def Let_def)

lemma feature_oneof_idem: "feature_oneof s (feature_oneof s x) = feature_oneof s x"
  by (simp add: feature_oneof_def feature_field_idem)

lemma feature_extend_idem: "feature_extend s (feature_extend s x) = feature_extend s x"
  by (simp add: feature_extend_def feature_field_idem)

lemma feature_enum_idem: "feature_enum s (feature_enum s x) = feature_enum s x"
  by (simp add: feature_enum_def)

lemma feature_message_idem: "feature_message s (feature_message s m) = feature_message s m"
  by (induction s m rule: feature_message.induct)
    (simp add: Let_def feature_field_idem feature_oneof_idem feature_extend_idem feature_enum_idem)

text \<open>
  The feature pass is idempotent: a file it has resolved is left unchanged by running it
  again, and it fails exactly on the unknown editions, with the position of the edition string.
\<close>

theorem resolve_features_idempotent:
  "case resolve_features file of
     Inr file' \<Rightarrow> resolve_features file' = Inr file'
   | Inl e \<Rightarrow> syntax_level file = Edition \<and> \<not> is_known_edition (edition file) \<and>
       source e = file_source file \<and> byte_offset e = edition_offset file"
  by (simp add: resolve_features_def Let_def feature_message_idem feature_extend_idem feature_enum_idem
      mk_error_at_def)

end
