(* ===== verification/Interpret.thy ===== *)
theory Interpret
  imports Features
begin

text \<open>
  The interpretation of the built-in options that affect decoding (\<^verbatim>\<open>src/interpret.cpp\<close>):
  \<^verbatim>\<open>packed\<close> and \<^verbatim>\<open>default\<close> on fields, and a warning for messages in the MessageSet wire format. The
  warnings pointer is an optional list.
\<close>

fun find_option :: "OptionNode list \<Rightarrow> string \<Rightarrow> OptionValue option" where
  "find_option [] n = None"
| "find_option (op # ops) n =
     (if length (opt_name op) = 1 \<and> \<not> is_extension (opt_name op ! 0) \<and> comp_name (opt_name op ! 0) = n
      then Some (opt_value op) else find_option ops n)"

definition interpret_field :: "FieldNode \<Rightarrow> FieldNode" where
  "interpret_field fld =
     (let fld1 =
        (if is_repeated fld \<and> is_packable_scalar (type_name fld) then
           (case find_option (fld_options fld) ''packed'' of
              Some (OIdentifier v) \<Rightarrow>
                if v = ''true'' then fld\<lparr>repeated_encoding := Packed\<rparr>
                else if v = ''false'' then fld\<lparr>repeated_encoding := Expanded\<rparr>
                else fld
            | _ \<Rightarrow> fld)
         else fld)
      in case find_option (fld_options fld1) ''default'' of
           Some v \<Rightarrow> fld1\<lparr>default_value := Some v\<rparr>
         | None \<Rightarrow> fld1)"

definition declares_message_set :: "MessageData \<Rightarrow> bool" where
  "declares_message_set m =
     (case find_option (msg_options m) ''message_set_wire_format'' of
        Some (OIdentifier v) \<Rightarrow> v = ''true''
      | _ \<Rightarrow> False)"

definition message_set_warning :: "MessageData \<Rightarrow> string" where
  "message_set_warning m =
     ''warning: '' @ msg_fqn m @
     '' uses the MessageSet wire format; it holds only extensions, which this decoder does'' @
     '' not materialize, so the message will decode as unknown fields''"

definition interpret_own_fields :: "MessageData \<Rightarrow> MessageData" where
  "interpret_own_fields m =
     m\<lparr>msg_fields := map interpret_field (msg_fields m),
       oneofs := map (\<lambda>oo. oo\<lparr>oo_fields := map interpret_field (oo_fields oo)\<rparr>) (oneofs m),
       msg_extends := map (\<lambda>x. x\<lparr>ext_fields := map interpret_field (ext_fields x)\<rparr>) (msg_extends m)\<rparr>"

fun interpret_message :: "MessageNode \<Rightarrow> string list option \<Rightarrow> Error + MessageNode \<times> string list option"
  and interpret_messages :: "MessageNode list \<Rightarrow> string list option \<Rightarrow> Error + MessageNode list \<times> string list option"
where
  "interpret_message (MessageNode m ns) warnings =
     (let w = (case warnings of
                 Some ws \<Rightarrow> if declares_message_set m then Some (ws @ [message_set_warning m]) else Some ws
               | None \<Rightarrow> None)
      in case interpret_messages ns w of
           Inl e \<Rightarrow> Inl e
         | Inr (ns', w') \<Rightarrow> Inr (MessageNode (interpret_own_fields m) ns', w'))"
| "interpret_messages [] warnings = Inr ([], warnings)"
| "interpret_messages (n # ns) warnings =
     (case interpret_message n warnings of
        Inl e \<Rightarrow> Inl e
      | Inr (n', w) \<Rightarrow>
          (case interpret_messages ns w of Inl e \<Rightarrow> Inl e | Inr (ns', w') \<Rightarrow> Inr (n' # ns', w')))"

definition interpret_options :: "FileNode \<Rightarrow> string list option \<Rightarrow> Error + FileNode \<times> string list option" where
  "interpret_options file warnings =
     (case interpret_messages (file_messages file) warnings of
        Inl e \<Rightarrow> Inl e
      | Inr (ms, w) \<Rightarrow>
          Inr (file\<lparr>file_messages := ms,
                 file_extends := map (\<lambda>x. x\<lparr>ext_fields := map interpret_field (ext_fields x)\<rparr>) (file_extends file)\<rparr>, w))"

fun interpret_options_files :: "FileNode list \<Rightarrow> string list option \<Rightarrow> Error + FileNode list \<times> string list option" where
  "interpret_options_files [] warnings = Inr ([], warnings)"
| "interpret_options_files (file # rest) warnings =
     (case interpret_options file warnings of
        Inl e \<Rightarrow> Inl e
      | Inr (file', w) \<Rightarrow>
          (case interpret_options_files rest w of Inl e \<Rightarrow> Inl e | Inr (rest', w') \<Rightarrow> Inr (file' # rest', w')))"

section \<open>What interpretation does\<close>

text \<open>The reference: a map over the tree, and the messages that deserve a warning, outer ones first.\<close>

fun interpreted :: "MessageNode \<Rightarrow> MessageNode" where
  "interpreted (MessageNode m ns) = MessageNode (interpret_own_fields m) (map interpreted ns)"

fun message_sets :: "MessageNode \<Rightarrow> MessageData list" where
  "message_sets (MessageNode m ns) = (if declares_message_set m then [m] else []) @ concat (map message_sets ns)"

definition warn :: "string list option \<Rightarrow> MessageData list \<Rightarrow> string list option" where
  "warn warnings ms = map_option (\<lambda>ws. ws @ map message_set_warning ms) warnings"

lemma warn_append: "warn (warn w ms) ns = warn w (ms @ ns)"
  by (cases w) (simp_all add: warn_def)

lemma warn_Nil [simp]: "warn w [] = w"
  by (simp add: warn_def option.map_ident)

lemma interpret_message_ok:
  "interpret_message m w = Inr (interpreted m, warn w (message_sets m))"
  "interpret_messages ms w = Inr (map interpreted ms, warn w (concat (map message_sets ms)))"
proof (induction m w and ms w rule: interpret_message_interpret_messages.induct)
  case (1 m ns w)
  have "(case w of Some ws \<Rightarrow> if declares_message_set m then Some (ws @ [message_set_warning m]) else Some ws
      | None \<Rightarrow> None) = warn w (if declares_message_set m then [m] else [])"
    by (simp add: warn_def split: option.splits)
  with 1 show ?case by (simp add: Let_def warn_append)
next
  case (3 n ns w)
  then show ?case by (simp add: warn_append)
qed simp_all

definition interpreted_file :: "FileNode \<Rightarrow> FileNode" where
  "interpreted_file file =
     file\<lparr>file_messages := map interpreted (file_messages file),
       file_extends := map (\<lambda>x. x\<lparr>ext_fields := map interpret_field (ext_fields x)\<rparr>) (file_extends file)\<rparr>"

lemma interpret_options_ok:
  "interpret_options file w = Inr (interpreted_file file, warn w (concat (map message_sets (file_messages file))))"
  by (simp add: interpret_options_def interpret_message_ok interpreted_file_def)

lemma interpret_options_files_ok:
  "interpret_options_files fs w =
     Inr (map interpreted_file fs, warn w (concat (map (\<lambda>f. concat (map message_sets (file_messages f))) fs)))"
  by (induction fs arbitrary: w) (simp_all add: interpret_options_ok warn_append)

lemma all_fields_interpreted: "all_fields (interpreted m) = map interpret_field (all_fields m)"
  by (induction m rule: interpreted.induct)
    (simp add: interpret_own_fields_def map_concat comp_def cong: map_cong)

text \<open>
  Option interpretation never fails, maps \<open>interpret_field\<close> over every field of the file,
  at any depth and in extend blocks, and appends one warning for each message that declares the
  MessageSet format, outer messages before the ones nested in them.
\<close>

theorem interpret_options_exact:
  "\<exists>file'. interpret_options file (Some ws) =
       Inr (file', Some (ws @ map message_set_warning (concat (map message_sets (file_messages file))))) \<and>
     file_fields file' = map interpret_field (file_fields file)"
  by (simp add: interpret_options_ok interpreted_file_def warn_def file_fields_def map_concat comp_def
      all_fields_interpreted)

end
