(* ===== verification/Type_Resolver.thy ===== *)
theory Type_Resolver
  imports Interpret
begin

text \<open>
  Name and type resolution of \<^verbatim>\<open>src/resolve.cpp\<close>: fully qualified names, the symbol table, import
  visibility, the scope search for type references, the check of map keys and extensions, and the
  analysis that runs all passes in order.

  The table's pointers into the syntax tree are positions: a file index and a path of indices into
  the nested messages. A message at path \<open>[i, j]\<close> is the \<open>j\<close>-th message nested in the \<open>i\<close>-th of the file.
\<close>

section \<open>Fully qualified names\<close>

definition assign_enum_fqn :: "string \<Rightarrow> EnumNode \<Rightarrow> EnumNode" where
  "assign_enum_fqn scope node =
     node\<lparr>en_fqn := scope @ ''.'' @ en_name node,
          en_values := map (\<lambda>v. v\<lparr>ev_fqn := scope @ ''.'' @ ev_name v\<rparr>) (en_values node)\<rparr>"

definition assign_extend_fqns :: "string \<Rightarrow> ExtendNode \<Rightarrow> ExtendNode" where
  "assign_extend_fqns scope node =
     node\<lparr>ext_fields := map (\<lambda>f. f\<lparr>fld_fqn := scope @ ''.'' @ fld_name f\<rparr>) (ext_fields node)\<rparr>"

fun assign_message_fqn :: "string \<Rightarrow> MessageNode \<Rightarrow> MessageNode" where
  "assign_message_fqn scope (MessageNode m ns) =
     (let fqn = scope @ ''.'' @ msg_name m in
      MessageNode
        (m\<lparr>msg_fqn := fqn, msg_enums := map (assign_enum_fqn fqn) (msg_enums m),
           msg_extends := map (assign_extend_fqns fqn) (msg_extends m)\<rparr>)
        (map (assign_message_fqn fqn) ns))"

definition file_scope :: "FileNode \<Rightarrow> string" where
  "file_scope file = (if file_package file = [] then [] else ''.'' @ file_package file)"

definition compute_fqns :: "FileNode \<Rightarrow> FileNode" where
  "compute_fqns file =
     file\<lparr>file_messages := map (assign_message_fqn (file_scope file)) (file_messages file),
          file_enums := map (assign_enum_fqn (file_scope file)) (file_enums file),
          file_extends := map (assign_extend_fqns (file_scope file)) (file_extends file)\<rparr>"

definition compute_fqns_set :: "ResolvedFileSet \<Rightarrow> ResolvedFileSet" where
  "compute_fqns_set fset = fset\<lparr>files := map compute_fqns (files fset)\<rparr>"

definition parent_scope :: "string \<Rightarrow> string" where
  "parent_scope scope = rev (tl (dropWhile (\<lambda>c. c \<noteq> CHR ''.'') (rev scope)))"

section \<open>Symbols\<close>

datatype SymbolKind = SymMessage | SymEnum

type_synonym MessageRef = "nat \<times> nat list"
type_synonym EnumRef = "nat \<times> nat list \<times> nat"
type_synonym FieldRef = "nat \<times> nat list \<times> nat \<times> nat"
type_synonym ExtensionTable = "string \<times> u32 \<Rightarrow> FieldRef option"

record SymbolTable =
  symbols :: "string \<Rightarrow> SymbolKind option"
  messages :: "string \<Rightarrow> MessageRef option"
  enums :: "string \<Rightarrow> EnumRef option"
  extensions :: ExtensionTable
  warnings :: "string list"

record Sym =
  sym_kind :: SymbolKind
  sym_file :: nat

record TypeResolver =
  m_symbols :: "string \<Rightarrow> Sym option"
  m_table :: SymbolTable

definition empty_resolver :: TypeResolver where
  "empty_resolver = \<lparr>m_symbols = (\<lambda>_. None), m_table = \<lparr>symbols = (\<lambda>_. None), messages = (\<lambda>_. None),
     enums = (\<lambda>_. None), extensions = (\<lambda>_. None), warnings = []\<rparr>\<rparr>"

definition emplace :: "'k \<Rightarrow> 'v \<Rightarrow> ('k \<Rightarrow> 'v option) \<Rightarrow> ('k \<Rightarrow> 'v option)" where
  "emplace k v m = (if m k = None then m(k \<mapsto> v) else m)"

definition record_symbol :: "string \<Rightarrow> SymbolKind \<Rightarrow> nat \<Rightarrow> SourceId \<Rightarrow> TypeResolver \<Rightarrow> Error + TypeResolver" where
  "record_symbol fqn knd file_idx src st =
     (if m_symbols st fqn \<noteq> None then
        Inl (mk_error_at src 0 (''duplicate type name '' @ [squote] @ fqn @ [squote]))
      else
        Inr (st\<lparr>m_symbols := (m_symbols st)(fqn \<mapsto> \<lparr>sym_kind = knd, sym_file = file_idx\<rparr>),
                m_table := (m_table st)\<lparr>symbols := (symbols (m_table st))(fqn \<mapsto> knd)\<rparr>\<rparr>))"

definition note_message :: "string \<Rightarrow> MessageRef \<Rightarrow> TypeResolver \<Rightarrow> TypeResolver" where
  "note_message fqn r st =
     st\<lparr>m_table := (m_table st)\<lparr>messages := emplace fqn r (messages (m_table st))\<rparr>\<rparr>"

definition note_enum :: "string \<Rightarrow> EnumRef \<Rightarrow> TypeResolver \<Rightarrow> TypeResolver" where
  "note_enum fqn r st =
     st\<lparr>m_table := (m_table st)\<lparr>enums := emplace fqn r (enums (m_table st))\<rparr>\<rparr>"

fun collect_enums :: "nat \<Rightarrow> SourceId \<Rightarrow> nat list \<Rightarrow> nat \<Rightarrow> EnumNode list \<Rightarrow> TypeResolver \<Rightarrow> Error + TypeResolver" where
  "collect_enums file_idx src path k [] st = Inr st"
| "collect_enums file_idx src path k (node # nodes) st =
     (case record_symbol (en_fqn node) SymEnum file_idx src st of
        Inl e \<Rightarrow> Inl e
      | Inr st' \<Rightarrow> collect_enums file_idx src path (Suc k) nodes (note_enum (en_fqn node) (file_idx, path, k) st'))"

fun collect_message :: "nat \<Rightarrow> SourceId \<Rightarrow> nat list \<Rightarrow> MessageNode \<Rightarrow> TypeResolver \<Rightarrow> Error + TypeResolver"
  and collect_messages :: "nat \<Rightarrow> SourceId \<Rightarrow> nat list \<Rightarrow> nat \<Rightarrow> MessageNode list \<Rightarrow> TypeResolver \<Rightarrow> Error + TypeResolver"
where
  "collect_message file_idx src path (MessageNode m ns) st =
     (case record_symbol (msg_fqn m) SymMessage file_idx src st of
        Inl e \<Rightarrow> Inl e
      | Inr st' \<Rightarrow>
          (case collect_messages file_idx src path 0 ns (note_message (msg_fqn m) (file_idx, path) st') of
             Inl e \<Rightarrow> Inl e
           | Inr st'' \<Rightarrow> collect_enums file_idx src path 0 (msg_enums m) st''))"
| "collect_messages file_idx src path k [] st = Inr st"
| "collect_messages file_idx src path k (n # ns) st =
     (case collect_message file_idx src (path @ [k]) n st of
        Inl e \<Rightarrow> Inl e
      | Inr st' \<Rightarrow> collect_messages file_idx src path (Suc k) ns st')"

fun collect_symbols :: "nat \<Rightarrow> FileNode list \<Rightarrow> TypeResolver \<Rightarrow> Error + TypeResolver" where
  "collect_symbols i [] st = Inr st"
| "collect_symbols i (file # rest) st =
     (case collect_messages i (file_source file) [] 0 (file_messages file) st of
        Inl e \<Rightarrow> Inl e
      | Inr st' \<Rightarrow>
          (case collect_enums i (file_source file) [] 0 (file_enums file) st' of
             Inl e \<Rightarrow> Inl e
           | Inr st'' \<Rightarrow> collect_symbols (Suc i) rest st''))"

section \<open>Visibility\<close>

definition import_index :: "ResolvedFileSet \<Rightarrow> string \<Rightarrow> nat option" where
  "import_index fset p = map_of (file_index fset) p"

text \<open>An index from the file index is in range; a position outside of the files has no imports.\<close>

definition imports_at :: "ResolvedFileSet \<Rightarrow> nat \<Rightarrow> ImportNode list" where
  "imports_at fset i = (if i < length (files fset) then imports_of (files fset ! i) else [])"

fun scan_public :: "ResolvedFileSet \<Rightarrow> ImportNode list \<Rightarrow> nat list \<times> nat set \<Rightarrow> nat list \<times> nat set" where
  "scan_public fset [] s = s"
| "scan_public fset (imp # imps) (stack, visible) =
     scan_public fset imps
       (if imp_kind imp \<noteq> ImportPublic then (stack, visible)
        else
          (case import_index fset (canonical_import_path (imp_path imp)) of
             None \<Rightarrow> (stack, visible)
           | Some target \<Rightarrow>
               if target \<notin> visible then (stack @ [target], insert target visible) else (stack, visible)))"

lemma scan_public_grows:
  "\<exists>new. fst (scan_public fset imps (stack, visible)) = stack @ new \<and>
     snd (scan_public fset imps (stack, visible)) = visible \<union> set new \<and>
     set new \<inter> visible = {} \<and> set new \<subseteq> snd ` set (file_index fset)"
proof (induction imps arbitrary: stack visible)
  case (Cons imp imps)
  show ?case
  proof (cases "imp_kind imp = ImportPublic \<and> (\<exists>t. import_index fset (canonical_import_path (imp_path imp)) = Some t \<and> t \<notin> visible)")
    case True
    then obtain t where t: "import_index fset (canonical_import_path (imp_path imp)) = Some t" "t \<notin> visible" by blast
    from Cons.IH [of "stack @ [t]" "insert t visible"] obtain new where
      "fst (scan_public fset imps (stack @ [t], insert t visible)) = stack @ (t # new)"
      "snd (scan_public fset imps (stack @ [t], insert t visible)) = visible \<union> set (t # new)"
      "set new \<inter> insert t visible = {}" "set new \<subseteq> snd ` set (file_index fset)" by auto
    moreover have "t \<in> snd ` set (file_index fset)"
      using t(1) by (force simp: import_index_def dest: map_of_SomeD)
    ultimately show ?thesis using True t by (intro exI [of _ "t # new"]) auto
  next
    case False
    then have "scan_public fset (imp # imps) (stack, visible) = scan_public fset imps (stack, visible)"
      by (auto split: option.splits)
    with Cons.IH show ?thesis by simp
  qed
qed simp

function add_public_closure :: "ResolvedFileSet \<Rightarrow> nat list \<Rightarrow> nat set \<Rightarrow> nat set" where
  "add_public_closure fset stack visible =
     (if stack = [] then visible
      else
        let (stack', visible') = scan_public fset (imports_at fset (last stack)) (butlast stack, visible) in
        add_public_closure fset stack' visible')"
  by pat_completeness auto
termination
proof (relation "measures [\<lambda>(fset, stack, visible). card (snd ` set (file_index fset) - visible),
      \<lambda>(fset, stack, visible). length stack]")
  fix fset stack visible x stack' visible'
  assume ne: "stack \<noteq> []"
    and x: "x = scan_public fset (imports_at fset (last stack)) (butlast stack, visible)" "(stack', visible') = x"
  from scan_public_grows [of fset "imports_at fset (last stack)" "butlast stack" visible] x
  obtain new where new: "stack' = butlast stack @ new" "visible' = visible \<union> set new" "set new \<inter> visible = {}"
    "set new \<subseteq> snd ` set (file_index fset)" by (metis fst_conv snd_conv)
  show "((fset, stack', visible'), fset, stack, visible) \<in>
      measures [\<lambda>(fset, stack, visible). card (snd ` set (file_index fset) - visible),
        \<lambda>(fset, stack, visible). length stack]"
  proof (cases "new = []")
    case True
    with new ne show ?thesis by simp
  next
    case False
    then have "snd ` set (file_index fset) - visible' \<subset> snd ` set (file_index fset) - visible"
      using new by (cases new) auto
    then have "card (snd ` set (file_index fset) - visible') < card (snd ` set (file_index fset) - visible)"
      by (intro psubset_card_mono) auto
    then show ?thesis by simp
  qed
qed simp

declare add_public_closure.simps [simp del]

fun add_direct_imports :: "ResolvedFileSet \<Rightarrow> ImportNode list \<Rightarrow> nat set \<Rightarrow> nat set" where
  "add_direct_imports fset [] visible = visible"
| "add_direct_imports fset (imp # imps) visible =
     add_direct_imports fset imps
       (if imp_kind imp = ImportOption then visible
        else
          (case import_index fset (canonical_import_path (imp_path imp)) of
             None \<Rightarrow> visible
           | Some target \<Rightarrow> add_public_closure fset [target] (insert target visible)))"

definition visible_files :: "ResolvedFileSet \<Rightarrow> nat \<Rightarrow> nat set" where
  "visible_files fset i = add_direct_imports fset (imports_at fset i) {i}"

section \<open>References\<close>

lemma parent_scope_length: "scope \<noteq> [] \<Longrightarrow> length (parent_scope scope) < length scope"
proof -
  assume "scope \<noteq> []"
  then have "0 < length scope" by simp
  moreover have "length (dropWhile (\<lambda>c. c \<noteq> CHR ''.'') (rev scope)) \<le> length scope"
    using length_dropWhile_le [of "\<lambda>c. c \<noteq> CHR ''.''" "rev scope"] by simp
  ultimately show ?thesis unfolding parent_scope_def length_rev length_tl by linarith
qed

function search_scope :: "(string \<Rightarrow> bool) \<Rightarrow> string \<Rightarrow> string \<Rightarrow> string option" where
  "search_scope vis name current =
     (let candidate = current @ ''.'' @ name in
      if vis candidate then Some candidate
      else if current = [] then None
      else search_scope vis name (parent_scope current))"
  by pat_completeness auto
termination search_scope
  by (relation "measure (\<lambda>(_, _, current). length current)") (auto simp: parent_scope_length)

declare search_scope.simps [simp del]

definition is_visible :: "TypeResolver \<Rightarrow> nat set \<Rightarrow> string \<Rightarrow> bool" where
  "is_visible st visible fqn =
     (case m_symbols st fqn of Some s \<Rightarrow> sym_file s \<in> visible | None \<Rightarrow> False)"

definition resolve_name :: "TypeResolver \<Rightarrow> string \<Rightarrow> string \<Rightarrow> nat set \<Rightarrow> string option" where
  "resolve_name st name scope visible =
     (if name \<noteq> [] \<and> hd name = CHR ''.'' then (if is_visible st visible name then Some name else None)
      else search_scope (is_visible st visible) name scope)"

definition kind_of :: "TypeResolver \<Rightarrow> string \<Rightarrow> SymbolKind" where
  "kind_of st fqn = sym_kind (the (m_symbols st fqn))"

definition resolve_field :: "TypeResolver \<Rightarrow> SourceId \<Rightarrow> string \<Rightarrow> nat set \<Rightarrow> FieldNode \<Rightarrow> Error + FieldNode" where
  "resolve_field st src scope visible fld =
     (if is_scalar_type (type_name fld) then Inr fld
      else
        (case resolve_name st (type_name fld) scope visible of
           None \<Rightarrow>
             Inl (mk_error_at src (fld_offset fld)
               (''unresolved type '' @ [squote] @ type_name fld @ [squote] @ '' in '' @ scope))
         | Some fqn \<Rightarrow>
             let fld1 = fld\<lparr>resolved_type_fqn := fqn, is_message_type := (kind_of st fqn = SymMessage),
                   is_enum_type := (kind_of st fqn = SymEnum)\<rparr>;
                 fld2 = (if is_message_type fld1 \<and> presence fld1 = Implicit then fld1\<lparr>presence := Explicit\<rparr> else fld1)
             in Inr (if is_repeated fld2 \<and> (is_message_type fld2 \<or> is_enum_type fld2)
                     then fld2\<lparr>repeated_encoding := Expanded\<rparr> else fld2)))"

definition resolve_map :: "TypeResolver \<Rightarrow> SourceId \<Rightarrow> string \<Rightarrow> nat set \<Rightarrow> MapFieldNode \<Rightarrow> Error + MapFieldNode" where
  "resolve_map st src scope visible fld =
     (if \<not> is_valid_map_key_type (key_type fld) then
        Inl (mk_error_at src (mf_offset fld)
          (''map key type '' @ [squote] @ key_type fld @ [squote] @
           '' is not allowed (a map key must be an integral or string scalar) in '' @ scope))
      else if is_scalar_type (value_type fld) then Inr fld
      else
        (case resolve_name st (value_type fld) scope visible of
           None \<Rightarrow>
             Inl (mk_error_at src (mf_offset fld)
               (''unresolved map value type '' @ [squote] @ value_type fld @ [squote] @ '' in '' @ scope))
         | Some fqn \<Rightarrow>
             Inr (fld\<lparr>resolved_value_type_fqn := fqn, value_is_message := (kind_of st fqn = SymMessage),
                    value_is_enum := (kind_of st fqn = SymEnum)\<rparr>)))"

fun resolve_extend_fields ::
    "TypeResolver \<Rightarrow> SourceId \<Rightarrow> string \<Rightarrow> nat set \<Rightarrow> string \<Rightarrow> nat \<times> nat list \<times> nat \<Rightarrow> nat \<Rightarrow> FieldNode list \<Rightarrow>
      ExtensionTable \<Rightarrow> Error + FieldNode list \<times> ExtensionTable" where
  "resolve_extend_fields st src scope visible extendee (fi, path, x) j [] ext = Inr ([], ext)"
| "resolve_extend_fields st src scope visible extendee (fi, path, x) j (f # fs) ext =
     (case resolve_field st src scope visible f of
        Inl e \<Rightarrow> Inl e
      | Inr g \<Rightarrow>
          if ext (extendee, fld_number g) \<noteq> None then
            Inl (mk_error_at src (fld_offset g)
              (''duplicate extension number '' @ to_string_int (sint (fld_number g)) @ '' extending '' @
               [squote] @ extendee @ [squote]))
          else
            (case resolve_extend_fields st src scope visible extendee (fi, path, x) (Suc j) fs
                    (ext((extendee, fld_number g) \<mapsto> (fi, path, x, j))) of
               Inl e \<Rightarrow> Inl e
             | Inr (gs, ext1) \<Rightarrow> Inr (g # gs, ext1)))"

definition resolve_extend ::
    "TypeResolver \<Rightarrow> SourceId \<Rightarrow> string \<Rightarrow> nat set \<Rightarrow> nat \<times> nat list \<times> nat \<Rightarrow> ExtendNode \<Rightarrow> ExtensionTable \<Rightarrow>
      Error + ExtendNode \<times> ExtensionTable" where
  "resolve_extend st src scope visible pos node ext =
     (case resolve_name st (extendee_type_name node) scope visible of
        None \<Rightarrow>
          Inl (mk_error_at src (ext_offset node)
            (''unresolved extendee '' @ [squote] @ extendee_type_name node @ [squote]))
      | Some extendee \<Rightarrow>
          if kind_of st extendee \<noteq> SymMessage then
            Inl (mk_error_at src (ext_offset node)
              (''extendee '' @ [squote] @ extendee_type_name node @ [squote] @ '' is not a message''))
          else
            (case resolve_extend_fields st src scope visible extendee pos 0 (ext_fields node) ext of
               Inl e \<Rightarrow> Inl e
             | Inr (fs, ext1) \<Rightarrow> Inr (node\<lparr>ext_fields := fs\<rparr>, ext1)))"

fun resolve_extends ::
    "TypeResolver \<Rightarrow> SourceId \<Rightarrow> string \<Rightarrow> nat set \<Rightarrow> nat \<Rightarrow> nat list \<Rightarrow> nat \<Rightarrow> ExtendNode list \<Rightarrow> ExtensionTable \<Rightarrow>
      Error + ExtendNode list \<times> ExtensionTable" where
  "resolve_extends st src scope visible fi path k [] ext = Inr ([], ext)"
| "resolve_extends st src scope visible fi path k (x # xs) ext =
     (case resolve_extend st src scope visible (fi, path, k) x ext of
        Inl e \<Rightarrow> Inl e
      | Inr (y, ext1) \<Rightarrow>
          (case resolve_extends st src scope visible fi path (Suc k) xs ext1 of
             Inl e \<Rightarrow> Inl e
           | Inr (ys, ext2) \<Rightarrow> Inr (y # ys, ext2)))"

text \<open>A loop over nodes that returns at the first error.\<close>

fun map_err :: "('a \<Rightarrow> Error + 'b) \<Rightarrow> 'a list \<Rightarrow> Error + 'b list" where
  "map_err f [] = Inr []"
| "map_err f (x # xs) =
     (case f x of
        Inl e \<Rightarrow> Inl e
      | Inr y \<Rightarrow> (case map_err f xs of Inl e \<Rightarrow> Inl e | Inr ys \<Rightarrow> Inr (y # ys)))"

definition resolve_oneof :: "TypeResolver \<Rightarrow> SourceId \<Rightarrow> string \<Rightarrow> nat set \<Rightarrow> OneofNode \<Rightarrow> Error + OneofNode" where
  "resolve_oneof st src scope visible oneof =
     (case map_err (resolve_field st src scope visible) (oo_fields oneof) of
        Inl e \<Rightarrow> Inl e
      | Inr fs \<Rightarrow> Inr (oneof\<lparr>oo_fields := fs\<rparr>))"

definition resolve_members :: "TypeResolver \<Rightarrow> SourceId \<Rightarrow> nat set \<Rightarrow> MessageData \<Rightarrow> Error + MessageData" where
  "resolve_members st src visible m =
     (case map_err (resolve_field st src (msg_fqn m) visible) (msg_fields m) of
        Inl e \<Rightarrow> Inl e
      | Inr fs \<Rightarrow>
          (case map_err (resolve_oneof st src (msg_fqn m) visible) (oneofs m) of
             Inl e \<Rightarrow> Inl e
           | Inr os \<Rightarrow>
               (case map_err (resolve_map st src (msg_fqn m) visible) (map_fields m) of
                  Inl e \<Rightarrow> Inl e
                | Inr ms \<Rightarrow> Inr (m\<lparr>msg_fields := fs, oneofs := os, map_fields := ms\<rparr>))))"

fun resolve_message ::
    "TypeResolver \<Rightarrow> SourceId \<Rightarrow> nat set \<Rightarrow> nat \<Rightarrow> nat list \<Rightarrow> MessageNode \<Rightarrow> ExtensionTable \<Rightarrow>
      Error + MessageNode \<times> ExtensionTable"
  and resolve_messages ::
    "TypeResolver \<Rightarrow> SourceId \<Rightarrow> nat set \<Rightarrow> nat \<Rightarrow> nat list \<Rightarrow> nat \<Rightarrow> MessageNode list \<Rightarrow> ExtensionTable \<Rightarrow>
      Error + MessageNode list \<times> ExtensionTable"
where
  "resolve_message st src visible fi path (MessageNode m ns) ext =
     (case resolve_members st src visible m of
        Inl e \<Rightarrow> Inl e
      | Inr m1 \<Rightarrow>
          (case resolve_messages st src visible fi path 0 ns ext of
             Inl e \<Rightarrow> Inl e
           | Inr (ns1, ext1) \<Rightarrow>
               (case resolve_extends st src (msg_fqn m) visible fi path 0 (msg_extends m1) ext1 of
                  Inl e \<Rightarrow> Inl e
                | Inr (xs, ext2) \<Rightarrow> Inr (MessageNode (m1\<lparr>msg_extends := xs\<rparr>) ns1, ext2))))"
| "resolve_messages st src visible fi path k [] ext = Inr ([], ext)"
| "resolve_messages st src visible fi path k (n # ns) ext =
     (case resolve_message st src visible fi (path @ [k]) n ext of
        Inl e \<Rightarrow> Inl e
      | Inr (n1, ext1) \<Rightarrow>
          (case resolve_messages st src visible fi path (Suc k) ns ext1 of
             Inl e \<Rightarrow> Inl e
           | Inr (ns1, ext2) \<Rightarrow> Inr (n1 # ns1, ext2)))"

section \<open>The pass and the analysis\<close>

fun resolve_files :: "ResolvedFileSet \<Rightarrow> TypeResolver \<Rightarrow> nat \<Rightarrow> FileNode list \<Rightarrow> ExtensionTable \<Rightarrow>
      Error + FileNode list \<times> ExtensionTable" where
  "resolve_files fset st i [] ext = Inr ([], ext)"
| "resolve_files fset st i (file # rest) ext =
     (let visible = visible_files fset i in
      case resolve_messages st (file_source file) visible i [] 0 (file_messages file) ext of
        Inl e \<Rightarrow> Inl e
      | Inr (ms, ext1) \<Rightarrow>
          (case resolve_extends st (file_source file) (file_scope file) visible i [] 0 (file_extends file) ext1 of
             Inl e \<Rightarrow> Inl e
           | Inr (xs, ext2) \<Rightarrow>
               (case resolve_files fset st (Suc i) rest ext2 of
                  Inl e \<Rightarrow> Inl e
                | Inr (rest1, ext3) \<Rightarrow>
                    Inr (file\<lparr>file_messages := ms, file_extends := xs\<rparr> # rest1, ext3))))"

definition resolve_types :: "ResolvedFileSet \<Rightarrow> Error + ResolvedFileSet \<times> SymbolTable" where
  "resolve_types fset =
     (case collect_symbols 0 (files fset) empty_resolver of
        Inl e \<Rightarrow> Inl e
      | Inr st \<Rightarrow>
          (case resolve_files fset st 0 (files fset) (extensions (m_table st)) of
             Inl e \<Rightarrow> Inl e
           | Inr (fs, ext) \<Rightarrow> Inr (fset\<lparr>files := fs\<rparr>, (m_table st)\<lparr>extensions := ext\<rparr>)))"

definition analyze :: "ResolvedFileSet \<Rightarrow> Error + ResolvedFileSet \<times> SymbolTable" where
  "analyze fset =
     (case resolve_features_set fset of
        Inl e \<Rightarrow> Inl e
      | Inr fset1 \<Rightarrow>
          (case resolve_types (compute_fqns_set fset1) of
             Inl e \<Rightarrow> Inl e
           | Inr (fset2, table) \<Rightarrow>
               (case interpret_options_files (files fset2) (Some (warnings table)) of
                  Inl e \<Rightarrow> Inl e
                | Inr (fs, w) \<Rightarrow>
                    Inr (fset2\<lparr>files := fs\<rparr>, table\<lparr>warnings := (case w of Some ws \<Rightarrow> ws | None \<Rightarrow> warnings table)\<rparr>))))"

end
