(* ===== verification/Type_Correct.thy ===== *)
theory Type_Correct
  imports Type_Resolver
begin

text \<open>
  What type resolution guarantees (src/src/resolve.cpp). The set of visible files is reachability
  over public imports; a relative name denotes the innermost visible declaration; the first pass
  fails exactly on a name declared twice; after a successful analysis every field has a type with
  consistent flags and every table entry designates a message of the final trees.
\<close>

section \<open>Visibility is reachability\<close>

definition public_targets :: "ResolvedFileSet \<Rightarrow> ImportNode list \<Rightarrow> nat set" where
  "public_targets fset imps =
     {b. \<exists>imp \<in> set imps. imp_kind imp = ImportPublic \<and>
           import_index fset (canonical_import_path (imp_path imp)) = Some b}"

definition public_edge :: "ResolvedFileSet \<Rightarrow> (nat \<times> nat) set" where
  "public_edge fset = {(a, b). b \<in> public_targets fset (imports_at fset a)}"

definition direct_imports :: "ResolvedFileSet \<Rightarrow> ImportNode list \<Rightarrow> nat set" where
  "direct_imports fset imps =
     {b. \<exists>imp \<in> set imps. imp_kind imp \<noteq> ImportOption \<and>
           import_index fset (canonical_import_path (imp_path imp)) = Some b}"

lemma scan_public_exact:
  "\<exists>new. scan_public fset imps (stack, visible) = (stack @ new, visible \<union> public_targets fset imps) \<and>
     set new = public_targets fset imps - visible"
proof (induction imps arbitrary: stack visible)
  case Nil
  show ?case by (simp add: public_targets_def)
next
  case (Cons imp imps)
  let ?i = "import_index fset (canonical_import_path (imp_path imp))"
  consider (push) t where "imp_kind imp = ImportPublic" "?i = Some t" "t \<notin> visible"
    | (seen) t where "imp_kind imp = ImportPublic" "?i = Some t" "t \<in> visible"
    | (skip) "imp_kind imp \<noteq> ImportPublic \<or> ?i = None" by (cases ?i) auto
  then show ?case
  proof cases
    case push
    then have T: "public_targets fset (imp # imps) = insert t (public_targets fset imps)"
      by (auto simp: public_targets_def)
    from Cons.IH [of "stack @ [t]" "insert t visible"] obtain new where
      "scan_public fset imps (stack @ [t], insert t visible) = (stack @ t # new, insert t visible \<union> public_targets fset imps)"
      "set new = public_targets fset imps - insert t visible" by auto
    with push T show ?thesis by (intro exI [of _ "t # new"]) auto
  next
    case seen
    then have "public_targets fset (imp # imps) = insert t (public_targets fset imps)"
      by (auto simp: public_targets_def)
    with seen Cons.IH [of stack visible] show ?thesis by (simp add: insert_absorb Un_insert_right insert_Diff_if)
  next
    case skip
    then have "public_targets fset (imp # imps) = public_targets fset imps" by (auto simp: public_targets_def)
    moreover from skip have "scan_public fset (imp # imps) (stack, visible) = scan_public fset imps (stack, visible)"
      by (auto split: option.splits)
    ultimately show ?thesis using Cons.IH by simp
  qed
qed

text \<open>A set of files is closed, except at \<open>i\<close> and the pending ones, when it contains their public imports.\<close>

definition closed_but :: "ResolvedFileSet \<Rightarrow> nat set \<Rightarrow> nat set \<Rightarrow> bool" where
  "closed_but fset pending visible \<longleftrightarrow> (\<forall>v \<in> visible - pending. public_edge fset `` {v} \<subseteq> visible)"

lemma public_edge_image: "public_edge fset `` {cur} = public_targets fset (imports_at fset cur)"
  by (auto simp: public_edge_def)

lemma closed_but_step:
  assumes "closed_but fset (insert i (set (stk @ [cur]))) visible"
    and "set new = public_edge fset `` {cur} - visible"
  shows "closed_but fset (insert i (set (stk @ new))) (visible \<union> public_edge fset `` {cur})"
  unfolding closed_but_def
proof
  fix v
  assume v: "v \<in> visible \<union> public_edge fset `` {cur} - insert i (set (stk @ new))"
  then have "v \<in> visible" using assms(2) by auto
  show "public_edge fset `` {v} \<subseteq> visible \<union> public_edge fset `` {cur}"
  proof (cases "v = cur")
    case False
    with v \<open>v \<in> visible\<close> have "v \<in> visible - insert i (set (stk @ [cur]))" by auto
    with assms(1) show ?thesis by (auto simp: closed_but_def)
  qed auto
qed

lemma reach_step:
  assumes "set new \<subseteq> E `` {cur}"
  shows "(visible \<union> E `` {cur}) \<union> E\<^sup>* `` set (stk @ new) \<subseteq> visible \<union> E\<^sup>* `` set (stk @ [cur])"
proof -
  have "E\<^sup>* `` (E `` {cur}) \<subseteq> E\<^sup>* `` {cur}" by (auto intro: converse_rtrancl_into_rtrancl)
  then have "E\<^sup>* `` set new \<subseteq> E\<^sup>* `` {cur}" using assms by blast
  then show ?thesis by (simp add: Image_Un) blast
qed

lemma add_public_closure_exact:
  "set stack \<subseteq> visible \<Longrightarrow> closed_but fset (insert i (set stack)) visible \<Longrightarrow>
     visible \<subseteq> add_public_closure fset stack visible \<and>
     add_public_closure fset stack visible \<subseteq> visible \<union> (public_edge fset)\<^sup>* `` set stack \<and>
     closed_but fset {i} (add_public_closure fset stack visible)"
proof (induction fset stack visible rule: add_public_closure.induct)
  case (1 fset stack visible)
  show ?case
  proof (cases stack rule: rev_cases)
    case Nil
    with 1 show ?thesis by (simp add: add_public_closure.simps [of _ "[]"])
  next
    case (snoc stk cur)
    let ?E = "public_edge fset"
    let ?V = "visible \<union> ?E `` {cur}"
    obtain new where scan: "scan_public fset (imports_at fset cur) (stk, visible) = (stk @ new, ?V)"
      and new: "set new = ?E `` {cur} - visible"
      using scan_public_exact unfolding public_edge_image by blast
    have step: "add_public_closure fset stack visible = add_public_closure fset (stk @ new) ?V"
      using snoc scan by (subst add_public_closure.simps) simp
    have "closed_but fset (insert i (set (stk @ new))) ?V"
      using 1(3) new unfolding snoc by (rule closed_but_step)
    moreover have "set (stk @ new) \<subseteq> ?V" using 1(2) snoc new by auto
    ultimately have IH: "?V \<subseteq> add_public_closure fset (stk @ new) ?V"
      "add_public_closure fset (stk @ new) ?V \<subseteq> ?V \<union> ?E\<^sup>* `` set (stk @ new)"
      "closed_but fset {i} (add_public_closure fset (stk @ new) ?V)"
      using 1(1) [of "(stk @ new, ?V)" "stk @ new" ?V] snoc scan by simp_all
    from new have "set new \<subseteq> ?E `` {cur}" by blast
    from subset_trans [OF IH(2) reach_step [OF this]] IH(1,3) show ?thesis
      unfolding step by (simp add: snoc)
  qed
qed

lemma add_direct_imports_exact:
  "closed_but fset {i} visible \<Longrightarrow>
     visible \<union> direct_imports fset imps \<subseteq> add_direct_imports fset imps visible \<and>
     add_direct_imports fset imps visible \<subseteq> visible \<union> (public_edge fset)\<^sup>* `` direct_imports fset imps \<and>
     closed_but fset {i} (add_direct_imports fset imps visible)"
proof (induction imps arbitrary: visible)
  case Nil
  then show ?case by (simp add: direct_imports_def)
next
  case (Cons imp imps)
  let ?E = "public_edge fset"
  show ?case
  proof (cases "imp_kind imp \<noteq> ImportOption \<and> import_index fset (canonical_import_path (imp_path imp)) \<noteq> None")
    case True
    then obtain t where t: "imp_kind imp \<noteq> ImportOption"
      "import_index fset (canonical_import_path (imp_path imp)) = Some t" by blast
    define V where "V = add_public_closure fset [t] (insert t visible)"
    have "closed_but fset (insert i (set [t])) (insert t visible)"
      using Cons.prems by (auto simp: closed_but_def)
    from add_public_closure_exact [OF _ this] have V: "insert t visible \<subseteq> V" "V \<subseteq> insert t visible \<union> ?E\<^sup>* `` {t}"
      "closed_but fset {i} V" by (auto simp: V_def)
    have D: "direct_imports fset (imp # imps) = insert t (direct_imports fset imps)"
      using t by (auto simp: direct_imports_def)
    have step: "add_direct_imports fset (imp # imps) visible = add_direct_imports fset imps V"
      using t by (simp add: V_def)
    from Cons.IH [OF V(3)] have IH: "V \<union> direct_imports fset imps \<subseteq> add_direct_imports fset imps V"
      "add_direct_imports fset imps V \<subseteq> V \<union> ?E\<^sup>* `` direct_imports fset imps"
      "closed_but fset {i} (add_direct_imports fset imps V)" by blast+
    have "V \<union> ?E\<^sup>* `` direct_imports fset imps \<subseteq> visible \<union> ?E\<^sup>* `` insert t (direct_imports fset imps)"
      using V(2) by blast
    with IH V(1) show ?thesis unfolding step D by (intro conjI) (blast, rule subset_trans, blast+)
  next
    case False
    then have "direct_imports fset (imp # imps) = direct_imports fset imps" by (auto simp: direct_imports_def)
    moreover from False have "add_direct_imports fset (imp # imps) visible = add_direct_imports fset imps visible"
      by (auto split: option.splits)
    ultimately show ?thesis using Cons by simp
  qed
qed

text \<open>
  Property C19. Import visibility is reachability. The files whose symbols are visible to file \<open>i\<close> are
  exactly \<open>i\<close> itself, its direct imports other than option imports, and everything reachable from
  those through public imports, whatever the import graph looks like; the closure loop ends.
\<close>

theorem visible_files_exact:
  "visible_files fset i =
     insert i ((public_edge fset)\<^sup>* `` direct_imports fset (imports_at fset i))"
proof -
  let ?E = "public_edge fset" and ?D = "direct_imports fset (imports_at fset i)"
  have "closed_but fset {i} {i}" by (simp add: closed_but_def)
  from add_direct_imports_exact [OF this, of "imports_at fset i"]
  have V: "i \<in> visible_files fset i" "?D \<subseteq> visible_files fset i"
    "visible_files fset i \<subseteq> insert i (?E\<^sup>* `` ?D)" "closed_but fset {i} (visible_files fset i)"
    by (auto simp: visible_files_def)
  have "?E `` {i} \<subseteq> ?D"
    unfolding public_edge_image public_targets_def direct_imports_def by force
  with V(2,4) have closed: "?E `` {v} \<subseteq> visible_files fset i" if "v \<in> visible_files fset i" for v
    using that by (cases "v = i") (auto simp: closed_but_def)
  have "j \<in> visible_files fset i" if "(t, j) \<in> ?E\<^sup>*" "t \<in> ?D" for t j
    using that by (induction rule: rtrancl_induct) (use V(2) closed in blast)+
  with V(1,3) show ?thesis by blast
qed

section \<open>Scope search finds the innermost visible name\<close>

definition dotted :: "string list \<Rightarrow> string" where
  "dotted cs = concat (map (\<lambda>c. ''.'' @ c) cs)"

lemma dotted_simps [simp]: "dotted [] = []" "dotted (cs @ [c]) = dotted cs @ ''.'' @ c"
  by (simp_all add: dotted_def)

lemma parent_scope_dotted: "CHR ''.'' \<notin> set c \<Longrightarrow> parent_scope (dotted (cs @ [c])) = dotted cs"
proof -
  assume "CHR ''.'' \<notin> set c"
  then have "dropWhile (\<lambda>x. x \<noteq> CHR ''.'') (rev c @ CHR ''.'' # rev (dotted cs)) = CHR ''.'' # rev (dotted cs)"
    by (subst dropWhile_append2) auto
  then show ?thesis by (simp add: parent_scope_def)
qed

lemma search_scope_innermost:
  "\<forall>c \<in> set cs. CHR ''.'' \<notin> set c \<Longrightarrow>
     search_scope vis name (dotted cs) = Some q \<longleftrightarrow>
       (\<exists>k \<le> length cs. q = dotted (take k cs) @ ''.'' @ name \<and> vis q \<and>
          (\<forall>j. k < j \<longrightarrow> j \<le> length cs \<longrightarrow> \<not> vis (dotted (take j cs) @ ''.'' @ name)))"
proof (induction cs arbitrary: q rule: rev_induct)
  case Nil
  show ?case by (subst search_scope.simps) (auto simp: Let_def)
next
  case (snoc c cs)
  let ?all = "dotted (cs @ [c]) @ ''.'' @ name"
  have le: "k \<le> length (cs @ [c]) \<longleftrightarrow> k = Suc (length cs) \<or> k \<le> length cs" for k by auto
  have "search_scope vis name (dotted (cs @ [c])) =
      (if vis ?all then Some ?all else search_scope vis name (dotted cs))"
    using snoc.prems parent_scope_dotted [of c cs] by (subst search_scope.simps) (simp add: Let_def)
  moreover have "search_scope vis name (dotted cs) = Some q \<longleftrightarrow>
       (\<exists>k \<le> length cs. q = dotted (take k cs) @ ''.'' @ name \<and> vis q \<and>
          (\<forall>j. k < j \<longrightarrow> j \<le> length cs \<longrightarrow> \<not> vis (dotted (take j cs) @ ''.'' @ name)))" for q
    using snoc by simp
  ultimately have step: "search_scope vis name (dotted (cs @ [c])) = Some q \<longleftrightarrow>
      (if vis ?all then q = ?all else (\<exists>k \<le> length cs. q = dotted (take k cs) @ ''.'' @ name \<and> vis q \<and>
          (\<forall>j. k < j \<longrightarrow> j \<le> length cs \<longrightarrow> \<not> vis (dotted (take j cs) @ ''.'' @ name))))"
    by auto
  show ?case
  proof (cases "vis ?all")
    case True
    have "\<not> (\<forall>j. k < j \<longrightarrow> j \<le> length (cs @ [c]) \<longrightarrow> \<not> vis (dotted (take j (cs @ [c])) @ ''.'' @ name))"
      if "k \<le> length cs" for k
      using True that by (intro notI, elim allE [where x = "Suc (length cs)"]) simp
    with True step show ?thesis unfolding le by (auto simp del: dotted_simps(2))
  next
    case False
    with step show ?thesis unfolding le by (auto simp del: dotted_simps(2))
  qed
qed

text \<open>
  Property C20. A relative type name means the innermost visible declaration. In the scope with the
  components \<open>cs\<close>, resolution returns a name exactly when it is the scope's prefix of some length
  followed by the written name, it is visible, and no longer prefix gives a visible name.
\<close>

theorem resolve_name_innermost:
  assumes "\<forall>c \<in> set cs. CHR ''.'' \<notin> set c" and "name \<noteq> [] \<longrightarrow> hd name \<noteq> CHR ''.''"
  shows "resolve_name st name (dotted cs) visible = Some q \<longleftrightarrow>
     (\<exists>k \<le> length cs. q = dotted (take k cs) @ ''.'' @ name \<and> is_visible st visible q \<and>
        (\<forall>j. k < j \<longrightarrow> j \<le> length cs \<longrightarrow> \<not> is_visible st visible (dotted (take j cs) @ ''.'' @ name)))"
proof -
  have "resolve_name st name (dotted cs) visible = search_scope (is_visible st visible) name (dotted cs)"
    using assms(2) by (auto simp: resolve_name_def)
  then show ?thesis by (simp only: search_scope_innermost [OF assms(1)])
qed

theorem resolve_name_innermost_witness:
  "resolve_name (empty_resolver\<lparr>m_symbols := [''.p.M'' \<mapsto> \<lparr>sym_kind = SymMessage, sym_file = 0\<rparr>]\<rparr>)
     ''M'' (dotted [''p'', ''N'']) {0} = Some ''.p.M''"
proof -
  let ?st = "empty_resolver\<lparr>m_symbols := [''.p.M'' \<mapsto> \<lparr>sym_kind = SymMessage, sym_file = 0\<rparr>]\<rparr>"
  have vis: "is_visible ?st {0} q \<longleftrightarrow> q = ''.p.M''" for q by (simp add: is_visible_def)
  have "j \<le> 2 \<Longrightarrow> 1 < j \<Longrightarrow> j = 2" for j :: nat by simp
  then show ?thesis
    using resolve_name_innermost [of "[''p'', ''N'']" "''M''" ?st "{0}" "''.p.M''"]
    by (simp only: vis) (auto simp: dotted_def take_Cons' intro!: exI [of _ 1])
qed

lemma search_scope_visible: "search_scope vis name cur = Some q \<Longrightarrow> vis q"
  by (induction vis name cur rule: search_scope.induct)
    (subst (asm) (2) search_scope.simps, auto simp: Let_def split: if_splits)

lemma resolve_name_known: "resolve_name st name scope visible = Some q \<Longrightarrow> \<exists>s. m_symbols st q = Some s"
  by (auto simp: resolve_name_def is_visible_def split: if_splits option.splits dest: search_scope_visible)

section \<open>The symbol table\<close>

definition enum_symbols :: "nat \<Rightarrow> EnumNode list \<Rightarrow> (string \<times> Sym) list" where
  "enum_symbols fi es = map (\<lambda>e. (en_fqn e, \<lparr>sym_kind = SymEnum, sym_file = fi\<rparr>)) es"

fun message_symbols :: "nat \<Rightarrow> MessageNode \<Rightarrow> (string \<times> Sym) list" where
  "message_symbols fi (MessageNode m ns) =
     (msg_fqn m, \<lparr>sym_kind = SymMessage, sym_file = fi\<rparr>) # concat (map (message_symbols fi) ns) @
     enum_symbols fi (msg_enums m)"

definition file_symbols :: "nat \<Rightarrow> FileNode \<Rightarrow> (string \<times> Sym) list" where
  "file_symbols fi file = concat (map (message_symbols fi) (file_messages file)) @ enum_symbols fi (file_enums file)"

fun set_symbols :: "nat \<Rightarrow> FileNode list \<Rightarrow> (string \<times> Sym) list" where
  "set_symbols i [] = []"
| "set_symbols i (file # rest) = file_symbols i file @ set_symbols (Suc i) rest"

definition fresh :: "(string \<times> Sym) list \<Rightarrow> TypeResolver \<Rightarrow> bool" where
  "fresh l st \<longleftrightarrow> distinct (map fst l) \<and> (\<forall>q \<in> set (map fst l). m_symbols st q = None)"

definition table_matches :: "TypeResolver \<Rightarrow> bool" where
  "table_matches st \<longleftrightarrow>
     symbols (m_table st) = map_option sym_kind \<circ> m_symbols st \<and>
     extensions (m_table st) = (\<lambda>_. None) \<and> warnings (m_table st) = []"

definition add_symbols ::
    "(string \<times> Sym) list \<Rightarrow> (string \<Rightarrow> Sym option) \<Rightarrow> (string \<Rightarrow> Sym option)" where
  "add_symbols l m = (\<lambda>q. case map_of l q of Some s \<Rightarrow> Some s | None \<Rightarrow> m q)"

text \<open>Collecting a list of symbols : it succeeds on fresh distinct names and adds them.\<close>

definition collected :: "(string \<times> Sym) list \<Rightarrow> TypeResolver \<Rightarrow> Error + TypeResolver \<Rightarrow> bool" where
  "collected l st r \<longleftrightarrow>
     (case r of
        Inl e \<Rightarrow> \<not> fresh l st
      | Inr su \<Rightarrow> fresh l st \<and> (table_matches st \<longrightarrow> table_matches su) \<and>
          m_symbols su = add_symbols l (m_symbols st))"

lemma collected_Nil: "collected [] st (Inr st)"
  by (simp add: collected_def fresh_def add_symbols_def)

lemma collected_record: "collected [(q, \<lparr>sym_kind = k, sym_file = fi\<rparr>)] st (record_symbol q k fi src st)"
  by (auto simp: collected_def fresh_def record_symbol_def table_matches_def add_symbols_def fun_eq_iff)

lemma add_symbols_None: "add_symbols l m q = None \<longleftrightarrow> q \<notin> fst ` set l \<and> m q = None"
  by (simp add: add_symbols_def map_of_eq_None_iff split: option.split) (force dest: map_of_SomeD)

lemma add_symbols_append:
  assumes "\<forall>q \<in> fst ` set l'. q \<notin> fst ` set l"
  shows "add_symbols l' (add_symbols l m) = add_symbols (l @ l') m"
proof
  fix q
  show "add_symbols l' (add_symbols l m) q = add_symbols (l @ l') m q"
  proof (cases "q \<in> fst ` set l'")
    case True
    with assms have "q \<notin> fst ` set l" by blast
    then have "map_of l q = None" by (simp add: map_of_eq_None_iff)
    then show ?thesis by (simp add: add_symbols_def map_add_def split: option.split)
  next
    case False
    then have "map_of l' q = None" by (simp add: map_of_eq_None_iff)
    then show ?thesis by (simp add: add_symbols_def map_add_def split: option.split)
  qed
qed

lemma fresh_append:
  "fresh (l @ m) st \<longleftrightarrow> fresh l st \<and> distinct (map fst m) \<and>
     (\<forall>q \<in> fst ` set m. q \<notin> fst ` set l \<and> m_symbols st q = None)"
proof -
  have "fst ` set l \<inter> fst ` set m = {} \<longleftrightarrow> (\<forall>q \<in> fst ` set m. q \<notin> fst ` set l)" by blast
  then show ?thesis unfolding fresh_def by (simp add: ball_Un) metis
qed

lemma fresh_cong: "m_symbols st = m_symbols su \<Longrightarrow> fresh l st = fresh l su"
  by (simp add: fresh_def)

lemma collected_append:
  assumes "collected l st r" "\<And>su. r = Inr su \<Longrightarrow> collected l' su (f su)"
  shows "collected (l @ l') st (case r of Inl e \<Rightarrow> Inl e | Inr su \<Rightarrow> f su)"
proof (cases r)
  case (Inl e)
  with assms(1) show ?thesis by (simp add: collected_def fresh_append)
next
  case (Inr su)
  with assms(1) have su: "fresh l st" "table_matches st \<longrightarrow> table_matches su"
    "m_symbols su = add_symbols l (m_symbols st)"
    by (simp_all add: collected_def)
  then have iff: "fresh (l @ l') st \<longleftrightarrow> fresh l' su"
    unfolding fresh_append fresh_def [of l' su] by (simp add: add_symbols_None)
  have "add_symbols l' (m_symbols su) = add_symbols (l @ l') (m_symbols st)" if "fresh l' su"
    using that su(3) by (simp add: add_symbols_append fresh_def add_symbols_None)
  with Inr assms(2) [OF Inr] su iff show ?thesis
    by (auto simp: collected_def split: sum.splits)
qed

lemma collected_note [simp]:
  "collected l (note_message q r st) x = collected l st x"
  "collected l (note_enum q r' st) x = collected l st x"
  by (simp_all add: collected_def note_message_def note_enum_def fresh_def table_matches_def split: sum.split)

lemma collect_enums_collected: "collected (enum_symbols fi es) st (collect_enums fi src path k es st)"
proof (induction es arbitrary: k st)
  case Nil
  show ?case by (simp add: enum_symbols_def collected_Nil)
next
  case (Cons e es)
  have "collected ([(en_fqn e, \<lparr>sym_kind = SymEnum, sym_file = fi\<rparr>)] @ enum_symbols fi es) st
      (case record_symbol (en_fqn e) SymEnum fi src st of Inl er \<Rightarrow> Inl er
       | Inr su \<Rightarrow> collect_enums fi src path (Suc k) es (note_enum (en_fqn e) (fi, path, k) su))"
    by (rule collected_append [OF collected_record]) (metis Cons.IH collected_note(2))
  then show ?case by (simp add: enum_symbols_def)
qed

lemma collect_messages_collected:
  "collected (message_symbols fi m) st (collect_message fi src path m st)"
  "collected (concat (map (message_symbols fi) ms)) st (collect_messages fi src path k ms st)"
proof (induction fi src path m st and fi src path k ms st rule: collect_message_collect_messages.induct)
  case (1 fi src path m ns st)
  have "collected ([(msg_fqn m, \<lparr>sym_kind = SymMessage, sym_file = fi\<rparr>)] @
      (concat (map (message_symbols fi) ns) @ enum_symbols fi (msg_enums m))) st
      (case record_symbol (msg_fqn m) SymMessage fi src st of Inl e \<Rightarrow> Inl e
       | Inr su \<Rightarrow>
          (case collect_messages fi src path 0 ns (note_message (msg_fqn m) (fi, path) su) of
             Inl e \<Rightarrow> Inl e
           | Inr sv \<Rightarrow> collect_enums fi src path 0 (msg_enums m) sv))"
  proof (rule collected_append [OF collected_record], rule collected_append)
    fix su
    assume "record_symbol (msg_fqn m) SymMessage fi src st = Inr su"
    with 1 show "collected (concat (map (message_symbols fi) ns)) su
        (collect_messages fi src path 0 ns (note_message (msg_fqn m) (fi, path) su))"
      by (metis collected_note(1))
  qed (rule collect_enums_collected)
  then show ?case by simp
next
  case (2 fi src path k st)
  show ?case by (simp add: collected_Nil)
next
  case (3 fi src path k n ns st)
  have "collected (message_symbols fi n @ concat (map (message_symbols fi) ns)) st
      (case collect_message fi src (path @ [k]) n st of Inl e \<Rightarrow> Inl e
       | Inr su \<Rightarrow> collect_messages fi src path (Suc k) ns su)"
    using 3 by (intro collected_append) auto
  then show ?case by simp
qed

lemma collect_symbols_collected: "collected (set_symbols i fs) st (collect_symbols i fs st)"
proof (induction fs arbitrary: i st)
  case Nil
  show ?case by (simp add: collected_Nil)
next
  case (Cons f fs)
  have "collected (concat (map (message_symbols i) (file_messages f)) @ (enum_symbols i (file_enums f) @ set_symbols (Suc i) fs)) st
     (case collect_messages i (file_source f) [] 0 (file_messages f) st of
        Inl e \<Rightarrow> Inl e
      | Inr su \<Rightarrow>
          (case collect_enums i (file_source f) [] 0 (file_enums f) su of
             Inl e \<Rightarrow> Inl e
           | Inr sv \<Rightarrow> collect_symbols (Suc i) fs sv))"
    by (intro collected_append collect_messages_collected collect_enums_collected Cons.IH)
  then show ?case by (simp add: file_symbols_def)
qed

lemma add_symbols_empty: "add_symbols l (\<lambda>_. None) = map_of l"
  by (rule ext) (simp add: add_symbols_def split: option.split)

lemma empty_resolver_matches: "table_matches empty_resolver" "m_symbols empty_resolver = (\<lambda>_. None)"
  by (simp_all add: table_matches_def empty_resolver_def fun_eq_iff)

lemma collected_empty:
  "collected l empty_resolver r \<longleftrightarrow>
     (case r of
        Inl e \<Rightarrow> \<not> distinct (map fst l)
      | Inr su \<Rightarrow> distinct (map fst l) \<and> table_matches su \<and> m_symbols su = map_of l)"
  by (simp add: collected_def fresh_def empty_resolver_matches add_symbols_empty split: sum.split)

text \<open>
  Property C29. Symbol collection rejects exactly the duplicate type names. It fails precisely when two
  messages or enums of the file set, at any depth, have the same fully qualified name; otherwise the
  table maps exactly the declared names to their kinds.
\<close>

theorem collect_symbols_exact:
  "case collect_symbols 0 fs empty_resolver of
     Inl e \<Rightarrow> \<not> distinct (map fst (set_symbols 0 fs))
   | Inr st \<Rightarrow> distinct (map fst (set_symbols 0 fs)) \<and>
       symbols (m_table st) = map_option sym_kind \<circ> map_of (set_symbols 0 fs)"
  using collect_symbols_collected [of 0 fs empty_resolver]
  by (auto simp: collected_empty table_matches_def split: sum.splits)

section \<open>Resolved fields are typed\<close>

definition typed_field :: "(string \<Rightarrow> SymbolKind option) \<Rightarrow> FieldNode \<Rightarrow> bool" where
  "typed_field tab f \<longleftrightarrow>
     is_scalar_type (type_name f) \<or>
     (\<exists>k. tab (resolved_type_fqn f) = Some k \<and>
        is_message_type f = (k = SymMessage) \<and> is_enum_type f = (k = SymEnum) \<and>
        (k = SymMessage \<longrightarrow> presence f \<noteq> Implicit) \<and> (is_repeated f \<longrightarrow> repeated_encoding f = Expanded))"

definition typed_map :: "(string \<Rightarrow> SymbolKind option) \<Rightarrow> MapFieldNode \<Rightarrow> bool" where
  "typed_map tab f \<longleftrightarrow>
     is_valid_map_key_type (key_type f) \<and>
     (is_scalar_type (value_type f) \<or>
      (\<exists>k. tab (resolved_value_type_fqn f) = Some k \<and>
         value_is_message f = (k = SymMessage) \<and> value_is_enum f = (k = SymEnum)))"

fun all_maps :: "MessageNode \<Rightarrow> MapFieldNode list" where
  "all_maps (MessageNode m ns) = map_fields m @ concat (map all_maps ns)"

definition typed_message :: "(string \<Rightarrow> SymbolKind option) \<Rightarrow> MessageNode \<Rightarrow> bool" where
  "typed_message tab m \<longleftrightarrow> list_all (typed_field tab) (all_fields m) \<and> list_all (typed_map tab) (all_maps m)"

definition typed_extend :: "(string \<Rightarrow> SymbolKind option) \<Rightarrow> ExtendNode \<Rightarrow> bool" where
  "typed_extend tab x \<longleftrightarrow> list_all (typed_field tab) (ext_fields x)"

definition typed_file :: "(string \<Rightarrow> SymbolKind option) \<Rightarrow> FileNode \<Rightarrow> bool" where
  "typed_file tab file \<longleftrightarrow>
     list_all (typed_message tab) (file_messages file) \<and> list_all (typed_extend tab) (file_extends file)"

lemma list_all_concat_map: "list_all P (concat (map g xs)) \<longleftrightarrow> list_all (\<lambda>x. list_all P (g x)) xs"
  by (induction xs) simp_all

lemma typed_message_node:
  "typed_message tab (MessageNode m ns) \<longleftrightarrow>
     list_all (typed_field tab) (msg_fields m) \<and>
     list_all (\<lambda>oo. list_all (typed_field tab) (oo_fields oo)) (oneofs m) \<and>
     list_all (typed_map tab) (map_fields m) \<and> list_all (typed_extend tab) (msg_extends m) \<and>
     list_all (typed_message tab) ns"
  by (auto simp: typed_message_def typed_extend_def list_all_concat_map list_all_iff)

text \<open>What a successful early-return loop has produced.\<close>

lemma map_err_all: "map_err f xs = Inr ys \<Longrightarrow> (\<And>x y. f x = Inr y \<Longrightarrow> P y) \<Longrightarrow> list_all P ys"
  by (induction xs arbitrary: ys) (auto split: sum.splits)

lemma resolve_name_kind:
  assumes "resolve_name st name scope visible = Some q" "table_matches st"
  shows "symbols (m_table st) q = Some (kind_of st q)"
  using resolve_name_known [OF assms(1)] assms(2) by (auto simp: table_matches_def kind_of_def)

lemma resolve_field_typed:
  assumes "resolve_field st src scope visible f = Inr g" "table_matches st"
  shows "typed_field (symbols (m_table st)) g"
proof (cases "is_scalar_type (type_name f)")
  case True
  with assms(1) show ?thesis by (simp add: resolve_field_def typed_field_def)
next
  case False
  with assms(1) obtain q where q: "resolve_name st (type_name f) scope visible = Some q"
    by (auto simp: resolve_field_def split: option.splits)
  note tab = resolve_name_kind [OF q assms(2)]
  with assms(1) False q show ?thesis
    by (cases "kind_of st q")
      (auto simp: resolve_field_def typed_field_def Let_def split: if_splits)
qed

lemma resolve_map_typed:
  assumes "resolve_map st src scope visible f = Inr g" "table_matches st"
  shows "typed_map (symbols (m_table st)) g"
  using assms resolve_name_kind [OF _ assms(2)]
  by (auto simp: resolve_map_def typed_map_def split: if_splits option.splits)

lemma resolve_extend_fields_typed:
  assumes "table_matches st"
  shows "resolve_extend_fields st src scope visible extendee pos j fs ext = Inr (gs, ext1) \<Longrightarrow>
    list_all (typed_field (symbols (m_table st))) gs"
proof (induction fs arbitrary: j ext gs)
  case Nil
  then show ?case by (cases pos) simp
next
  case (Cons f fs)
  then show ?case
    by (cases pos) (auto split: sum.splits if_splits intro: resolve_field_typed [OF _ assms])
qed

lemma resolve_extends_typed:
  assumes "table_matches st"
  shows "resolve_extends st src scope visible fi path k xs ext = Inr (ys, ext1) \<Longrightarrow>
    list_all (typed_extend (symbols (m_table st))) ys"
proof (induction xs arbitrary: k ext ys)
  case (Cons x xs)
  from Cons.prems obtain y e zs where
    *: "resolve_extend st src scope visible (fi, path, k) x ext = Inr (y, e)"
    "resolve_extends st src scope visible fi path (Suc k) xs e = Inr (zs, ext1)" "ys = y # zs"
    by (auto split: sum.splits)
  from *(1) have "typed_extend (symbols (m_table st)) y"
    by (auto simp: resolve_extend_def typed_extend_def split: option.splits if_splits sum.splits
        dest: resolve_extend_fields_typed [OF assms])
  with Cons.IH [OF *(2)] *(3) show ?case by simp
qed simp

lemma resolve_oneof_typed:
  assumes "resolve_oneof st src scope visible x = Inr y" "table_matches st"
  shows "list_all (typed_field (symbols (m_table st))) (oo_fields y)"
  using assms(1) by (auto simp: resolve_oneof_def split: sum.splits
      elim!: map_err_all intro: resolve_field_typed [OF _ assms(2)])

lemma resolve_members_typed:
  assumes "resolve_members st src visible m = Inr n" "table_matches st"
  shows "list_all (typed_field (symbols (m_table st))) (msg_fields n)"
    and "list_all (\<lambda>oo. list_all (typed_field (symbols (m_table st))) (oo_fields oo)) (oneofs n)"
    and "list_all (typed_map (symbols (m_table st))) (map_fields n)"
  using assms(1)
  by (auto simp: resolve_members_def split: sum.splits elim!: map_err_all
      intro: resolve_field_typed [OF _ assms(2)] resolve_oneof_typed [OF _ assms(2)] resolve_map_typed [OF _ assms(2)])

lemma resolve_message_typed:
  "resolve_message st src visible fi path m ext = Inr (n, ext1) \<Longrightarrow> table_matches st \<Longrightarrow>
     typed_message (symbols (m_table st)) n"
  "resolve_messages st src visible fi path k ms ext = Inr (ns, ext1) \<Longrightarrow> table_matches st \<Longrightarrow>
     list_all (typed_message (symbols (m_table st))) ns"
proof (induction st src visible fi path m ext and st src visible fi path k ms ext
    arbitrary: n ext1 and ns ext1 rule: resolve_message_resolve_messages.induct)
  case (1 st src visible fi path m ns ext)
  from 1(2) obtain m1 ns1 e1 xs where *: "resolve_members st src visible m = Inr m1"
    "resolve_messages st src visible fi path 0 ns ext = Inr (ns1, e1)"
    "resolve_extends st src (msg_fqn m) visible fi path 0 (msg_extends m1) e1 = Inr (xs, ext1)"
    "n = MessageNode (m1\<lparr>msg_extends := xs\<rparr>) ns1"
    by (auto split: sum.splits)
  from 1(1) [OF *(1,2) 1(3)] resolve_members_typed [OF *(1) 1(3)]
    resolve_extends_typed [OF 1(3) *(3)] *(4)
  show ?case by (simp add: typed_message_node)
qed (auto split: sum.splits)

lemma resolve_files_ConsE:
  assumes "resolve_files fset st i (f # fs) ext = Inr (gs, ext1)"
  obtains ms e1 xs e2 hs where
    "resolve_messages st (file_source f) (visible_files fset i) i [] 0 (file_messages f) ext = Inr (ms, e1)"
    "resolve_extends st (file_source f) (file_scope f) (visible_files fset i) i [] 0 (file_extends f) e1 = Inr (xs, e2)"
    "resolve_files fset st (Suc i) fs e2 = Inr (hs, ext1)"
    "gs = f\<lparr>file_messages := ms, file_extends := xs\<rparr> # hs"
  using assms that by (auto simp: Let_def split: sum.splits)

lemma resolve_files_typed:
  assumes "table_matches st"
  shows "resolve_files fset st i fs ext = Inr (gs, ext1) \<Longrightarrow> list_all (typed_file (symbols (m_table st))) gs"
proof (induction fs arbitrary: i ext gs)
  case (Cons f fs)
  from resolve_files_ConsE [OF Cons.prems] obtain ms e1 xs e2 hs where
    *: "resolve_messages st (file_source f) (visible_files fset i) i [] 0 (file_messages f) ext = Inr (ms, e1)"
      "resolve_extends st (file_source f) (file_scope f) (visible_files fset i) i [] 0 (file_extends f) e1 = Inr (xs, e2)"
      "resolve_files fset st (Suc i) fs e2 = Inr (hs, ext1)"
      "gs = f\<lparr>file_messages := ms, file_extends := xs\<rparr> # hs"
    by metis
  from resolve_message_typed(2) [OF *(1) assms] resolve_extends_typed [OF assms *(2)] Cons.IH [OF *(3)] *(4)
  show ?case by (simp add: typed_file_def)
qed simp

lemma packable_scalar: "is_packable_scalar t \<Longrightarrow> is_scalar_type t"
  by (simp add: is_packable_scalar_def)

lemma interpret_field_typed: "typed_field tab f \<Longrightarrow> typed_field tab (interpret_field f)"
  by (auto simp: typed_field_def interpret_field_def Let_def packable_scalar split: option.splits OptionValue.splits)

lemma interpreted_typed: "typed_message tab m \<Longrightarrow> typed_message tab (interpreted m)"
  by (induction m rule: interpreted.induct)
    (auto simp: typed_message_node interpret_own_fields_def typed_extend_def list_all_iff
      intro: interpret_field_typed)

lemma interpreted_file_typed: "typed_file tab f \<Longrightarrow> typed_file tab (interpreted_file f)"
  by (auto simp: typed_file_def interpreted_file_def typed_extend_def list_all_iff
      intro: interpreted_typed interpret_field_typed)

lemma analyzeE:
  assumes "analyze fset = Inr (fset', table)"
  obtains fset1 st fs ext where "resolve_features_set fset = Inr fset1"
    "collect_symbols 0 (files (compute_fqns_set fset1)) empty_resolver = Inr st"
    "resolve_files (compute_fqns_set fset1) st 0 (files (compute_fqns_set fset1)) (extensions (m_table st)) = Inr (fs, ext)"
    "files fset' = map interpreted_file fs" "symbols table = symbols (m_table st)"
    "messages table = messages (m_table st)"
  using assms
  by (auto simp: analyze_def resolve_types_def interpret_options_files_ok split: sum.splits)

text \<open>
  Property C4. Analysis leaves every field typed. When the analysis of a file set succeeds, every
  field of every message, oneof and extend block, at any depth, is of scalar type or refers to a
  symbol of the table with the kind its flags say; a message-typed field is never implicit, a
  repeated field of user-defined type is expanded, and every map has an allowed key type and a
  resolved value type. The passes before and after type resolution keep this.
\<close>

theorem analyze_typed:
  "analyze fset = Inr (fset', table) \<Longrightarrow> list_all (typed_file (symbols table)) (files fset')"
proof -
  assume "analyze fset = Inr (fset', table)"
  then obtain fset1 st fs ext where
    *: "collect_symbols 0 (files (compute_fqns_set fset1)) empty_resolver = Inr st"
      "resolve_files (compute_fqns_set fset1) st 0 (files (compute_fqns_set fset1)) (extensions (m_table st)) = Inr (fs, ext)"
      "files fset' = map interpreted_file fs" "symbols table = symbols (m_table st)"
    by (rule analyzeE)
  have "table_matches st"
    using collect_symbols_collected [of 0 "files (compute_fqns_set fset1)" empty_resolver] *(1)
    by (simp add: collected_empty)
  from resolve_files_typed [OF this *(2)] *(3,4) show ?thesis
    by (auto simp: list_all_iff intro: interpreted_file_typed)
qed

definition demo_schema :: ResolvedFileSet where
  "demo_schema = \<lparr>files = [default_file\<lparr>filename := ''a'', file_package := ''p'', file_messages :=
       [MessageNode (default_message\<lparr>msg_name := ''M'',
          msg_fields := [default_field\<lparr>fld_name := ''self'', type_name := ''M''\<rparr>]\<rparr>) []]\<rparr>],
     file_index = [(''a'', 0)]\<rparr>"

lemma analyze_demo: "\<exists>fset table. analyze demo_schema = Inr (fset, table) \<and> messages table ''.p.M'' = Some (0, [0])"
proof -
  have "(case analyze demo_schema of Inl e \<Rightarrow> None | Inr (fset, table) \<Rightarrow> messages table ''.p.M'') = Some (0, [0])"
    by code_simp
  then show ?thesis by (cases "analyze demo_schema") auto
qed

theorem analyze_typed_witness:
  "\<exists>fset table. analyze demo_schema = Inr (fset, table) \<and> list_all (typed_file (symbols table)) (files fset)"
  using analyze_demo analyze_typed [of demo_schema] by blast

section \<open>Table entries designate their messages\<close>

fun message_at :: "MessageNode list \<Rightarrow> nat list \<Rightarrow> MessageNode option" where
  "message_at ms [] = None"
| "message_at ms [i] = (if i < length ms then Some (ms ! i) else None)"
| "message_at ms (i # j # p) = (if i < length ms then message_at (nested_messages (ms ! i)) (j # p) else None)"

lemma message_at_snoc:
  "message_at ms p = Some m \<Longrightarrow>
     message_at ms (p @ [k]) = (if k < length (nested_messages m) then Some (nested_messages m ! k) else None)"
  by (induction ms p rule: message_at.induct) (auto split: if_splits)

abbreviation node_fqn :: "MessageNode \<Rightarrow> string" where
  "node_fqn m \<equiv> msg_fqn (msg_data m)"

definition designates :: "FileNode list \<Rightarrow> MessageRef \<Rightarrow> string \<Rightarrow> bool" where
  "designates fs r q \<longleftrightarrow> (case r of (fi, path) \<Rightarrow>
     fi < length fs \<and> (\<exists>m. message_at (file_messages (fs ! fi)) path = Some m \<and> node_fqn m = q))"

definition refs_ok :: "FileNode list \<Rightarrow> TypeResolver \<Rightarrow> bool" where
  "refs_ok fs st \<longleftrightarrow>
     (\<forall>q r. messages (m_table st) q = Some r \<longrightarrow> designates fs r q) \<and>
     (\<forall>q. messages (m_table st) q = None \<longleftrightarrow> symbols (m_table st) q \<noteq> Some SymMessage) \<and>
     (\<forall>q. m_symbols st q = None \<longrightarrow> symbols (m_table st) q = None)"

lemma refs_ok_fresh: "refs_ok fs st \<Longrightarrow> m_symbols st q = None \<Longrightarrow> messages (m_table st) q = None"
  by (simp add: refs_ok_def)

lemma refs_ok_enum:
  assumes "record_symbol q SymEnum fi src st = Inr su" "refs_ok fs st"
  shows "refs_ok fs (note_enum q r su)"
proof -
  from assms(1) have su: "m_symbols st q = None"
    "su = st\<lparr>m_symbols := (m_symbols st)(q \<mapsto> \<lparr>sym_kind = SymEnum, sym_file = fi\<rparr>),
        m_table := (m_table st)\<lparr>symbols := (symbols (m_table st))(q \<mapsto> SymEnum)\<rparr>\<rparr>"
    by (auto simp: record_symbol_def split: if_splits)
  from refs_ok_fresh [OF assms(2) su(1)] assms(2) show ?thesis
    by (simp add: su(2) refs_ok_def note_enum_def)
qed

lemma refs_ok_message:
  assumes "record_symbol q SymMessage fi src st = Inr su" "refs_ok fs st" "designates fs r q"
  shows "refs_ok fs (note_message q r su)"
proof -
  from assms(1) have su: "m_symbols st q = None"
    "su = st\<lparr>m_symbols := (m_symbols st)(q \<mapsto> \<lparr>sym_kind = SymMessage, sym_file = fi\<rparr>),
        m_table := (m_table st)\<lparr>symbols := (symbols (m_table st))(q \<mapsto> SymMessage)\<rparr>\<rparr>"
    by (auto simp: record_symbol_def split: if_splits)
  from refs_ok_fresh [OF assms(2) su(1)] assms(2,3) show ?thesis
    by (cases r) (simp add: su(2) refs_ok_def note_message_def emplace_def)
qed

lemma refs_ok_enums: "collect_enums fi src path k es st = Inr su \<Longrightarrow> refs_ok fs st \<Longrightarrow> refs_ok fs su"
  by (induction fi src path k es st rule: collect_enums.induct) (auto split: sum.splits intro: refs_ok_enum)

lemma refs_ok_messages:
  "collect_message fi src path m st = Inr su \<Longrightarrow> refs_ok fs st \<Longrightarrow> fi < length fs \<Longrightarrow>
     message_at (file_messages (fs ! fi)) path = Some m \<Longrightarrow> refs_ok fs su"
  "collect_messages fi src path k ms st = Inr su \<Longrightarrow> refs_ok fs st \<Longrightarrow> fi < length fs \<Longrightarrow>
     \<forall>j < length ms. message_at (file_messages (fs ! fi)) (path @ [k + j]) = Some (ms ! j) \<Longrightarrow> refs_ok fs su"
proof (induction fi src path m st and fi src path k ms st arbitrary: su and su
    rule: collect_message_collect_messages.induct)
  case (1 fi src path m ns st)
  from 1(2) obtain st1 st2 where *: "record_symbol (msg_fqn m) SymMessage fi src st = Inr st1"
    "collect_messages fi src path 0 ns (note_message (msg_fqn m) (fi, path) st1) = Inr st2"
    "collect_enums fi src path 0 (msg_enums m) st2 = Inr su"
    by (auto split: sum.splits)
  have "designates fs (fi, path) (msg_fqn m)" using 1(4,5) by (simp add: designates_def)
  from 1(1) [OF *(1,2) refs_ok_message [OF *(1) 1(3) this] 1(4)] message_at_snoc [OF 1(5)]
  have "refs_ok fs st2" by simp
  with *(3) show ?case by (rule refs_ok_enums)
next
  case (3 fi src path k n ns st)
  from 3(3) obtain st1 where *: "collect_message fi src (path @ [k]) n st = Inr st1"
    "collect_messages fi src path (Suc k) ns st1 = Inr su"
    by (auto split: sum.splits)
  have hd: "message_at (file_messages (fs ! fi)) (path @ [k]) = Some n" using 3(6) by (auto dest: spec [of _ 0])
  have tl: "\<forall>j < length ns. message_at (file_messages (fs ! fi)) (path @ [Suc k + j]) = Some (ns ! j)"
  proof (intro allI impI)
    fix j
    assume "j < length ns"
    with 3(6) have "message_at (file_messages (fs ! fi)) (path @ [k + Suc j]) = Some ((n # ns) ! Suc j)"
      by (metis Suc_less_eq length_Cons)
    then show "message_at (file_messages (fs ! fi)) (path @ [Suc k + j]) = Some (ns ! j)" by simp
  qed
  from 3(1) [OF *(1) 3(4,5) hd] have "refs_ok fs st1" .
  from 3(2) [OF *(1,2) this 3(5) tl] show ?case .
qed simp

lemma refs_ok_symbols:
  "collect_symbols i gs st = Inr su \<Longrightarrow> refs_ok fs st \<Longrightarrow> drop i fs = gs \<Longrightarrow> refs_ok fs su"
proof (induction gs arbitrary: i st)
  case (Cons g gs)
  then have i: "i < length fs" "fs ! i = g" "drop (Suc i) fs = gs"
    by (metis drop_eq_Nil list.distinct(1) not_le, metis drop_eq_Nil hd_drop_conv_nth list.distinct(1) list.sel(1) not_le,
        metis drop_Suc list.sel(3) tl_drop)
  from Cons.prems(1) obtain st1 st2 where
    *: "collect_messages i (file_source g) [] 0 (file_messages g) st = Inr st1"
      "collect_enums i (file_source g) [] 0 (file_enums g) st1 = Inr st2" "collect_symbols (Suc i) gs st2 = Inr su"
    by (auto split: sum.splits)
  have "refs_ok fs st1"
    by (rule refs_ok_messages(2) [OF *(1) Cons.prems(2) i(1)]) (simp add: i(2))
  with *(2) have "refs_ok fs st2" by (rule refs_ok_enums)
  with *(3) i(3) Cons.IH show ?case by blast
qed simp

text \<open>The later passes keep the shape of the tree and its names.\<close>

inductive same_shape :: "MessageNode \<Rightarrow> MessageNode \<Rightarrow> bool" where
  same_shape_node: "msg_fqn m = msg_fqn n \<Longrightarrow> list_all2 same_shape ms ns \<Longrightarrow>
    same_shape (MessageNode m ms) (MessageNode n ns)"
monos list_all2_mono

inductive_cases same_shapeE: "same_shape m n"

lemma message_at_shape:
  "list_all2 same_shape ms ns \<Longrightarrow> message_at ms p = Some m \<Longrightarrow>
     \<exists>n. message_at ns p = Some n \<and> node_fqn n = node_fqn m"
proof (induction ms p arbitrary: ns rule: message_at.induct)
  case (2 ms i)
  then have "same_shape m (ns ! i)" by (auto simp: list_all2_conv_all_nth split: if_splits)
  with 2 show ?case by (auto simp: list_all2_lengthD elim!: same_shapeE split: if_splits)
next
  case (3 ms i j p)
  then have i: "i < length ms" "i < length ns" "same_shape (ms ! i) (ns ! i)"
    by (auto simp: list_all2_conv_all_nth split: if_splits)
  from i(3) have "list_all2 same_shape (nested_messages (ms ! i)) (nested_messages (ns ! i))"
    by (rule same_shapeE) simp
  from 3(1) [OF i(1) this] 3(3) i show ?case by simp
qed simp

lemma same_shape_trans_interpreted: "same_shape m (interpreted m)"
  by (induction m rule: interpreted.induct)
    (auto simp: interpret_own_fields_def list_all2_conv_all_nth intro!: same_shape_node)

lemma resolve_members_fqn: "resolve_members st src visible m = Inr n \<Longrightarrow> msg_fqn n = msg_fqn m"
  by (auto simp: resolve_members_def split: sum.splits)

lemma resolve_message_shape:
  "resolve_message st src visible fi path m ext = Inr (n, ext1) \<Longrightarrow> same_shape m n"
  "resolve_messages st src visible fi path k ms ext = Inr (ns, ext1) \<Longrightarrow> list_all2 same_shape ms ns"
proof (induction st src visible fi path m ext and st src visible fi path k ms ext
    arbitrary: n ext1 and ns ext1 rule: resolve_message_resolve_messages.induct)
  case (1 st src visible fi path m ns ext)
  from 1(2) obtain m1 ns1 e1 xs where *: "resolve_members st src visible m = Inr m1"
    "resolve_messages st src visible fi path 0 ns ext = Inr (ns1, e1)" "n = MessageNode (m1\<lparr>msg_extends := xs\<rparr>) ns1"
    by (auto split: sum.splits)
  from 1(1) [OF *(1,2)] resolve_members_fqn [OF *(1)] *(3) show ?case by (auto intro: same_shape_node)
qed (auto split: sum.splits)

lemma resolve_files_shape:
  "resolve_files fset st i fs ext = Inr (gs, ext1) \<Longrightarrow>
     list_all2 (\<lambda>f g. list_all2 same_shape (file_messages f) (file_messages g)) fs gs"
proof (induction fs arbitrary: i ext gs)
  case (Cons f fs)
  from resolve_files_ConsE [OF Cons.prems] obtain ms e1 xs e2 hs where
    *: "resolve_messages st (file_source f) (visible_files fset i) i [] 0 (file_messages f) ext = Inr (ms, e1)"
      "resolve_files fset st (Suc i) fs e2 = Inr (hs, ext1)"
      "gs = f\<lparr>file_messages := ms, file_extends := xs\<rparr> # hs"
    by metis
  from resolve_message_shape(2) [OF *(1)] Cons.IH [OF *(2)] *(3) show ?case by simp
qed simp

lemma designates_shape:
  assumes "list_all2 (\<lambda>f g. list_all2 same_shape (file_messages f) (file_messages g)) fs gs" "designates fs r q"
  shows "designates gs r q"
  using assms by (auto simp: designates_def list_all2_conv_all_nth [of "\<lambda>f g. list_all2 same_shape (file_messages f) (file_messages g)"]
      dest: message_at_shape)

lemma interpreted_files_shape:
  "list_all2 (\<lambda>f g. list_all2 same_shape (file_messages f) (file_messages g)) fs (map interpreted_file fs)"
  by (simp add: list_all2_conv_all_nth interpreted_file_def same_shape_trans_interpreted)

text \<open>
  Property C22. The table's message entries stay valid through all passes. After a successful analysis
  the table has an entry for exactly the names it lists as messages, and each entry designates, in
  the final syntax trees, a message with that fully qualified name.
\<close>

theorem analyze_entries_valid:
  "analyze fset = Inr (fset', table) \<Longrightarrow>
     (\<forall>q. messages table q \<noteq> None \<longleftrightarrow> symbols table q = Some SymMessage) \<and>
     (\<forall>q r. messages table q = Some r \<longrightarrow> designates (files fset') r q)"
proof -
  assume "analyze fset = Inr (fset', table)"
  then obtain fset1 st fs ext where
    *: "collect_symbols 0 (files (compute_fqns_set fset1)) empty_resolver = Inr st"
      "resolve_files (compute_fqns_set fset1) st 0 (files (compute_fqns_set fset1)) (extensions (m_table st)) = Inr (fs, ext)"
      "files fset' = map interpreted_file fs" "symbols table = symbols (m_table st)" "messages table = messages (m_table st)"
    by (rule analyzeE)
  have "refs_ok (files (compute_fqns_set fset1)) empty_resolver" by (simp add: refs_ok_def empty_resolver_def)
  from refs_ok_symbols [OF *(1) this] have ok: "refs_ok (files (compute_fqns_set fset1)) st" by simp
  have "designates (files fset') r q" if "designates (files (compute_fqns_set fset1)) r q" for r q
    using designates_shape [OF interpreted_files_shape designates_shape [OF resolve_files_shape [OF *(2)] that]]
    by (simp add: *(3))
  with ok *(4,5) show ?thesis by (simp add: refs_ok_def)
qed

theorem analyze_entries_valid_witness:
  "\<exists>fset table. analyze demo_schema = Inr (fset, table) \<and> designates (files fset) (0, [0]) ''.p.M''"
  using analyze_demo analyze_entries_valid [of demo_schema] by blast

end
