(* ===== verification/Arena.thy ===== *)
theory Arena
  imports Prelude
begin

text \<open>
  The bump allocator of the arena decoders (class \<open>Arena\<close> in src/include/rapidproto/arena_runtime.hpp).
  Pointers and sizes are 64-bit words, so every address computation of the code wraps exactly as
  the code's would; the null pointer is 0. The host's \<open>operator new[]\<close> is a parameter of the
  operations that may grow the arena: the base address it answers for a request, 0 for failure.

  Shown here: the blocks handed out lie inside the chunks, are aligned and pairwise disjoint; the
  counters are exact and bounded by the reserved memory; the capacity limit is respected; and an
  allocation fails only for the reasons the class documents.
\<close>

section \<open>State\<close>

type_synonym addr = u64

record Chunk =
  owned :: bool
  data :: addr
  limit :: addr

record Arena =
  m_cur :: addr
  m_limit :: addr
  m_head :: Chunk
  m_more :: "Chunk list"
  m_cursor :: nat
  m_live :: bool
  m_used :: u64
  m_reserved :: u64
  m_next_chunk :: u64
  m_cap :: u64

type_synonym host = "u64 \<Rightarrow> addr"

definition SIZE_MAX :: u64 where "SIZE_MAX = 0xFFFFFFFFFFFFFFFF"
definition PTRDIFF_MAX :: u64 where "PTRDIFF_MAX = 0x7FFFFFFFFFFFFFFF"
definition kMaxAlign :: u64 where "kMaxAlign = 16"
definition kDefaultChunk :: u64 where "kDefaultChunk = 4096"
definition kMaxChunk :: u64 where "kMaxChunk = 96 * 1024"

definition no_chunk :: Chunk where
  "no_chunk = \<lparr>owned = False, data = 0, limit = 0\<rparr>"

definition arena :: Arena where
  "arena = \<lparr>m_cur = 0, m_limit = 0, m_head = no_chunk, m_more = [], m_cursor = 0, m_live = False,
     m_used = 0, m_reserved = 0, m_next_chunk = kDefaultChunk, m_cap = SIZE_MAX\<rparr>"

section \<open>Operations\<close>

definition align_up :: "addr \<Rightarrow> u64 \<Rightarrow> addr" where
  "align_up p align = (p + (align - 1)) AND NOT (align - 1)"

definition chunk :: "Arena \<Rightarrow> nat \<Rightarrow> Chunk" where
  "chunk a i = (if i = 0 then m_head a else m_more a ! (i - 1))"

definition chunk_count :: "Arena \<Rightarrow> nat" where
  "chunk_count a = (if m_live a then 1 + length (m_more a) else 0)"

definition advance_to :: "nat \<Rightarrow> Arena \<Rightarrow> Arena" where
  "advance_to i a = a\<lparr>m_cursor := i, m_cur := data (chunk a i), m_limit := limit (chunk a i)\<rparr>"

definition adopt_buffer :: "addr \<Rightarrow> u64 \<Rightarrow> Arena \<Rightarrow> Arena" where
  "adopt_buffer buffer len a =
     (let c = \<lparr>owned = False, data = align_up buffer kMaxAlign, limit = buffer + len\<rparr>;
          a1 = advance_to 0 (a\<lparr>m_head := c, m_live := True\<rparr>)
      in a1\<lparr>m_reserved := m_reserved a1 + (limit c - data c)\<rparr>)"

definition arena_seeded :: "addr \<Rightarrow> u64 \<Rightarrow> Arena" where
  "arena_seeded buffer len =
     (if buffer \<noteq> 0 \<and> len > kMaxAlign then adopt_buffer buffer len arena else arena)"

definition fits :: "Chunk \<Rightarrow> u64 \<Rightarrow> u64 \<Rightarrow> bool" where
  "fits c bytes align =
     (let p = align_up (data c) align in p \<le> limit c \<and> bytes \<le> limit c - p)"

definition add_chunk :: "Chunk \<Rightarrow> Arena \<Rightarrow> Arena" where
  "add_chunk c a =
     (if \<not> m_live a then a\<lparr>m_head := c, m_live := True, m_cursor := 0\<rparr>
      else a\<lparr>m_more := take (m_cursor a) (m_more a) @ c # drop (m_cursor a) (m_more a),
             m_cursor := m_cursor a + 1\<rparr>)"

definition grow :: "host \<Rightarrow> u64 \<Rightarrow> Arena \<Rightarrow> bool \<times> Arena" where
  "grow host min_usable a =
     (let cap = (if m_next_chunk a < min_usable then min_usable else m_next_chunk a) in
      if cap > PTRDIFF_MAX - kMaxAlign then (False, a)
      else
        let raw = cap + kMaxAlign in
        if m_reserved a \<ge> m_cap a \<or> raw > m_cap a - m_reserved a then (False, a)
        else
          let base = host raw in
          if base = 0 then (False, a)
          else
            let c = \<lparr>owned = True, data = align_up base kMaxAlign, limit = base + raw\<rparr>;
                a1 = add_chunk c (a\<lparr>m_reserved := m_reserved a + (limit c - data c)\<rparr>);
                a2 = advance_to (m_cursor a1) a1
            in (True, if m_next_chunk a2 < kMaxChunk
                      then a2\<lparr>m_next_chunk := min (push_bit 1 (m_next_chunk a2)) kMaxChunk\<rparr> else a2))"

definition bump :: "u64 \<Rightarrow> u64 \<Rightarrow> Arena \<Rightarrow> addr \<times> Arena" where
  "bump bytes align a =
     (let p = align_up (m_cur a) align in (p, a\<lparr>m_cur := p + bytes, m_used := m_used a + bytes\<rparr>))"

definition allocate_slow :: "host \<Rightarrow> u64 \<Rightarrow> u64 \<Rightarrow> Arena \<Rightarrow> addr \<times> Arena" where
  "allocate_slow host bytes align a =
     (if m_cursor a + 1 < chunk_count a \<and> fits (chunk a (m_cursor a + 1)) bytes align
      then bump bytes align (advance_to (m_cursor a + 1) a)
      else if bytes > SIZE_MAX - align then (0, a)
      else
        (case grow host (bytes + align) a of
           (False, a1) \<Rightarrow> (0, a1)
         | (True, a1) \<Rightarrow> bump bytes align a1))"

definition allocate :: "host \<Rightarrow> u64 \<Rightarrow> u64 \<Rightarrow> Arena \<Rightarrow> addr \<times> Arena" where
  "allocate host bytes align a =
     (let p = align_up (m_cur a) align in
      if m_cur a \<noteq> 0 \<and> p \<le> m_limit a \<and> bytes \<le> m_limit a - p
      then (p, a\<lparr>m_cur := p + bytes, m_used := m_used a + bytes\<rparr>)
      else allocate_slow host bytes align a)"

text \<open>\<open>sizeof(T)\<close> and \<open>alignof(T)\<close> are arguments of the templates' models.\<close>

definition allocate_array :: "host \<Rightarrow> u64 \<Rightarrow> u64 \<Rightarrow> u64 \<Rightarrow> Arena \<Rightarrow> addr \<times> Arena" where
  "allocate_array host size_of align_of n a =
     (if n = 0 \<or> n > SIZE_MAX div size_of then (0, a) else allocate host (n * size_of) align_of a)"

definition create :: "host \<Rightarrow> u64 \<Rightarrow> u64 \<Rightarrow> Arena \<Rightarrow> addr \<times> Arena" where
  "create host size_of align_of a = allocate host size_of align_of a"

definition shrink_last :: "addr \<Rightarrow> u64 \<Rightarrow> u64 \<Rightarrow> Arena \<Rightarrow> Arena" where
  "shrink_last ptr old_bytes new_bytes a =
     (if ptr = 0 \<or> new_bytes > old_bytes then a
      else if ptr + old_bytes = m_cur a
      then a\<lparr>m_cur := ptr + new_bytes, m_used := m_used a - (old_bytes - new_bytes)\<rparr>
      else a)"

definition reset :: "Arena \<Rightarrow> Arena" where
  "reset a =
     (let a1 = a\<lparr>m_used := 0, m_cursor := 0\<rparr> in
      if m_live a then a1\<lparr>m_cur := data (m_head a), m_limit := limit (m_head a)\<rparr>
      else a1\<lparr>m_cur := 0, m_limit := 0\<rparr>)"

definition bytes_used :: "Arena \<Rightarrow> u64" where "bytes_used a = m_used a"
definition bytes_reserved :: "Arena \<Rightarrow> u64" where "bytes_reserved a = m_reserved a"
definition set_capacity_limit :: "u64 \<Rightarrow> Arena \<Rightarrow> Arena" where
  "set_capacity_limit n a = a\<lparr>m_cap := n\<rparr>"

section \<open>Address arithmetic\<close>

lemma align_up_exp: "align_up p (2 ^ k) = push_bit k (drop_bit k (p + (2 ^ k - 1)))"
proof -
  have "x AND NOT (mask k) = push_bit k (drop_bit k x)" for x :: u64
    by (rule bit_word_eqI) (auto simp: bit_simps)
  then show ?thesis by (simp add: align_up_def mask_eq_exp_minus_1 [symmetric])
qed

lemma unat_align_up:
  assumes "k < 64" "unat p \<le> 2 ^ 63"
  shows "unat (align_up p (2 ^ k)) = (unat p + (2 ^ k - 1)) div 2 ^ k * 2 ^ k"
proof -
  have "(2 :: nat) ^ k \<le> 2 ^ 63" using assms(1) by (intro power_increasing) auto
  then have s: "unat (p + (2 ^ k - 1)) = unat p + (2 ^ k - 1)"
  proof -
    have "(1 :: u64) \<le> 2 ^ k" using assms(1) by (simp add: word_le_nat_alt unat_exp_u64)
    then have m: "unat (2 ^ k - 1 :: u64) = 2 ^ k - 1" using assms(1) by (simp add: unat_sub unat_exp_u64)
    have "unat p + (2 ^ k - 1) < 2 ^ 64" using assms(2) \<open>2 ^ k \<le> 2 ^ 63\<close> by simp
    then show ?thesis using m by (simp add: unat_add_u64)
  qed
  have small: "unat p + (2 ^ k - 1) < 2 ^ 64" using assms(2) \<open>2 ^ k \<le> 2 ^ 63\<close> by simp
  have lt: "(unat p + (2 ^ k - 1)) div 2 ^ k * 2 ^ k < 2 ^ 64"
    using assms(2) \<open>2 ^ k \<le> 2 ^ 63\<close>
    by (intro le_less_trans [OF div_times_less_eq_dividend]) simp
  show ?thesis
    unfolding align_up_exp unsigned_push_bit_eq unsigned_drop_bit_eq s
    using lt small by (simp add: push_bit_eq_mult drop_bit_eq_div take_bit_eq_mod)
qed

lemma align_up_bounds:
  assumes "k < 64" "unat p \<le> 2 ^ 63"
  shows "unat p \<le> unat (align_up p (2 ^ k))" "unat (align_up p (2 ^ k)) < unat p + 2 ^ k"
    "2 ^ k dvd unat (align_up p (2 ^ k))"
proof -
  let ?n = "unat p + (2 ^ k - 1)"
  have "?n div 2 ^ k * 2 ^ k + ?n mod 2 ^ k = ?n" by (rule div_mult_mod_eq)
  moreover have "?n mod 2 ^ k < 2 ^ k" by simp
  ultimately show "unat p \<le> unat (align_up p (2 ^ k))" "unat (align_up p (2 ^ k)) < unat p + 2 ^ k"
    unfolding unat_align_up [OF assms] by linarith+
  show "2 ^ k dvd unat (align_up p (2 ^ k))" unfolding unat_align_up [OF assms] by simp
qed

section \<open>The invariant\<close>

text \<open>
  The chunks in the order of their indices; a chunk is a non-empty aligned range of the lower half of
  the address space; two chunks do not overlap.
\<close>

definition chunks :: "Arena \<Rightarrow> Chunk list" where
  "chunks a = (if m_live a then m_head a # m_more a else [])"

definition chunk_ok :: "Chunk \<Rightarrow> bool" where
  "chunk_ok c \<longleftrightarrow> 0 < unat (data c) \<and> unat (data c) < unat (limit c) \<and> unat (limit c) \<le> 2 ^ 63 \<and>
     16 dvd unat (data c)"

definition chunk_len :: "Chunk \<Rightarrow> nat" where
  "chunk_len c = unat (limit c) - unat (data c)"

definition apart :: "Chunk \<Rightarrow> Chunk \<Rightarrow> bool" where
  "apart c d \<longleftrightarrow> unat (limit c) \<le> unat (data d) \<or> unat (limit d) \<le> unat (data c)"

abbreviation current :: "Arena \<Rightarrow> Chunk" where
  "current a \<equiv> chunks a ! m_cursor a"

definition cursor_ok :: "Arena \<Rightarrow> bool" where
  "cursor_ok a \<longleftrightarrow>
     (if m_live a
      then m_cursor a < length (chunks a) \<and> m_limit a = limit (current a) \<and>
        unat (data (current a)) \<le> unat (m_cur a) \<and> unat (m_cur a) \<le> unat (limit (current a))
      else m_cur a = 0 \<and> m_limit a = 0 \<and> m_more a = [] \<and> m_cursor a = 0)"

definition arena_inv :: "Arena \<Rightarrow> bool" where
  "arena_inv a \<longleftrightarrow>
     (\<forall>c \<in> set (chunks a). chunk_ok c) \<and> sorted_wrt apart (chunks a) \<and>
     unat (m_reserved a) = sum_list (map chunk_len (chunks a)) \<and> cursor_ok a \<and>
     kDefaultChunk \<le> m_next_chunk a \<and> m_next_chunk a \<le> kMaxChunk"

text \<open>
  What the host's allocator promises: the answer for \<open>raw\<close> bytes is null or a block of that many bytes
  in the lower half of the address space that overlaps no chunk the arena holds.
\<close>

definition host_block :: "Arena \<Rightarrow> addr \<Rightarrow> u64 \<Rightarrow> bool" where
  "host_block a base raw \<longleftrightarrow>
     base = 0 \<or> (unat base + unat raw \<le> 2 ^ 63 \<and>
       (\<forall>c \<in> set (chunks a). unat (limit c) \<le> unat base \<or> unat base + unat raw \<le> unat (data c)))"

definition host_ok :: "host \<Rightarrow> Arena \<Rightarrow> bool" where
  "host_ok host a \<longleftrightarrow> (\<forall>raw. host_block a (host raw) raw)"

text \<open>
  The blocks handed out since the last reset, newest first: each lies in a chunk up to the cursor, in
  the current chunk below the bump pointer; they are pairwise disjoint; their sizes add up to the
  counter and to no more than the part of the chunks already passed.
\<close>

type_synonym block = "addr \<times> u64"

abbreviation block_end :: "block \<Rightarrow> nat" where
  "block_end b \<equiv> unat (fst b) + unat (snd b)"

definition in_chunk :: "Arena \<Rightarrow> block \<Rightarrow> nat \<Rightarrow> bool" where
  "in_chunk a b i \<longleftrightarrow> i \<le> m_cursor a \<and> i < length (chunks a) \<and>
     unat (data (chunks a ! i)) \<le> unat (fst b) \<and>
     block_end b \<le> (if i = m_cursor a then unat (m_cur a) else unat (limit (chunks a ! i)))"

definition block_apart :: "block \<Rightarrow> block \<Rightarrow> bool" where
  "block_apart b b' \<longleftrightarrow> block_end b \<le> unat (fst b') \<or> block_end b' \<le> unat (fst b)"

definition extent :: "Arena \<Rightarrow> nat" where
  "extent a = sum_list (map chunk_len (take (m_cursor a) (chunks a))) +
     (if m_live a then unat (m_cur a) - unat (data (current a)) else 0)"

definition blocks_inv :: "Arena \<Rightarrow> block list \<Rightarrow> bool" where
  "blocks_inv a live \<longleftrightarrow>
     (\<forall>b \<in> set live. \<exists>i. in_chunk a b i) \<and> sorted_wrt block_apart live \<and>
     unat (m_used a) = sum_list (map (unat \<circ> snd) live) \<and> unat (m_used a) \<le> extent a"

definition latest :: "Arena \<Rightarrow> block list \<Rightarrow> bool" where
  "latest a live =
     (case live of [] \<Rightarrow> True
      | b # rest \<Rightarrow> in_chunk a b (m_cursor a) \<and> block_end b = unat (m_cur a) \<and>
          (\<forall>b' \<in> set rest. \<exists>i. in_chunk a b' i \<and> (i = m_cursor a \<longrightarrow> block_end b' \<le> unat (fst b))))"

lemma inv_cap [simp]:
  "arena_inv (a\<lparr>m_cap := n\<rparr>) = arena_inv a" "blocks_inv (a\<lparr>m_cap := n\<rparr>) live = blocks_inv a live"
  "latest (a\<lparr>m_cap := n\<rparr>) live = latest a live"
proof -
  have "in_chunk (a\<lparr>m_cap := n\<rparr>) b i = in_chunk a b i" "extent (a\<lparr>m_cap := n\<rparr>) = extent a" for b i
    by (simp_all add: in_chunk_def extent_def chunks_def)
  then show "blocks_inv (a\<lparr>m_cap := n\<rparr>) live = blocks_inv a live" "latest (a\<lparr>m_cap := n\<rparr>) live = latest a live"
    by (simp_all add: blocks_inv_def latest_def cong: list.case_cong)
qed (simp add: arena_inv_def cursor_ok_def chunks_def)

lemmas arena_defs = arena_inv_def cursor_ok_def

lemma chunk_count_chunks: "chunk_count a = length (chunks a)"
  by (simp add: chunk_count_def chunks_def)

lemma chunk_chunks: "i < length (chunks a) \<Longrightarrow> chunk a i = chunks a ! i"
  by (auto simp: chunk_def chunks_def nth_Cons' split: if_splits)

lemma chunks_update [simp]:
  "chunks (a\<lparr>m_cur := x\<rparr>) = chunks a" "chunks (a\<lparr>m_used := y\<rparr>) = chunks a" "chunks (a\<lparr>m_limit := x\<rparr>) = chunks a"
  "chunks (a\<lparr>m_cursor := i\<rparr>) = chunks a" "chunks (a\<lparr>m_reserved := y\<rparr>) = chunks a"
  "chunks (a\<lparr>m_next_chunk := y\<rparr>) = chunks a" "chunks (a\<lparr>m_cap := y\<rparr>) = chunks a"
  by (simp_all add: chunks_def)

lemma chunks_live: "chunks a \<noteq> [] \<longleftrightarrow> m_live a"
  by (simp add: chunks_def)

lemma apart_sym: "apart c d \<Longrightarrow> apart d c"
  by (auto simp: apart_def)

lemma sum_list_split:
  fixes f :: "'a \<Rightarrow> nat"
  shows "i < length xs \<Longrightarrow> sum_list (map f xs) =
     sum_list (map f (take i xs)) + f (xs ! i) + sum_list (map f (drop (Suc i) xs))"
  by (subst id_take_nth_drop [of i xs]) simp_all

lemma extent_le: "arena_inv a \<Longrightarrow> extent a \<le> unat (m_reserved a)"
proof (cases "m_live a")
  case True
  assume inv: "arena_inv a"
  with True have i: "m_cursor a < length (chunks a)" and c: "unat (m_cur a) \<le> unat (limit (current a))"
    by (simp_all add: arena_defs)
  from inv sum_list_split [OF i, of chunk_len] c True show ?thesis
    by (simp add: extent_def arena_inv_def chunk_len_def)
qed (simp add: extent_def chunks_def)

section \<open>Serving a request\<close>

definition room :: "u64 \<Rightarrow> u64 \<Rightarrow> Arena \<Rightarrow> bool" where
  "room bytes align a \<longleftrightarrow>
     m_live a \<and> unat (align_up (m_cur a) align) + unat bytes \<le> unat (m_limit a)"

lemma word_room:
  assumes "p \<le> l" "bytes \<le> l - p"
  shows "unat p + unat bytes \<le> unat (l :: u64)"
  using assms by (simp add: word_le_nat_alt unat_sub_u64)

lemma room_word:
  assumes "unat p + unat bytes \<le> unat (l :: u64)"
  shows "p \<le> l" "bytes \<le> l - p"
  using assms by (simp_all add: word_le_nat_alt unat_sub_u64)

lemma fits_iff: "fits c bytes align \<longleftrightarrow> unat (align_up (data c) align) + unat bytes \<le> unat (limit c)"
  unfolding fits_def Let_def using word_room room_word by blast

lemma cursor_bounds:
  assumes "arena_inv a" "m_live a"
  shows "0 < unat (data (current a))" "unat (data (current a)) \<le> unat (m_cur a)"
    "unat (m_cur a) \<le> unat (m_limit a)" "unat (m_limit a) \<le> 2 ^ 63" "m_limit a = limit (current a)"
    "m_cursor a < length (chunks a)"
proof -
  from assms have "m_cursor a < length (chunks a)" by (simp add: arena_defs)
  then have "chunk_ok (current a)" using assms(1) by (simp add: arena_inv_def)
  with assms show "0 < unat (data (current a))" "unat (data (current a)) \<le> unat (m_cur a)"
    "unat (m_cur a) \<le> unat (m_limit a)" "unat (m_limit a) \<le> 2 ^ 63" "m_limit a = limit (current a)"
    "m_cursor a < length (chunks a)"
    by (simp_all add: arena_defs chunk_ok_def)
qed

lemma in_chunk_bounds:
  assumes inv: "arena_inv a" and i: "in_chunk a b i"
  shows "\<exists>c \<in> set (chunks a). unat (data c) \<le> unat (fst b) \<and> block_end b \<le> unat (limit c)"
    "block_end b \<le> unat (m_cur a) \<or> unat (m_limit a) \<le> unat (fst b)"
proof -
  have live: "m_live a" using i by (auto simp: in_chunk_def simp flip: chunks_live)
  note cb = cursor_bounds [OF inv live]
  show "\<exists>c \<in> set (chunks a). unat (data c) \<le> unat (fst b) \<and> block_end b \<le> unat (limit c)"
    using i cb(3,5) by (intro bexI [of _ "chunks a ! i"]) (auto simp: in_chunk_def split: if_splits)
  have "apart (chunks a ! i) (current a)" if "i \<noteq> m_cursor a"
    using that i inv cb(6) by (simp add: in_chunk_def arena_inv_def sorted_wrt_iff_nth_less)
  then show "block_end b \<le> unat (m_cur a) \<or> unat (m_limit a) \<le> unat (fst b)"
    using i cb(2,5) by (auto simp: in_chunk_def apart_def split: if_splits)
qed

lemma bump_inv:
  assumes inv: "arena_inv a" and blocks: "blocks_inv a live" and k: "k < 64" and r: "room bytes (2 ^ k) a"
    and b: "bump bytes (2 ^ k) a = (p, a')"
  shows "arena_inv a'" "blocks_inv a' ((p, bytes) # live)" "p \<noteq> 0" "2 ^ k dvd unat p"
    "latest a' ((p, bytes) # live)"
proof -
  have live: "m_live a" using r by (simp add: room_def)
  note cb = cursor_bounds [OF inv live]
  have p: "p = align_up (m_cur a) (2 ^ k)" and a': "a' = a\<lparr>m_cur := p + bytes, m_used := m_used a + bytes\<rparr>"
    using b by (auto simp: bump_def Let_def)
  have "unat (m_cur a) \<le> 2 ^ 63" using cb by linarith
  note al = align_up_bounds [OF k this, folded p]
  have fit: "unat p + unat bytes \<le> unat (m_limit a)" using r by (simp add: room_def p)
  then have cur: "unat (p + bytes) = unat p + unat bytes"
    using cb(4) by (intro unat_add_u64) simp
  show "p \<noteq> 0" using al(1) cb(1,2) by auto
  show "2 ^ k dvd unat p" by (rule al)
  show inv': "arena_inv a'"
    using inv live fit al(1) by (simp add: a' arena_defs cur)
  have ext: "extent a + unat bytes \<le> extent a'"
    using live al(1) cb(2) by (simp add: a' extent_def cur)
  have sum: "unat (m_used a) \<le> extent a" using blocks by (simp add: blocks_inv_def)
  have "extent a' \<le> unat (m_reserved a')" by (rule extent_le [OF inv'])
  then have used: "unat (m_used a + bytes) = unat (m_used a) + unat bytes"
    using sum ext by (intro unat_add_u64) (use unat_less_u64 [of "m_reserved a'"] in simp)
  have old: "\<exists>i. in_chunk a' b i \<and> (i = m_cursor a' \<longrightarrow> block_end b \<le> unat p)" "block_apart (p, bytes) b"
    if "b \<in> set live" for b
  proof -
    from that blocks obtain i where i: "in_chunk a b i" by (auto simp: blocks_inv_def)
    then show "\<exists>i. in_chunk a' b i \<and> (i = m_cursor a' \<longrightarrow> block_end b \<le> unat p)" using al(1) cb(2)
      by (intro exI [of _ i]) (auto simp: in_chunk_def a' cur)
    show "block_apart (p, bytes) b"
    proof (cases "i = m_cursor a")
      case True
      with i al(1) show ?thesis by (simp add: in_chunk_def block_apart_def)
    next
      case False
      with i have lt: "i < m_cursor a" by (simp add: in_chunk_def)
      with inv cb(6) have "apart (chunks a ! i) (current a)"
        by (simp add: arena_inv_def sorted_wrt_iff_nth_less)
      moreover have "chunk_ok (chunks a ! i)" using i inv by (simp add: in_chunk_def arena_inv_def)
      ultimately show ?thesis using i False fit al(1) cb(2,3,5)
        by (auto simp: apart_def in_chunk_def block_apart_def)
    qed
  qed
  have new: "in_chunk a' (p, bytes) (m_cursor a)"
    using cb(2,6) al(1) by (simp add: in_chunk_def a' cur)
  moreover have "\<forall>b \<in> set live. \<exists>i. in_chunk a' b i" using old(1) by blast
  ultimately show "blocks_inv a' ((p, bytes) # live)"
    using old(2) blocks used ext sum by (auto simp: blocks_inv_def a')
  from new old(1) show "latest a' ((p, bytes) # live)" by (simp add: latest_def a' cur)
qed

text \<open>Moving the cursor to an untouched chunk keeps all that is known of the blocks.\<close>

lemma blocks_inv_advance:
  assumes inv: "arena_inv a" and blocks: "blocks_inv a live"
    and pre: "m_live a \<Longrightarrow> m_cursor a' = Suc (m_cursor a)"
      "m_live a \<Longrightarrow> take (Suc (m_cursor a)) (chunks a') = take (Suc (m_cursor a)) (chunks a)" "length (chunks a) \<le> length (chunks a')"
    and a': "m_used a' = m_used a" "m_live a'" "m_cur a' = data (current a')"
  shows "blocks_inv a' live"
proof (cases "m_live a")
  case True
  note cb = cursor_bounds [OF inv True]
  have old: "chunks a' ! i = chunks a ! i" if "i \<le> m_cursor a" for i
    using that cb(6) pre(2) [OF True] nth_take [of i "Suc (m_cursor a)" "chunks a"] nth_take [of i "Suc (m_cursor a)" "chunks a'"]
    by simp
  have "take (Suc (m_cursor a)) (chunks a) = take (m_cursor a) (chunks a) @ [current a]"
    by (rule take_Suc_conv_app_nth [OF cb(6)])
  then have "extent a \<le> extent a'"
    using True a' pre cb(2,3,5) by (simp add: extent_def chunk_len_def)
  moreover have "in_chunk a' b i" if "in_chunk a b i" for b i
    using that old pre(1) [OF True] pre(3) cb(3,5) True by (auto simp: in_chunk_def split: if_splits)
  ultimately show ?thesis using blocks a'(1) by (fastforce simp: blocks_inv_def)
next
  case False
  then have "chunks a = []" by (simp add: chunks_def)
  with blocks have "live = []" by (cases live) (auto simp: blocks_inv_def in_chunk_def)
  with blocks a'(1) show ?thesis by (simp add: blocks_inv_def)
qed

lemma advance_inv:
  assumes inv: "arena_inv a" and n: "Suc (m_cursor a) < length (chunks a)"
  shows "arena_inv (advance_to (Suc (m_cursor a)) a)"
    "blocks_inv a live \<Longrightarrow> blocks_inv (advance_to (Suc (m_cursor a)) a) live"
    "m_live a"
proof -
  let ?a = "advance_to (Suc (m_cursor a)) a"
  show l: "m_live a" using n by (simp flip: chunks_live) auto
  have ch: "chunks ?a = chunks a" by (simp add: advance_to_def)
  have "chunk_ok (chunks a ! Suc (m_cursor a))" using inv n by (simp add: arena_inv_def)
  then have "unat (data (chunks a ! Suc (m_cursor a))) \<le> unat (limit (chunks a ! Suc (m_cursor a)))"
    by (simp add: chunk_ok_def)
  with inv n l show "arena_inv ?a"
    by (simp add: arena_defs ch) (simp add: advance_to_def chunk_chunks)
  assume "blocks_inv a live"
  with inv show "blocks_inv ?a live"
    by (rule blocks_inv_advance) (simp_all add: ch, simp_all add: advance_to_def chunk_chunks n l)
qed

lemma size_max_room: "k < 64 \<Longrightarrow> bytes \<le> SIZE_MAX - 2 ^ k \<longleftrightarrow> unat bytes + 2 ^ k < 2 ^ 64"
proof -
  assume k: "k < 64"
  have "(2 :: nat) ^ k < 2 ^ 64" using k by (intro power_strict_increasing) simp_all
  then have "unat (SIZE_MAX - 2 ^ k) = 2 ^ 64 - 1 - 2 ^ k"
    using k by (subst unat_sub_u64) (simp_all add: SIZE_MAX_def unat_exp_u64)
  with \<open>2 ^ k < 2 ^ 64\<close> show ?thesis by (auto simp: word_le_nat_alt)
qed

lemma grow_False: "grow host m a = (False, a') \<Longrightarrow> a' = a"
  by (auto simp: grow_def Let_def split: if_splits)

lemma advance_room:
  assumes "arena_inv a" "Suc (m_cursor a) < length (chunks a)" "fits (chunk a (Suc (m_cursor a))) bytes align"
  shows "room bytes align (advance_to (Suc (m_cursor a)) a)"
  using advance_inv(3) [OF assms(1,2)] assms(3) by (simp add: room_def advance_to_def fits_iff)

text \<open>A successful growth puts a fresh chunk right after the current one and moves there.\<close>

lemma grow_True:
  assumes "grow host m a = (True, a')" "cursor_ok a"
  obtains cap base c where "cap = (if m_next_chunk a < m then m else m_next_chunk a)"
    "cap \<le> PTRDIFF_MAX - kMaxAlign" "m_reserved a < m_cap a" "cap + kMaxAlign \<le> m_cap a - m_reserved a"
    "base = host (cap + kMaxAlign)" "base \<noteq> 0"
    "c = \<lparr>owned = True, data = align_up base kMaxAlign, limit = base + (cap + kMaxAlign)\<rparr>"
    "chunks a' = take (Suc (m_cursor a)) (chunks a) @ c # drop (Suc (m_cursor a)) (chunks a)"
    "m_cursor a' = (if m_live a then Suc (m_cursor a) else 0)" "m_live a'"
    "m_cur a' = data c" "m_limit a' = limit c" "m_used a' = m_used a"
    "m_reserved a' = m_reserved a + (limit c - data c)" "m_cap a' = m_cap a"
    "m_next_chunk a' = (if m_next_chunk a < kMaxChunk then min (push_bit 1 (m_next_chunk a)) kMaxChunk
       else m_next_chunk a)"
proof -
  define cap where "cap = (if m_next_chunk a < m then m else m_next_chunk a)"
  define base where "base = host (cap + kMaxAlign)"
  define c where "c = \<lparr>owned = True, data = align_up base kMaxAlign, limit = base + (cap + kMaxAlign)\<rparr>"
  define a1 where "a1 = add_chunk c (a\<lparr>m_reserved := m_reserved a + (limit c - data c)\<rparr>)"
  define a2 where "a2 = advance_to (m_cursor a1) a1"
  from assms(1) have
    g: "cap \<le> PTRDIFF_MAX - kMaxAlign" "m_reserved a < m_cap a" "cap + kMaxAlign \<le> m_cap a - m_reserved a" "base \<noteq> 0"
      "a' = (if m_next_chunk a2 < kMaxChunk
        then a2\<lparr>m_next_chunk := min (push_bit 1 (m_next_chunk a2)) kMaxChunk\<rparr> else a2)"
    unfolding grow_def Let_def cap_def [symmetric] base_def [symmetric] c_def [symmetric] a1_def [symmetric] a2_def [symmetric]
    by (auto split: if_splits simp: not_le not_less)
  have a1: "chunks a1 = take (Suc (m_cursor a)) (chunks a) @ c # drop (Suc (m_cursor a)) (chunks a)"
    "m_cursor a1 = (if m_live a then Suc (m_cursor a) else 0)" "m_live a1" "m_used a1 = m_used a"
    "m_reserved a1 = m_reserved a + (limit c - data c)" "m_cap a1 = m_cap a" "m_next_chunk a1 = m_next_chunk a"
    using assms(2) by (auto simp: a1_def add_chunk_def chunks_def cursor_ok_def)
  have "chunks a1 ! m_cursor a1 = c" "m_cursor a1 < length (chunks a1)"
    using a1(1,2) assms(2) by (auto simp: nth_append cursor_ok_def chunks_def min_def)
  then have a2: "a2 = a1\<lparr>m_cur := data c, m_limit := limit c\<rparr>"
    by (simp add: a2_def advance_to_def chunk_chunks)
  show thesis
    by (rule that [OF cap_def g(1-3) base_def g(4) c_def]) (use a1 in \<open>simp_all add: g(5) a2\<close>)
qed

lemma max_align: "kMaxAlign = 2 ^ 4" "unat kMaxAlign = 16"
  by (simp_all add: kMaxAlign_def)

lemma new_chunk:
  assumes "cap \<le> PTRDIFF_MAX - kMaxAlign" "base \<noteq> 0" "host_block a base (cap + kMaxAlign)"
    and c: "c = \<lparr>owned = True, data = align_up base kMaxAlign, limit = base + (cap + kMaxAlign)\<rparr>"
  shows "chunk_ok c" "\<forall>d \<in> set (chunks a). apart c d" "unat cap < chunk_len c"
    "unat (limit c - data c) = chunk_len c" "chunk_len c \<le> unat (cap + kMaxAlign)"
proof -
  have cap: "unat cap \<le> 2 ^ 63 - 17"
    using assms(1) by (simp add: word_le_nat_alt PTRDIFF_MAX_def kMaxAlign_def)
  then have raw: "unat (cap + kMaxAlign) = unat cap + 16"
    by (subst unat_add_u64) (simp_all add: max_align)
  have blk: "unat base + unat (cap + kMaxAlign) \<le> 2 ^ 63"
    using assms(2,3) by (simp add: host_block_def)
  then have lim: "unat (limit c) = unat base + unat (cap + kMaxAlign)"
    unfolding c by (simp add: unat_add_u64)
  have al: "unat base \<le> unat (data c)" "unat (data c) < unat base + 16" "16 dvd unat (data c)"
    using align_up_bounds [of 4 base] blk by (simp_all add: c max_align(1))
  have "0 < unat base" using assms(2) by (simp add: unat_gt_0)
  then show ok: "chunk_ok c" using al lim raw blk by (simp add: chunk_ok_def)
  show "unat cap < chunk_len c" "chunk_len c \<le> unat (cap + kMaxAlign)"
    using al lim raw by (simp_all add: chunk_len_def)
  show "\<forall>d \<in> set (chunks a). apart c d"
    using assms(2,3) al(1) lim by (fastforce simp: host_block_def apart_def)
  show "unat (limit c - data c) = chunk_len c"
    using ok by (simp add: chunk_len_def chunk_ok_def unat_sub_u64)
qed

lemma sorted_wrt_insert:
  assumes "sorted_wrt apart xs" "\<forall>d \<in> set xs. apart c d"
  shows "sorted_wrt apart (take i xs @ c # drop i xs)"
proof -
  have "sorted_wrt apart (take i xs @ drop i xs)" using assms(1) by simp
  then show ?thesis
    using assms(2) apart_sym by (auto simp: sorted_wrt_append dest: in_set_takeD in_set_dropD simp del: append_take_drop_id)
qed

lemma next_chunk_bounds:
  assumes "kDefaultChunk \<le> n" "n \<le> kMaxChunk"
  shows "kDefaultChunk \<le> (if n < kMaxChunk then min (push_bit 1 n) kMaxChunk else n)"
    "(if n < kMaxChunk then min (push_bit 1 n) kMaxChunk else n) \<le> kMaxChunk"
proof -
  have "unat n \<le> 98304" using assms(2) by (simp add: word_le_nat_alt kMaxChunk_def)
  then have "unat (push_bit 1 n) = 2 * unat n"
    unfolding unsigned_push_bit_eq by (simp add: take_bit_eq_mod push_bit_eq_mult)
  with assms show "kDefaultChunk \<le> (if n < kMaxChunk then min (push_bit 1 n) kMaxChunk else n)"
    by (simp add: min_def word_le_nat_alt kDefaultChunk_def kMaxChunk_def)
  show "(if n < kMaxChunk then min (push_bit 1 n) kMaxChunk else n) \<le> kMaxChunk" using assms by simp
qed

lemma grow_inv:
  assumes g: "grow host m a = (True, a')" and inv: "arena_inv a" and host: "host_ok host a"
  shows "arena_inv a'" "blocks_inv a live \<Longrightarrow> blocks_inv a' live" "m_live a'" "m_cur a' = data (current a')"
    "unat m < chunk_len (current a')" "m_reserved a' \<le> m_cap a'" "m_cap a' = m_cap a"
proof -
  have cok: "cursor_ok a" using inv by (simp add: arena_inv_def)
  from g cok obtain cap base c where
    *: "cap = (if m_next_chunk a < m then m else m_next_chunk a)"
    "cap \<le> PTRDIFF_MAX - kMaxAlign" "m_reserved a < m_cap a" "cap + kMaxAlign \<le> m_cap a - m_reserved a"
    "base = host (cap + kMaxAlign)" "base \<noteq> 0"
    "c = \<lparr>owned = True, data = align_up base kMaxAlign, limit = base + (cap + kMaxAlign)\<rparr>"
    and ch: "chunks a' = take (Suc (m_cursor a)) (chunks a) @ c # drop (Suc (m_cursor a)) (chunks a)"
    and a': "m_cursor a' = (if m_live a then Suc (m_cursor a) else 0)" "m_live a'"
    "m_cur a' = data c" "m_limit a' = limit c" "m_used a' = m_used a"
    "m_reserved a' = m_reserved a + (limit c - data c)" "m_cap a' = m_cap a"
    "m_next_chunk a' = (if m_next_chunk a < kMaxChunk then min (push_bit 1 (m_next_chunk a)) kMaxChunk
       else m_next_chunk a)"
    by (rule grow_True)
  have "host_block a base (cap + kMaxAlign)" using host *(5) by (simp add: host_ok_def)
  note c = new_chunk [OF *(2,6) this *(7)]
  have len: "length (take (Suc (m_cursor a)) (chunks a)) = m_cursor a'"
    using cok a'(1) by (auto simp: cursor_ok_def chunks_def)
  then have cur: "current a' = c" "m_cursor a' < length (chunks a')" by (simp_all add: ch nth_append)
  have res: "unat (m_reserved a) + chunk_len c \<le> unat (m_cap a)"
    using *(3,4) c(5) by (simp add: word_le_nat_alt word_less_nat_alt unat_sub_u64)
  then have sum: "unat (m_reserved a') = unat (m_reserved a) + chunk_len c"
    using unat_less_u64 [of "m_cap a"] by (simp add: a'(6) c(4) unat_add_u64)
  show "m_live a'" "m_cur a' = data (current a')" "m_cap a' = m_cap a" using a' cur by simp_all
  show "m_reserved a' \<le> m_cap a'" using sum res a'(7) by (simp add: word_le_nat_alt)
  have "unat m \<le> unat cap" using *(1) by (auto simp: word_less_nat_alt)
  then show "unat m < chunk_len (current a')" using c(3) cur by simp
  have "sum_list (map chunk_len (chunks a')) = sum_list (map chunk_len (chunks a)) + chunk_len c"
    unfolding ch by (subst (3) append_take_drop_id [of "Suc (m_cursor a)" "chunks a", symmetric])
      (simp del: append_take_drop_id)
  moreover have "sorted_wrt apart (chunks a')" unfolding ch
    using inv c(2) by (intro sorted_wrt_insert) (simp_all add: arena_inv_def)
  moreover have "\<forall>d \<in> set (chunks a'). chunk_ok d"
    using inv c(1) by (auto simp: ch arena_inv_def dest: in_set_takeD in_set_dropD)
  moreover have "cursor_ok a'" using a' cur c(1) by (simp add: cursor_ok_def chunk_ok_def)
  ultimately show "arena_inv a'"
    using inv sum next_chunk_bounds [of "m_next_chunk a"] by (simp add: arena_inv_def a'(8))
  assume "blocks_inv a live"
  with inv show "blocks_inv a' live"
    by (rule blocks_inv_advance) (use a' cur cok in \<open>simp_all add: ch cursor_ok_def\<close>)
qed

lemma grow_room:
  assumes inv: "arena_inv a" and host: "host_ok host a" and k: "k < 64"
    and g: "bytes \<le> SIZE_MAX - 2 ^ k" "grow host (bytes + 2 ^ k) a = (True, a1)"
  shows "room bytes (2 ^ k) a1"
proof -
  note g' = grow_inv [OF g(2) inv host]
  have sum: "unat (bytes + 2 ^ k) = unat bytes + 2 ^ k"
    using size_max_room [OF k, of bytes] g(1) k by (simp add: unat_add_u64 unat_exp_u64)
  have "chunk_ok (current a1)" using g'(1,3) by (simp add: arena_defs)
  then have "unat (m_cur a1) \<le> 2 ^ 63" by (simp add: g'(4) chunk_ok_def)
  from align_up_bounds(2) [OF k this] g'(1,3,4,5) show ?thesis
    by (simp add: room_def sum chunk_len_def arena_defs)
qed

text \<open>
  The decision tree of an allocation over the arithmetic of natural numbers: this chunk, the next
  one, or a new one.
\<close>

lemma allocate_eq:
  assumes inv: "arena_inv a" and k: "k < 64"
  shows "allocate host bytes (2 ^ k) a =
    (if room bytes (2 ^ k) a then bump bytes (2 ^ k) a
     else if Suc (m_cursor a) < length (chunks a) \<and> fits (chunk a (Suc (m_cursor a))) bytes (2 ^ k)
     then bump bytes (2 ^ k) (advance_to (Suc (m_cursor a)) a)
     else if unat bytes + 2 ^ k \<ge> 2 ^ 64 then (0, a)
     else (case grow host (bytes + 2 ^ k) a of (False, a1) \<Rightarrow> (0, a1) | (True, a1) \<Rightarrow> bump bytes (2 ^ k) a1))"
proof -
  let ?p = "align_up (m_cur a) (2 ^ k)"
  have "m_cur a \<noteq> 0 \<longleftrightarrow> m_live a"
    using inv cursor_bounds(1,2) [OF inv] by (auto simp: arena_defs split: if_splits)
  then have fast: "m_cur a \<noteq> 0 \<and> ?p \<le> m_limit a \<and> bytes \<le> m_limit a - ?p \<longleftrightarrow> room bytes (2 ^ k) a"
    unfolding room_def using word_room room_word by blast
  have slow: "bytes > SIZE_MAX - 2 ^ k \<longleftrightarrow> unat bytes + 2 ^ k \<ge> 2 ^ 64"
    using size_max_room [OF k, of bytes] by (simp add: not_le [symmetric])
  show ?thesis
    unfolding allocate_def Let_def fast allocate_slow_def chunk_count_chunks slow
    by (simp add: bump_def Let_def)
qed

text \<open>
  So a request is refused with the arena unchanged, or it is served by bumping an arena that has
  room for it.
\<close>

lemma allocate_served:
  assumes inv: "arena_inv a" and host: "host_ok host a" and k: "k < 64"
    and al: "allocate host bytes (2 ^ k) a = (p, a')"
  obtains (refused) "p = 0" "a' = a"
  | (served) a1 where "arena_inv a1" "\<And>live. blocks_inv a live \<Longrightarrow> blocks_inv a1 live" "room bytes (2 ^ k) a1"
      "bump bytes (2 ^ k) a1 = (p, a')" "m_cap a1 = m_cap a" "m_reserved a1 = m_reserved a \<or> m_reserved a1 \<le> m_cap a"
proof -
  let ?n = "Suc (m_cursor a)"
  consider (here) "room bytes (2 ^ k) a" "bump bytes (2 ^ k) a = (p, a')"
    | (reuse) "?n < length (chunks a)" "fits (chunk a ?n) bytes (2 ^ k)" "bump bytes (2 ^ k) (advance_to ?n a) = (p, a')"
    | (grown) a1 where "bytes \<le> SIZE_MAX - 2 ^ k" "grow host (bytes + 2 ^ k) a = (True, a1)" "bump bytes (2 ^ k) a1 = (p, a')"
    | (failed) "p = 0" "a' = a"
    using al grow_False size_max_room [OF k, of bytes]
    unfolding allocate_eq [OF inv k] by (auto split: if_splits prod.splits bool.splits)
  then show thesis
  proof cases
    case here
    with inv show ?thesis by (intro served [of a]) auto
  next
    case reuse
    from advance_room [OF inv reuse(1,2)] show ?thesis
      using advance_inv(1,2) [OF inv reuse(1)] reuse(3)
      by (intro served [of "advance_to ?n a"]) (simp_all, simp_all add: advance_to_def)
  next
    case grown
    note g = grow_inv [OF grown(2) inv host]
    from grow_room [OF inv host k grown(1,2)] show ?thesis
      using g grown(3) by (intro served [of a1]) auto
  next
    case failed
    then show ?thesis by (rule refused)
  qed
qed

lemma shrink_inv:
  assumes inv: "arena_inv a" and blocks: "blocks_inv a ((p, n) # live)" and la: "latest a ((p, n) # live)"
  shows "arena_inv (shrink_last p n m a)" "blocks_inv (shrink_last p n m a) ((p, min m n) # live)"
    "latest (shrink_last p n m a) ((p, min m n) # live)"
proof -
  let ?a = "shrink_last p n m a"
  have cur: "unat p + unat n = unat (m_cur a)" and here: "in_chunk a (p, n) (m_cursor a)"
    using la by (simp_all add: latest_def)
  have live: "m_live a" using here by (auto simp: in_chunk_def simp flip: chunks_live)
  note cb = cursor_bounds [OF inv live]
  have p: "unat (data (current a)) \<le> unat p" using here by (simp add: in_chunk_def)
  have eq: "?a = a\<lparr>m_cur := p + m, m_used := m_used a - (n - m)\<rparr>" if "m \<le> n"
  proof -
    have "p + n = m_cur a" using cur cb(4) unat_add_u64 [of p n] unat_less_u64 [of "m_cur a"] by (simp add: word_unat_eq_iff)
    moreover have "p \<noteq> 0" using p cb(1) by auto
    ultimately show ?thesis using that by (auto simp: shrink_last_def)
  qed
  have "arena_inv ?a \<and> blocks_inv ?a ((p, min m n) # live) \<and> latest ?a ((p, min m n) # live)"
  proof (cases "m \<le> n")
    case False
    then have "n < m" "min m n = n" by (simp_all add: min_def)
    then show ?thesis using assms by (simp add: shrink_last_def)
  next
    case True
    then have mn: "unat m \<le> unat n" by (simp add: word_le_nat_alt)
    have pm: "unat (p + m) = unat p + unat m"
      using cur mn unat_less_u64 [of "m_cur a"] by (intro unat_add_u64) linarith
    have sum: "unat (m_used a) = unat n + sum_list (map (unat \<circ> snd) live)" "unat (m_used a) \<le> extent a"
      using blocks by (simp_all add: blocks_inv_def)
    have d: "unat (n - m) = unat n - unat m" using mn by (rule unat_sub_u64)
    have used: "unat (m_used a - (n - m)) = unat m + sum_list (map (unat \<circ> snd) live)"
      using sum(1) d mn by (subst unat_sub_u64) simp_all
    have ext: "extent ?a + (unat n - unat m) = extent a"
      using live cur pm mn p by (simp add: eq [OF True] extent_def)
    have keep: "in_chunk ?a b i" if "in_chunk a b i" "i = m_cursor a \<longrightarrow> block_end b \<le> unat p" for b i
      using that pm by (auto simp: in_chunk_def eq [OF True])
    have "\<forall>b \<in> set live. \<exists>i. in_chunk a b i \<and> (i = m_cursor a \<longrightarrow> block_end b \<le> unat p)"
      using la by (simp add: latest_def)
    then have rest: "\<forall>b \<in> set live. \<exists>i. in_chunk ?a b i \<and> (i = m_cursor a \<longrightarrow> block_end b \<le> unat p)"
      using keep by blast
    have cursor: "m_cursor ?a = m_cursor a" by (simp add: eq [OF True])
    have "in_chunk ?a (p, m) (m_cursor a)" using cb(6) p pm by (simp add: in_chunk_def eq [OF True])
    then have "latest ?a ((p, m) # live)" "\<forall>b \<in> set live. \<exists>i. in_chunk ?a b i"
      using rest pm by (simp_all add: latest_def cursor) (simp_all add: eq [OF True], blast)
    moreover have "arena_inv ?a"
      using inv live pm mn cur p by (simp add: eq [OF True] arena_defs)
    moreover have "sorted_wrt block_apart ((p, m) # live)"
      using blocks mn by (auto simp: blocks_inv_def block_apart_def)
    moreover have "\<exists>i. in_chunk ?a (p, m) i" using calculation(1) by (auto simp: latest_def)
    ultimately show ?thesis
      using True used ext sum mn by (simp add: blocks_inv_def min_def) (simp add: eq [OF True])
  qed
  then show "arena_inv ?a" "blocks_inv ?a ((p, min m n) # live)" "latest ?a ((p, min m n) # live)" by simp_all
qed

lemma reset_inv: "arena_inv a \<Longrightarrow> arena_inv (reset a)" "blocks_inv (reset a) []"
proof -
  assume inv: "arena_inv a"
  have "chunk_ok (m_head a)" if "m_live a" using inv that by (simp add: arena_inv_def chunks_def)
  with inv show "arena_inv (reset a)"
    by (auto simp: arena_defs reset_def Let_def chunks_def chunk_ok_def)
qed (simp add: blocks_inv_def reset_def Let_def)

lemma arena_start: "arena_inv arena" "blocks_inv arena []"
  by (simp_all add: arena_defs arena_def chunks_def blocks_inv_def kDefaultChunk_def kMaxChunk_def)

lemma seeded_inv:
  assumes "unat buffer + unat len \<le> 2 ^ 63"
  shows "arena_inv (arena_seeded buffer len)" "blocks_inv (arena_seeded buffer len) []"
proof -
  let ?a = "arena_seeded buffer len"
  show "blocks_inv ?a []"
    by (simp add: blocks_inv_def arena_seeded_def adopt_buffer_def Let_def advance_to_def arena_def)
  show "arena_inv ?a"
  proof (cases "buffer \<noteq> 0 \<and> len > kMaxAlign")
    case True
    define c where "c = \<lparr>owned = False, data = align_up buffer kMaxAlign, limit = buffer + len\<rparr>"
    have lim: "unat (limit c) = unat buffer + unat len" using assms by (simp add: c_def unat_add_u64)
    have al: "unat buffer \<le> unat (data c)" "unat (data c) < unat buffer + 16" "16 dvd unat (data c)"
      using align_up_bounds [of 4 buffer] assms by (simp_all add: c_def max_align(1))
    have "0 < unat buffer" "16 < unat len"
      using True by (simp_all add: unat_gt_0 word_less_nat_alt max_align)
    with al lim assms have ok: "chunk_ok c" by (simp add: chunk_ok_def)
    have a: "?a = \<lparr>m_cur = data c, m_limit = limit c, m_head = c, m_more = [], m_cursor = 0, m_live = True,
       m_used = 0, m_reserved = limit c - data c, m_next_chunk = kDefaultChunk, m_cap = SIZE_MAX\<rparr>"
      using True by (simp add: arena_seeded_def adopt_buffer_def Let_def advance_to_def chunk_def arena_def c_def)
    from ok show ?thesis
      by (simp add: a arena_defs chunks_def chunk_len_def unat_sub_u64 chunk_ok_def kDefaultChunk_def kMaxChunk_def)
  next
    case False
    then show ?thesis using arena_start by (auto simp: arena_seeded_def)
  qed
qed

section \<open>Reachable arenas\<close>

text \<open>
  The states a decoder can bring an arena into, with the blocks it has been given since the last
  reset, newest first. A request has a power of two as its alignment; only the latest block is
  shrunk, with its true size; a seed buffer lies in the lower half of the address space.
\<close>

inductive reachable :: "Arena \<Rightarrow> block list \<Rightarrow> bool" where
  reach_new: "reachable arena []"
| reach_seeded: "unat buffer + unat len \<le> 2 ^ 63 \<Longrightarrow> reachable (arena_seeded buffer len) []"
| reach_allocate: "reachable a live \<Longrightarrow> host_ok host a \<Longrightarrow> k < 64 \<Longrightarrow>
    allocate host bytes (2 ^ k) a = (p, a') \<Longrightarrow> reachable a' (if p = 0 then live else (p, bytes) # live)"
| reach_shrink: "reachable a ((p, n) # live) \<Longrightarrow> reachable (shrink_last p n m a) ((p, min m n) # live)"
| reach_reset: "reachable a live \<Longrightarrow> reachable (reset a) []"
| reach_limit: "reachable a live \<Longrightarrow> reachable (set_capacity_limit n a) live"

lemma allocate_inv:
  assumes "arena_inv a" "blocks_inv a live" "latest a live" "host_ok host a" "k < 64"
    and "allocate host bytes (2 ^ k) a = (p, a')"
  shows "arena_inv a'" "blocks_inv a' (if p = 0 then live else (p, bytes) # live)"
    "latest a' (if p = 0 then live else (p, bytes) # live)" "p \<noteq> 0 \<Longrightarrow> 2 ^ k dvd unat p"
proof -
  have "arena_inv a' \<and> blocks_inv a' (if p = 0 then live else (p, bytes) # live) \<and>
      latest a' (if p = 0 then live else (p, bytes) # live) \<and> (p \<noteq> 0 \<longrightarrow> 2 ^ k dvd unat p)"
    using assms(1,4,5,6)
  proof (cases rule: allocate_served)
    case refused
    with assms show ?thesis by simp
  next
    case (served a1)
    from bump_inv [OF served(1) served(2) [OF assms(2)] assms(5) served(3,4)] show ?thesis by simp
  qed
  then show "arena_inv a'" "blocks_inv a' (if p = 0 then live else (p, bytes) # live)"
    "latest a' (if p = 0 then live else (p, bytes) # live)" "p \<noteq> 0 \<Longrightarrow> 2 ^ k dvd unat p" by blast+
qed

lemma reachable_inv: "reachable a live \<Longrightarrow> arena_inv a \<and> blocks_inv a live \<and> latest a live"
proof (induction rule: reachable.induct)
  case (reach_allocate a live host k bytes p a')
  with allocate_inv show ?case by metis
next
  case (reach_shrink a p n live m)
  with shrink_inv show ?case by blast
next
  case (reach_limit a live n)
  then show ?case by (simp add: set_capacity_limit_def)
qed (simp_all add: arena_start seeded_inv reset_inv latest_def)

text \<open>
  Property C5. The arena is memory-safe. In every reachable state the blocks handed out since the last
  reset lie each inside one chunk and overlap neither each other nor the free part of the current
  chunk; the chunks do not overlap; \<open>bytes_used\<close> is exactly the sum of the block sizes,
  \<open>bytes_reserved\<close> the sum of the chunk sizes, and the first is at most the second.
\<close>

theorem arena_blocks_safe:
  "reachable a live \<Longrightarrow>
     (\<forall>b \<in> set live. \<exists>c \<in> set (chunks a). unat (data c) \<le> unat (fst b) \<and> block_end b \<le> unat (limit c)) \<and>
     (\<forall>b \<in> set live. block_end b \<le> unat (m_cur a) \<or> unat (m_limit a) \<le> unat (fst b)) \<and>
     sorted_wrt block_apart live \<and> sorted_wrt apart (chunks a) \<and>
     unat (bytes_used a) = sum_list (map (unat \<circ> snd) live) \<and>
     unat (bytes_reserved a) = sum_list (map chunk_len (chunks a)) \<and> bytes_used a \<le> bytes_reserved a"
proof -
  assume "reachable a live"
  from reachable_inv [OF this] have inv: "arena_inv a" "blocks_inv a live" by simp_all
  have "unat (m_used a) \<le> unat (m_reserved a)"
    using inv(2) extent_le [OF inv(1)] by (simp add: blocks_inv_def)
  moreover have "\<forall>b \<in> set live. \<exists>i. in_chunk a b i" using inv(2) by (simp add: blocks_inv_def)
  then have "\<forall>b \<in> set live. \<exists>c \<in> set (chunks a). unat (data c) \<le> unat (fst b) \<and> block_end b \<le> unat (limit c)"
    "\<forall>b \<in> set live. block_end b \<le> unat (m_cur a) \<or> unat (m_limit a) \<le> unat (fst b)"
    using in_chunk_bounds [OF inv(1)] by blast+
  ultimately show ?thesis using inv
    by (simp add: blocks_inv_def arena_inv_def bytes_used_def bytes_reserved_def word_le_nat_alt)
qed

text \<open>
  When an allocation fails: it fits neither the current chunk nor the next one, and a chunk for it
  would exceed the address range or the capacity limit, or the host has refused it.
\<close>

definition chunk_request :: "u64 \<Rightarrow> nat \<Rightarrow> Arena \<Rightarrow> nat" where
  "chunk_request bytes k a = max (unat (m_next_chunk a)) (unat bytes + 2 ^ k)"

lemma grow_exact:
  assumes "m_next_chunk a \<le> kMaxChunk"
  shows "fst (grow host m a) \<longleftrightarrow>
     (let cap = max (unat (m_next_chunk a)) (unat m) in
      cap + 16 < 2 ^ 63 \<and> unat (m_reserved a) + cap + 16 \<le> unat (m_cap a) \<and> host (word_of_nat (cap + 16)) \<noteq> 0)"
proof -
  define w where "w = (if m_next_chunk a < m then m else m_next_chunk a)"
  have w: "unat w = max (unat (m_next_chunk a)) (unat m)"
    by (auto simp: w_def word_less_nat_alt)
  have lim: "w > PTRDIFF_MAX - kMaxAlign \<longleftrightarrow> \<not> unat w + 16 < 2 ^ 63"
    by (auto simp: word_less_nat_alt PTRDIFF_MAX_def kMaxAlign_def)
  have raw: "w + kMaxAlign = word_of_nat (unat w + 16)" by (simp add: kMaxAlign_def)
  have "unat (w + kMaxAlign) = unat w + 16" if "unat w + 16 < 2 ^ 63"
    using that by (subst unat_add_u64) (simp_all add: max_align)
  then have cap: "m_reserved a \<ge> m_cap a \<or> w + kMaxAlign > m_cap a - m_reserved a \<longleftrightarrow>
      \<not> unat (m_reserved a) + unat w + 16 \<le> unat (m_cap a)" if "unat w + 16 < 2 ^ 63"
    using that by (cases "unat (m_reserved a) < unat (m_cap a)")
      (auto simp: word_le_nat_alt word_less_nat_alt unat_sub_u64)
  show ?thesis
    unfolding grow_def Let_def w_def [symmetric] lim w [symmetric]
    using cap by (cases "unat w + 16 < 2 ^ 63") (simp_all add: kMaxAlign_def)
qed

text \<open>The requests that no allocation can serve.\<close>

definition refused :: "host \<Rightarrow> u64 \<Rightarrow> nat \<Rightarrow> Arena \<Rightarrow> bool" where
  "refused host bytes k a \<longleftrightarrow> \<not> room bytes (2 ^ k) a \<and>
     \<not> (Suc (m_cursor a) < length (chunks a) \<and> fits (chunk a (Suc (m_cursor a))) bytes (2 ^ k)) \<and>
     (unat bytes + 2 ^ k \<ge> 2 ^ 64 \<or> chunk_request bytes k a + 16 \<ge> 2 ^ 63 \<or>
      unat (bytes_reserved a) + chunk_request bytes k a + 16 > unat (m_cap a) \<or>
      host (word_of_nat (chunk_request bytes k a + 16)) = 0)"

lemma refused_iff:
  assumes inv: "arena_inv a" and k: "k < 64"
  shows "refused host bytes k a \<longleftrightarrow> \<not> room bytes (2 ^ k) a \<and>
    \<not> (Suc (m_cursor a) < length (chunks a) \<and> fits (chunk a (Suc (m_cursor a))) bytes (2 ^ k)) \<and>
    (unat bytes + 2 ^ k \<ge> 2 ^ 64 \<or> \<not> fst (grow host (bytes + 2 ^ k) a))"
proof -
  have "unat (bytes + 2 ^ k) = unat bytes + 2 ^ k" if "unat bytes + 2 ^ k < 2 ^ 64"
    using that k by (simp add: unat_add_u64 unat_exp_u64)
  moreover have "m_next_chunk a \<le> kMaxChunk" using inv by (simp add: arena_inv_def)
  ultimately show ?thesis
    by (auto simp: refused_def grow_exact Let_def chunk_request_def bytes_reserved_def not_le not_less)
qed

lemma allocate_zero_iff:
  assumes inv: "arena_inv a" "blocks_inv a live" and host: "host_ok host a" and k: "k < 64"
    and al: "allocate host bytes (2 ^ k) a = (p, a')"
  shows "p = 0 \<longleftrightarrow> refused host bytes k a" and "refused host bytes k a \<Longrightarrow> a' = a"
proof -
  let ?n = "Suc (m_cursor a)"
  have bump: "fst (bump bytes (2 ^ k) a1) \<noteq> 0" if "arena_inv a1" "blocks_inv a1 live" "room bytes (2 ^ k) a1" for a1
    using bump_inv(3) [OF that(1,2) k that(3)] by (metis prod.collapse)
  have grown: "fst (bump bytes (2 ^ k) a1) \<noteq> 0" if "unat bytes + 2 ^ k < 2 ^ 64" "grow host (bytes + 2 ^ k) a = (True, a1)" for a1
    using grow_inv(1,2) [OF that(2) inv(1) host] grow_room [OF inv(1) host k] inv(2) bump
      size_max_room [OF k, of bytes] that by blast
  have reuse: "fst (bump bytes (2 ^ k) (advance_to ?n a)) \<noteq> 0" if "?n < length (chunks a)" "fits (chunk a ?n) bytes (2 ^ k)"
    using advance_inv [OF inv(1)] inv(2) advance_room [OF inv(1)] bump that by blast
  have eq: "allocate host bytes (2 ^ k) a = (if refused host bytes k a then (0, a)
      else if room bytes (2 ^ k) a then bump bytes (2 ^ k) a
      else if ?n < length (chunks a) \<and> fits (chunk a ?n) bytes (2 ^ k) then bump bytes (2 ^ k) (advance_to ?n a)
      else bump bytes (2 ^ k) (snd (grow host (bytes + 2 ^ k) a)))"
    unfolding allocate_eq [OF inv(1) k] refused_iff [OF inv(1) k]
    by (auto split: prod.splits bool.splits dest: grow_False)
  show "refused host bytes k a \<Longrightarrow> a' = a" using eq al by simp
  show "p = 0 \<longleftrightarrow> refused host bytes k a"
  proof
    assume "p = 0"
    with al have z: "fst (allocate host bytes (2 ^ k) a) = 0" by simp
    show "refused host bytes k a"
    proof (rule ccontr)
      assume not: "\<not> refused host bytes k a"
      show False
      proof (cases "room bytes (2 ^ k) a \<or> ?n < length (chunks a) \<and> fits (chunk a ?n) bytes (2 ^ k)")
        case True
        then show ?thesis using z not bump [OF inv] reuse unfolding eq by (auto split: if_splits)
      next
        case False
        with not have g: "unat bytes + 2 ^ k < 2 ^ 64" "fst (grow host (bytes + 2 ^ k) a)"
          unfolding refused_iff [OF inv(1) k] by (auto simp: not_le)
        then have "grow host (bytes + 2 ^ k) a = (True, snd (grow host (bytes + 2 ^ k) a))" by (simp add: prod_eq_iff)
        from grown [OF g(1) this] z not False show ?thesis unfolding eq by auto
      qed
    qed
  qed (use eq al in simp)
qed

text \<open>
  Property C23. An allocation fails exactly for want of memory, and then changes nothing; it never takes
  the reserved memory above the capacity limit. In every reachable arena a request for \<open>bytes\<close> aligned to a
  power of two is refused if and only if it fits neither the current nor the next chunk and a new chunk
  would exceed the representable sizes or the capacity limit or is refused by the host. A refused request leaves the arena
  unchanged; any other returns an aligned block inside a chunk that overlaps no block handed out before.
\<close>

theorem allocate_exact:
  assumes "reachable a live" "host_ok host a" "k < 64" "allocate host bytes (2 ^ k) a = (p, a')"
  shows "(bytes_reserved a' = bytes_reserved a \<or> bytes_reserved a' \<le> m_cap a) \<and>
    (p = 0 \<longleftrightarrow> refused host bytes k a) \<and>
    (if p = 0 then a' = a
     else 2 ^ k dvd unat p \<and> (\<forall>b \<in> set live. block_apart (p, bytes) b) \<and>
      (\<exists>c \<in> set (chunks a'). unat (data c) \<le> unat p \<and> unat p + unat bytes \<le> unat (limit c)))"
    (is "_ \<and> _ \<and> ?result")
proof (intro conjI)
  have inv: "arena_inv a" "blocks_inv a live" "latest a live" using reachable_inv [OF assms(1)] by simp_all
  note al = allocate_inv [OF inv assms(2-4)]
  from inv(1) assms(2-4) show "bytes_reserved a' = bytes_reserved a \<or> bytes_reserved a' \<le> m_cap a"
    by (rule allocate_served) (auto simp: bump_def Let_def bytes_reserved_def)
  note zero = allocate_zero_iff [OF inv(1,2) assms(2-4)]
  show "p = 0 \<longleftrightarrow> refused host bytes k a" by (rule zero(1))
  show ?result
  proof (cases "p = 0")
    case False
    with al(2) obtain i where "in_chunk a' (p, bytes) i" by (auto simp: blocks_inv_def)
    from in_chunk_bounds(1) [OF al(1) this] al(2,4) False show ?thesis by (auto simp: blocks_inv_def)
  qed (use zero in simp)
qed

text \<open>An array request never wraps: a block that is handed out has room for all its elements.\<close>

lemma allocate_array_size:
  assumes "size_of \<noteq> 0" "allocate_array host size_of align_of n a = (p, a')" "p \<noteq> 0"
  shows "allocate host (n * size_of) align_of a = (p, a')" "unat (n * size_of) = unat n * unat size_of"
proof -
  from assms(2,3) have n: "n \<le> SIZE_MAX div size_of" and "allocate host (n * size_of) align_of a = (p, a')"
    by (auto simp: allocate_array_def not_less split: if_splits)
  then show "allocate host (n * size_of) align_of a = (p, a')" by simp
  have "unat n \<le> (2 ^ 64 - 1) div unat size_of"
    using n by (simp add: word_le_nat_alt unat_div SIZE_MAX_def)
  then have "unat n * unat size_of \<le> 2 ^ 64 - 1"
    by (meson div_times_less_eq_dividend le_trans mult_le_mono1)
  then show "unat (n * size_of) = unat n * unat size_of" by (subst unat_mult_lem [THEN iffD1]) simp_all
qed

section \<open>A concrete arena\<close>

definition demo_host :: host where
  "demo_host raw = (if raw \<le> 2 ^ 20 then 4096 else 0)"

lemma demo_host_ok: "host_ok demo_host arena"
  by (simp add: host_ok_def host_block_def demo_host_def chunks_def arena_def word_le_nat_alt)

lemma demo_allocate:
  "allocate demo_host 24 (2 ^ 3) arena =
     (4096, \<lparr>m_cur = 4120, m_limit = 8208, m_head = \<lparr>owned = True, data = 4096, limit = 8208\<rparr>, m_more = [], m_cursor = 0,
       m_live = True, m_used = 24, m_reserved = 4112, m_next_chunk = 8192, m_cap = SIZE_MAX\<rparr>)"
  by code_simp

lemma demo_reachable: "reachable (snd (allocate demo_host 24 (2 ^ 3) arena)) [(4096, 24)]"
  unfolding demo_allocate using reach_allocate [OF reach_new demo_host_ok _ demo_allocate] by simp

theorem arena_blocks_safe_witness:
  "unat (bytes_used (snd (allocate demo_host 24 (2 ^ 3) arena))) = 24 \<and>
   (\<exists>c \<in> set (chunks (snd (allocate demo_host 24 (2 ^ 3) arena))). unat (data c) \<le> 4096 \<and> 4120 \<le> unat (limit c))"
  using arena_blocks_safe [OF demo_reachable] by simp

theorem allocate_exact_witness:
  "2 ^ 3 dvd unat (fst (allocate demo_host 24 (2 ^ 3) arena)) \<and>
   (\<exists>c \<in> set (chunks (snd (allocate demo_host 24 (2 ^ 3) arena))). unat (data c) \<le> 4096 \<and> 4120 \<le> unat (limit c))"
  unfolding demo_allocate using allocate_exact [OF reach_new demo_host_ok _ demo_allocate] by simp

end
