(* ===== verification/Arena_Reuse.thy ===== *)
theory Arena_Reuse
  imports Arena
begin

text \<open>
  What \<open>Arena::reset\<close> is for (src/include/rapidproto/arena_runtime.hpp): an arena that has served a
  sequence of requests and is reset serves the same sequence again out of the chunks it holds.
\<close>

section \<open>Reuse after a reset\<close>

text \<open>
  A decoder's request: a block of some bytes at an alignment \<open>2 ^ k\<close>, of which it keeps a prefix once
  the block is filled. \<open>serve_all\<close> serves a sequence of them, with the host's answer for each.
\<close>

type_synonym request = "u64 \<times> nat \<times> u64"

fun serve :: "host \<Rightarrow> request \<Rightarrow> Arena \<Rightarrow> (addr \<times> Arena) option" where
  "serve host (bytes, k, keep) a =
     (case allocate host bytes (2 ^ k) a of
        (p, a1) \<Rightarrow> if p = 0 then None else Some (p, shrink_last p bytes keep a1))"

fun serve_all :: "(nat \<Rightarrow> host) \<Rightarrow> nat \<Rightarrow> request list \<Rightarrow> Arena \<Rightarrow> (addr list \<times> Arena) option" where
  "serve_all hosts n [] a = Some ([], a)"
| "serve_all hosts n (r # rs) a =
     (case serve (hosts n) r a of
        None \<Rightarrow> None
      | Some (p, a1) \<Rightarrow>
          (case serve_all hosts (Suc n) rs a1 of None \<Rightarrow> None | Some (ps, a2) \<Rightarrow> Some (p # ps, a2)))"

fun hosts_ok :: "(nat \<Rightarrow> host) \<Rightarrow> nat \<Rightarrow> request list \<Rightarrow> Arena \<Rightarrow> bool" where
  "hosts_ok hosts n [] a \<longleftrightarrow> True"
| "hosts_ok hosts n (r # rs) a \<longleftrightarrow> fst (snd r) < 64 \<and> host_ok (hosts n) a \<and>
     (case serve (hosts n) r a of None \<Rightarrow> True | Some (p, a1) \<Rightarrow> hosts_ok hosts (Suc n) rs a1)"

definition no_host :: host where "no_host raw = 0"

lemma bump_simps:
  "chunks (snd (bump bytes align a)) = chunks a" "m_cursor (snd (bump bytes align a)) = m_cursor a"
  "m_live (snd (bump bytes align a)) = m_live a" "m_limit (snd (bump bytes align a)) = m_limit a"
  "m_reserved (snd (bump bytes align a)) = m_reserved a"
  "m_cur (snd (bump bytes align a)) = align_up (m_cur a) align + bytes" "fst (bump bytes align a) = align_up (m_cur a) align"
  by (simp_all add: bump_def Let_def chunks_def)

lemma shrink_simps [simp]:
  "chunks (shrink_last p n m a) = chunks a" "m_cursor (shrink_last p n m a) = m_cursor a"
  "m_live (shrink_last p n m a) = m_live a" "m_limit (shrink_last p n m a) = m_limit a"
  "m_reserved (shrink_last p n m a) = m_reserved a"
  by (simp_all add: shrink_last_def chunks_def)

lemma reset_simps [simp]:
  "chunks (reset a) = chunks a" "m_cursor (reset a) = 0" "m_live (reset a) = m_live a" "m_reserved (reset a) = m_reserved a"
  by (simp_all add: reset_def Let_def chunks_def)

text \<open>A served request comes from one of three arenas that have room for it.\<close>

lemma serve_cases:
  assumes "arena_inv a" "host_ok host a" "k < 64" "serve host (bytes, k, keep) a = Some (p, a')"
  obtains (here) "room bytes (2 ^ k) a" "a' = shrink_last p bytes keep (snd (bump bytes (2 ^ k) a))"
      "p = align_up (m_cur a) (2 ^ k)" "p \<noteq> 0"
  | (reuse) "\<not> room bytes (2 ^ k) a" "Suc (m_cursor a) < length (chunks a)" "fits (chunks a ! Suc (m_cursor a)) bytes (2 ^ k)"
      "a' = shrink_last p bytes keep (snd (bump bytes (2 ^ k) (advance_to (Suc (m_cursor a)) a)))"
      "p = align_up (data (chunks a ! Suc (m_cursor a))) (2 ^ k)" "p \<noteq> 0"
  | (grown) a1 where "\<not> room bytes (2 ^ k) a" "grow host (bytes + 2 ^ k) a = (True, a1)" "room bytes (2 ^ k) a1"
      "a' = shrink_last p bytes keep (snd (bump bytes (2 ^ k) a1))" "p = align_up (m_cur a1) (2 ^ k)" "p \<noteq> 0"
proof -
  let ?n = "Suc (m_cursor a)"
  from assms(4) obtain a0 where a0: "allocate host bytes (2 ^ k) a = (p, a0)" "p \<noteq> 0" "a' = shrink_last p bytes keep a0"
    by (auto split: prod.splits if_splits)
  have adv: "m_cur (advance_to ?n a) = data (chunks a ! ?n)" if "?n < length (chunks a)"
    using that by (simp add: advance_to_def chunk_chunks)
  have bump: "p = align_up (m_cur b) (2 ^ k) \<and> a0 = snd (bump bytes (2 ^ k) b)" if "bump bytes (2 ^ k) b = (p, a0)" for b
    using that by (simp add: bump_def Let_def) auto
  show thesis
  proof (cases "room bytes (2 ^ k) a")
    case True
    then have "bump bytes (2 ^ k) a = (p, a0)" using a0(1) unfolding allocate_eq [OF assms(1,3)] by simp
    from bump [OF this] True a0(2,3) show ?thesis by (intro here) simp_all
  next
    case False
    show ?thesis
    proof (cases "?n < length (chunks a) \<and> fits (chunk a ?n) bytes (2 ^ k)")
      case True
      then have b: "bump bytes (2 ^ k) (advance_to ?n a) = (p, a0)"
        using False a0(1) unfolding allocate_eq [OF assms(1,3)] by simp
      have "fits (chunks a ! ?n) bytes (2 ^ k)" using True chunk_chunks [of ?n a] by simp
      with bump [OF b] True False a0(2,3) adv show ?thesis by (intro reuse) simp_all
    next
      case nofit: False
      with False a0(1,2) obtain a1 where *: "unat bytes + 2 ^ k < 2 ^ 64" "grow host (bytes + 2 ^ k) a = (True, a1)"
        "bump bytes (2 ^ k) a1 = (p, a0)"
        unfolding allocate_eq [OF assms(1,3)] by (auto split: if_splits prod.splits bool.splits)
      then have "bytes \<le> SIZE_MAX - 2 ^ k" using size_max_room [OF assms(3)] by simp
      from grow_room [OF assms(1-3) this *(2)] bump [OF *(3)] *(2) False a0(2,3) show ?thesis
        by (intro grown [of a1]) simp_all
    qed
  qed
qed

text \<open>Serving only adds chunks behind the cursor, so what precedes it never changes.\<close>

lemma serve_reachable:
  assumes "reachable a live" "host_ok host a" "k < 64" "serve host (bytes, k, keep) a = Some (p, a')"
  shows "reachable a' ((p, min keep bytes) # live)"
proof -
  from assms(4) obtain a0 where a0: "allocate host bytes (2 ^ k) a = (p, a0)" "p \<noteq> 0" "a' = shrink_last p bytes keep a0"
    by (auto split: prod.splits if_splits)
  from reach_allocate [OF assms(1-3) a0(1)] a0(2) have "reachable a0 ((p, bytes) # live)" by simp
  then show ?thesis unfolding a0(3) by (rule reach_shrink)
qed

lemma grow_prefix:
  assumes "cursor_ok a" "grow host m a = (True, a')"
  shows "m_live a'" "m_cursor a' = (if m_live a then Suc (m_cursor a) else 0)"
    "m_live a \<Longrightarrow> take (Suc (m_cursor a)) (chunks a') = take (Suc (m_cursor a)) (chunks a)"
  using assms(1) by (rule grow_True [OF assms(2)]; auto simp: cursor_ok_def)+

lemma serve_prefix:
  assumes "arena_inv a" "host_ok host a" "k < 64" "serve host (bytes, k, keep) a = Some (p, a')"
  shows "m_live a'" "m_live a \<Longrightarrow> m_cursor a \<le> m_cursor a'"
    "m_live a \<Longrightarrow> take (Suc (m_cursor a)) (chunks a') = take (Suc (m_cursor a)) (chunks a)"
proof -
  have cok: "cursor_ok a" using assms(1) by (simp add: arena_inv_def)
  have "m_live a' \<and> (m_live a \<longrightarrow> m_cursor a \<le> m_cursor a' \<and>
      take (Suc (m_cursor a)) (chunks a') = take (Suc (m_cursor a)) (chunks a))"
    using assms
  proof (cases rule: serve_cases)
    case here
    then show ?thesis by (simp add: bump_simps room_def)
  next
    case reuse
    then show ?thesis using advance_inv(3) [OF assms(1) reuse(2)] by (simp add: bump_simps advance_to_def)
  next
    case (grown a1)
    from grow_prefix [OF cok grown(2)] grown(4) show ?thesis by (simp add: bump_simps)
  qed
  then show "m_live a'" "m_live a \<Longrightarrow> m_cursor a \<le> m_cursor a'"
    "m_live a \<Longrightarrow> take (Suc (m_cursor a)) (chunks a') = take (Suc (m_cursor a)) (chunks a)" by simp_all
qed

lemma serve_all_prefix:
  "reachable a live \<Longrightarrow> hosts_ok hosts n rs a \<Longrightarrow> serve_all hosts n rs a = Some (ps, a') \<Longrightarrow>
     (\<exists>live'. reachable a' live') \<and>
     (m_live a \<longrightarrow> m_live a' \<and> take (Suc (m_cursor a)) (chunks a') = take (Suc (m_cursor a)) (chunks a))"
proof (induction rs arbitrary: n a live ps)
  case (Cons r rs)
  obtain bytes k keep where r: "r = (bytes, k, keep)" by (cases r)
  from Cons.prems(3) obtain p a1 qs where *: "serve (hosts n) r a = Some (p, a1)" "serve_all hosts (Suc n) rs a1 = Some (qs, a')"
    by (auto split: option.splits)
  from Cons.prems(2) * r have ok: "host_ok (hosts n) a" "k < 64" "hosts_ok hosts (Suc n) rs a1" by simp_all
  have inv: "arena_inv a" using reachable_inv [OF Cons.prems(1)] by simp
  note pre = serve_prefix [OF inv ok(1,2) *(1) [unfolded r]]
  from Cons.IH [OF serve_reachable [OF Cons.prems(1) ok(1,2) *(1) [unfolded r]] ok(3) *(2)] pre
  have IH: "\<exists>live'. reachable a' live'" "m_live a'"
    "take (Suc (m_cursor a1)) (chunks a') = take (Suc (m_cursor a1)) (chunks a1)" by simp_all
  have "take (Suc (m_cursor a)) (chunks a') = take (Suc (m_cursor a)) (chunks a)" if "m_live a"
  proof -
    have "take (Suc (m_cursor a)) (take (Suc (m_cursor a1)) (chunks a')) =
        take (Suc (m_cursor a)) (take (Suc (m_cursor a1)) (chunks a1))" by (simp only: IH(3))
    with pre(2,3) that show ?thesis by (simp add: min_absorb1)
  qed
  with IH show ?case by simp
qed auto

lemma serve_all_live:
  "reachable a live \<Longrightarrow> hosts_ok hosts n rs a \<Longrightarrow> serve_all hosts n rs a = Some (ps, a') \<Longrightarrow> rs \<noteq> [] \<Longrightarrow> m_live a'"
proof (cases rs)
  case (Cons r rs')
  assume prems: "reachable a live" "hosts_ok hosts n rs a" "serve_all hosts n rs a = Some (ps, a')"
  obtain bytes k keep where r: "r = (bytes, k, keep)" by (cases r)
  from prems(3) Cons obtain p a1 qs where *: "serve (hosts n) r a = Some (p, a1)" "serve_all hosts (Suc n) rs' a1 = Some (qs, a')"
    by (auto split: option.splits)
  from prems(2) * r Cons have ok: "host_ok (hosts n) a" "k < 64" "hosts_ok hosts (Suc n) rs' a1" by simp_all
  have "arena_inv a" using reachable_inv [OF prems(1)] by simp
  from serve_prefix(1) [OF this ok(1,2) *(1) [unfolded r]]
    serve_all_prefix [OF serve_reachable [OF prems(1) ok(1,2) *(1) [unfolded r]] ok(3) *(2)]
  show ?thesis by simp
qed simp

text \<open>
  \<open>resumes a b\<close>: the arena \<open>b\<close> stands where \<open>a\<close> stands, on a chunk list that already holds what the
  first run adds; before the first chunk exists, \<open>b\<close> stands at the start of it.
\<close>

definition resumes :: "Arena \<Rightarrow> Arena \<Rightarrow> bool" where
  "resumes a b \<longleftrightarrow> arena_inv b \<and> m_live b \<and>
     (if m_live a then m_cursor b = m_cursor a \<and> m_cur b = m_cur a \<and> m_limit b = m_limit a
      else m_cursor b = 0 \<and> m_cur b = data (chunks b ! 0) \<and> m_limit b = limit (chunks b ! 0))"

lemma serve_here:
  assumes "arena_inv b" "k < 64" "room bytes (2 ^ k) b" "align_up (m_cur b) (2 ^ k) \<noteq> 0"
  shows "serve no_host (bytes, k, keep) b =
    Some (align_up (m_cur b) (2 ^ k), shrink_last (align_up (m_cur b) (2 ^ k)) bytes keep (snd (bump bytes (2 ^ k) b)))"
  using assms by (simp add: allocate_eq bump_def Let_def)

lemma serve_next:
  assumes "arena_inv b" "k < 64" "\<not> room bytes (2 ^ k) b" "Suc (m_cursor b) < length (chunks b)"
    and "fits (chunks b ! Suc (m_cursor b)) bytes (2 ^ k)" "p = align_up (data (chunks b ! Suc (m_cursor b))) (2 ^ k)" "p \<noteq> 0"
  shows "serve no_host (bytes, k, keep) b =
    Some (p, shrink_last p bytes keep (snd (bump bytes (2 ^ k) (advance_to (Suc (m_cursor b)) b))))"
  using assms by (simp add: allocate_eq bump_def Let_def chunk_chunks advance_to_def)

lemma resumesI:
  assumes "arena_inv b'" "m_live b'" "m_live a'" "m_cursor b' = m_cursor a'" "m_cur b' = m_cur a'" "m_limit b' = m_limit a'"
  shows "resumes a' b'"
  using assms by (simp add: resumes_def)

text \<open>One step of the second run: the same address, without the host.\<close>

definition again :: "request \<Rightarrow> Arena \<Rightarrow> addr \<Rightarrow> Arena \<Rightarrow> bool" where
  "again r b p a' \<longleftrightarrow> (\<exists>b' bl'. serve no_host r b = Some (p, b') \<and> reachable b' bl' \<and> resumes a' b' \<and>
     chunks b' = chunks b \<and> m_reserved b' = m_reserved b)"

lemma again_finish:
  assumes "reachable b bl" "m_live b" "m_live a'" "k < 64"
    and "serve no_host (bytes, k, keep) b = Some (p, b')" "m_cursor b' = m_cursor a'" "m_cur b' = m_cur a'"
      "m_limit b' = m_limit a'" "chunks b' = chunks b" "m_reserved b' = m_reserved b"
  shows "again (bytes, k, keep) b p a'"
proof -
  have "host_ok no_host b" by (simp add: host_ok_def host_block_def no_host_def)
  from serve_reachable [OF assms(1) this assms(4,5)] have r: "reachable b' ((p, min keep bytes) # bl)" .
  have "m_live b'" using assms(2,9) by (simp flip: chunks_live)
  with r assms reachable_inv [OF r] show ?thesis unfolding again_def by (blast intro: resumesI)
qed

lemma again_next:
  assumes b: "reachable b bl" "m_live b" "m_live a'" "k < 64"
    and res: "resumes a b" and "m_live a" "Suc (m_cursor a) < length (chunks b)" "m_cursor a' = Suc (m_cursor a)"
      "\<not> room bytes (2 ^ k) a" "chunks b ! Suc (m_cursor a) = c"
      "fits c bytes (2 ^ k)" "p = align_up (data c) (2 ^ k)" "p \<noteq> 0" "m_limit a' = limit c"
      "m_cur a' = m_cur (shrink_last p bytes keep (a\<lparr>m_cur := p + bytes\<rparr>))"
  shows "again (bytes, k, keep) b p a'"
proof -
  have eq: "m_cursor b = m_cursor a" "m_cur b = m_cur a" "m_limit b = m_limit a"
    using res assms(6) by (simp_all add: resumes_def)
  have "\<not> room bytes (2 ^ k) b" using assms(6,9) eq by (simp add: room_def)
  from serve_next [OF _ b(4) this, of p keep] reachable_inv [OF b(1)] assms eq
  have srv: "serve no_host (bytes, k, keep) b =
      Some (p, shrink_last p bytes keep (snd (bump bytes (2 ^ k) (advance_to (Suc (m_cursor b)) b))))" by simp
  show ?thesis
    by (rule again_finish [OF b srv]) (use assms eq in \<open>simp_all add: bump_simps advance_to_def chunk_chunks shrink_last_def\<close>)
qed

lemma again_here:
  assumes b: "reachable b bl" "m_live b" "m_live a'" "k < 64"
    and "room bytes (2 ^ k) b" "p = align_up (m_cur b) (2 ^ k)" "p \<noteq> 0" "m_cursor a' = m_cursor b"
      "m_limit a' = m_limit b" "m_cur a' = m_cur (shrink_last p bytes keep (a\<lparr>m_cur := p + bytes\<rparr>))"
  shows "again (bytes, k, keep) b p a'"
proof -
  have srv: "serve no_host (bytes, k, keep) b = Some (p, shrink_last p bytes keep (snd (bump bytes (2 ^ k) b)))"
    using serve_here [OF _ b(4) assms(5)] reachable_inv [OF b(1)] assms(6,7) by simp
  show ?thesis by (rule again_finish [OF b srv]) (use assms in \<open>simp_all add: bump_simps shrink_last_def\<close>)
qed

lemma serve_again:
  assumes inv: "arena_inv a" "host_ok host a" "k < 64" and s: "serve host (bytes, k, keep) a = Some (p, a')"
    and later: "take (Suc (m_cursor a')) (chunks b) = take (Suc (m_cursor a')) (chunks a')"
    and inv': "cursor_ok a'" and live: "reachable b bl" and res: "resumes a b"
  shows "again (bytes, k, keep) b p a'"
proof -
  have lb: "m_live b" using res by (simp add: resumes_def)
  have la': "m_live a'" by (rule serve_prefix(1) [OF inv s])
  then have lt: "m_cursor a' < length (chunks a')" using inv' by (simp add: cursor_ok_def)
  have "length (take (Suc (m_cursor a')) (chunks b)) = Suc (m_cursor a')" unfolding later using lt by simp
  then have at1: "m_cursor a' < length (chunks b)" by simp
  have at2: "chunks b ! m_cursor a' = chunks a' ! m_cursor a'"
    using later nth_take [of "m_cursor a'" "Suc (m_cursor a')" "chunks b"] nth_take [of "m_cursor a'" "Suc (m_cursor a')" "chunks a'"]
    by simp
  note at = at1 at2
  from inv s show ?thesis
  proof (cases rule: serve_cases)
    case here
    then have "m_live a" by (simp add: room_def)
    with res here show ?thesis
      by (intro again_here [OF live lb la' inv(3)]) (auto simp: resumes_def room_def bump_simps shrink_last_def)
  next
    case reuse
    have la: "m_live a" by (rule advance_inv(3) [OF inv(1) reuse(2)])
    have "m_cursor a' = Suc (m_cursor a)" "chunks a' = chunks a" by (simp_all add: reuse(4) bump_simps advance_to_def)
    with at la reuse show ?thesis
      by (intro again_next [OF live lb la' inv(3) res, where c = "chunks a ! Suc (m_cursor a)"])
        (simp_all add: bump_simps advance_to_def chunk_chunks shrink_last_def)
  next
    case (grown a1)
    have "cursor_ok a" using inv(1) by (simp add: arena_inv_def)
    note g = grow_inv [OF grown(2) inv(1,2)] grow_prefix [OF this grown(2)]
    have a': "m_cursor a' = m_cursor a1" "chunks a' = chunks a1" "m_limit a' = limit (current a1)"
      "m_cur a' = m_cur (shrink_last p bytes keep (a\<lparr>m_cur := p + bytes\<rparr>))"
      using grown(5) g(1,3) by (simp_all add: grown(4) bump_simps shrink_last_def arena_defs)
    show ?thesis
    proof (cases "m_live a")
      case True
      with g grown a' at show ?thesis
        by (intro again_next [OF live lb la' inv(3) res, where c = "current a1"]) (simp_all add: fits_iff room_def arena_defs)
    next
      case False
      with res g grown a' at lb show ?thesis
        by (intro again_here [OF live lb la' inv(3)]) (simp_all add: room_def resumes_def arena_defs)
    qed
  qed
qed

lemma serve_all_again:
  "reachable a live \<Longrightarrow> hosts_ok hosts n rs a \<Longrightarrow> serve_all hosts n rs a = Some (ps, a') \<Longrightarrow>
     reachable b bl \<Longrightarrow> chunks b = chunks a' \<Longrightarrow> rs \<noteq> [] \<longrightarrow> resumes a b \<Longrightarrow>
     \<exists>b'. serve_all (\<lambda>_. no_host) m rs b = Some (ps, b') \<and> chunks b' = chunks a' \<and> m_reserved b' = m_reserved b"
proof (induction rs arbitrary: n m a live ps b bl)
  case (Cons r rs)
  obtain bytes k keep where r: "r = (bytes, k, keep)" by (cases r)
  from Cons.prems(3) obtain p a1 qs where *: "serve (hosts n) r a = Some (p, a1)" "serve_all hosts (Suc n) rs a1 = Some (qs, a')"
    "ps = p # qs"
    by (auto split: option.splits)
  from Cons.prems(2) * r have ok: "host_ok (hosts n) a" "k < 64" "hosts_ok hosts (Suc n) rs a1" by simp_all
  have inv: "arena_inv a" using reachable_inv [OF Cons.prems(1)] by simp
  note s = *(1) [unfolded r]
  note r1 = serve_reachable [OF Cons.prems(1) ok(1,2) s]
  have c1: "cursor_ok a1" using reachable_inv [OF r1] by (simp add: arena_inv_def)
  have "take (Suc (m_cursor a1)) (chunks b) = take (Suc (m_cursor a1)) (chunks a1)"
    using serve_all_prefix [OF r1 ok(3) *(2)] serve_prefix(1) [OF inv ok(1,2) s] Cons.prems(5) by simp
  from serve_again [OF inv ok(1,2) s this c1 Cons.prems(4)] Cons.prems(6)
  obtain b1 bl1 where b1: "serve no_host r b = Some (p, b1)" "reachable b1 bl1" "resumes a1 b1"
    "chunks b1 = chunks b" "m_reserved b1 = m_reserved b"
    by (auto simp: again_def r)
  from Cons.IH [OF r1 ok(3) *(2) b1(2), of "Suc m"] b1 Cons.prems(5) *(3) show ?case by auto
qed simp

text \<open>
  Property C24. After a reset the arena needs no host memory for the same work. If a reset arena has
  served a sequence of requests, then, reset again, it serves the same sequence at the same addresses
  even when the host refuses every allocation, and the memory it holds does not change.
\<close>

theorem reset_reuses_memory:
  assumes "reachable a live" "hosts_ok hosts 0 rs (reset a)" "serve_all hosts 0 rs (reset a) = Some (ps, a')"
  shows "\<exists>a''. serve_all (\<lambda>_. no_host) 0 rs (reset a') = Some (ps, a'') \<and> bytes_reserved a'' = bytes_reserved a' \<and>
     chunks a'' = chunks a'"
proof -
  have r: "reachable (reset a) []" using assms(1) by (rule reach_reset)
  from serve_all_prefix [OF r assms(2,3)] obtain live' where a': "reachable a' live'"
    and pre: "m_live a \<Longrightarrow> take 1 (chunks a') = take 1 (chunks a)" by auto
  have b: "reachable (reset a') []" using a' by (rule reach_reset)
  have "resumes (reset a) (reset a')" if "rs \<noteq> []"
  proof -
    have "m_live a'" using serve_all_live [OF r assms(2,3) that] .
    moreover have "arena_inv (reset a')" using reachable_inv [OF b] by simp
    moreover have "m_head a' = m_head a" if "m_live a" using pre that \<open>m_live a'\<close> by (simp add: chunks_def)
    ultimately show ?thesis by (simp add: resumes_def) (simp add: reset_def Let_def chunks_def)
  qed
  from serve_all_again [OF r assms(2,3) b, of 0] this show ?thesis by (auto simp: bytes_reserved_def)
qed

lemma demo_serve:
  "serve_all (\<lambda>_. demo_host) 0 [(24, 3, 16)] (reset arena) =
     Some ([4096], \<lparr>m_cur = 4112, m_limit = 8208, m_head = \<lparr>owned = True, data = 4096, limit = 8208\<rparr>, m_more = [], m_cursor = 0,
       m_live = True, m_used = 16, m_reserved = 4112, m_next_chunk = 8192, m_cap = SIZE_MAX\<rparr>)"
  by code_simp

theorem reset_reuses_memory_witness:
  "\<exists>a' a''. serve_all (\<lambda>_. demo_host) 0 [(24, 3, 16)] (reset arena) = Some ([4096], a') \<and>
     serve_all (\<lambda>_. no_host) 0 [(24, 3, 16)] (reset a') = Some ([4096], a'')"
proof -
  have "reset arena = arena" by (simp add: reset_def arena_def Let_def)
  then have "hosts_ok (\<lambda>_. demo_host) 0 [(24, 3, 16)] (reset arena)"
    using demo_host_ok by (simp split: option.split)
  from reset_reuses_memory [OF reach_new this demo_serve] demo_serve show ?thesis by blast
qed

end
