(* ===== verification/Arena_Decode.thy ===== *)
theory Arena_Decode
  imports Arena Packed
begin

text \<open>
  The decode support of the arena runtime (src/include/rapidproto/arena_runtime.hpp, from
  \<open>ArenaString\<close> on): the 12-byte cells that view strings and arrays, the map view, the failure record
  and the helpers that fill it, the owning decode, and the two decoders of packed-varint spans.
\<close>

section \<open>Views\<close>

text \<open>A \<open>ByteView\<close> is a pointer and a length.\<close>

type_synonym ByteView = "addr \<times> u64"

definition UINT32_MAX :: u64 where "UINT32_MAX = 0xFFFFFFFF"

record ArenaString =
  str_ptr :: addr
  str_len :: u32

definition empty_string :: ArenaString where
  "empty_string = \<lparr>str_ptr = 0, str_len = 0\<rparr>"

definition make_string :: "ByteView \<Rightarrow> ArenaString" where
  "make_string s =
     (if snd s > UINT32_MAX then empty_string else \<lparr>str_ptr = fst s, str_len = ucast (snd s)\<rparr>)"

definition string_view :: "ArenaString \<Rightarrow> ByteView" where
  "string_view s = (str_ptr s, ucast (str_len s))"

record ArrayView =
  arr_data :: addr
  arr_size :: u32

definition array_view :: "addr \<Rightarrow> u64 \<Rightarrow> ArrayView" where
  "array_view p n = \<lparr>arr_data = p, arr_size = ucast n\<rparr>"

definition array_size :: "ArrayView \<Rightarrow> u64" where
  "array_size v = ucast (arr_size v)"

text \<open>
  A map view over the entries in wire order. An iterator is the index of its entry, \<open>end()\<close> the number
  of entries.
\<close>

fun find_loop :: "('e \<Rightarrow> 'k) \<Rightarrow> 'k \<Rightarrow> 'e list \<Rightarrow> nat \<Rightarrow> nat \<Rightarrow> nat" where
  "find_loop key_of key [] i hit = hit"
| "find_loop key_of key (e # es) i hit =
     find_loop key_of key es (Suc i) (if key_of e = key then i else hit)"

definition map_find :: "('e \<Rightarrow> 'k) \<Rightarrow> 'e list \<Rightarrow> 'k \<Rightarrow> nat" where
  "map_find key_of entries key = find_loop key_of key entries 0 (length entries)"

section \<open>Failures\<close>

datatype ArenaCode = NoFailure | WireFailure | OutOfMemory | RecursionTooDeep | MissingRequired
  | RepeatedSingularMessage | StringTooLong | InputTooLarge

record ArenaDecodeError =
  err_code :: ArenaCode
  err_wire :: WireError
  err_offset :: nat
  err_field :: u32

definition no_failure :: ArenaDecodeError where
  "no_failure = \<lparr>err_code = NoFailure, err_wire = WireNone, err_offset = 0, err_field = 0\<rparr>"

definition decode_ok :: "ArenaDecodeError \<Rightarrow> bool" where
  "decode_ok e \<longleftrightarrow> err_code e = NoFailure"

text \<open>The helpers take the caller's error record, absent for a null pointer.\<close>

definition rp_fail_wire_at :: "WireError \<Rightarrow> nat \<Rightarrow> ArenaDecodeError option \<Rightarrow> ArenaDecodeError option" where
  "rp_fail_wire_at c off = map_option (\<lambda>e. e\<lparr>err_code := WireFailure, err_wire := c, err_offset := off\<rparr>)"

definition rp_fail_oom :: "ArenaDecodeError option \<Rightarrow> ArenaDecodeError option" where
  "rp_fail_oom = map_option (\<lambda>e. e\<lparr>err_code := OutOfMemory\<rparr>)"

definition rp_fail_input_too_large :: "ArenaDecodeError option \<Rightarrow> ArenaDecodeError option" where
  "rp_fail_input_too_large = map_option (\<lambda>e. e\<lparr>err_code := InputTooLarge\<rparr>)"

definition rp_fail_recursion :: "ArenaDecodeError option \<Rightarrow> ArenaDecodeError option" where
  "rp_fail_recursion = map_option (\<lambda>e. e\<lparr>err_code := RecursionTooDeep\<rparr>)"

definition rp_fail_missing_required :: "u32 \<Rightarrow> ArenaDecodeError option \<Rightarrow> ArenaDecodeError option" where
  "rp_fail_missing_required f = map_option (\<lambda>e. e\<lparr>err_code := MissingRequired, err_field := f\<rparr>)"

definition rp_fail_repeated_singular :: "u32 \<Rightarrow> ArenaDecodeError option \<Rightarrow> ArenaDecodeError option" where
  "rp_fail_repeated_singular f = map_option (\<lambda>e. e\<lparr>err_code := RepeatedSingularMessage, err_field := f\<rparr>)"

text \<open>
  The owning decode: the generated decoder is a parameter that answers a root or none; the handle
  bundles the input and the arena with the root.
\<close>

definition decode_owned ::
    "('i \<Rightarrow> Arena \<Rightarrow> ArenaDecodeError option \<Rightarrow> 'root option \<times> Arena \<times> ArenaDecodeError option) \<Rightarrow>
      'i \<Rightarrow> ArenaDecodeError option \<Rightarrow> ('i \<times> Arena \<times> 'root) option \<times> ArenaDecodeError option" where
  "decode_owned decode input err =
     (case decode input arena err of
        (None, _, e) \<Rightarrow> (None, e)
      | (Some root, a, e) \<Rightarrow> (Some (input, a, root), e))"

section \<open>Packed-varint spans\<close>

text \<open>
  Both decoders fill the array \<open>dst\<close> from the bytes of the span and return the number of elements;
  \<open>Inl\<close> is the return value \<open>SIZE_MAX\<close> with the caller's error record.
\<close>

definition decode_packed_varints_large ::
    "u8 list \<Rightarrow> (u64 \<Rightarrow> 'e) \<Rightarrow> 'e list \<Rightarrow> ArenaDecodeError option \<Rightarrow> (ArenaDecodeError option + nat \<times> 'e list) option" where
  "decode_packed_varints_large span conv dst err =
     map_option (map_sum (\<lambda>(we, fo). rp_fail_wire_at we fo err) id) (decode_packed_varints span 0 conv dst)"

function small_loop ::
    "u8 list \<Rightarrow> (u64 \<Rightarrow> 'e) \<Rightarrow> nat \<Rightarrow> nat \<Rightarrow> 'e list \<Rightarrow> ArenaDecodeError option \<Rightarrow>
      (ArenaDecodeError option + nat \<times> 'e list) option" where
  "small_loop span conv vp n dst err =
     (if vp < length span then
        (case read_varint span vp of
           Inl we \<Rightarrow> Some (Inl (rp_fail_wire_at we vp err))
         | Inr (np, raw) \<Rightarrow>
             (case put conv dst n raw of
                None \<Rightarrow> None
              | Some dst' \<Rightarrow> small_loop span conv np (n + 1) dst' err))
      else Some (Inr (n, dst)))"
  by pat_completeness auto
termination
  by (relation "measure (\<lambda>(span, _, vp, _). length span - vp)") (auto dest: read_varint_bounds)

declare small_loop.simps [simp del]

definition decode_packed_varints_small ::
    "u8 list \<Rightarrow> (u64 \<Rightarrow> 'e) \<Rightarrow> 'e list \<Rightarrow> ArenaDecodeError option \<Rightarrow> (ArenaDecodeError option + nat \<times> 'e list) option" where
  "decode_packed_varints_small span conv dst err = small_loop span conv 0 0 dst err"

lemma small_loop_tail:
  "small_loop span conv vp n dst err =
     map_option (map_sum (\<lambda>(we, fo). rp_fail_wire_at we fo err) id) (scalar_tail span conv vp n dst)"
proof (induction span conv vp n dst err rule: small_loop.induct)
  case (1 span conv vp n dst err)
  then show ?case
    by (subst small_loop.simps, subst scalar_tail.simps) (auto simp: id_def split: sum.splits prod.splits option.splits)
qed

text \<open>
  Property C25. The out-of-line decoder with its kernels and the inlined byte loop agree on every span
  for which the array has a cell per byte: the same elements and count, or the same failure record.
  The choice between them at \<open>kPackedKernelMinSpan\<close> cannot be observed.
\<close>

theorem decode_packed_large_small:
  "length span \<le> length dst \<Longrightarrow>
     decode_packed_varints_large span conv dst err = decode_packed_varints_small span conv dst err"
  by (simp add: decode_packed_varints_large_def decode_packed_varints_small_def small_loop_tail decode_packed_tail)

theorem decode_packed_large_small_witness:
  "decode_packed_varints_large [0x96, 0x01, 0x80] conv_uint32 [0, 0, 0] (Some no_failure) =
     Some (Inl (Some (no_failure\<lparr>err_code := WireFailure, err_wire := TruncatedVarint, err_offset := 2\<rparr>)))"
  using decode_packed_large_small [of "[0x96, 0x01, 0x80]" "[0, 0, 0]" conv_uint32 "Some no_failure"]
  by (simp add: decode_packed_varints_small_def small_loop.simps read_varint_def read_varint_loop.simps Let_def
      put_def rp_fail_wire_at_def)

section \<open>What the views keep\<close>

lemma find_loop_none: "key \<notin> key_of ` set es \<Longrightarrow> find_loop key_of key es i hit = hit"
  by (induction es arbitrary: i) auto

lemma find_loop_some:
  "key \<in> key_of ` set es \<Longrightarrow>
     \<exists>j < length es. find_loop key_of key es i hit = i + j \<and> key_of (es ! j) = key \<and>
       key \<notin> key_of ` set (drop (Suc j) es)"
proof (induction es arbitrary: i hit)
  case (Cons e es)
  show ?case
  proof (cases "key \<in> key_of ` set es")
    case True
    from Cons.IH [OF this, of "Suc i" "if key_of e = key then i else hit"] obtain j where
      "j < length es" "find_loop key_of key (e # es) i hit = Suc i + j" "key_of (es ! j) = key"
      "key \<notin> key_of ` set (drop (Suc j) es)" by auto
    then show ?thesis by (intro exI [of _ "Suc j"]) simp
  next
    case False
    with Cons.prems have "key_of e = key" by auto
    with False find_loop_none [OF False, of "Suc i"] show ?thesis by (intro exI [of _ 0]) simp
  qed
qed simp

text \<open>
  Map lookup is last-wins: \<open>find\<close> answers \<open>end()\<close> exactly when no entry has the key, and
  otherwise an entry with the key after which no other entry has it.
\<close>

theorem map_find_last:
  "if key \<in> key_of ` set entries
   then map_find key_of entries key < length entries \<and> key_of (entries ! map_find key_of entries key) = key \<and>
     key \<notin> key_of ` set (drop (Suc (map_find key_of entries key)) entries)
   else map_find key_of entries key = length entries"
  using find_loop_some [of key key_of entries 0 "length entries"]
    find_loop_none [of key key_of entries 0 "length entries"]
  by (auto simp: map_find_def)

text \<open>A view of at most \<open>UINT32_MAX\<close> bytes or elements is kept exactly.\<close>

lemma ucast_u32_u64: "n \<le> UINT32_MAX \<Longrightarrow> ucast (ucast n :: u32) = (n :: u64)"
proof -
  assume "n \<le> UINT32_MAX"
  then have "unat n < 2 ^ 32" by (simp add: word_le_nat_alt UINT32_MAX_def)
  then have "unat (ucast (ucast n :: u32) :: u64) = unat n"
    by (simp add: unsigned_ucast_eq unsigned_take_bit_eq take_bit_nat_eq_self)
  then show ?thesis by (simp only: word_unat_eq_iff)
qed

lemma views_exact:
  "n \<le> UINT32_MAX \<Longrightarrow> string_view (make_string (p, n)) = (p, n)"
  "n \<le> UINT32_MAX \<Longrightarrow> array_size (array_view p n) = n"
  using ucast_u32_u64 [of n] by (auto simp: string_view_def make_string_def array_size_def array_view_def)

end
