(* ===== verification/Dump_Values.thy ===== *)
theory Dump_Values
  imports Strings
begin

text \<open>
  The value writers of the dumper (src/include/rapidproto/dump_runtime.hpp, up to the class \<open>Writer\<close>).
  A writer's effect on its stream is the text it appends, so each is a function into strings. The
  stream's own rendering and parsing of floating-point numbers belongs to the C++ library and is a
  parameter of \<open>round_trip_text\<close>.

  Shown here: integers print as the decimal of their value at every width, the most negative value
  included, without leaving the character buffer; a JSON reader gets back the string and a hex reader
  the bytes that were written; a floating-point value prints as a text that reads back to its bits.
\<close>

section \<open>Hexadecimal digits\<close>

definition kHexDigits :: string where "kHexDigits = ''0123456789abcdef''"
definition kFirstPrintable :: nat where "kFirstPrintable = 0x20"

definition hex_high :: "char \<Rightarrow> char" where
  "hex_high c = kHexDigits ! (drop_bit 4 (of_char c) AND 0xF)"

definition hex_low :: "char \<Rightarrow> char" where
  "hex_low c = kHexDigits ! (of_char c AND 0xF)"

definition write_hex :: "string \<Rightarrow> string" where
  "write_hex s = concat (map (\<lambda>c. [hex_high c, hex_low c]) s)"

section \<open>Booleans, integers and strings\<close>

definition write_bool :: "bool \<Rightarrow> string" where
  "write_bool b = (if b then ''true'' else ''false'')"

text \<open>
  The character buffer is filled back to front; \<open>cursor\<close> is the index of the first character written.
  \<open>None\<close> is the exception of \<open>std::array::at\<close>.
\<close>

definition kMaxChars :: nat where "kMaxChars = 24"

fun digits_loop :: "'a :: len word \<Rightarrow> nat \<Rightarrow> string \<Rightarrow> (nat \<times> string) option" where
  "digits_loop magnitude 0 chars = None"
| "digits_loop magnitude (Suc cursor) chars =
     (let chars' = char_of (48 + unat (magnitude mod 10)) # chars; rest = magnitude div 10 in
      if rest = 0 then Some (cursor, chars') else digits_loop rest cursor chars')"

definition write_int :: "bool \<Rightarrow> 'a :: len word \<Rightarrow> string option" where
  "write_int is_signed x =
     (let negative = is_signed \<and> sint x < 0; magnitude = (if negative then 0 - x else x) in
      case digits_loop magnitude kMaxChars [] of
        None \<Rightarrow> None
      | Some (cursor, chars) \<Rightarrow>
          if negative then (case cursor of 0 \<Rightarrow> None | Suc _ \<Rightarrow> Some (CHR ''-'' # chars)) else Some chars)"

abbreviation quote :: char where "quote \<equiv> CHR 0x22"
abbreviation escape_mark :: char where "escape_mark \<equiv> CHR 0x5C"

definition json_escape :: "char \<Rightarrow> string" where
  "json_escape c =
     (if c = quote then [escape_mark, quote]
      else if c = escape_mark then [escape_mark, escape_mark]
      else if c = CHR 0x0A then [escape_mark, CHR ''n'']
      else if c = CHR 0x0D then [escape_mark, CHR ''r'']
      else if c = CHR 0x09 then [escape_mark, CHR ''t'']
      else if of_char c < kFirstPrintable then escape_mark # ''u00'' @ [hex_high c, hex_low c]
      else [c])"

definition write_json_escaped :: "string \<Rightarrow> string" where
  "write_json_escaped s = concat (map json_escape s)"

section \<open>Floating-point numbers\<close>

datatype FloatClass = Finite | Nan | Inf | NegInf

text \<open>The bit pattern is the argument; \<open>m\<close> is the number of mantissa bits, 23 or 52.\<close>

definition classify :: "nat \<Rightarrow> 'a :: len word \<Rightarrow> FloatClass" where
  "classify m bits =
     (let mantissa_mask = push_bit m 1 - 1; exponent_max = push_bit (LENGTH('a) - m - 1) 1 - 1 in
      if drop_bit m bits AND exponent_max \<noteq> exponent_max then Finite
      else if bits AND mantissa_mask \<noteq> 0 then Nan
      else if drop_bit (LENGTH('a) - 1) bits \<noteq> 0 then NegInf else Inf)"

text \<open>
  \<open>render p bits\<close> is the text a classic-locale stream prints at precision \<open>p\<close>, \<open>parse\<close> the bits it reads
  back with its fail flag, \<open>max_bits\<close> and \<open>min_bits\<close> the bits of the largest value and of its negation.
  The loop runs from \<open>precision\<close> over \<open>n\<close> further precisions.
\<close>

fun round_trip_loop ::
    "(nat \<Rightarrow> 'a :: len word \<Rightarrow> string) \<Rightarrow> (string \<Rightarrow> 'a word \<times> bool) \<Rightarrow> 'a word \<Rightarrow> 'a word \<Rightarrow> 'a word \<Rightarrow> nat \<Rightarrow> nat \<Rightarrow> string" where
  "round_trip_loop render parse max_bits min_bits want precision n =
     (let txt = render precision want; (parsed, failed) = parse txt;
          overflow_clamp = failed \<and> (parsed = max_bits \<or> parsed = min_bits) in
      if parsed = want \<and> \<not> overflow_clamp then txt
      else (case n of 0 \<Rightarrow> txt
            | Suc n' \<Rightarrow> round_trip_loop render parse max_bits min_bits want (Suc precision) n'))"

declare round_trip_loop.simps [simp del]

definition round_trip_text ::
    "(nat \<Rightarrow> 'a :: len word \<Rightarrow> string) \<Rightarrow> (string \<Rightarrow> 'a word \<times> bool) \<Rightarrow> 'a word \<Rightarrow> 'a word \<Rightarrow> nat \<Rightarrow> nat \<Rightarrow> 'a word \<Rightarrow> string" where
  "round_trip_text render parse max_bits min_bits digits10 max_digits10 bits =
     round_trip_loop render parse max_bits min_bits bits digits10 (max_digits10 - digits10)"

definition is_positive_zero :: "'a :: len word \<Rightarrow> bool" where
  "is_positive_zero bits \<longleftrightarrow> bits = 0"

definition write_float :: "nat \<Rightarrow> ('a :: len word \<Rightarrow> string) \<Rightarrow> 'a word \<Rightarrow> string" where
  "write_float m finite_text bits =
     (case classify m bits of
        Nan \<Rightarrow> quote # ''NaN'' @ [quote]
      | Inf \<Rightarrow> quote # ''Infinity'' @ [quote]
      | NegInf \<Rightarrow> quote # ''-Infinity'' @ [quote]
      | Finite \<Rightarrow> finite_text bits)"

section \<open>Integers print as their value\<close>

lemma to_string_length: "n < 10 ^ k \<Longrightarrow> 0 < k \<Longrightarrow> length (to_string n) \<le> k"
proof (induction n arbitrary: k rule: to_string.induct)
  case (1 n)
  show ?case
  proof (cases "n < 10")
    case True
    with 1(3) show ?thesis by (subst to_string.simps) simp
  next
    case False
    with 1(2,3) have "1 < k" by (cases "k = 1") auto
    then obtain j where j: "k = Suc j" "0 < j" by (cases k) auto
    with 1(2) have "n div 10 < 10 ^ j" by (simp add: less_mult_imp_div_less mult.commute)
    from 1(1) [OF False this j(2)] False j show ?thesis by (subst to_string.simps) simp
  qed
qed

lemma digits_loop_eq:
  fixes x :: "'a :: len word"
  assumes "LENGTH('a) > 3"
  shows "length (to_string (unat x)) \<le> c \<Longrightarrow>
     digits_loop x c chars = Some (c - length (to_string (unat x)), to_string (unat x) @ chars)"
proof (induction c arbitrary: x chars)
  case 0
  then show ?case by simp
next
  case (Suc c)
  have "unat (10 :: 'a word) = 10"
  proof -
    have "(10 :: nat) < 2 ^ LENGTH('a)" using power_increasing [of 4 "LENGTH('a)" "2 :: nat"] assms by simp
    then have "unat (word_of_nat 10 :: 'a word) = 10" by (simp only: unat_of_nat mod_less)
    then show ?thesis by simp
  qed
  then have dm: "unat (x mod 10) = unat x mod 10" "unat (x div 10) = unat x div 10"
    by (simp_all add: unat_mod unat_div)
  have z: "x div 10 = 0 \<longleftrightarrow> unat x < 10"
    unfolding word_unat_eq_iff dm by (auto simp: div_eq_0_iff)
  show ?case
  proof (cases "unat x < 10")
    case True
    then show ?thesis by (subst to_string.simps, subst (2) to_string.simps) (simp add: z dm digit_char_def)
  next
    case False
    then have split: "to_string (unat x) = to_string (unat (x div 10)) @ [digit_char (unat x mod 10)]"
      by (subst to_string.simps) (simp add: dm)
    with Suc.prems have "length (to_string (unat (x div 10))) \<le> c" by simp
    from Suc.IH [OF this] False split show ?thesis by (simp add: z dm(1) digit_char_def Let_def)
  qed
qed

lemma sint_range:
  fixes x :: "'a :: len word"
  shows "- (2 ^ LENGTH('a)) < sint x" "sint x < 2 ^ LENGTH('a)"
proof -
  have "(2 :: int) ^ (LENGTH('a) - 1) < 2 ^ LENGTH('a)" by (intro power_strict_increasing) simp_all
  with sint_ge [of x] sint_less [of x] show "- (2 ^ LENGTH('a)) < sint x" "sint x < 2 ^ LENGTH('a)"
    by (simp_all only: One_nat_def)
qed

lemma uint_of_nonnegative: "0 \<le> sint x \<Longrightarrow> uint x = sint x"
  using sint_range(2) [of x] by (simp add: uint_sint take_bit_eq_mod)

lemma unat_uminus_negative: "sint x < 0 \<Longrightarrow> unat (- x) = nat (- sint x)"
  for x :: "'a :: len word"
proof -
  assume neg: "sint x < 0"
  then have "(- sint x) mod 2 ^ LENGTH('a) = - sint x" using sint_range(1) [of x] by (intro mod_pos_pos_trivial) simp_all
  then have "uint (word_of_int (- sint x) :: 'a word) = - sint x" by (simp only: uint_word_of_int)
  then have "uint (- x) = - sint x" by simp
  then show ?thesis by (metis nat_uint_eq)
qed

text \<open>
  An integer of any width up to 64 bits is written as the decimal of its value, signed or
  unsigned, the most negative value included, and the 24-character buffer is never exceeded.
\<close>

theorem write_int_decimal:
  fixes x :: "'a :: len word"
  assumes "3 < LENGTH('a)" "LENGTH('a) \<le> 64"
  shows "write_int is_signed x = Some (to_string_int (if is_signed then sint x else uint x))"
proof -
  have small: "length (to_string (unat y)) \<le> 20" for y :: "'a word"
  proof (rule to_string_length)
    have "unat y < 2 ^ LENGTH('a)" by (rule unsigned_less)
    also have "\<dots> \<le> 2 ^ 64" using assms(2) by (intro power_increasing) simp_all
    also have "\<dots> < (10 :: nat) ^ 20" by simp
    finally show "unat y < 10 ^ 20" .
  qed simp
  have loop: "digits_loop y kMaxChars [] = Some (24 - length (to_string (unat y)), to_string (unat y))" for y :: "'a word"
    using digits_loop_eq [OF assms(1), of y kMaxChars "[]"] small [of y] by (simp add: kMaxChars_def)
  show ?thesis
  proof (cases "is_signed \<and> sint x < 0")
    case True
    have "unat (- x) = nat (- sint x)" using True by (intro unat_uminus_negative) simp
    moreover obtain c where "24 - length (to_string (unat (- x))) = Suc c" using small [of "- x"] by (cases "24 - length (to_string (unat (- x)))") auto
    ultimately show ?thesis using True by (simp add: write_int_def Let_def loop to_string_int_def)
  next
    case False
    have "to_string_int (if is_signed then sint x else uint x) = to_string (unat x)"
    proof (cases is_signed)
      case True
      with False have "0 \<le> sint x" by simp
      then have "nat (sint x) = unat x" by (metis uint_of_nonnegative nat_uint_eq)
      with True \<open>0 \<le> sint x\<close> show ?thesis by (simp add: to_string_int_def)
    qed (simp add: to_string_int_def)
    moreover have "write_int is_signed x = Some (to_string (unat x))"
      by (simp only: write_int_def Let_def False if_False loop option.case prod.case)
    ultimately show ?thesis by simp
  qed
qed

theorem write_int_decimal_witness: "write_int True (- 128 :: u8) = Some ''-128''"
proof -
  have "to_string_int (sint (- 128 :: u8)) = ''-128''" by code_simp
  then show ?thesis using write_int_decimal [of True "- 128 :: u8"] by simp
qed

section \<open>Strings and bytes read back\<close>

definition hex_nibble :: "char \<Rightarrow> nat option" where
  "hex_nibble c =
     (if 48 \<le> (of_char c :: nat) \<and> of_char c \<le> (57 :: nat) then Some (of_char c - 48)
      else if 97 \<le> (of_char c :: nat) \<and> of_char c \<le> (102 :: nat) then Some (of_char c - 87) else None)"

text \<open>A reader of lowercase hex, two digits per byte.\<close>

fun read_hex :: "string \<Rightarrow> string option" where
  "read_hex [] = Some []"
| "read_hex [c] = None"
| "read_hex (h # l # s) =
     (case (hex_nibble h, hex_nibble l, read_hex s) of
        (Some a, Some b, Some t) \<Rightarrow> Some (char_of (16 * a + b) # t)
      | _ \<Rightarrow> None)"

text \<open>
  A reader of the body of a JSON string, restricted to one-byte code units: a raw quote, a raw control
  character, an unknown escape and an escape beyond one byte are refused.
\<close>

fun read_json :: "string \<Rightarrow> string option" where
  "read_json [] = Some []"
| "read_json (c # s) =
     (if c = quote \<or> (of_char c :: nat) < 0x20 then None
      else if c \<noteq> escape_mark then map_option (Cons c) (read_json s)
      else
        (case s of
           [] \<Rightarrow> None
         | e # s1 \<Rightarrow>
             if e = quote \<or> e = escape_mark then map_option (Cons e) (read_json s1)
             else if e = CHR ''n'' then map_option (Cons (CHR 0x0A)) (read_json s1)
             else if e = CHR ''r'' then map_option (Cons (CHR 0x0D)) (read_json s1)
             else if e = CHR ''t'' then map_option (Cons (CHR 0x09)) (read_json s1)
             else if e = CHR ''u'' then
               (case s1 of
                  a # b # h # l # s2 \<Rightarrow>
                    (if a = CHR ''0'' \<and> b = CHR ''0'' then
                       (case (hex_nibble h, hex_nibble l) of
                          (Some x, Some y) \<Rightarrow> map_option (Cons (char_of (16 * x + y))) (read_json s2)
                        | _ \<Rightarrow> None)
                     else None)
                | _ \<Rightarrow> None)
             else None))"

lemma hex_nibble_digit: "n < 16 \<Longrightarrow> hex_nibble (kHexDigits ! n) = Some n"
proof -
  assume "n < 16"
  moreover have "list_all (\<lambda>n. hex_nibble (kHexDigits ! n) = Some n) [0..<16]" by code_simp
  ultimately show ?thesis by (simp add: list_all_iff)
qed

lemma and_15: "(n :: nat) AND 0xF = n mod 16"
  using take_bit_eq_mask [of 4 n] by (simp add: take_bit_eq_mod mask_eq_exp_minus_1)

lemma hex_digits:
  "hex_nibble (hex_high c) = Some (of_char c div 16)" "hex_nibble (hex_low c) = Some (of_char c mod 16)"
  "char_of (16 * (of_char c div 16) + of_char c mod 16 :: nat) = c"
proof -
  have "of_char c div 16 < (16 :: nat)" using nat_of_char_less_256 [of c] by (simp add: less_mult_imp_div_less)
  then show "hex_nibble (hex_high c) = Some (of_char c div 16)"
    by (simp add: hex_high_def and_15 drop_bit_eq_div hex_nibble_digit)
qed (simp_all add: hex_low_def and_15 hex_nibble_digit)

lemma read_json_escape: "read_json (json_escape c @ s) = map_option (Cons c) (read_json s)"
  by (simp add: json_escape_def hex_digits kFirstPrintable_def)

text \<open>
  Property C27. What the dumper writes reads back: a JSON reader recovers every string from its escaped
  body, which contains no raw quote and no raw control character, and a hex reader recovers every
  byte string.
\<close>

theorem dump_strings_roundtrip:
  "read_json (write_json_escaped s) = Some s \<and> read_hex (write_hex s) = Some s"
proof
  show "read_json (write_json_escaped s) = Some s"
    by (induction s) (simp_all add: write_json_escaped_def read_json_escape)
  show "read_hex (write_hex s) = Some s"
    by (induction s) (simp_all add: write_hex_def hex_digits)
qed

section \<open>Floating-point numbers read back\<close>

text \<open>
  A text reads back when parsing it gives the bits, and not as the overflow clamp of a failed
  conversion: that is stored for the largest value and its negation alone.
\<close>

definition reads_back :: "(string \<Rightarrow> 'a :: len word \<times> bool) \<Rightarrow> 'a word \<Rightarrow> 'a word \<Rightarrow> 'a word \<Rightarrow> string \<Rightarrow> bool" where
  "reads_back parse mx mn bits txt \<longleftrightarrow>
     fst (parse txt) = bits \<and> \<not> (snd (parse txt) \<and> (bits = mx \<or> bits = mn))"

lemma round_trip_loop_step:
  "round_trip_loop render parse mx mn want p n =
     (if reads_back parse mx mn want (render p want) \<or> n = 0 then render p want
      else round_trip_loop render parse mx mn want (Suc p) (n - 1))"
  by (subst round_trip_loop.simps) (auto simp: reads_back_def Let_def split: prod.splits nat.splits)

lemma round_trip_loop_least:
  "\<exists>q. p \<le> q \<and> q \<le> p + n \<and> round_trip_loop render parse mx mn want p n = render q want \<and>
    (q < p + n \<longrightarrow> reads_back parse mx mn want (render q want)) \<and>
    (\<forall>r. p \<le> r \<and> r < q \<longrightarrow> \<not> reads_back parse mx mn want (render r want))"
proof (induction n arbitrary: p)
  case 0
  then show ?case by (intro exI [of _ p]) (auto simp: round_trip_loop_step)
next
  case (Suc n)
  show ?case
  proof (cases "reads_back parse mx mn want (render p want)")
    case True
    then show ?thesis by (intro exI [of _ p]) (auto simp: round_trip_loop_step)
  next
    case False
    from Suc.IH [of "Suc p"] obtain q where q: "Suc p \<le> q" "q \<le> Suc p + n"
      "round_trip_loop render parse mx mn want (Suc p) n = render q want"
      "q < Suc p + n \<longrightarrow> reads_back parse mx mn want (render q want)"
      "\<forall>r. Suc p \<le> r \<and> r < q \<longrightarrow> \<not> reads_back parse mx mn want (render r want)" by auto
    have "\<not> reads_back parse mx mn want (render r want)" if "p \<le> r" "r < q" for r
      using that False q(5) by (cases "r = p") auto
    moreover have "round_trip_loop render parse mx mn want p (Suc n) = render q want"
      using False q(3) by (subst round_trip_loop_step) simp
    ultimately show ?thesis using q by (intro exI [of _ q]) auto
  qed
qed

text \<open>
  Property C28. The search for a rendering that reads back, over the precisions from \<open>digits10\<close> to
  \<open>max_digits10\<close>. The text that is written is the one at a precision of that range below which, in the range, no text
  reads back to the value's own bits (the sign of zero included); it is not claimed to be the shortest of all, since the
  search starts at \<open>digits10\<close>. It reads back if and only if some precision of the range does, which the standard
  guarantees of \<open>max_digits10\<close>, and never only because a failed conversion stores the largest value.
\<close>

theorem round_trip_text_exact:
  assumes "digits10 \<le> max_digits10"
  shows "(\<exists>q. digits10 \<le> q \<and> q \<le> max_digits10 \<and>
      round_trip_text render parse mx mn digits10 max_digits10 bits = render q bits \<and>
      (\<forall>r. digits10 \<le> r \<and> r < q \<longrightarrow> \<not> reads_back parse mx mn bits (render r bits))) \<and>
    (reads_back parse mx mn bits (round_trip_text render parse mx mn digits10 max_digits10 bits) \<longleftrightarrow>
      (\<exists>r. digits10 \<le> r \<and> r \<le> max_digits10 \<and> reads_back parse mx mn bits (render r bits)))"
proof -
  obtain q where q: "digits10 \<le> q" "q \<le> max_digits10"
    "round_trip_text render parse mx mn digits10 max_digits10 bits = render q bits"
    "q < max_digits10 \<longrightarrow> reads_back parse mx mn bits (render q bits)"
    "\<forall>r. digits10 \<le> r \<and> r < q \<longrightarrow> \<not> reads_back parse mx mn bits (render r bits)"
    using round_trip_loop_least [of digits10 "max_digits10 - digits10" render parse mx mn bits] assms
    by (auto simp: round_trip_text_def)
  have "reads_back parse mx mn bits (render q bits)" if "digits10 \<le> r" "r \<le> max_digits10" "reads_back parse mx mn bits (render r bits)" for r
  proof (cases "q < max_digits10")
    case False
    with q(2,5) that have "r = q" by (meson le_neq_implies_less le_trans linorder_not_less)
    with that show ?thesis by simp
  qed (use q(4) in blast)
  with q show ?thesis by auto
qed

definition demo_render :: "nat \<Rightarrow> u32 \<Rightarrow> string" where
  "demo_render p bits = to_string (unat bits) @ (if p < 9 then ''?'' else [])"

definition demo_parse :: "string \<Rightarrow> u32 \<times> bool" where
  "demo_parse s = (if s \<noteq> [] \<and> last s = CHR ''?'' then (0, True) else (word_of_nat (decimal_value s), False))"

theorem round_trip_text_exact_witness:
  "reads_back demo_parse 7 8 5 (round_trip_text demo_render demo_parse 7 8 6 9 5)"
proof -
  have "(6 :: nat) \<le> 9" "reads_back demo_parse 7 8 5 (demo_render 9 5)" by code_simp+
  then show ?thesis using round_trip_text_exact [of 6 9 demo_render demo_parse 7 8 5] by blast
qed

text \<open>The classification is that of the three fields of the format.\<close>

lemma classify_fields:
  fixes bits :: u64
  shows "classify 52 bits =
    (if unat bits div 2 ^ 52 mod 2 ^ 11 \<noteq> 2 ^ 11 - 1 then Finite
     else if unat bits mod 2 ^ 52 \<noteq> 0 then Nan else if unat bits \<ge> 2 ^ 63 then NegInf else Inf)"
proof -
  have m: "x AND (push_bit k 1 - 1) = take_bit k x" for x :: u64 and k
    by (simp add: take_bit_eq_mask mask_eq_exp_minus_1 push_bit_eq_mult)
  have e: "take_bit 11 (drop_bit 52 bits) = (push_bit 11 1 - 1) \<longleftrightarrow> unat bits div 2 ^ 52 mod 2 ^ 11 = 2 ^ 11 - 1"
    by (simp add: word_unat_eq_iff unat_mod unat_div take_bit_eq_mod drop_bit_eq_div)
  have f: "take_bit 52 bits = 0 \<longleftrightarrow> unat bits mod 2 ^ 52 = 0"
    by (simp add: word_unat_eq_iff unat_mod take_bit_eq_mod)
  have "drop_bit 63 bits = 0 \<longleftrightarrow> unat bits < 2 ^ 63"
    by (simp add: word_unat_eq_iff unat_div drop_bit_eq_div div_eq_0_iff)
  then show ?thesis unfolding classify_def Let_def m using e f by simp
qed

end
