(* ===== verification/Dump_Writer.thy ===== *)
theory Dump_Writer
  imports Dump_Values
begin

text \<open>
  The width-adaptive writer of the dumper (class \<open>Writer\<close> in src/include/rapidproto/dump_runtime.hpp)
  and the code the dump generator emits against it (src/src/dumpgen/generator.cpp). A group is first
  rendered on one line into a scratch buffer; when that does not fit, an array is tried as a grid of
  columns and everything else is written one entry per line. Loops stop early once the scratch
  rendering is known not to fit.

  The streams are the texts written to them; \<open>to_buf\<close> says which of the two is the current sink.
  Sizes and columns are natural numbers: they are bounded by the size of the text in memory.
\<close>

section \<open>The writer\<close>

record Writer =
  m_out :: string
  to_buf :: bool
  m_buf :: string
  m_width :: nat
  m_skip :: "string list option"
  m_avail :: nat
  m_column :: nat
  m_indent :: nat
  m_compact :: bool
  m_collect :: bool
  m_collecting :: bool
  m_path :: string
  m_path_stack :: "nat list"
  m_cells :: "string list"
  m_cell_bytes :: nat

definition kIndentWidth :: nat where "kIndentWidth = 2"
definition kMaxIndent :: nat where "kMaxIndent = 1024"
definition kCellPunctWidth :: nat where "kCellPunctWidth = 1"
definition kMinGridColumns :: nat where "kMinGridColumns = 2"
definition kMaxGridCells :: nat where "kMaxGridCells = 4096"
definition kMaxGridBytes :: nat where "kMaxGridBytes = 64 * 1024"
definition kKeyPunctWidth :: nat where "kKeyPunctWidth = 4"
definition kEmptyGroupChars :: nat where "kEmptyGroupChars = 2"

definition writer :: "nat \<Rightarrow> nat \<Rightarrow> string list option \<Rightarrow> Writer" where
  "writer width start_indent skip =
     (let ind = (if start_indent < kMaxIndent then start_indent else kMaxIndent) in
      \<lparr>m_out = [], to_buf = False, m_buf = [], m_width = width, m_skip = skip, m_avail = 0,
       m_column = ind * kIndentWidth, m_indent = ind, m_compact = False, m_collect = False,
       m_collecting = False, m_path = [], m_path_stack = [], m_cells = [], m_cell_bytes = 0\<rparr>)"

definition emit :: "string \<Rightarrow> Writer \<Rightarrow> Writer" where
  "emit s w = (if to_buf w then w\<lparr>m_buf := m_buf w @ s\<rparr> else w\<lparr>m_out := m_out w @ s\<rparr>)"

definition emit_out :: "string \<Rightarrow> Writer \<Rightarrow> Writer" where
  "emit_out s w = w\<lparr>m_out := m_out w @ s\<rparr>"

definition grid_capped :: "Writer \<Rightarrow> bool" where
  "grid_capped w \<longleftrightarrow> length (m_cells w) > kMaxGridCells \<or> m_cell_bytes w + length (m_buf w) > kMaxGridBytes"

definition overflowed :: "Writer \<Rightarrow> bool" where
  "overflowed w = (if m_collecting w then grid_capped w else m_compact w \<and> length (m_buf w) > m_avail w)"

definition write_newline :: "Writer \<Rightarrow> Writer" where
  "write_newline w = emit_out (CHR 0x0A # concat (replicate (m_indent w) ''  '')) w"

definition write_key :: "string \<Rightarrow> Writer \<Rightarrow> Writer" where
  "write_key name w =
     (let w1 = emit (quote # name @ [quote] @ '': '') w in
      if m_compact w1 then w1 else w1\<lparr>m_column := m_column w1 + length name + kKeyPunctWidth\<rparr>)"

definition push_cell :: "Writer \<Rightarrow> Writer" where
  "push_cell w =
     w\<lparr>m_cell_bytes := m_cell_bytes w + length (m_buf w), m_cells := m_cells w @ [m_buf w], m_buf := []\<rparr>"

text \<open>The flag \<open>first\<close> is the caller's; after any entry it is false.\<close>

definition entry_sep :: "bool \<Rightarrow> Writer \<Rightarrow> Writer" where
  "entry_sep first w =
     (if m_compact w then
        if m_collect w then (if \<not> first then push_cell w else w)
        else if \<not> first then emit '', '' w else w
      else
        let w1 = (if \<not> first then emit '','' w else w); w2 = write_newline w1
        in w2\<lparr>m_column := m_indent w2 * kIndentWidth\<rparr>)"

definition join_path :: "string \<Rightarrow> string \<Rightarrow> string" where
  "join_path p leaf = (if p \<noteq> [] then p @ ''.'' else p) @ leaf"

definition skipped :: "string \<Rightarrow> Writer \<Rightarrow> bool" where
  "skipped leaf w =
     (case m_skip w of
        None \<Rightarrow> False
      | Some paths \<Rightarrow> paths \<noteq> [] \<and> list_ex (\<lambda>path. path = join_path (m_path w) leaf) paths)"

definition begin_field :: "bool \<Rightarrow> string \<Rightarrow> Writer \<Rightarrow> bool \<times> Writer" where
  "begin_field first name w =
     (if skipped name w then (False, w) else (True, write_key name (entry_sep first w)))"

definition push_path :: "string \<Rightarrow> Writer \<Rightarrow> Writer" where
  "push_path name w =
     w\<lparr>m_path_stack := m_path_stack w @ [length (m_path w)], m_path := join_path (m_path w) name\<rparr>"

definition pop_path :: "Writer \<Rightarrow> Writer" where
  "pop_path w = w\<lparr>m_path := take (last (m_path_stack w)) (m_path w), m_path_stack := butlast (m_path_stack w)\<rparr>"

section \<open>The grid\<close>

definition numeric_cell :: "string \<Rightarrow> bool" where
  "numeric_cell s =
     (if s = [] \<or> (hd s \<noteq> CHR ''-'' \<and> ((of_char (hd s) :: nat) < 48 \<or> of_char (hd s) > (57 :: nat))) then False
      else list_all (\<lambda>c. c \<in> set ''0123456789+-.eE'') s)"

definition column_widths :: "nat \<Rightarrow> string list \<Rightarrow> nat list" where
  "column_widths cols cells =
     foldl (\<lambda>ws i. let cell_w = length (cells ! i) + kCellPunctWidth; w = ws ! (i mod cols)
                   in ws[i mod cols := (if cell_w > w then cell_w else w)])
       (replicate cols 0) [0..<length cells]"

text \<open>The largest column count not above \<open>cols\<close> whose columns fit, 0 when not even two do.\<close>

function fit_columns :: "nat \<Rightarrow> nat \<Rightarrow> string list \<Rightarrow> nat \<Rightarrow> nat \<times> nat list" where
  "fit_columns width inner cells cols =
     (if cols < kMinGridColumns then (0, [])
      else
        let widths = column_widths cols cells; total = inner + (cols - 1) + sum_list widths in
        if total \<le> width then (cols, widths) else fit_columns width inner cells (cols - 1))"
  by pat_completeness auto
termination
  by (relation "measure (\<lambda>(_, _, _, cols). cols)") (auto simp: kMinGridColumns_def)

declare fit_columns.simps [simp del]

definition column_start :: "nat \<Rightarrow> nat list \<Rightarrow> nat \<Rightarrow> nat" where
  "column_start inner widths col = inner + sum_list (map (\<lambda>w. w + 1) (take col widths))"

primrec grid_rows ::
    "nat \<Rightarrow> nat list \<Rightarrow> bool \<Rightarrow> nat \<Rightarrow> nat \<Rightarrow> string list \<Rightarrow> nat \<Rightarrow> Writer \<Rightarrow> Writer" where
  "grid_rows cols widths all_numeric inner i [] pos w = w"
| "grid_rows cols widths all_numeric inner i (cell # cells) pos w =
     (let col = i mod cols;
          w1 = (if col = 0 then write_newline w else w);
          pos1 = (if col = 0 then inner else pos);
          start = column_start inner widths col;
          w2 = emit_out (replicate (start - pos1) CHR '' '') w1;
          pos2 = max pos1 start;
          pad = (if all_numeric then widths ! col - (length cell + kCellPunctWidth) else 0);
          w3 = emit_out (replicate pad CHR '' '' @ cell) w2;
          pos3 = pos2 + pad + length cell;
          w4 = (if cells \<noteq> [] then emit_out '','' w3 else w3);
          pos4 = (if cells \<noteq> [] then pos3 + 1 else pos3)
      in grid_rows cols widths all_numeric inner (Suc i) cells pos4 w4)"

definition render_grid :: "nat \<Rightarrow> nat list \<Rightarrow> bool \<Rightarrow> Writer \<Rightarrow> Writer" where
  "render_grid cols widths all_numeric w =
     (let w1 = emit_out ''['' w; w2 = w1\<lparr>m_indent := m_indent w1 + 1\<rparr>;
          w3 = grid_rows cols widths all_numeric (m_indent w2 * kIndentWidth) 0 (m_cells w2) 0 w2;
          w4 = write_newline (w3\<lparr>m_indent := m_indent w3 - 1\<rparr>); w5 = emit_out '']'' w4
      in w5\<lparr>m_column := m_indent w5 * kIndentWidth + 1, m_cells := []\<rparr>)"

definition try_grid :: "(Writer \<Rightarrow> Writer) \<Rightarrow> Writer \<Rightarrow> bool \<times> Writer" where
  "try_grid body w =
     (let w1 = body (w\<lparr>m_cells := [], m_cell_bytes := 0, m_buf := [], to_buf := True, m_compact := True,
                       m_collect := True, m_collecting := True\<rparr>);
          w2 = push_cell (w1\<lparr>m_collecting := False, m_collect := False, m_compact := False, to_buf := False\<rparr>)
      in if grid_capped w2 then (False, w2)
         else if list_ex (\<lambda>cell. CHR 0x0A \<in> set cell) (m_cells w2) then (False, w2)
         else
           let all_numeric = list_all numeric_cell (m_cells w2);
               n = length (m_cells w2); inner = (m_indent w2 + 1) * kIndentWidth;
               most = (if m_width w2 > inner then m_width w2 - inner + 1 else 0) div (kCellPunctWidth + 1);
               (cols, widths) = fit_columns (m_width w2) inner (m_cells w2) (if most < n then most else n)
           in if cols < kMinGridColumns then (False, w2) else (True, render_grid cols widths all_numeric w2))"

section \<open>Groups\<close>

definition group :: "char \<Rightarrow> char \<Rightarrow> (Writer \<Rightarrow> Writer) \<Rightarrow> Writer \<Rightarrow> Writer" where
  "group open_ch close_ch body w =
     (if m_compact w then
        let w1 = emit [close_ch] (body (emit [open_ch] (w\<lparr>m_collect := False\<rparr>)))
        in w1\<lparr>m_collect := m_collect w\<rparr>
      else
        let avail = (if m_width w > m_column w then m_width w - m_column w else 0);
            w1 = emit [close_ch] (body (emit [open_ch]
                   (w\<lparr>m_buf := [], to_buf := True, m_compact := True, m_avail := avail\<rparr>)));
            w2 = w1\<lparr>m_compact := False, to_buf := False\<rparr>;
            s = m_buf w2
        in if length s \<le> avail then (emit_out s w2)\<lparr>m_column := m_column w2 + length s\<rparr>
           else
             let any = (length s > kEmptyGroupChars);
                 (gridded, w3) = (if open_ch = CHR ''['' \<and> any then try_grid body w2 else (False, w2))
             in if gridded then w3
                else
                  let w4 = body ((emit_out [open_ch] w3)\<lparr>m_indent := m_indent w3 + 1\<rparr>);
                      w5 = w4\<lparr>m_indent := m_indent w4 - 1\<rparr>;
                      w6 = (if any then write_newline w5 else w5);
                      w7 = emit_out [close_ch] w6
                  in w7\<lparr>m_column := m_indent w7 * kIndentWidth + 1\<rparr>)"

section \<open>The emitted dumpers\<close>

text \<open>
  What a generated dumper has to write: a leaf is a value already rendered by its value writer; a
  message lists the fields that are present, preceded by the mark of unknown fields; a repeated field
  lists its elements; a map pairs the rendered keys with the values.
\<close>

datatype Value =
    Leaf string
  | Message bool "(string \<times> Value) list"
  | Repeated "Value list"
  | Map "(string \<times> Value) list"

definition is_message :: "Value \<Rightarrow> bool" where
  "is_message v \<longleftrightarrow> (case v of Message _ _ \<Rightarrow> True | _ \<Rightarrow> False)"

text \<open>Only fields that hold messages extend the path.\<close>

definition descends :: "Value \<Rightarrow> bool" where
  "descends v \<longleftrightarrow>
     (case v of Leaf _ \<Rightarrow> False | Message _ _ \<Rightarrow> True | Repeated vs \<Rightarrow> list_ex is_message vs
      | Map kvs \<Rightarrow> list_ex (\<lambda>kv. is_message (snd kv)) kvs)"

fun loop_body :: "(Writer \<Rightarrow> Writer) list \<Rightarrow> bool \<Rightarrow> Writer \<Rightarrow> Writer" where
  "loop_body [] first w = w"
| "loop_body (f # fs) first w =
     (let w1 = f (entry_sep first w) in if overflowed w1 then w1 else loop_body fs False w1)"

fun fields_body :: "(string \<times> bool \<times> (Writer \<Rightarrow> Writer)) list \<Rightarrow> bool \<Rightarrow> Writer \<Rightarrow> Writer" where
  "fields_body [] first w = w"
| "fields_body ((name, down, f) # fs) first w =
     (case begin_field first name w of
        (False, w1) \<Rightarrow> fields_body fs first w1
      | (True, w1) \<Rightarrow>
          fields_body fs False (if down then pop_path (f (push_path name w1)) else f w1))"

definition write_message_body :: "bool \<Rightarrow> (string \<times> bool \<times> (Writer \<Rightarrow> Writer)) list \<Rightarrow> Writer \<Rightarrow> Writer" where
  "write_message_body unknown fs w =
     (if unknown
      then fields_body fs False (emit (quote # ''has_unknown_fields'' @ [quote] @ '': true'') (entry_sep True w))
      else fields_body fs True w)"

primrec write_value :: "Value \<Rightarrow> Writer \<Rightarrow> Writer" where
  "write_value (Leaf s) = emit s"
| "write_value (Message unknown fs) =
     group (CHR ''{'') (CHR ''}'')
       (write_message_body unknown (map2 (\<lambda>(n, v) (n', f). (n, descends v, f)) fs (map (map_prod id write_value) fs)))"
| "write_value (Repeated vs) = group (CHR ''['') (CHR '']'') (loop_body (map write_value vs) True)"
| "write_value (Map kvs) =
     group (CHR ''{'') (CHR ''}'')
       (loop_body (map (\<lambda>(k, f) w. f (emit (quote # k @ [quote] @ '': '') w)) (map (map_prod id write_value) kvs)) True)"

definition dump :: "nat \<Rightarrow> nat \<Rightarrow> string list \<Rightarrow> Value \<Rightarrow> string" where
  "dump width start_indent skip v = m_out (write_value v (writer width start_indent (Some skip)))"

end
