(* ===== verification/Dump_Correct.thy ===== *)
theory Dump_Correct
  imports Dump_Writer
begin

text \<open>
  What the layout of a dump may change. \<open>line_text\<close> is the reference: the text of a value on one line,
  without the fields the caller skips. A contract (\<open>renders\<close>) relates each writer to its reference
  text: on one line it appends that text, or no more than its length once the budget is spent;
  otherwise it appends a text that differs in white space outside of string literals only. The
  contract holds for separators, keys, paths, loops that stop early, grids and groups, and so for
  every value; a value that fits its line is written exactly as its reference.
\<close>

section \<open>White space\<close>

text \<open>
  Reading the text of a dump: inside a string literal every character counts, outside of it blanks and
  line breaks do not. \<open>strip\<close> removes them.
\<close>

datatype Mode = Outside | Inside | Escaped

fun next_mode :: "Mode \<Rightarrow> char \<Rightarrow> Mode" where
  "next_mode Outside c = (if c = quote then Inside else Outside)"
| "next_mode Inside c = (if c = quote then Outside else if c = escape_mark then Escaped else Inside)"
| "next_mode Escaped c = Inside"

definition blank :: "char \<Rightarrow> bool" where
  "blank c \<longleftrightarrow> c = CHR '' '' \<or> c = CHR 0x0A"

fun strip :: "Mode \<Rightarrow> string \<Rightarrow> string" where
  "strip m [] = []"
| "strip m (c # s) = (if m = Outside \<and> blank c then strip m s else c # strip (next_mode m c) s)"

abbreviation scan :: "Mode \<Rightarrow> string \<Rightarrow> Mode" where
  "scan \<equiv> foldl next_mode"

lemma blank_quote [simp]: "\<not> blank quote" "blank CHR '' ''" "blank CHR 0x0A"
  by (simp_all add: blank_def)

lemma next_blank: "blank c \<Longrightarrow> next_mode Outside c = Outside"
  by auto

lemma strip_append: "strip m (s @ t) = strip m s @ strip (scan m s) t"
  by (induction m s rule: strip.induct) (auto simp: next_blank)

text \<open>Two texts that end outside of a literal and differ in white space only.\<close>

definition same :: "string \<Rightarrow> string \<Rightarrow> bool" where
  "same u t \<longleftrightarrow> scan Outside u = Outside \<and> scan Outside t = Outside \<and> strip Outside u = strip Outside t"

lemma same_append: "same u t \<Longrightarrow> same u' t' \<Longrightarrow> same (u @ u') (t @ t')"
  by (simp add: same_def strip_append)

lemma same_refl: "scan Outside t = Outside \<Longrightarrow> same t t"
  by (simp add: same_def)

lemma same_blanks: "list_all blank s \<Longrightarrow> list_all blank t \<Longrightarrow> same s t"
proof -
  have "scan Outside s = Outside \<and> strip Outside s = []" if "list_all blank s" for s
    using that by (induction s) (auto simp: next_blank)
  then show "list_all blank s \<Longrightarrow> list_all blank t \<Longrightarrow> same s t" by (simp add: same_def)
qed

section \<open>The text on one line\<close>

definition hidden :: "string list option \<Rightarrow> string \<Rightarrow> string \<Rightarrow> bool" where
  "hidden S p name = (case S of None \<Rightarrow> False | Some paths \<Rightarrow> join_path p name \<in> set paths)"

definition key_text :: "string \<Rightarrow> string" where
  "key_text name = quote # name @ [quote] @ '': ''"

fun joined :: "bool \<Rightarrow> string list \<Rightarrow> string" where
  "joined first [] = []"
| "joined first (t # ts) = (if first then [] else '', '') @ t @ joined False ts"

fun line_text :: "string list option \<Rightarrow> string \<Rightarrow> Value \<Rightarrow> string" where
  "line_text S p (Leaf s) = s"
| "line_text S p (Message unknown fs) =
     ''{'' @ joined True ((if unknown then [key_text ''has_unknown_fields'' @ ''true''] else []) @
        concat (map (\<lambda>(n, v). if hidden S p n then []
          else [key_text n @ line_text S (if descends v then join_path p n else p) v]) fs)) @ ''}''"
| "line_text S p (Repeated vs) = ''['' @ joined True (map (line_text S p) vs) @ '']''"
| "line_text S p (Map kvs) = ''{'' @ joined True (map (\<lambda>(k, v). key_text k @ line_text S p v) kvs) @ ''}''"

fun closed_value :: "Value \<Rightarrow> bool" where
  "closed_value (Leaf s) \<longleftrightarrow> scan Outside s = Outside"
| "closed_value (Message unknown fs) \<longleftrightarrow> (\<forall>(n, v) \<in> set fs. scan Outside (key_text n) = Outside \<and> closed_value v)"
| "closed_value (Repeated vs) \<longleftrightarrow> (\<forall>v \<in> set vs. closed_value v)"
| "closed_value (Map kvs) \<longleftrightarrow> (\<forall>(k, v) \<in> set kvs. scan Outside (key_text k) = Outside \<and> closed_value v)"

section \<open>The contract of a value writer\<close>

definition modes_ok :: "Writer \<Rightarrow> bool" where
  "modes_ok w \<longleftrightarrow> to_buf w = m_compact w \<and> (m_collecting w \<longrightarrow> m_compact w) \<and> (m_collect w \<longrightarrow> m_collecting w)"

definition frame :: "Writer \<Rightarrow> Writer \<Rightarrow> bool" where
  "frame w w' \<longleftrightarrow> to_buf w' = to_buf w \<and> m_width w' = m_width w \<and> m_skip w' = m_skip w \<and> m_indent w' = m_indent w \<and>
     m_compact w' = m_compact w \<and> m_collect w' = m_collect w \<and> m_collecting w' = m_collecting w \<and>
     m_path w' = m_path w \<and> m_path_stack w' = m_path_stack w"

text \<open>
  On one line, the writer appends its text to the scratch buffer, or part of it once the budget is
  spent; otherwise it appends to the output a text that differs in white space only.
\<close>

definition on_line :: "(Writer \<Rightarrow> Writer) \<Rightarrow> string \<Rightarrow> Writer \<Rightarrow> bool" where
  "on_line f t w \<longleftrightarrow> (\<exists>u. f w = w\<lparr>m_buf := m_buf w @ u\<rparr> \<and> length u \<le> length t \<and> (u = t \<or> overflowed (f w)))"

definition on_lines :: "(Writer \<Rightarrow> Writer) \<Rightarrow> string \<Rightarrow> Writer \<Rightarrow> bool" where
  "on_lines f t w \<longleftrightarrow> frame w (f w) \<and> (\<exists>u. m_out (f w) = m_out w @ u \<and> same u t)"

definition at :: "string list option \<Rightarrow> string \<Rightarrow> Writer \<Rightarrow> bool" where
  "at S p w \<longleftrightarrow> modes_ok w \<and> m_skip w = S \<and> m_path w = p"

definition renders :: "string list option \<Rightarrow> string \<Rightarrow> (Writer \<Rightarrow> Writer) \<Rightarrow> string \<Rightarrow> bool" where
  "renders S p f t \<longleftrightarrow>
     (\<forall>w. at S p w \<longrightarrow> (if m_compact w then on_line f t w else on_lines f t w))"

lemma on_lineI: "f w = w\<lparr>m_buf := m_buf w @ t\<rparr> \<Longrightarrow> on_line f t w"
  by (auto simp: on_line_def)

lemma overflowed_append: "overflowed w \<Longrightarrow> overflowed (w\<lparr>m_buf := m_buf w @ u\<rparr>)"
  by (auto simp: overflowed_def grid_capped_def split: if_splits)

lemma frame_trans: "frame w w' \<Longrightarrow> frame w' w'' \<Longrightarrow> frame w w''"
  by (simp add: frame_def)

lemma frame_at: "frame w w' \<Longrightarrow> at S p w \<Longrightarrow> at S p w'"
  by (simp add: frame_def at_def modes_ok_def)

lemma emit_line: "at S p w \<Longrightarrow> m_compact w \<Longrightarrow> emit s w = w\<lparr>m_buf := m_buf w @ s\<rparr>"
  by (simp add: at_def modes_ok_def emit_def)

lemma emit_lines: "at S p w \<Longrightarrow> \<not> m_compact w \<Longrightarrow> emit s w = w\<lparr>m_out := m_out w @ s\<rparr>"
  by (simp add: at_def modes_ok_def emit_def)

lemma renders_emit: "scan Outside s = Outside \<Longrightarrow> renders S p (emit s) s"
  by (auto simp: renders_def on_line_def on_lines_def emit_line emit_lines frame_def same_refl)

text \<open>Writing two texts one after the other.\<close>

lemma on_line_then:
  assumes "on_line f t w" "\<And>u. on_line g t' (w\<lparr>m_buf := m_buf w @ u\<rparr>)"
  shows "on_line (\<lambda>w. g (f w)) (t @ t') w"
proof -
  from assms(1) obtain u where u: "f w = w\<lparr>m_buf := m_buf w @ u\<rparr>" "u = t \<or> overflowed (f w)" "length u \<le> length t"
    by (auto simp: on_line_def)
  from assms(2) [of u] obtain u' where u': "g (f w) = (f w)\<lparr>m_buf := m_buf (f w) @ u'\<rparr>" "u' = t' \<or> overflowed (g (f w))" "length u' \<le> length t'"
    by (auto simp: on_line_def u(1))
  have "u @ u' = t @ t' \<or> overflowed (g (f w))"
    using u(2) u'(2) overflowed_append [of "f w" u'] by (auto simp: u'(1))
  moreover have "g (f w) = w\<lparr>m_buf := m_buf w @ u @ u'\<rparr>" by (subst u'(1)) (simp add: u(1))
  ultimately show ?thesis using u(3) u'(3) by (auto simp: on_line_def)
qed

lemma on_lines_then:
  assumes "on_lines f t w" "on_lines g t' (f w)"
  shows "on_lines (\<lambda>w. g (f w)) (t @ t') w"
  using assms by (auto simp: on_lines_def intro: frame_trans same_append)

lemma at_buf: "at S p w \<Longrightarrow> at S p (w\<lparr>m_buf := b\<rparr>)"
  by (simp add: at_def modes_ok_def)

lemma renders_then:
  assumes "renders S p f t" "renders S p g t'"
  shows "renders S p (\<lambda>w. g (f w)) (t @ t')"
  unfolding renders_def
proof (intro allI impI)
  fix w
  assume at: "at S p w"
  show "if m_compact w then on_line (\<lambda>w. g (f w)) (t @ t') w else on_lines (\<lambda>w. g (f w)) (t @ t') w"
  proof (cases "m_compact w")
    case True
    have "on_line g t' (w\<lparr>m_buf := m_buf w @ u\<rparr>)" for u
      using assms(2) at_buf [OF at, of "m_buf w @ u"] True by (auto simp: renders_def)
    with True at assms(1) on_line_then show ?thesis by (auto simp: renders_def)
  next
    case False
    with at assms(1) have f: "on_lines f t w" by (auto simp: renders_def)
    then have "at S p (f w)" "\<not> m_compact (f w)" using frame_at [OF _ at] False by (auto simp: on_lines_def frame_def)
    with assms(2) have "on_lines g t' (f w)" by (auto simp: renders_def)
    with False f on_lines_then show ?thesis by simp
  qed
qed

lemma write_key_renders:
  assumes "scan Outside (key_text name) = Outside"
  shows "renders S p (write_key name) (key_text name)"
  using assms by (auto simp: renders_def on_line_def on_lines_def write_key_def Let_def emit_line emit_lines frame_def
      same_refl key_text_def)

text \<open>A path pushed before a value is popped after it.\<close>

lemma path_renders:
  assumes "renders S (join_path p name) f t"
  shows "renders S p (\<lambda>w. pop_path (f (push_path name w))) t"
  unfolding renders_def
proof (intro allI impI)
  fix w
  assume w: "at S p w"
  define w1 where "w1 = push_path name w"
  have w1: "at S (join_path p name) w1" "m_compact w1 = m_compact w"
    using w by (simp_all add: w1_def at_def modes_ok_def push_path_def)
  have cut: "take (length (m_path w)) (join_path (m_path w) name) = m_path w" by (simp add: join_path_def)
  show "if m_compact w then on_line (\<lambda>w. pop_path (f (push_path name w))) t w
    else on_lines (\<lambda>w. pop_path (f (push_path name w))) t w"
  proof (cases "m_compact w")
    case True
    with assms w1 have "on_line f t w1" by (auto simp: renders_def)
    then obtain u where u: "f w1 = w1\<lparr>m_buf := m_buf w1 @ u\<rparr>" "u = t \<or> overflowed (f w1)" "length u \<le> length t"
      by (auto simp: on_line_def)
    have "pop_path (f w1) = w\<lparr>m_buf := m_buf w @ u\<rparr>" unfolding u(1) by (simp add: pop_path_def w1_def push_path_def cut)
    moreover have "overflowed (pop_path (f w1)) = overflowed (f w1)"
      by (simp add: pop_path_def overflowed_def grid_capped_def)
    ultimately show ?thesis using True u(2,3) by (auto simp: on_line_def w1_def)
  next
    case False
    with assms w1 have "on_lines f t w1" by (auto simp: renders_def)
    then show ?thesis using False cut
      by (auto simp: on_lines_def frame_def pop_path_def) (simp_all add: w1_def push_path_def)
  qed
qed

text \<open>Separators.\<close>

lemma sep_line: "at S p w \<Longrightarrow> m_compact w \<Longrightarrow> \<not> m_collect w \<Longrightarrow>
    entry_sep first w = w\<lparr>m_buf := m_buf w @ (if first then [] else '', '')\<rparr>"
  by (simp add: entry_sep_def emit_line)

lemma newline_blanks: "list_all blank (CHR 0x0A # concat (replicate n ''  ''))"
  by (induction n) simp_all

lemma sep_lines:
  assumes "at S p w" "\<not> m_compact w"
  shows "on_lines (entry_sep first) (if first then [] else '', '') w"
proof -
  let ?nl = "CHR 0x0A # concat (replicate (m_indent w) ''  '')"
  have "same ?nl []" "same ?nl '' ''" using newline_blanks [of "m_indent w"] by (simp_all add: same_blanks)
  moreover have "same '','' '',''" by (simp add: same_refl)
  ultimately have "same ?nl []" "same ('','' @ ?nl) ('','' @ '' '')" by (blast intro: same_append)+
  with assms show ?thesis
    by (auto simp: on_lines_def entry_sep_def Let_def emit_lines write_newline_def emit_out_def frame_def)
qed

section \<open>Bodies\<close>

text \<open>
  A body writes its entries with their separators: on one line outside of a collection, or on lines of
  their own.
\<close>

definition body_renders :: "string list option \<Rightarrow> string \<Rightarrow> (Writer \<Rightarrow> Writer) \<Rightarrow> string \<Rightarrow> bool" where
  "body_renders S p f t \<longleftrightarrow>
     (\<forall>w. at S p w \<longrightarrow> (if m_compact w then \<not> m_collect w \<longrightarrow> on_line f t w else on_lines f t w))"

lemma body_rendersI:
  assumes "\<And>w. at S p w \<Longrightarrow> m_compact w \<Longrightarrow> \<not> m_collect w \<Longrightarrow> on_line f t w"
    and "\<And>w. at S p w \<Longrightarrow> \<not> m_compact w \<Longrightarrow> on_lines f t w"
  shows "body_renders S p f t"
  using assms by (simp add: body_renders_def)

lemma body_then:
  assumes "body_renders S p f t" "body_renders S p g t'"
  shows "body_renders S p (\<lambda>w. g (f w)) (t @ t')"
proof (rule body_rendersI)
  fix w
  assume w: "at S p w" "m_compact w" "\<not> m_collect w"
  then have "on_line f t w" "on_line g t' (w\<lparr>m_buf := m_buf w @ u\<rparr>)" for u
    using assms at_buf [OF w(1)] by (auto simp: body_renders_def)
  then show "on_line (\<lambda>w. g (f w)) (t @ t') w" by (rule on_line_then)
next
  fix w
  assume w: "at S p w" "\<not> m_compact w"
  then have f: "on_lines f t w" using assms(1) by (auto simp: body_renders_def)
  then have "at S p (f w)" "\<not> m_compact (f w)" using frame_at [OF _ w(1)] w(2) by (auto simp: on_lines_def frame_def)
  with assms(2) have "on_lines g t' (f w)" by (auto simp: body_renders_def)
  with f show "on_lines (\<lambda>w. g (f w)) (t @ t') w" by (rule on_lines_then)
qed

lemma renders_body: "renders S p f t \<Longrightarrow> body_renders S p f t"
  by (auto simp: renders_def body_renders_def)

lemma body_id: "body_renders S p (\<lambda>w. w) []"
  by (rule body_rendersI) (auto intro: on_lineI simp: on_lines_def frame_def same_refl)

lemma sep_body: "body_renders S p (entry_sep first) (if first then [] else '', '')"
  by (rule body_rendersI) (blast intro: on_lineI sep_line sep_lines)+

text \<open>Stopping a loop once the budget is spent does not matter.\<close>

lemma body_break:
  assumes "body_renders S p f t" "body_renders S p g t'"
  shows "body_renders S p (\<lambda>w. let w1 = f w in if overflowed w1 then w1 else g w1) (t @ t')"
proof (rule body_rendersI)
  fix w
  assume w: "at S p w" "m_compact w" "\<not> m_collect w"
  show "on_line (\<lambda>w. let w1 = f w in if overflowed w1 then w1 else g w1) (t @ t') w"
  proof (cases "overflowed (f w)")
    case True
    have "on_line f t w" using w assms(1) by (auto simp: body_renders_def)
    then obtain u where "f w = w\<lparr>m_buf := m_buf w @ u\<rparr>" "length u \<le> length t" by (auto simp: on_line_def)
    with True show ?thesis by (auto simp: on_line_def Let_def)
  next
    case False
    have "on_line (\<lambda>w. g (f w)) (t @ t') w" using body_then [OF assms] w by (auto simp: body_renders_def)
    with False show ?thesis by (simp add: on_line_def Let_def)
  qed
next
  fix w
  assume w: "at S p w" "\<not> m_compact w"
  have "on_lines f t w" using assms(1) w by (auto simp: body_renders_def)
  then have "\<not> overflowed (f w)" using w by (auto simp: on_lines_def frame_def overflowed_def at_def modes_ok_def)
  moreover have "on_lines (\<lambda>w. g (f w)) (t @ t') w" using body_then [OF assms] w by (auto simp: body_renders_def)
  ultimately show "on_lines (\<lambda>w. let w1 = f w in if overflowed w1 then w1 else g w1) (t @ t') w"
    by (simp add: on_lines_def Let_def)
qed

lemma loop_renders:
  "list_all2 (renders S p) fs ts \<Longrightarrow> body_renders S p (loop_body fs first) (joined first ts)"
proof (induction fs ts arbitrary: first rule: list_all2_induct)
  case Nil
  show ?case using body_id by simp
next
  case (Cons f fs t ts)
  have "body_renders S p (\<lambda>w. f (entry_sep first w)) ((if first then [] else '', '') @ t)"
    by (rule body_then [OF sep_body renders_body [OF Cons(1)]])
  from body_break [OF this Cons(3) [of False]] show ?case by simp
qed

lemma field_renders:
  assumes "scan Outside (key_text n) = Outside" "renders S (if down then join_path p n else p) f t"
  shows "renders S p (\<lambda>w. if down then pop_path (f (push_path n (write_key n w))) else f (write_key n w)) (key_text n @ t)"
proof (cases down)
  case True
  with renders_then [OF write_key_renders [OF assms(1)] path_renders] assms(2) show ?thesis by simp
next
  case False
  with renders_then [OF write_key_renders [OF assms(1)]] assms(2) show ?thesis by simp
qed

text \<open>The fields of a message: hidden ones leave no trace.\<close>

definition field_texts :: "string list option \<Rightarrow> string \<Rightarrow> (string \<times> string) list \<Rightarrow> string list" where
  "field_texts S p nts = concat (map (\<lambda>(n, t). if hidden S p n then [] else [key_text n @ t]) nts)"

lemma skipped_hidden: "at S p w \<Longrightarrow> skipped n w = hidden S p n"
  by (auto simp: skipped_def hidden_def at_def list_ex_iff split: option.splits)

lemma fields_renders:
  "list_all2 (\<lambda>(n, down, f) (n', t). n' = n \<and> scan Outside (key_text n) = Outside \<and>
       renders S (if down then join_path p n else p) f t) fs nts \<Longrightarrow>
     body_renders S p (fields_body fs first) (joined first (field_texts S p nts))"
proof (induction fs nts arbitrary: first rule: list_all2_induct)
  case Nil
  show ?case using body_id by (simp add: field_texts_def)
next
  case (Cons x fs y nts)
  obtain n down f t where x: "x = (n, down, f)" "y = (n, t)" "scan Outside (key_text n) = Outside"
    "renders S (if down then join_path p n else p) f t"
    using Cons(1) by (cases x; cases y) auto
  show ?case
  proof (cases "hidden S p n")
    case True
    then have "fields_body (x # fs) first w = fields_body fs first w" if "at S p w" for w
      using skipped_hidden [OF that] by (simp add: x begin_field_def)
    with Cons(3) [of first] True show ?thesis
      by (auto simp: body_renders_def on_line_def on_lines_def field_texts_def x)
  next
    case False
    let ?h = "\<lambda>w. if down then pop_path (f (push_path n (write_key n w))) else f (write_key n w)"
    have "body_renders S p (\<lambda>w. fields_body fs False (?h (entry_sep first w)))
        (((if first then [] else '', '') @ key_text n @ t) @ joined False (field_texts S p nts))"
      by (rule body_then [OF body_then [OF sep_body renders_body [OF field_renders [OF x(3,4)]]] Cons(3)])
    moreover have "fields_body (x # fs) first w = fields_body fs False (?h (entry_sep first w))" if "at S p w" for w
      using skipped_hidden [OF that] False by (simp add: x begin_field_def)
    moreover have "joined first (field_texts S p (y # nts)) =
        ((if first then [] else '', '') @ key_text n @ t) @ joined False (field_texts S p nts)"
      using False by (simp add: field_texts_def x)
    ultimately show ?thesis by (auto simp: body_renders_def on_line_def on_lines_def)
  qed
qed

section \<open>Grids\<close>

lemma body_closed: "body_renders S p f t \<Longrightarrow> scan Outside t = Outside"
proof -
  assume r: "body_renders S p f t"
  let ?w = "(writer 0 0 S)\<lparr>m_path := p\<rparr>"
  have "at S p ?w" "\<not> m_compact ?w" by (simp_all add: at_def modes_ok_def writer_def Let_def)
  with r show ?thesis by (auto simp: body_renders_def on_lines_def same_def)
qed

lemmas renders_closed = body_closed [OF renders_body]

lemma collect_sep:
  assumes "m_compact w" "m_collect w" "first \<longrightarrow> m_buf w = []"
  obtains n where "entry_sep first w =
    w\<lparr>m_buf := [], m_cells := m_cells w @ (if first then [] else [m_buf w]), m_cell_bytes := n\<rparr>"
proof (cases first)
  case True
  with assms have "entry_sep first w = w" "m_buf w = []" by (simp_all add: entry_sep_def)
  with True that [of "m_cell_bytes w"] show ?thesis by (cases w) simp
next
  case False
  with assms have "entry_sep first w = w\<lparr>m_cell_bytes := m_cell_bytes w + length (m_buf w),
      m_cells := m_cells w @ [m_buf w], m_buf := []\<rparr>" by (simp add: entry_sep_def push_cell_def)
  with False that [of "m_cell_bytes w + length (m_buf w)"] show ?thesis by simp
qed

text \<open>Collecting an array gives its entries as cells, unless a cap is hit.\<close>

lemma loop_collect:
  "list_all2 (renders S p) fs ts \<Longrightarrow> at S p w \<Longrightarrow> m_compact w \<Longrightarrow> m_collect w \<Longrightarrow> first \<longrightarrow> m_buf w = [] \<Longrightarrow>
     \<exists>b cs n. loop_body fs first w = w\<lparr>m_buf := b, m_cells := cs, m_cell_bytes := n\<rparr> \<and>
       (grid_capped (loop_body fs first w) \<or> first \<and> fs = [] \<or>
        cs @ [b] = m_cells w @ (if first then [] else [m_buf w]) @ ts)"
proof (induction fs ts arbitrary: first w rule: list_all2_induct)
  case Nil
  then show ?case
    by (intro exI [of _ "m_buf w"] exI [of _ "m_cells w"] exI [of _ "m_cell_bytes w"]) simp
next
  case (Cons f fs t ts)
  define w1 where "w1 = entry_sep first w"
  define c0 where "c0 = m_cells w @ (if first then [] else [m_buf w])"
  obtain n0 where w1: "w1 = w\<lparr>m_buf := [], m_cells := c0, m_cell_bytes := n0\<rparr>"
    unfolding w1_def c0_def by (rule collect_sep [OF Cons.prems(2,3,4)])
  have at1: "at S p w1" "m_compact w1" "m_collect w1" "m_collecting w1"
    using Cons.prems by (simp_all add: w1 at_def modes_ok_def)
  with Cons(1) have "on_line f t w1" by (auto simp: renders_def)
  then obtain u where u: "f w1 = w1\<lparr>m_buf := m_buf w1 @ u\<rparr>" "u = t \<or> overflowed (f w1)" by (auto simp: on_line_def)
  have fw: "f w1 = w\<lparr>m_buf := u, m_cells := c0, m_cell_bytes := n0\<rparr>" unfolding u(1) by (simp add: w1)
  have at2: "at S p (f w1)" "m_compact (f w1)" "m_collect (f w1)" "m_collecting (f w1)"
    using at1 by (simp_all add: u(1) at_buf)
  show ?case
  proof (cases "overflowed (f w1)")
    case True
    then have "loop_body (f # fs) first w = f w1" "grid_capped (f w1)"
      using at2 by (simp_all add: w1_def [symmetric] Let_def overflowed_def)
    with fw show ?thesis by (intro exI [of _ u] exI [of _ c0] exI [of _ n0]) simp
  next
    case False
    from Cons.IH [of "f w1" False] at2 obtain b cs n where
      *: "loop_body fs False (f w1) = (f w1)\<lparr>m_buf := b, m_cells := cs, m_cell_bytes := n\<rparr>"
        "grid_capped (loop_body fs False (f w1)) \<or> cs @ [b] = m_cells (f w1) @ [m_buf (f w1)] @ ts" by auto
    have l: "loop_body (f # fs) first w = loop_body fs False (f w1)"
      using False by (simp add: w1_def [symmetric] Let_def)
    have "loop_body (f # fs) first w = w\<lparr>m_buf := b, m_cells := cs, m_cell_bytes := n\<rparr>"
      unfolding l *(1) by (simp add: fw)
    moreover have "m_buf (f w1) = t" "m_cells (f w1) = c0" using u(2) False by (simp_all add: fw)
    then have "grid_capped (loop_body (f # fs) first w) \<or> cs @ [b] = c0 @ t # ts" using *(2) l by simp
    ultimately show ?thesis
      by (intro exI [of _ b] exI [of _ cs] exI [of _ n]) (simp add: c0_def del: loop_body.simps)
  qed
qed

lemma replicate_blanks: "list_all blank (replicate n CHR '' '')"
  by (induction n) simp_all

lemma joined_Cons: "joined True (t # ts) = t @ (if ts = [] then [] else '', '' @ joined True ts)"
  by (cases ts) simp_all

lemma grid_rows_same:
  "\<forall>cell \<in> set cells. scan Outside cell = Outside \<Longrightarrow>
     \<exists>u. grid_rows cols widths num inner i cells pos w = w\<lparr>m_out := m_out w @ u\<rparr> \<and> same u (joined True cells)"
proof (induction cells arbitrary: i pos w)
  case Nil
  show ?case by (intro exI [of _ "[]"]) (simp add: same_refl)
next
  case (Cons cell cells)
  define col where "col = i mod cols"
  define start where "start = column_start inner widths col"
  define pos1 where "pos1 = (if col = 0 then inner else pos)"
  define pad where "pad = (if num then widths ! col - (length cell + kCellPunctWidth) else 0)"
  define br where "br = (if col = 0 then CHR 0x0A # concat (replicate (m_indent w) ''  '') else []) @
      replicate (start - pos1) CHR '' '' @ replicate pad CHR '' ''"
  define w' where "w' = w\<lparr>m_out := m_out w @ br @ cell @ (if cells \<noteq> [] then '','' else [])\<rparr>"
  define pos' where "pos' = max pos1 start + pad + length cell + (if cells \<noteq> [] then 1 else 0)"
  have step: "grid_rows cols widths num inner i (cell # cells) pos w =
      grid_rows cols widths num inner (Suc i) cells pos' w'"
    by (cases "col = 0"; cases "cells = []")
      (simp_all add: Let_def write_newline_def emit_out_def w'_def br_def col_def start_def pos1_def pad_def pos'_def)
  from Cons.IH [of "Suc i" pos' w'] Cons.prems obtain u where
    u: "grid_rows cols widths num inner (Suc i) cells pos' w' = w'\<lparr>m_out := m_out w' @ u\<rparr>" "same u (joined True cells)" by auto
  have "list_all blank br" using newline_blanks [of "m_indent w"] by (auto simp: br_def replicate_blanks)
  then have br: "same br []" by (simp add: same_blanks)
  have cell: "same cell cell" using Cons.prems by (simp add: same_refl)
  have sp: "same [] '' ''" by (simp add: same_blanks)
  have "same ((if cells \<noteq> [] then '','' else []) @ u) (if cells = [] then [] else '', '' @ joined True cells)"
  proof (cases "cells = []")
    case True
    then show ?thesis using u(2) by simp
  next
    case False
    have "same ('','' @ [] @ u) ('','' @ '' '' @ joined True cells)"
      by (intro same_append sp u(2)) (simp add: same_refl)
    with False show ?thesis by simp
  qed
  with br cell have "same (br @ cell @ (if cells \<noteq> [] then '','' else []) @ u) ([] @ cell @ (if cells = [] then [] else '', '' @ joined True cells))"
    by (intro same_append)
  then show ?case unfolding step u(1) joined_Cons by (intro exI conjI) (auto simp: w'_def)
qed

lemma render_grid_same:
  assumes "\<forall>cell \<in> set (m_cells w). scan Outside cell = Outside"
  shows "frame w (render_grid cols widths num w) \<and>
    (\<exists>u. m_out (render_grid cols widths num w) = m_out w @ u \<and> same u (''['' @ joined True (m_cells w) @ '']''))"
proof -
  define w2 where "w2 = (emit_out ''['' w)\<lparr>m_indent := m_indent w + 1\<rparr>"
  have cells: "m_cells w2 = m_cells w" by (simp add: w2_def emit_out_def)
  obtain u where u: "grid_rows cols widths num (m_indent w2 * kIndentWidth) 0 (m_cells w2) 0 w2 = w2\<lparr>m_out := m_out w2 @ u\<rparr>"
    "same u (joined True (m_cells w))"
    using grid_rows_same [of "m_cells w2" cols widths num "m_indent w2 * kIndentWidth" 0 0 w2] assms
    unfolding cells by auto
  define nl where "nl = CHR 0x0A # concat (replicate (m_indent w) ''  '')"
  have "render_grid cols widths num w = (write_newline ((w2\<lparr>m_out := m_out w2 @ u\<rparr>)\<lparr>m_indent := m_indent w\<rparr>))
      \<lparr>m_out := m_out w @ ''['' @ u @ nl @ '']'', m_column := m_indent w * kIndentWidth + 1, m_cells := []\<rparr>"
    using u(1) by (simp add: render_grid_def Let_def w2_def emit_out_def write_newline_def nl_def)
  then have "m_out (render_grid cols widths num w) = m_out w @ (''['' @ u @ nl @ '']'')" "frame w (render_grid cols widths num w)"
    by (simp_all add: frame_def w2_def emit_out_def write_newline_def)
  moreover have "same (''['' @ u @ nl @ '']'') (''['' @ joined True (m_cells w) @ [] @ '']'')"
    using newline_blanks [of "m_indent w"] u(2) unfolding nl_def
    by (intro same_append) (simp_all add: same_refl same_blanks)
  ultimately show ?thesis by auto
qed

lemma try_grid_same:
  assumes "list_all2 (renders S p) fs ts" "fs \<noteq> []" "at S p w" "\<not> m_compact w"
    and "try_grid (loop_body fs True) w = (ok, w')"
  shows "frame w w' \<and>
    (\<exists>u. m_out w' = m_out w @ u \<and> (if ok then same u (''['' @ joined True ts @ '']'') else u = []))"
proof -
  let ?w0 = "w\<lparr>m_cells := [], m_cell_bytes := 0, m_buf := [], to_buf := True, m_compact := True,
    m_collect := True, m_collecting := True\<rparr>"
  have "at S p ?w0" using assms(3) by (simp add: at_def modes_ok_def)
  from loop_collect [OF assms(1) this, of True] assms(2) obtain b cs n where
    l: "loop_body fs True ?w0 = ?w0\<lparr>m_buf := b, m_cells := cs, m_cell_bytes := n\<rparr>"
      "grid_capped (loop_body fs True ?w0) \<or> cs @ [b] = ts" by auto
  define w2 where "w2 = push_cell ((loop_body fs True ?w0)
    \<lparr>m_collecting := False, m_collect := False, m_compact := False, to_buf := False\<rparr>)"
  have w2: "frame w w2" "m_out w2 = m_out w" "m_cells w2 = cs @ [b]" "m_cell_bytes w2 = n + length b" "m_buf w2 = []"
    using assms(3,4) unfolding w2_def l(1) by (auto simp: push_cell_def frame_def at_def modes_ok_def)
  show ?thesis
  proof (cases ok)
    case False
    then have "w' = w2" using assms(5) by (auto simp: try_grid_def Let_def w2_def split: if_splits prod.splits)
    with w2 False show ?thesis by simp
  next
    case True
    then obtain cols widths num where r: "w' = render_grid cols widths num w2" "\<not> grid_capped w2"
      using assms(5) by (auto simp: try_grid_def Let_def w2_def split: if_splits prod.splits)
    have "m_cells w2 = ts" using l w2 r(2) by (auto simp: grid_capped_def)
    moreover have "\<forall>t \<in> set ts. scan Outside t = Outside"
      using assms(1) renders_closed by (auto simp: list_all2_conv_all_nth in_set_conv_nth) blast
    ultimately show ?thesis
      using render_grid_same [of w2 cols widths num] w2 True unfolding r(1) by (auto intro: frame_trans)
  qed
qed

section \<open>Groups\<close>

definition bracketed :: "char \<Rightarrow> char \<Rightarrow> (Writer \<Rightarrow> Writer) \<Rightarrow> Writer \<Rightarrow> Writer" where
  "bracketed open_ch close_ch body w = emit [close_ch] (body (emit [open_ch] w))"

lemma bracketed_eq: "bracketed open_ch close_ch body = (\<lambda>w. emit [close_ch] (body (emit [open_ch] w)))"
  by (rule ext) (simp add: bracketed_def)

lemma bracketed_line:
  assumes "body_renders S p body t" "open_ch \<noteq> quote" "close_ch \<noteq> quote" "at S p w" "m_compact w" "\<not> m_collect w"
  obtains u where "bracketed open_ch close_ch body w = w\<lparr>m_buf := m_buf w @ u\<rparr>"
    "u = [open_ch] @ t @ [close_ch] \<or> overflowed (w\<lparr>m_buf := m_buf w @ u\<rparr>)" "length u \<le> length t + 2"
proof -
  have "body_renders S p (\<lambda>w. emit [close_ch] (body (emit [open_ch] w))) (([open_ch] @ t) @ [close_ch])"
    using assms(2,3)
    by (intro body_then [OF body_then [OF renders_body [OF renders_emit] assms(1)] renders_body [OF renders_emit]]) simp_all
  then have "on_line (bracketed open_ch close_ch body) ([open_ch] @ t @ [close_ch]) w"
    using assms(4-6) by (simp add: body_renders_def bracketed_eq)
  then show ?thesis using that by (auto simp: on_line_def)
qed

lemma group_line:
  assumes "body_renders S p body t" "open_ch \<noteq> quote" "close_ch \<noteq> quote" "at S p w" "m_compact w"
  shows "on_line (group open_ch close_ch body) ([open_ch] @ t @ [close_ch]) w"
proof -
  let ?w = "w\<lparr>m_collect := False\<rparr>"
  have "at S p ?w" using assms(4) by (simp add: at_def modes_ok_def)
  from bracketed_line [OF assms(1-3) this] assms(5) obtain u where
    u: "bracketed open_ch close_ch body ?w = ?w\<lparr>m_buf := m_buf w @ u\<rparr>"
      "u = [open_ch] @ t @ [close_ch] \<or> overflowed (?w\<lparr>m_buf := m_buf w @ u\<rparr>)" "length u \<le> length t + 2" by auto
  have "group open_ch close_ch body w = w\<lparr>m_buf := m_buf w @ u\<rparr>"
    using assms(5) u(1) by (simp add: group_def Let_def bracketed_def)
  moreover have "overflowed (?w\<lparr>m_buf := m_buf w @ u\<rparr>) = overflowed (w\<lparr>m_buf := m_buf w @ u\<rparr>)"
    by (simp add: overflowed_def grid_capped_def)
  ultimately show ?thesis using u(2,3) by (auto simp: on_line_def)
qed

lemma probe_line:
  assumes "body_renders S p body t" "open_ch \<noteq> quote" "close_ch \<noteq> quote" "at S p w" "\<not> m_compact w"
  obtains u where "bracketed open_ch close_ch body
      (w\<lparr>m_buf := [], to_buf := True, m_compact := True, m_avail := avail\<rparr>) =
    w\<lparr>m_buf := u, to_buf := True, m_compact := True, m_avail := avail\<rparr>"
    "u = [open_ch] @ t @ [close_ch] \<or> length u > avail" "length u \<le> length t + 2"
proof -
  let ?w = "w\<lparr>m_buf := [], to_buf := True, m_compact := True, m_avail := avail\<rparr>"
  have "at S p ?w" "m_compact ?w" "\<not> m_collect ?w" "\<not> m_collecting ?w"
    using assms(4,5) by (auto simp: at_def modes_ok_def)
  from bracketed_line [OF assms(1-3) this(1-3)] this(4) obtain u where
    "bracketed open_ch close_ch body ?w = ?w\<lparr>m_buf := u\<rparr>"
    "u = [open_ch] @ t @ [close_ch] \<or> overflowed (?w\<lparr>m_buf := u\<rparr>)" "length u \<le> length t + 2" by auto
  with \<open>\<not> m_collecting ?w\<close> show ?thesis by (intro that [of u]) (auto simp: overflowed_def)
qed

lemma group_broken:
  assumes "body_renders S p body t" "open_ch \<noteq> quote" "close_ch \<noteq> quote"
    and "at S p w3" "\<not> m_compact w3"
    and "w4 = body ((emit_out [open_ch] w3)\<lparr>m_indent := m_indent w3 + 1\<rparr>)"
    and "w5 = w4\<lparr>m_indent := m_indent w4 - 1\<rparr>"
    and "w7 = emit_out [close_ch] (if any then write_newline w5 else w5)"
  shows "frame w3 (w7\<lparr>m_column := k\<rparr>) \<and> (\<exists>u. m_out w7 = m_out w3 @ u \<and> same u ([open_ch] @ t @ [close_ch]))"
proof -
  let ?w = "(emit_out [open_ch] w3)\<lparr>m_indent := m_indent w3 + 1\<rparr>"
  have "at S p ?w" "\<not> m_compact ?w" using assms(4,5) by (auto simp: at_def modes_ok_def emit_out_def)
  with assms(1,6) have "on_lines body t ?w" by (auto simp: body_renders_def)
  then obtain u where u: "frame ?w w4" "m_out w4 = m_out w3 @ [open_ch] @ u" "same u t"
    unfolding assms(6) by (auto simp: on_lines_def emit_out_def)
  define nl where "nl = (if any then CHR 0x0A # concat (replicate (m_indent w3) ''  '') else [])"
  have "list_all blank nl" using newline_blanks [of "m_indent w3"] by (simp add: nl_def)
  then have "same ([open_ch] @ u @ nl @ [close_ch]) ([open_ch] @ t @ [] @ [close_ch])"
    using u(3) assms(2,3) by (intro same_append) (simp_all add: same_refl same_blanks)
  moreover have "m_out w7 = m_out w3 @ [open_ch] @ u @ nl @ [close_ch]"
    using u(1,2) by (simp add: assms(7,8) emit_out_def write_newline_def nl_def frame_def)
  moreover have "frame w3 (w7\<lparr>m_column := k\<rparr>)"
    using u(1) by (simp add: assms(7,8) emit_out_def write_newline_def frame_def)
  ultimately show ?thesis by auto
qed

text \<open>The three layouts of a group.\<close>

lemma group_lines:
  assumes "body_renders S p body t" "open_ch \<noteq> quote" "close_ch \<noteq> quote" "at S p w" "\<not> m_compact w"
    and grid: "open_ch = CHR ''['' \<Longrightarrow> close_ch = CHR '']'' \<and>
      (\<exists>fs ts. body = loop_body fs True \<and> list_all2 (renders S p) fs ts \<and> t = joined True ts)"
  shows "on_lines (group open_ch close_ch body) ([open_ch] @ t @ [close_ch]) w"
proof -
  let ?T = "[open_ch] @ t @ [close_ch]"
  define avail where "avail = (if m_width w > m_column w then m_width w - m_column w else 0)"
  obtain s where s: "bracketed open_ch close_ch body
      (w\<lparr>m_buf := [], to_buf := True, m_compact := True, m_avail := avail\<rparr>) =
    w\<lparr>m_buf := s, to_buf := True, m_compact := True, m_avail := avail\<rparr>" "s = ?T \<or> length s > avail"
    by (rule probe_line [OF assms(1-5)])
  define w2 where "w2 = w\<lparr>m_buf := s, m_avail := avail, m_compact := False, to_buf := False\<rparr>"
  have w2: "frame w w2" "m_out w2 = m_out w" "m_buf w2 = s" using assms(4,5) by (simp_all add: w2_def frame_def at_def modes_ok_def)
  have at2: "at S p w2" "\<not> m_compact w2" using frame_at [OF w2(1) assms(4)] by (simp_all add: w2_def)
  define any where "any = (length s > kEmptyGroupChars)"
  obtain gridded w3 where g: "(if open_ch = CHR ''['' \<and> any then try_grid body w2 else (False, w2)) = (gridded, w3)"
    by (metis surj_pair)
  define w4 where "w4 = body ((emit_out [open_ch] w3)\<lparr>m_indent := m_indent w3 + 1\<rparr>)"
  define w5 where "w5 = w4\<lparr>m_indent := m_indent w4 - 1\<rparr>"
  define w7 where "w7 = emit_out [close_ch] (if any then write_newline w5 else w5)"
  have w1: "(emit [close_ch] (body (emit [open_ch] (w\<lparr>m_buf := [], to_buf := True, m_compact := True, m_avail := avail\<rparr>))))
      \<lparr>m_compact := False, to_buf := False\<rparr> = w2" using s(1) by (simp add: bracketed_def w2_def)
  have group: "group open_ch close_ch body w = (if length s \<le> avail then (emit_out s w2)\<lparr>m_column := m_column w2 + length s\<rparr>
      else if gridded then w3 else w7\<lparr>m_column := m_indent w7 * kIndentWidth + 1\<rparr>)"
    unfolding group_def Let_def avail_def [symmetric] w1 w2(3) any_def [symmetric] g prod.case
      w4_def [symmetric] w5_def [symmetric] w7_def [symmetric]
    using assms(5) by simp
  have w3: "frame w w3 \<and> (\<exists>u. m_out w3 = m_out w @ u \<and> (if gridded then same u ?T else u = []))"
  proof (cases "open_ch = CHR ''['' \<and> any")
    case True
    then obtain fs ts where f: "body = loop_body fs True" "list_all2 (renders S p) fs ts" "t = joined True ts" "close_ch = CHR '']''"
      using grid by blast
    have "m_buf (bracketed open_ch close_ch body (w\<lparr>m_buf := [], to_buf := True, m_compact := True, m_avail := avail\<rparr>)) = s"
      by (simp add: s(1))
    then have "s = [open_ch, close_ch]" if "fs = []" using that by (simp add: bracketed_def emit_def f(1))
    then have "fs \<noteq> []" using True by (auto simp: any_def kEmptyGroupChars_def)
    moreover have "try_grid (loop_body fs True) w2 = (gridded, w3)" using g True f(1) by simp
    ultimately show ?thesis
      using try_grid_same [OF f(2) _ at2] w2(1,2) frame_trans True f(3,4) by fastforce
  next
    case False
    with g w2 show ?thesis by auto
  qed
  then have at3: "at S p w3" "\<not> m_compact w3" using frame_at [OF _ assms(4)] assms(5) by (auto simp: frame_def)
  note broken = group_broken [OF assms(1-3) at3 w4_def w5_def w7_def]
  consider "length s \<le> avail" | "\<not> length s \<le> avail" gridded | "\<not> length s \<le> avail" "\<not> gridded" by blast
  then show ?thesis
  proof cases
    case 1
    then have "s = ?T" using s(2) by simp
    with 1 w2 body_closed [OF assms(1)] assms(2,3) show ?thesis
      unfolding on_lines_def group by (auto simp: emit_out_def frame_def same_refl)
  next
    case 2
    with w3 show ?thesis unfolding on_lines_def group by auto
  next
    case 3
    with w3 broken show ?thesis unfolding on_lines_def group by (auto intro: frame_trans)
  qed
qed

text \<open>A group with room for it on its line is written there, verbatim.\<close>

lemma group_fits:
  assumes "body_renders S p body t" "open_ch \<noteq> quote" "close_ch \<noteq> quote" "at S p w" "\<not> m_compact w"
    and "m_column w + length t + 2 \<le> m_width w"
  shows "m_out (group open_ch close_ch body w) = m_out w @ [open_ch] @ t @ [close_ch]"
proof -
  let ?avail = "m_width w - m_column w"
  obtain s where s: "bracketed open_ch close_ch body
      (w\<lparr>m_buf := [], to_buf := True, m_compact := True, m_avail := ?avail\<rparr>) =
    w\<lparr>m_buf := s, to_buf := True, m_compact := True, m_avail := ?avail\<rparr>"
    "s = [open_ch] @ t @ [close_ch] \<or> length s > ?avail" "length s \<le> length t + 2"
    by (rule probe_line [OF assms(1-5)])
  then have eq: "s = [open_ch] @ t @ [close_ch]" "length s \<le> ?avail" using assms(6) by auto
  have "group open_ch close_ch body w = (let w2 = w\<lparr>m_buf := s, to_buf := False, m_compact := False, m_avail := ?avail\<rparr>
      in (emit_out s w2)\<lparr>m_column := m_column w2 + length s\<rparr>)"
    using s(1) eq(2) assms(5,6) by (simp add: group_def Let_def bracketed_def emit_out_def)
  then show ?thesis by (simp add: eq(1) emit_out_def Let_def)
qed

definition fits_line :: "string list option \<Rightarrow> string \<Rightarrow> (Writer \<Rightarrow> Writer) \<Rightarrow> string \<Rightarrow> bool" where
  "fits_line S p f t \<longleftrightarrow>
     (\<forall>w. at S p w \<and> \<not> m_compact w \<and> m_column w + length t \<le> m_width w \<longrightarrow> m_out (f w) = m_out w @ t)"

lemma group_renders:
  assumes "body_renders S p body t" "open_ch \<noteq> quote" "close_ch \<noteq> quote"
    and "open_ch = CHR ''['' \<Longrightarrow> close_ch = CHR '']'' \<and>
      (\<exists>fs ts. body = loop_body fs True \<and> list_all2 (renders S p) fs ts \<and> t = joined True ts)"
  shows "renders S p (group open_ch close_ch body) ([open_ch] @ t @ [close_ch]) \<and>
    fits_line S p (group open_ch close_ch body) ([open_ch] @ t @ [close_ch])"
  using group_line [OF assms(1-3)] group_lines [OF assms(1-3) _ _ assms(4)] group_fits [OF assms(1-3)]
  by (simp add: renders_def fits_line_def)

section \<open>Values\<close>

lemma write_message:
  "write_value (Message unknown fs) =
     group (CHR ''{'') (CHR ''}'') (write_message_body unknown (map (\<lambda>(n, v). (n, descends v, write_value v)) fs))"
proof -
  have "map2 (\<lambda>(n, v) (n', f). (n, descends v, f)) fs (map (map_prod id write_value) fs) =
      map (\<lambda>(n, v). (n, descends v, write_value v)) fs"
    by (induction fs) auto
  then show ?thesis by simp
qed

lemma write_map:
  "write_value (Map kvs) =
     group (CHR ''{'') (CHR ''}'') (loop_body (map (\<lambda>(k, v) w. write_value v (emit (key_text k) w)) kvs) True)"
proof -
  have "map (\<lambda>(k, f) w. f (emit (quote # k @ [quote] @ '': '') w)) (map (map_prod id write_value) kvs) =
      map (\<lambda>(k, v) w. write_value v (emit (key_text k) w)) kvs"
    by (auto simp: key_text_def)
  then show ?thesis by (simp only: write_value.simps)
qed

lemma message_renders:
  assumes "list_all2 (\<lambda>(n, down, f) (n', t). n' = n \<and> scan Outside (key_text n) = Outside \<and>
       renders S (if down then join_path p n else p) f t) fs nts"
  shows "body_renders S p (write_message_body unknown fs)
    (joined True ((if unknown then [key_text ''has_unknown_fields'' @ ''true''] else []) @ field_texts S p nts))"
proof (cases unknown)
  case True
  let ?mark = "key_text ''has_unknown_fields'' @ ''true''"
  have mark: "scan Outside ?mark = Outside" by (simp add: key_text_def)
  have "body_renders S p (\<lambda>w. fields_body fs False (emit ?mark (entry_sep True w)))
      (((if True then [] else '', '') @ ?mark) @ joined False (field_texts S p nts))"
    by (rule body_then [OF body_then [OF sep_body renders_body [OF renders_emit [OF mark]]] fields_renders [OF assms]])
  moreover have "write_message_body unknown fs = (\<lambda>w. fields_body fs False (emit ?mark (entry_sep True w)))"
    using True by (simp add: fun_eq_iff write_message_body_def key_text_def)
  ultimately show ?thesis using True by simp
next
  case False
  then have "write_message_body unknown fs = fields_body fs True" by (simp add: fun_eq_iff write_message_body_def)
  with False fields_renders [OF assms] show ?thesis by simp
qed

lemma write_value_renders:
  "closed_value v \<Longrightarrow> renders S p (write_value v) (line_text S p v) \<and> fits_line S p (write_value v) (line_text S p v)"
proof (induction v arbitrary: p)
  case (Leaf s)
  then show ?case by (auto simp: renders_emit fits_line_def emit_lines)
next
  case (Message unknown fs)
  let ?nts = "map (\<lambda>(n, v). (n, line_text S (if descends v then join_path p n else p) v)) fs"
  let ?t = "''{'' @ joined True ((if unknown then [key_text ''has_unknown_fields'' @ ''true''] else []) @
    field_texts S p ?nts) @ ''}''"
  have "list_all2 (\<lambda>(n, down, f) (n', t). n' = n \<and> scan Outside (key_text n) = Outside \<and>
       renders S (if down then join_path p n else p) f t) (map (\<lambda>(n, v). (n, descends v, write_value v)) fs) ?nts"
    using Message by (fastforce simp: list.rel_map intro!: list.rel_refl_strong)
  from group_renders [OF message_renders [OF this], of "CHR ''{''" "CHR ''}''" unknown]
  have "renders S p (write_value (Message unknown fs)) ?t \<and> fits_line S p (write_value (Message unknown fs)) ?t"
    unfolding write_message by simp
  moreover have "field_texts S p ?nts = concat (map (\<lambda>(n, v). if hidden S p n then []
          else [key_text n @ line_text S (if descends v then join_path p n else p) v]) fs)"
    unfolding field_texts_def by (rule arg_cong [of _ _ concat]) (auto simp: case_prod_unfold)
  ultimately show ?case by (simp only: line_text.simps)
next
  case (Repeated vs)
  then have "list_all2 (renders S p) (map write_value vs) (map (line_text S p) vs)"
    by (auto simp: list.rel_map intro!: list.rel_refl_strong)
  from group_renders [OF loop_renders [OF this, of True], of "CHR ''[''" "CHR '']''"] this show ?case by auto
next
  case (Map kvs)
  have "renders S p (\<lambda>w. write_value v (emit (key_text k) w)) (key_text k @ line_text S p v)" if "(k, v) \<in> set kvs" for k v
    using Map that by (intro renders_then renders_emit) fastforce+
  then have "list_all2 (renders S p) (map (\<lambda>(k, v) w. write_value v (emit (key_text k) w)) kvs)
      (map (\<lambda>(k, v). key_text k @ line_text S p v) kvs)"
    by (auto simp: list.rel_map intro!: list.rel_refl_strong)
  from group_renders [OF loop_renders [OF this, of True], of "CHR ''{''" "CHR ''}''"]
  show ?case unfolding write_map by simp
qed

lemma writer_at: "at S [] (writer width start_indent S)" "\<not> m_compact (writer width start_indent S)"
  "m_out (writer width start_indent S) = []" "m_width (writer width start_indent S) = width"
  "m_column (writer width start_indent S) = min start_indent kMaxIndent * kIndentWidth"
  by (simp_all add: at_def modes_ok_def writer_def Let_def)

lemma hex_plain: "hex_high c \<notin> {quote, escape_mark}" "hex_low c \<notin> {quote, escape_mark}"
  using hex_digits(1,2) [of c] by (auto simp: hex_nibble_def)

lemma escape_inside: "scan Inside (json_escape c) = Inside"
  using hex_plain [of c] by (auto simp: json_escape_def)

lemma digits_outside: "scan Outside (to_string n) = Outside"
proof (induction n rule: to_string.induct)
  case (1 n)
  have "digit_char d \<noteq> quote" if "d < 10" for d
    using of_char_eq_iff [of "digit_char d" quote, where ?'a = nat] that by (simp add: digit_char_def)
  with 1 show ?case by (subst to_string.simps) simp
qed

text \<open>The texts of the value writers close their literals, so the values of a dump are closed.\<close>

lemma leaves_closed:
  "closed_value (Leaf (write_bool b))"
  "closed_value (Leaf (to_string_int i))"
  "closed_value (Leaf (quote # write_json_escaped s @ [quote]))"
  "closed_value (Leaf (quote # write_hex s @ [quote]))"
proof -
  have "scan Inside (write_json_escaped s) = Inside"
    by (induction s) (simp_all add: write_json_escaped_def escape_inside)
  then show "closed_value (Leaf (quote # write_json_escaped s @ [quote]))" by simp
  have "scan Inside (write_hex s) = Inside"
    using hex_plain by (induction s) (simp_all add: write_hex_def)
  then show "closed_value (Leaf (quote # write_hex s @ [quote]))" by simp
qed (simp_all add: write_bool_def to_string_int_def digits_outside)

text \<open>
  Property C6. Layout changes white space only: whatever the width, the starting indent and the
  skipped paths, the dump with the white space outside of string literals removed is the one-line
  text of the value without it. No entry is lost, repeated or reordered by the probe that stops
  early, by the grid of columns with its caps, or by the one-entry-per-line form.
\<close>

theorem dump_layout:
  "closed_value v \<Longrightarrow>
     strip Outside (dump width start_indent skip v) = strip Outside (line_text (Some skip) [] v)"
  using write_value_renders [of v "Some skip" "[]"] writer_at [where S = "Some skip" and width = width and start_indent = start_indent]
  by (auto simp: renders_def on_lines_def same_def dump_def)

definition demo_value :: Value where
  "demo_value = Message False [(''id'', Leaf ''7''), (''tags'', Repeated [Leaf ''12'', Leaf ''3'', Leaf ''456'']),
     (''name'', Leaf (quote # ''a b'' @ [quote]))]"

theorem dump_layout_witness:
  "strip Outside (dump 14 0 [''id''] demo_value) = strip Outside (line_text (Some [''id'']) [] demo_value)"
proof -
  have "closed_value demo_value" by code_simp
  then show ?thesis by (rule dump_layout)
qed

text \<open>
  Property C26. A value whose one-line text fits the width to the right of the starting indent is
  written exactly so: on one line, with its single spaces.
\<close>

theorem dump_one_line:
  "closed_value v \<Longrightarrow>
     min start_indent kMaxIndent * kIndentWidth + length (line_text (Some skip) [] v) \<le> width \<Longrightarrow>
     dump width start_indent skip v = line_text (Some skip) [] v"
  using write_value_renders [of v "Some skip" "[]"] writer_at [where S = "Some skip" and width = width and start_indent = start_indent]
  by (simp add: fits_line_def dump_def)

theorem dump_one_line_witness:
  "dump 120 1 [''id''] demo_value = line_text (Some [''id'']) [] demo_value"
proof -
  have "closed_value demo_value" by code_simp
  moreover have "min 1 kMaxIndent * kIndentWidth + length (line_text (Some [''id'']) [] demo_value) \<le> 120" by code_simp
  ultimately show ?thesis by (rule dump_one_line)
qed

end
