(* ===== verification/Modes.thy ===== *)
theory Modes
  imports Type_Correct "HOL-Library.List_Lexorder"
begin

text \<open>
  The decode profile of src/src/arenagen/modes.cpp: the profile file's parser, and the resolution of
  its entries against an analysed file set into the fields to drop or to keep raw and the messages
  that record unknown fields.

  A pointer to a message is its position in the file set (\<open>MessageRef\<close>), a pointer to one of its own
  fields or maps that position with the index. The hash maps are association lists; none of them is
  iterated. \<open>std::isalpha\<close> and \<open>std::isalnum\<close> are those of the C locale.
\<close>

section \<open>Data\<close>

datatype FieldMode = Materialize | RawMode | Drop

record ModeEntry =
  me_mode :: FieldMode
  me_name :: string
  me_origin :: string

record UnknownEntry =
  ue_name :: string
  ue_origin :: string

record FieldModesSpec =
  profile_name :: string
  entries :: "ModeEntry list"
  unknowns :: "UnknownEntry list"
  unknown_all :: bool

type_synonym NodeRef = "MessageRef \<times> nat"

record FieldModes =
  fm_fields :: "(NodeRef \<times> FieldMode) list"
  fm_maps :: "(NodeRef \<times> FieldMode) list"
  unknown_messages :: "MessageRef list"
  profile_id :: string
  normalized :: "string list"

definition empty_modes :: FieldModes where
  "empty_modes = \<lparr>fm_fields = [], fm_maps = [], unknown_messages = [], profile_id = [], normalized = []\<rparr>"

definition active :: "FieldModes \<Rightarrow> bool" where
  "active fm \<longleftrightarrow> fm_fields fm \<noteq> [] \<or> fm_maps fm \<noteq> [] \<or> unknown_messages fm \<noteq> []"

definition wants_unknown :: "FieldModes \<Rightarrow> MessageRef \<Rightarrow> bool" where
  "wants_unknown fm r \<longleftrightarrow> r \<in> set (unknown_messages fm)"

section \<open>Text\<close>

definition trim :: "string \<Rightarrow> string" where
  "trim s = rev (dropWhile (\<lambda>c. c = CHR '' '' \<or> c = CHR 0x09 \<or> c = CHR 0x0D)
     (rev (dropWhile (\<lambda>c. c = CHR '' '' \<or> c = CHR 0x09) s)))"

definition is_blank :: "char \<Rightarrow> bool" where
  "is_blank c \<longleftrightarrow> c = CHR '' '' \<or> c = CHR 0x09"

text \<open>The first word of a line and the trimmed remainder.\<close>

definition first_word :: "string \<Rightarrow> string \<times> string" where
  "first_word ln =
     (let word = takeWhile (\<lambda>c. \<not> is_blank c) ln in
      if word = ln then (ln, []) else (word, trim (drop (Suc (length word)) ln)))"

definition is_alpha :: "char \<Rightarrow> bool" where
  "is_alpha c \<longleftrightarrow> c \<ge> CHR ''a'' \<and> c \<le> CHR ''z'' \<or> c \<ge> CHR ''A'' \<and> c \<le> CHR ''Z''"

definition is_identifier :: "string \<Rightarrow> bool" where
  "is_identifier s =
     (if s = [] \<or> (\<not> is_alpha (hd s) \<and> hd s \<noteq> CHR ''_'') then False
      else list_all (\<lambda>c. is_alpha c \<or> is_decimal_digit c \<or> c = CHR ''_'') s)"

fun mode_word :: "FieldMode \<Rightarrow> string" where
  "mode_word RawMode = ''raw''"
| "mode_word Drop = ''drop''"
| "mode_word Materialize = ''materialize''"

definition normalize_name :: "string \<Rightarrow> string" where
  "normalize_name name = (if name \<noteq> [] \<and> hd name = CHR ''.'' then name else CHR ''.'' # name)"

section \<open>The identity of a profile\<close>

definition fnv_step :: "u64 \<Rightarrow> char \<Rightarrow> u64" where
  "fnv_step h c = (h XOR of_char c) * 0x100000001b3"

definition fnv_mix :: "u64 \<Rightarrow> string \<Rightarrow> u64" where
  "fnv_mix h s = fnv_step (foldl fnv_step h s) (CHR 0x0A)"

fun hex_digits_of :: "nat \<Rightarrow> u64 \<Rightarrow> string" where
  "hex_digits_of 0 h = []"
| "hex_digits_of (Suc n) h = hex_digits_of n (drop_bit 4 h) @ [''0123456789abcdef'' ! unat (h AND 0xF)]"

definition hash_id :: "string list \<Rightarrow> string" where
  "hash_id lines = hex_digits_of 16 (foldl fnv_mix 0xcbf29ce484222325 lines)"

section \<open>Fields by name\<close>

datatype FieldHit = NoHit | HitField nat FieldNode | HitMap nat MapFieldNode | HitOneof FieldNode

definition index_of :: "('a \<Rightarrow> bool) \<Rightarrow> 'a list \<Rightarrow> nat option" where
  "index_of p xs = (let k = length (takeWhile (\<lambda>x. \<not> p x) xs) in if k < length xs then Some k else None)"

definition find_field :: "MessageNode \<Rightarrow> string \<Rightarrow> FieldHit" where
  "find_field m name =
     (case index_of (\<lambda>f. fld_name f = name) (msg_fields (msg_data m)) of
        Some i \<Rightarrow> HitField i (msg_fields (msg_data m) ! i)
      | None \<Rightarrow>
          (case index_of (\<lambda>f. mf_name f = name) (map_fields (msg_data m)) of
             Some i \<Rightarrow> HitMap i (map_fields (msg_data m) ! i)
           | None \<Rightarrow>
               (case List.find (\<lambda>f. fld_name f = name) (concat (map oo_fields (oneofs (msg_data m)))) of
                  Some f \<Rightarrow> HitOneof f
                | None \<Rightarrow> NoHit)))"

text \<open>The message at a position; the table's positions are all valid.\<close>

definition message_of :: "FileNode list \<Rightarrow> MessageRef \<Rightarrow> MessageNode" where
  "message_of fs r =
     (case (if fst r < length fs then message_at (file_messages (fs ! fst r)) (snd r) else None) of
        Some m \<Rightarrow> m
      | None \<Rightarrow> MessageNode default_message [])"

definition find_field_by_fqn :: "FileNode list \<Rightarrow> SymbolTable \<Rightarrow> string \<Rightarrow> (MessageRef \<times> FieldHit)" where
  "find_field_by_fqn fs tab fqn =
     (let leaf = rev (takeWhile (\<lambda>c. c \<noteq> CHR ''.'') (rev fqn)); parent = take (length fqn - Suc (length leaf)) fqn in
      case messages tab parent of
        Some r \<Rightarrow> (r, find_field (message_of fs r) leaf)
      | None \<Rightarrow> ((0, []), NoHit))"

section \<open>Entries\<close>

record Selection =
  type_modes :: "(string \<times> FieldMode) list"
  field_modes :: "(NodeRef \<times> FieldMode) list"
  map_modes :: "(NodeRef \<times> FieldMode) list"
  origins :: "(string \<times> string) list"
  sel_normalized :: "string list"

definition empty_selection :: Selection where
  "empty_selection = \<lparr>type_modes = [], field_modes = [], map_modes = [], origins = [], sel_normalized = []\<rparr>"

definition quoted :: "string \<Rightarrow> string" where "quoted s = squote # s @ [squote]"

definition oneof_message :: "ModeEntry \<Rightarrow> string" where
  "oneof_message e =
     me_origin e @ '': '' @ quoted (me_name e) @ '' is a oneof member; field modes do not apply inside a oneof''"

definition field_entry_error :: "ModeEntry \<Rightarrow> FieldHit \<Rightarrow> Error option" where
  "field_entry_error e hit =
     (case hit of
        HitOneof _ \<Rightarrow> Some (mk_error 0 (oneof_message e))
      | _ \<Rightarrow>
          if me_mode e = Drop \<and> (case hit of HitField _ f \<Rightarrow> presence f = Required | _ \<Rightarrow> False) then
            Some (mk_error 0 (me_origin e @ '': cannot drop required field '' @ quoted (me_name e) @
              '' (its presence check would be meaningless)''))
          else if me_mode e = RawMode \<and>
            (case hit of HitMap _ _ \<Rightarrow> True | HitField _ f \<Rightarrow> \<not> is_message_type f | _ \<Rightarrow> False) then
            Some (mk_error 0 (me_origin e @ '': cannot keep '' @ quoted (me_name e) @
              '' raw (raw applies to message-typed fields, whose payload the field type's decode() accepts; materialize or drop this field)''))
          else None)"

definition conflict :: "ModeEntry \<Rightarrow> string \<Rightarrow> Selection \<Rightarrow> FieldMode \<Rightarrow> Error" where
  "conflict e fqn sel existing =
     mk_error 0 (me_origin e @ '': '' @ quoted (me_name e) @ '' already has mode '' @ mode_word existing @ '' (from '' @
       (case map_of (origins sel) (mode_word existing @ '' '' @ fqn) of Some orig \<Rightarrow> orig | None \<Rightarrow> []) @ '')'')"

definition note_entry :: "ModeEntry \<Rightarrow> string \<Rightarrow> Selection \<Rightarrow> Selection" where
  "note_entry e fqn sel =
     (let ln = mode_word (me_mode e) @ '' '' @ fqn in
      sel\<lparr>origins := (if map_of (origins sel) ln = None then (ln, me_origin e) # origins sel else origins sel),
          sel_normalized := sel_normalized sel @ [ln]\<rparr>)"

text \<open>\<open>emplace\<close>: the mode that is there already, or the table with the new one.\<close>

definition emplace_mode :: "'k \<Rightarrow> FieldMode \<Rightarrow> ('k \<times> FieldMode) list \<Rightarrow> FieldMode + ('k \<times> FieldMode) list" where
  "emplace_mode k mode tab = (case map_of tab k of Some old \<Rightarrow> Inl old | None \<Rightarrow> Inr ((k, mode) # tab))"

definition apply_entry :: "FileNode list \<Rightarrow> SymbolTable \<Rightarrow> ModeEntry \<Rightarrow> Selection \<Rightarrow> Error + Selection" where
  "apply_entry fs tab e sel =
     (if me_name e = [] then Inl (mk_error 0 (me_origin e @ '': empty name''))
      else if me_mode e = Materialize then
        Inl (mk_error 0 (me_origin e @ '': materialize is the default, not a directive''))
      else
        let fqn = normalize_name (me_name e) in
        if messages tab fqn \<noteq> None \<or> enums tab fqn \<noteq> None then
          if me_mode e = RawMode \<and> messages tab fqn = None then
            Inl (mk_error 0 (me_origin e @ '': cannot keep enum '' @ quoted (me_name e) @
              '' raw (raw stores a message field's payload for a later decode(); an enum has no payload -- materialize or drop it)''))
          else
            (case emplace_mode fqn (me_mode e) (type_modes sel) of
               Inl old \<Rightarrow> if old \<noteq> me_mode e then Inl (conflict e fqn sel old) else Inr sel
             | Inr tm \<Rightarrow> Inr (note_entry e fqn (sel\<lparr>type_modes := tm\<rparr>)))
        else
          let (r, hit) = find_field_by_fqn fs tab fqn in
          if hit = NoHit then
            Inl (mk_error 0 (me_origin e @ '': unknown field or type '' @ quoted (me_name e) @
              '' (a silently ignored selection would be a footgun)''))
          else
            (case field_entry_error e hit of
               Some err \<Rightarrow> Inl err
             | None \<Rightarrow>
                 (case hit of
                    HitMap i _ \<Rightarrow>
                      (case emplace_mode (r, i) (me_mode e) (map_modes sel) of
                         Inl old \<Rightarrow> if old \<noteq> me_mode e then Inl (conflict e fqn sel old) else Inr sel
                       | Inr tm \<Rightarrow> Inr (note_entry e fqn (sel\<lparr>map_modes := tm\<rparr>)))
                  | HitField i _ \<Rightarrow>
                      (case emplace_mode (r, i) (me_mode e) (field_modes sel) of
                         Inl old \<Rightarrow> if old \<noteq> me_mode e then Inl (conflict e fqn sel old) else Inr sel
                       | Inr tm \<Rightarrow> Inr (note_entry e fqn (sel\<lparr>field_modes := tm\<rparr>)))
                  | _ \<Rightarrow> Inr sel)))"

section \<open>Fan-out\<close>

text \<open>\<open>out[k] = v\<close>.\<close>

definition assign :: "'k \<Rightarrow> 'v \<Rightarrow> ('k \<times> 'v) list \<Rightarrow> ('k \<times> 'v) list" where
  "assign k v tab = (k, v) # filter (\<lambda>e. fst e \<noteq> k) tab"

definition apply_field :: "Selection \<Rightarrow> MessageRef \<Rightarrow> nat \<times> FieldNode \<Rightarrow> FieldModes \<Rightarrow> FieldModes" where
  "apply_field sel r x fm =
     (case x of (i, f) \<Rightarrow>
        (case map_of (field_modes sel) (r, i) of
           Some mode \<Rightarrow> fm\<lparr>fm_fields := assign (r, i) mode (fm_fields fm)\<rparr>
         | None \<Rightarrow>
             if resolved_type_fqn f = [] then fm
             else
               (case map_of (type_modes sel) (resolved_type_fqn f) of
                  Some tm \<Rightarrow>
                    if tm \<noteq> Drop \<or> presence f \<noteq> Required
                    then fm\<lparr>fm_fields := assign (r, i) tm (fm_fields fm)\<rparr> else fm
                | None \<Rightarrow> fm)))"

definition apply_map :: "Selection \<Rightarrow> MessageRef \<Rightarrow> nat \<times> MapFieldNode \<Rightarrow> FieldModes \<Rightarrow> FieldModes" where
  "apply_map sel r x fm =
     (case x of (i, f) \<Rightarrow>
        (case map_of (map_modes sel) (r, i) of
           Some mode \<Rightarrow> fm\<lparr>fm_maps := assign (r, i) mode (fm_maps fm)\<rparr>
         | None \<Rightarrow>
             if resolved_value_type_fqn f = [] then fm
             else
               (case map_of (type_modes sel) (resolved_value_type_fqn f) of
                  Some tm \<Rightarrow> if tm \<noteq> RawMode then fm\<lparr>fm_maps := assign (r, i) tm (fm_maps fm)\<rparr> else fm
                | None \<Rightarrow> fm)))"

definition apply_to_message :: "Selection \<Rightarrow> MessageRef \<Rightarrow> MessageNode \<Rightarrow> FieldModes \<Rightarrow> FieldModes" where
  "apply_to_message sel r m fm =
     fold (apply_map sel r) (enumerate 0 (map_fields (msg_data m)))
       (fold (apply_field sel r) (enumerate 0 (msg_fields (msg_data m))) fm)"

text \<open>The traversal: a stack whose top is the head of the list.\<close>

definition push_children :: "MessageRef \<Rightarrow> MessageNode \<Rightarrow> (MessageRef \<times> MessageNode) list \<Rightarrow> (MessageRef \<times> MessageNode) list" where
  "push_children r m stack = rev (map (\<lambda>(i, n). ((fst r, snd r @ [i]), n)) (enumerate 0 (nested_messages m))) @ stack"

lemma map_enumerate_snd [simp]: "map (\<lambda>x. f (snd x)) (enumerate n xs) = map f xs"
  by (induction xs arbitrary: n) simp_all

lemma size_nested: "sum_list (map size (nested_messages m)) < size m"
  by (cases m) (simp add: size_list_conv_sum_list)

function traverse :: "(MessageRef \<Rightarrow> MessageNode \<Rightarrow> 's \<Rightarrow> 's) \<Rightarrow> (MessageRef \<times> MessageNode) list \<Rightarrow> 's \<Rightarrow> 's" where
  "traverse fn [] st = st"
| "traverse fn ((r, m) # stack) st = traverse fn (push_children r m stack) (fn r m st)"
  by pat_completeness auto
termination
  by (relation "measure (\<lambda>(_, stack, _). sum_list (map (\<lambda>(_, m). size m) stack))")
    (auto simp: push_children_def rev_map [symmetric] comp_def case_prod_unfold sum_list_rev size_nested)

definition for_each_message :: "FileNode list \<Rightarrow> (MessageRef \<Rightarrow> MessageNode \<Rightarrow> 's \<Rightarrow> 's) \<Rightarrow> 's \<Rightarrow> 's" where
  "for_each_message fs fn st =
     fold (\<lambda>(fi, file). traverse fn (rev (map (\<lambda>(i, m). ((fi, [i]), m)) (enumerate 0 (file_messages file)))))
       (enumerate 0 fs) st"

definition apply_selection :: "Selection \<Rightarrow> FileNode list \<Rightarrow> FieldModes \<Rightarrow> FieldModes" where
  "apply_selection sel fs = for_each_message fs (apply_to_message sel)"

definition apply_unknown_entry ::
    "FileNode list \<Rightarrow> SymbolTable \<Rightarrow> UnknownEntry \<Rightarrow> FieldModes \<times> string list \<Rightarrow> Error + (FieldModes \<times> string list)" where
  "apply_unknown_entry fs tab e st =
     (if ue_name e = [] then Inl (mk_error 0 (ue_origin e @ '': empty name''))
      else
        let fqn = normalize_name (ue_name e) in
        case messages tab fqn of
          None \<Rightarrow>
            if enums tab fqn \<noteq> None then
              Inl (mk_error 0 (ue_origin e @ '': '' @ quoted (ue_name e) @
                '' is an enum; unknown-fields applies to a message (it reserves that message's has_unknown_fields() bit)''))
            else if snd (find_field_by_fqn fs tab fqn) \<noteq> NoHit then
              Inl (mk_error 0 (ue_origin e @ '': '' @ quoted (ue_name e) @
                '' is a field; unknown-fields names the message whose has_unknown_fields() bit to reserve, not one of its fields''))
            else
              Inl (mk_error 0 (ue_origin e @ '': unknown message '' @ quoted (ue_name e) @
                '' (unknown-fields names a message)''))
        | Some r \<Rightarrow>
            (case st of (fm, lines) \<Rightarrow>
               if r \<in> set (unknown_messages fm) then Inr (fm, lines)
               else Inr (fm\<lparr>unknown_messages := r # unknown_messages fm\<rparr>, lines @ [''unknown '' @ fqn])))"

section \<open>The profile file\<close>

definition parse_directive :: "string \<Rightarrow> string \<Rightarrow> FieldModesSpec \<Rightarrow> Error option \<times> FieldModesSpec" where
  "parse_directive origin ln spec =
     (let (directive, arg) = first_word ln in
      if arg = [] \<or> list_ex is_blank arg then
        (Some (mk_error 0 (origin @ '': expected `name|drop|raw|unknown-fields <single-argument>`, got '' @ quoted ln)), spec)
      else if directive = ''name'' then
        if \<not> is_identifier arg then
          (Some (mk_error 0 (origin @ '': profile name '' @ quoted arg @
            '' must be a C++ identifier (it becomes part of a namespace)'')), spec)
        else if profile_name spec \<noteq> [] \<and> profile_name spec \<noteq> arg then
          (Some (mk_error 0 (origin @ '': profile already named '' @ quoted (profile_name spec))), spec)
        else (None, spec\<lparr>profile_name := arg\<rparr>)
      else if directive = ''drop'' then
        (None, spec\<lparr>entries := entries spec @ [\<lparr>me_mode = Drop, me_name = arg, me_origin = origin\<rparr>]\<rparr>)
      else if directive = ''raw'' then
        (None, spec\<lparr>entries := entries spec @ [\<lparr>me_mode = RawMode, me_name = arg, me_origin = origin\<rparr>]\<rparr>)
      else if directive = ''unknown-fields'' then
        (None, spec\<lparr>unknowns := unknowns spec @ [\<lparr>ue_name = arg, ue_origin = origin\<rparr>]\<rparr>)
      else
        (Some (mk_error 0 (origin @ '': unknown directive '' @ quoted directive @
          '' (expected name, drop, raw, or unknown-fields)'')), spec))"

function parse_modes_loop :: "string \<Rightarrow> string \<Rightarrow> nat \<Rightarrow> FieldModesSpec \<Rightarrow> Error option \<times> FieldModesSpec" where
  "parse_modes_loop fname content line_no spec =
     (if content = [] then (None, spec)
      else
        let ln = takeWhile (\<lambda>c. c \<noteq> CHR 0x0A) content;
            content' = drop (Suc (length ln)) content;
            body = trim (takeWhile (\<lambda>c. c \<noteq> CHR ''#'') ln)
        in if body = [] then parse_modes_loop fname content' (Suc line_no) spec
           else
             (case parse_directive (fname @ '':'' @ to_string (Suc line_no)) body spec of
                (Some e, spec') \<Rightarrow> (Some e, spec')
              | (None, spec') \<Rightarrow> parse_modes_loop fname content' (Suc line_no) spec'))"
  by pat_completeness auto
termination
  by (relation "measure (\<lambda>(_, content, _, _). length content)") auto

declare parse_modes_loop.simps [simp del]

definition parse_modes_file :: "string \<Rightarrow> string \<Rightarrow> FieldModesSpec \<Rightarrow> Error option \<times> FieldModesSpec" where
  "parse_modes_file content fname spec = parse_modes_loop fname content 0 spec"

section \<open>Resolution\<close>

fun fold_err :: "('a \<Rightarrow> 's \<Rightarrow> Error + 's) \<Rightarrow> 'a list \<Rightarrow> 's \<Rightarrow> Error + 's" where
  "fold_err f [] st = Inr st"
| "fold_err f (x # xs) st = (case f x st of Inl e \<Rightarrow> Inl e | Inr st' \<Rightarrow> fold_err f xs st')"

definition string_key :: "string \<Rightarrow> nat list" where
  "string_key s = map of_char s"

definition resolve_field_modes :: "FieldModesSpec \<Rightarrow> ResolvedFileSet \<Rightarrow> SymbolTable \<Rightarrow> Error + FieldModes" where
  "resolve_field_modes spec fset tab =
     (case fold_err (apply_entry (files fset) tab) (entries spec) empty_selection of
        Inl e \<Rightarrow> Inl e
      | Inr sel \<Rightarrow>
          (case fold_err (apply_unknown_entry (files fset) tab) (unknowns spec)
              (apply_selection sel (files fset) empty_modes, []) of
             Inl e \<Rightarrow> Inl e
           | Inr (fm, lines) \<Rightarrow>
               let fm1 = (if unknown_all spec then
                     for_each_message (files fset) (\<lambda>r _ fm. fm\<lparr>unknown_messages := List.insert r (unknown_messages fm)\<rparr>) fm
                   else fm);
                   lines1 = (if unknown_all spec then [''unknown *''] else lines)
               in if \<not> active fm1 then Inr fm1
                  else
                    let norm = sort_key string_key (sel_normalized sel @ lines1);
                        pid = (if profile_name spec = [] then hash_id norm
                               else profile_name spec @ ''_'' @ take 8 (hash_id norm))
                    in Inr (fm1\<lparr>normalized := norm, profile_id := pid\<rparr>)))"

end
