(* ===== verification/Layout_Slots.thy ===== *)
theory Layout_Slots
  imports Prelude "HOL-Library.Product_Lexorder" "HOL-Library.Multiset"
begin

text \<open>
  The placement of the storage slots of a generated struct (\<open>align_up\<close>, \<open>Slot\<close> and \<open>order_slots\<close> of
  src/src/arenagen/layout.cpp). Sizes, alignments and offsets are natural numbers where the code has
  \<open>size_t\<close>: both agree as long as the sizes and alignments of the slots of one message sum up to less than \<open>2 ^ 64\<close>
  (\<open>place_words_exact\<close>). A slot is a scalar, a pointer, a view, the mask, the union of a oneof, or a message of at most
  the inlining cutoff, so only a cutoff in the order of \<open>2 ^ 64\<close> over the number of members could exceed that. The pointer through which a slot's offset is written is the
  label \<open>out\<close>; the placement returns the slots with their offsets.

  Shown here: the slots are aligned, inside of the struct and disjoint; when every size is a multiple
  of its alignment there is no padding but at the end, and no other arrangement gives a smaller
  struct.
\<close>

section \<open>Slots\<close>

definition align_up_size :: "nat \<Rightarrow> nat \<Rightarrow> nat" where
  "align_up_size n align = nat ((int n + int align - 1) AND NOT (int align - 1))"

datatype SlotOut = OutMember nat | OutDisc nat | OutUnion nat | OutMask | OutKey | OutValue

record Slot =
  slot_size :: nat
  slot_align :: nat
  tiebreak :: int
  seq_no :: int
  out :: SlotOut

record StructExtent =
  ext_size :: nat
  ext_align :: nat

definition slot_before :: "Slot \<Rightarrow> Slot \<Rightarrow> bool" where
  "slot_before a b =
     (if slot_align a \<noteq> slot_align b then slot_align a > slot_align b
      else if slot_size a \<noteq> slot_size b then slot_size a > slot_size b
      else if tiebreak a \<noteq> tiebreak b then tiebreak a < tiebreak b
      else seq_no a < seq_no b)"

text \<open>The comparison is the order of this key, so sorting by the key is sorting by the comparison.\<close>

definition slot_key :: "Slot \<Rightarrow> int \<times> int \<times> int \<times> int" where
  "slot_key a = (- int (slot_align a), - int (slot_size a), tiebreak a, seq_no a)"

lemma slot_before_key: "slot_before a b \<longleftrightarrow> slot_key a < slot_key b"
  by (auto simp: slot_before_def slot_key_def)

fun place_slots :: "nat \<Rightarrow> nat \<Rightarrow> Slot list \<Rightarrow> (Slot \<times> nat) list \<times> nat \<times> nat" where
  "place_slots cursor max_align [] = ([], cursor, max_align)"
| "place_slots cursor max_align (s # ss) =
     (let off = align_up_size cursor (slot_align s);
          (rest, final) = place_slots (off + slot_size s) (max max_align (slot_align s)) ss
      in ((s, off) # rest, final))"

definition order_slots :: "Slot list \<Rightarrow> (Slot \<times> nat) list \<times> StructExtent" where
  "order_slots slots =
     (let (placed, cursor, max_align) = place_slots 0 1 (sort_key slot_key slots)
      in (placed, \<lparr>ext_size = (if cursor = 0 then 1 else align_up_size cursor max_align), ext_align = max_align\<rparr>))"

section \<open>Aligning\<close>

definition pow2 :: "nat \<Rightarrow> bool" where
  "pow2 n \<longleftrightarrow> (\<exists>k. n = 2 ^ k)"

lemma pow2_simps [simp]: "pow2 1" "pow2 (Suc 0)" "pow2 2" "pow2 4" "pow2 8"
  unfolding pow2_def by (rule exI [of _ 0], simp, rule exI [of _ 0], simp, rule exI [of _ 1], simp,
      rule exI [of _ 2], simp, rule exI [of _ 3], simp)

lemma pow2_pos: "pow2 n \<Longrightarrow> 0 < n"
  by (auto simp: pow2_def)

lemma pow2_dvd: "pow2 a \<Longrightarrow> pow2 b \<Longrightarrow> a \<le> b \<Longrightarrow> a dvd b"
  by (auto simp: pow2_def le_imp_power_dvd)

lemma pow2_max: "pow2 a \<Longrightarrow> pow2 b \<Longrightarrow> pow2 (max a b)"
  by (simp add: max_def)

lemma and_not_mask_int: "(x :: int) AND NOT (2 ^ k - 1) = x div 2 ^ k * 2 ^ k"
proof -
  have "x AND NOT (mask k) = push_bit k (drop_bit k x)"
    by (rule bit_eqI) (auto simp: bit_simps)
  then show ?thesis by (simp add: mask_eq_exp_minus_1 push_bit_eq_mult drop_bit_eq_div)
qed

lemma align_up_size_eq: "align_up_size n (2 ^ k) = (n + 2 ^ k - 1) div 2 ^ k * 2 ^ k"
proof -
  have "int n + int (2 ^ k) - 1 = int (n + 2 ^ k - 1)"
    by (subst of_nat_diff) (simp_all add: Suc_leI)
  then have "align_up_size n (2 ^ k) = nat (int (n + 2 ^ k - 1) AND NOT (2 ^ k - 1))"
    by (simp add: align_up_size_def)
  also have "\<dots> = nat (int ((n + 2 ^ k - 1) div 2 ^ k * 2 ^ k))"
    unfolding and_not_mask_int by (simp only: of_nat_mult of_nat_power of_nat_numeral zdiv_int)
  finally show ?thesis by (simp only: nat_int)
qed

lemma align_up_size_props:
  assumes "pow2 a"
  shows "a dvd align_up_size n a" "n \<le> align_up_size n a" "align_up_size n a < n + a"
    and "a dvd n \<Longrightarrow> align_up_size n a = n"
proof -
  obtain k where a: "a = 2 ^ k" using assms by (auto simp: pow2_def)
  have pos: "0 < a" by (simp add: a)
  have eq: "align_up_size n a = (n + a - 1) div a * a" by (simp add: a align_up_size_eq)
  show "a dvd align_up_size n a" by (simp add: eq)
  have split: "(n + a - 1) div a * a + (n + a - 1) mod a = n + a - 1" by (rule div_mult_mod_eq)
  moreover have "(n + a - 1) mod a < a" using pos by simp
  ultimately show "n \<le> align_up_size n a" "align_up_size n a < n + a" using pos unfolding eq by linarith+
  show "align_up_size n a = n" if dv: "a dvd n"
  proof -
    obtain q where "n = a * q" using dv by (rule dvdE)
    moreover have "(a * q + a - 1) div a = q"
      using pos by (intro div_nat_eqI) (simp_all add: mult.commute)
    ultimately show ?thesis unfolding eq by (simp add: mult.commute)
  qed
qed

lemma align_up_least: "pow2 a \<Longrightarrow> a dvd m \<Longrightarrow> n \<le> m \<Longrightarrow> align_up_size n a \<le> m"
proof -
  assume a: "pow2 a" "a dvd m" "n \<le> m"
  obtain q where q': "align_up_size n a = a * q" using align_up_size_props(1) [OF a(1), of n] by (rule dvdE)
  obtain r where r: "m = a * r" using a(2) by (rule dvdE)
  note q = q' r
  have "a * q < a * r + a" using align_up_size_props(3) [OF a(1), of n] a(3) q by simp
  then have "q \<le> r" using pow2_pos [OF a(1)] by (metis mult_Suc_right add.commute mult_less_cancel1 less_Suc_eq_le)
  then show ?thesis by (simp add: q)
qed

section \<open>Placement\<close>

abbreviation slot_end :: "Slot \<times> nat \<Rightarrow> nat" where
  "slot_end p \<equiv> snd p + slot_size (fst p)"

definition slots_pow2 :: "Slot list \<Rightarrow> bool" where
  "slots_pow2 ss \<longleftrightarrow> list_all (\<lambda>s. pow2 (slot_align s)) ss"

lemma place_slots_fst: "place_slots c m ss = (ps, c', m') \<Longrightarrow> map fst ps = ss"
  by (induction ss arbitrary: c m ps) (auto simp: Let_def split: prod.splits)

lemma place_slots_sound:
  "place_slots c m ss = (ps, c', m') \<Longrightarrow> slots_pow2 ss \<Longrightarrow> pow2 m \<Longrightarrow>
     c \<le> c' \<and> pow2 m' \<and> m \<le> m' \<and> list_all (\<lambda>s. slot_align s \<le> m') ss \<and>
     list_all (\<lambda>p. c \<le> snd p \<and> slot_end p \<le> c' \<and> slot_align (fst p) dvd snd p) ps \<and>
     sorted_wrt (\<lambda>p q. slot_end p \<le> snd q) ps"
proof (induction ss arbitrary: c m ps)
  case Nil
  then show ?case by simp
next
  case (Cons s ss)
  let ?off = "align_up_size c (slot_align s)"
  obtain rest where r: "place_slots (?off + slot_size s) (max m (slot_align s)) ss = (rest, c', m')" "ps = (s, ?off) # rest"
    using Cons.prems(1) by (auto simp: Let_def split: prod.splits)
  have s: "pow2 (slot_align s)" "slots_pow2 ss" using Cons.prems(2) by (simp_all add: slots_pow2_def)
  note off = align_up_size_props [OF s(1), of c]
  from Cons.IH [OF r(1) s(2) pow2_max [OF Cons.prems(3) s(1)]] off r(2) show ?case
    by (auto simp: list_all_iff)
qed

section \<open>The arithmetic of \<open>size_t\<close>\<close>

text \<open>
  The code computes with 64-bit words. Below a total of \<open>2 ^ 64\<close> bytes its placement is the one over the natural numbers:
  no addition wraps.
\<close>

definition align_up_word :: "u64 \<Rightarrow> u64 \<Rightarrow> u64" where
  "align_up_word n align = (n + align - 1) AND NOT (align - 1)"

fun place_words :: "u64 \<Rightarrow> Slot list \<Rightarrow> u64 list \<times> u64" where
  "place_words cursor [] = ([], cursor)"
| "place_words cursor (s # ss) =
     (let off = align_up_word cursor (word_of_nat (slot_align s));
          (rest, end_cursor) = place_words (off + word_of_nat (slot_size s)) ss
      in (off # rest, end_cursor))"

lemma align_up_word_exact:
  assumes "pow2 a" "n + a < 2 ^ 64"
  shows "align_up_word (word_of_nat n) (word_of_nat a) = word_of_nat (align_up_size n a)"
proof -
  obtain k where a: "a = 2 ^ k" using assms(1) by (auto simp: pow2_def)
  then have "k < 64" using assms(2) by (metis add_lessD1 add.commute nat_power_less_imp_less zero_less_numeral)
  then have k: "unat (2 ^ k :: u64) = 2 ^ k" by (rule unat_exp_u64)
  have mask: "x AND NOT (mask k) = push_bit k (drop_bit k x)" for x :: u64 by (rule bit_word_eqI) (auto simp: bit_simps)
  have sum: "(word_of_nat n + word_of_nat a - 1 :: u64) = word_of_nat (n + a - 1)"
    using pow2_pos [OF assms(1)] by (simp add: of_nat_diff)
  have lt: "n + a - 1 < 2 ^ 64" using assms(2) pow2_pos [OF assms(1)] by linarith
  have "align_up_word (word_of_nat n) (word_of_nat a) = push_bit k (drop_bit k (word_of_nat (n + a - 1) :: u64))"
    unfolding align_up_word_def sum by (simp add: a mask_eq_exp_minus_1 [symmetric] mask)
  moreover have "drop_bit k (word_of_nat (n + a - 1) :: u64) = word_of_nat ((n + a - 1) div 2 ^ k)"
    using lt by (simp add: word_unat_eq_iff drop_bit_eq_div unat_div unat_u64_of_nat k order.strict_trans1 [OF div_le_dividend])
  ultimately show ?thesis by (simp add: push_bit_eq_mult align_up_size_eq a)
qed

lemma place_words_exact:
  "place_slots c m ss = (ps, c', m') \<Longrightarrow> slots_pow2 ss \<Longrightarrow> c + sum_list (map (\<lambda>s. slot_size s + slot_align s) ss) < 2 ^ 64 \<Longrightarrow>
     place_words (word_of_nat c) ss = (map (word_of_nat \<circ> snd) ps, word_of_nat c') \<and>
     c' \<le> c + sum_list (map (\<lambda>s. slot_size s + slot_align s) ss)"
proof (induction ss arbitrary: c m ps)
  case (Cons s ss)
  let ?off = "align_up_size c (slot_align s)"
  obtain rest where r: "place_slots (?off + slot_size s) (max m (slot_align s)) ss = (rest, c', m')" "ps = (s, ?off) # rest"
    using Cons.prems(1) by (auto simp: Let_def split: prod.splits)
  have a: "pow2 (slot_align s)" "slots_pow2 ss" using Cons.prems(2) by (simp_all add: slots_pow2_def)
  have off: "?off < c + slot_align s" by (rule align_up_size_props(3) [OF a(1)])
  have "align_up_word (word_of_nat c) (word_of_nat (slot_align s)) = word_of_nat ?off"
    by (rule align_up_word_exact [OF a(1)]) (use Cons.prems(3) in simp)
  with Cons.IH [OF r(1) a(2)] off Cons.prems(3) r(2) show ?case by (auto simp: Let_def simp flip: of_nat_add split: prod.splits)
qed simp

section \<open>No padding, and no better arrangement\<close>

text \<open>
  In the order of the key the alignments descend; so each one divides every slot before it, and the
  cursor needs no rounding.
\<close>

definition padless :: "Slot list \<Rightarrow> bool" where
  "padless ss \<longleftrightarrow> list_all (\<lambda>s. slot_align s dvd slot_size s) ss"

lemma place_slots_padless:
  "place_slots c m ss = (ps, c', m') \<Longrightarrow> slots_pow2 ss \<Longrightarrow> padless ss \<Longrightarrow>
     sorted_wrt (\<lambda>a b. slot_align b \<le> slot_align a) ss \<Longrightarrow> list_all (\<lambda>s. slot_align s dvd c) ss \<Longrightarrow>
     c' = c + sum_list (map slot_size ss) \<and> (\<forall>i < length ps. snd (ps ! i) = c + sum_list (map slot_size (take i ss)))"
proof (induction ss arbitrary: c m ps)
  case Nil
  then show ?case by simp
next
  case (Cons s ss)
  let ?off = "align_up_size c (slot_align s)"
  obtain rest where r: "place_slots (?off + slot_size s) (max m (slot_align s)) ss = (rest, c', m')" "ps = (s, ?off) # rest"
    using Cons.prems(1) by (auto simp: Let_def split: prod.splits)
  have s: "pow2 (slot_align s)" "slots_pow2 ss" "padless ss" "slot_align s dvd slot_size s"
    using Cons.prems(2,3) by (simp_all add: slots_pow2_def padless_def)
  have off: "?off = c" using align_up_size_props(4) [OF s(1)] Cons.prems(5) by simp
  have "list_all (\<lambda>x. slot_align x dvd slot_align s) ss"
    using Cons.prems(2,4) s(1) by (auto simp: list_all_iff slots_pow2_def intro: pow2_dvd)
  with s(4) have dv: "list_all (\<lambda>x. slot_align x dvd c + slot_size s) ss"
    using Cons.prems(5) by (auto simp: list_all_iff intro: dvd_add dvd_trans)
  from Cons.IH [OF _ s(2,3) _ dv, of "max m (slot_align s)" rest] r Cons.prems(4) off
  have IH: "c' = c + slot_size s + sum_list (map slot_size ss)"
    "\<forall>i < length rest. snd (rest ! i) = c + slot_size s + sum_list (map slot_size (take i ss))" by auto
  have "snd (ps ! i) = c + sum_list (map slot_size (take i (s # ss)))" if "i < length ps" for i
    using that IH(2) r(2) off by (cases i) auto
  with IH(1) show ?case by simp
qed

lemma sort_key_aligns: "sorted_wrt (\<lambda>a b. slot_align b \<le> slot_align a) (sort_key slot_key ss)"
proof -
  have "sorted_wrt (\<lambda>a b. slot_key a \<le> slot_key b) (sort_key slot_key ss)"
    using sorted_sort_key [of slot_key ss] by (simp add: sorted_wrt_map)
  then show ?thesis by (rule sorted_wrt_mono_rel [rotated]) (auto simp: slot_key_def)
qed

text \<open>
  A struct of an extent: its slots, wherever they are, are aligned, inside of it and disjoint, and its
  size is a positive multiple of its alignment, which all the slots' alignments divide.
\<close>

definition apart_slots :: "Slot \<times> nat \<Rightarrow> Slot \<times> nat \<Rightarrow> bool" where
  "apart_slots p q \<longleftrightarrow> slot_end p \<le> snd q \<or> slot_end q \<le> snd p"

definition struct_ok :: "(Slot \<times> nat) list \<Rightarrow> StructExtent \<Rightarrow> bool" where
  "struct_ok ps ext \<longleftrightarrow>
     list_all (\<lambda>p. slot_align (fst p) dvd snd p \<and> slot_end p \<le> ext_size ext \<and> slot_align (fst p) dvd ext_align ext) ps \<and>
     sorted_wrt apart_slots ps \<and> 0 < ext_size ext \<and> ext_align ext dvd ext_size ext"

lemma order_slotsE:
  assumes "order_slots slots = (ps, ext)"
  obtains c m where "place_slots 0 1 (sort_key slot_key slots) = (ps, c, m)"
    "ext = \<lparr>ext_size = (if c = 0 then 1 else align_up_size c m), ext_align = m\<rparr>"
  using assms by (auto simp: order_slots_def Let_def split: prod.splits)

lemma slots_pow2_sort: "slots_pow2 (sort_key slot_key ss) = slots_pow2 ss"
  by (simp add: slots_pow2_def list_all_iff)

lemma order_slots_sound:
  assumes "order_slots slots = (ps, ext)" "slots_pow2 slots" "slots = [] \<or> (\<exists>s \<in> set slots. 0 < slot_size s)"
  shows "struct_ok ps ext" "mset (map fst ps) = mset slots" "pow2 (ext_align ext)"
proof -
  obtain c m where p: "place_slots 0 1 (sort_key slot_key slots) = (ps, c, m)"
    and ext: "ext = \<lparr>ext_size = (if c = 0 then 1 else align_up_size c m), ext_align = m\<rparr>"
    by (rule order_slotsE [OF assms(1)])
  have sound: "pow2 m" "list_all (\<lambda>s. slot_align s \<le> m) (sort_key slot_key slots)"
    "list_all (\<lambda>p. slot_end p \<le> c \<and> slot_align (fst p) dvd snd p) ps" "sorted_wrt (\<lambda>p q. slot_end p \<le> snd q) ps"
    using place_slots_sound [OF p] assms(2) by (auto simp: slots_pow2_sort list_all_iff)
  have fst: "map fst ps = sort_key slot_key slots" by (rule place_slots_fst [OF p])
  then show "mset (map fst ps) = mset slots" by simp
  show "pow2 (ext_align ext)" using sound(1) by (simp add: ext)
  have le: "c \<le> ext_size ext" using align_up_size_props(2) [OF sound(1), of c] by (simp add: ext)
  have mem: "fst ` set ps = set slots" using fst by (metis list.set_map set_sort)
  have dv: "slot_align (fst p) dvd m" if "p \<in> set ps" for p
    using sound(1,2) assms(2) mem that by (auto simp: slots_pow2_def list_all_iff intro!: pow2_dvd)
  have empty: "slots = []" if "c = 0"
  proof (rule ccontr)
    assume "slots \<noteq> []"
    with assms(3) mem obtain p where "p \<in> set ps" "0 < slot_size (fst p)" by (metis image_iff)
    with sound(3) that show False by (auto simp: list_all_iff)
  qed
  have "ext_align ext dvd ext_size ext \<and> 0 < ext_size ext"
  proof (cases "c = 0")
    case True
    with empty p have "m = 1" by simp
    with True show ?thesis by (simp add: ext)
  next
    case False
    then show ?thesis using align_up_size_props(1,2) [OF sound(1), of c] by (simp add: ext)
  qed
  moreover have "sorted_wrt apart_slots ps"
    using sound(4) by (rule sorted_wrt_mono_rel [rotated]) (simp add: apart_slots_def)
  ultimately show "struct_ok ps ext"
    using sound(3) le dv by (auto simp: struct_ok_def list_all_iff ext)
qed

text \<open>No arrangement of the slots in a struct of their alignment is smaller.\<close>

lemma apart_sum:
  assumes "sorted_wrt apart_slots ps" "list_all (\<lambda>p. slot_end p \<le> n) ps"
  shows "sum_list (map (slot_size \<circ> fst) ps) \<le> n"
proof -
  have "sum_list (map (slot_size \<circ> fst) ps) = card (\<Union>p \<in> set ps. {snd p..<slot_end p})"
    using assms(1)
  proof (induction ps)
    case (Cons p ps)
    have "{snd p..<slot_end p} \<inter> (\<Union>q \<in> set ps. {snd q..<slot_end q}) = {}"
      using Cons.prems by (fastforce simp: apart_slots_def)
    with Cons show ?case by (simp add: card_Un_disjoint)
  qed simp
  also have "\<dots> \<le> card {..<n}" using assms(2) by (intro card_mono) (force simp: list_all_iff)+
  finally show ?thesis by simp
qed

text \<open>
  Property C10. The placement of the slots of a struct is valid and as small as any. For slots with
  power-of-two alignments, one of them non-empty, the offsets are aligned, the slots disjoint and
  inside of the struct, and its size a multiple of its alignment. If moreover every size is a multiple
  of its alignment then each slot starts where the one before it ends, only the end is padded, and
  no valid arrangement of the same slots has a smaller size.
\<close>

theorem order_slots_optimal:
  assumes "order_slots slots = (ps, ext)" "slots_pow2 slots" "\<exists>s \<in> set slots. 0 < slot_size s"
  shows "struct_ok ps ext \<and> mset (map fst ps) = mset slots \<and>
    (padless slots \<longrightarrow>
      (\<forall>i < length ps. snd (ps ! i) = sum_list (map (slot_size \<circ> fst) (take i ps))) \<and>
      ext_size ext < sum_list (map slot_size slots) + ext_align ext \<and>
      (\<forall>ps' ext'. struct_ok ps' ext' \<and> mset (map fst ps') = mset slots \<and> ext_align ext' = ext_align ext \<longrightarrow>
         ext_size ext \<le> ext_size ext'))"
proof (intro conjI impI)
  obtain c m where p: "place_slots 0 1 (sort_key slot_key slots) = (ps, c, m)"
    and ext: "ext = \<lparr>ext_size = (if c = 0 then 1 else align_up_size c m), ext_align = m\<rparr>"
    by (rule order_slotsE [OF assms(1)])
  note sound = order_slots_sound [OF assms(1,2) disjI2 [OF assms(3)]]
  show "struct_ok ps ext" "mset (map fst ps) = mset slots" by (rule sound)+
  have fst: "map fst ps = sort_key slot_key slots" by (rule place_slots_fst [OF p])
  have pow: "pow2 m" using sound(3) by (simp add: ext)
  assume "padless slots"
  then have "padless (sort_key slot_key slots)" by (simp add: padless_def list_all_iff)
  from place_slots_padless [OF p _ this sort_key_aligns] assms(2)
  have c: "c = sum_list (map slot_size (sort_key slot_key slots))"
    and offs: "\<forall>i < length ps. snd (ps ! i) = sum_list (map slot_size (take i (sort_key slot_key slots)))"
    by (simp_all add: slots_pow2_sort list_all_iff)
  have sum: "sum_list (map slot_size (sort_key slot_key slots)) = sum_list (map slot_size slots)"
    by (metis mset_map mset_sort sum_mset_sum_list)
  from offs show "\<forall>i < length ps. snd (ps ! i) = sum_list (map (slot_size \<circ> fst) (take i ps))"
    by (simp add: fst [symmetric] take_map)
  have "c \<noteq> 0" using assms(3) c sum member_le_sum_list [of _ "map slot_size slots"] by fastforce
  then have size: "ext_size ext = align_up_size c m" by (simp add: ext)
  show "ext_size ext < sum_list (map slot_size slots) + ext_align ext"
    using align_up_size_props(3) [OF pow, of c] c sum by (simp add: size) (simp add: ext)
  show "\<forall>ps' ext'. struct_ok ps' ext' \<and> mset (map fst ps') = mset slots \<and> ext_align ext' = ext_align ext \<longrightarrow>
         ext_size ext \<le> ext_size ext'"
  proof (intro allI impI, elim conjE)
    fix ps' ext'
    assume ok: "struct_ok ps' ext'" and ms: "mset (map fst ps') = mset slots" and al: "ext_align ext' = ext_align ext"
    have "sum_list (map (slot_size \<circ> fst) ps') = sum_list (map slot_size slots)"
      using ms by (metis map_map mset_map sum_mset_sum_list)
    moreover have "sum_list (map (slot_size \<circ> fst) ps') \<le> ext_size ext'"
      using ok by (intro apart_sum) (auto simp: struct_ok_def list_all_iff)
    ultimately have "c \<le> ext_size ext'" using c sum by simp
    moreover have "m dvd ext_size ext'" using ok al by (auto simp: struct_ok_def ext)
    ultimately show "ext_size ext \<le> ext_size ext'" using align_up_least [OF pow] by (simp add: size)
  qed
qed

definition demo_slots :: "Slot list" where
  "demo_slots = [\<lparr>slot_size = 1, slot_align = 1, tiebreak = 1, seq_no = 0, out = OutMember 0\<rparr>,
     \<lparr>slot_size = 8, slot_align = 8, tiebreak = 2, seq_no = 1, out = OutMember 1\<rparr>,
     \<lparr>slot_size = 12, slot_align = 4, tiebreak = 3, seq_no = 2, out = OutMember 2\<rparr>]"

theorem order_slots_optimal_witness:
  "map snd (fst (order_slots demo_slots)) = [0, 8, 20] \<and> ext_size (snd (order_slots demo_slots)) < 29"
proof -
  have "slots_pow2 demo_slots" "padless demo_slots" "\<exists>s \<in> set demo_slots. 0 < slot_size s"
    by (simp_all add: demo_slots_def slots_pow2_def padless_def)
  moreover have "map snd (fst (order_slots demo_slots)) = [0, 8, 20]" "ext_align (snd (order_slots demo_slots)) = 8"
    "sum_list (map slot_size demo_slots) = 21" by code_simp+
  ultimately show ?thesis using order_slots_optimal [of demo_slots "fst (order_slots demo_slots)" "snd (order_slots demo_slots)"]
    by simp
qed

end
