(* ===== verification/Layout.thy ===== *)
theory Layout
  imports Modes Layout_Slots
begin

text \<open>
  The storage planner of src/src/arenagen/layout.cpp: for every message the kind, size and offset of
  each member, the mask of presence and value bits, and whether the message has a fixed size.

  A message reference inlines a small fixed-size message, so planning one message plans others first:
  the planner keeps the finished layouts (\<open>m_memo\<close>) and the messages in progress (\<open>m_visiting\<close>). The
  recursion over references is bounded by \<open>kMaxChainDepth\<close>; the model counts the levels that are
  left. A failed \<open>assert\<close> is the error \<open>AssertFailed\<close>; what plan_layouts returns on an analysed file set
  is shown never to be an error. Sizes are natural numbers, as in the placement of slots.
\<close>

section \<open>Data\<close>

definition kPtrSize :: nat where "kPtrSize = 8"
definition kPtrAlign :: nat where "kPtrAlign = 8"
definition kStringSize :: nat where "kStringSize = 12"
definition kStringAlign :: nat where "kStringAlign = 4"
definition kViewSize :: nat where "kViewSize = 12"
definition kViewAlign :: nat where "kViewAlign = 4"
definition kEnumSize :: nat where "kEnumSize = 4"
definition kEnumAlign :: nat where "kEnumAlign = 4"
definition kDiscSize :: nat where "kDiscSize = 1"
definition kDiscAlign :: nat where "kDiscAlign = 1"
definition kBitsPerByte :: nat where "kBitsPerByte = 8"
definition kBitsPerWord :: nat where "kBitsPerWord = 64"
definition kBytesPerWord :: nat where "kBytesPerWord = 8"
definition kMaxChainDepth :: nat where "kMaxChainDepth = 200"
definition kMaskTiebreak :: int where "kMaskTiebreak = 0x7fffffff"

lemmas layout_consts = kPtrSize_def kPtrAlign_def kStringSize_def kStringAlign_def kViewSize_def kViewAlign_def
  kEnumSize_def kEnumAlign_def kDiscSize_def kDiscAlign_def kBitsPerByte_def kBitsPerWord_def kBytesPerWord_def

record ScalarInfo =
  si_size :: nat
  si_align :: nat
  si_is_bool :: bool

definition scalar_info :: "string \<Rightarrow> ScalarInfo option" where
  "scalar_info t =
     map_of (map (\<lambda>(name, sz, b). (name, \<lparr>si_size = sz, si_align = sz, si_is_bool = b\<rparr>))
       [(''int32'', 4, False), (''sint32'', 4, False), (''sfixed32'', 4, False), (''uint32'', 4, False),
        (''fixed32'', 4, False), (''int64'', 8, False), (''sint64'', 8, False), (''sfixed64'', 8, False),
        (''uint64'', 8, False), (''fixed64'', 8, False), (''float'', 4, False), (''double'', 8, False),
        (''bool'', 1, True)]) t"

datatype FieldKind = InlineScalar | InlineEnum | BorrowString | InlineFixedSubMsg | PointerSubMsg
  | RepeatedKind | MapKind | RawKind

record LayoutOptions =
  inline_submsg_cutoff :: nat
  modes :: "FieldModes option"
  flatten_budget :: nat

record EntryPlan =
  key_kind :: FieldKind
  key_repr :: string
  key_offset :: nat
  value_kind :: FieldKind
  value_repr :: string
  value_fqn :: string
  value_offset :: nat
  ep_size :: nat
  ep_align :: nat

text \<open>A bit index is absent when it is \<open>None\<close>, \<open>-1\<close> in the code.\<close>

record MemberPlan =
  mp_field :: "FieldNode option"
  mp_map :: "MapFieldNode option"
  mp_kind :: FieldKind
  mp_is_bool :: bool
  mp_size :: nat
  mp_align :: nat
  mp_offset :: nat
  presence_bit :: "nat option"
  value_bit :: "nat option"
  mp_repr :: string
  target_fqn :: string
  entry_plan :: "EntryPlan option"

record OneofMemberPlan =
  om_field :: FieldNode
  om_kind :: FieldKind
  om_size :: nat
  om_align :: nat
  om_repr :: string
  om_target :: string

record OneofPlan =
  op_oneof :: OneofNode
  disc_offset :: nat
  union_offset :: nat
  union_size :: nat
  union_align :: nat
  op_members :: "OneofMemberPlan list"

record MessageLayout =
  ml_message :: "MessageRef option"
  ml_fqn :: string
  ml_size :: nat
  ml_align :: nat
  fixed_size :: bool
  ml_members :: "MemberPlan list"
  ml_oneofs :: "OneofPlan list"
  dropped :: "FieldNode list"
  dropped_maps :: "MapFieldNode list"
  mask_bits :: nat
  mask_offset :: nat
  mask_size :: nat
  mask_align :: nat
  unknown_bit :: "nat option"
  noinline_decode :: bool
  flatten_cost :: nat

definition empty_layout :: MessageLayout where
  "empty_layout = \<lparr>ml_message = None, ml_fqn = [], ml_size = 0, ml_align = 1, fixed_size = False, ml_members = [],
     ml_oneofs = [], dropped = [], dropped_maps = [], mask_bits = 0, mask_offset = 0, mask_size = 0,
     mask_align = 0, unknown_bit = None, noinline_decode = False, flatten_cost = 0\<rparr>"

definition empty_plan :: MemberPlan where
  "empty_plan = \<lparr>mp_field = None, mp_map = None, mp_kind = InlineScalar, mp_is_bool = False, mp_size = 0, mp_align = 0,
     mp_offset = 0, presence_bit = None, value_bit = None, mp_repr = [], target_fqn = [], entry_plan = None\<rparr>"

section \<open>The planner\<close>

record Planner =
  m_memo :: "(string \<times> MessageLayout) list"
  m_visiting :: "string list"

datatype PlanError = OutOfLevels | AssertFailed

text \<open>A step of the planner, and the sequence of steps of a loop.\<close>

type_synonym 'a plan = "Planner \<Rightarrow> PlanError + ('a \<times> Planner)"

definition pbind :: "'a plan \<Rightarrow> ('a \<Rightarrow> 'b plan) \<Rightarrow> 'b plan" where
  "pbind p f st = (case p st of Inl e \<Rightarrow> Inl e | Inr (x, st') \<Rightarrow> f x st')"

definition preturn :: "'a \<Rightarrow> 'a plan" where
  "preturn x st = Inr (x, st)"

fun pmap :: "('a \<Rightarrow> 'b plan) \<Rightarrow> 'a list \<Rightarrow> 'b list plan" where
  "pmap f [] = preturn []"
| "pmap f (x # xs) = pbind (f x) (\<lambda>y. pbind (pmap f xs) (\<lambda>ys. preturn (y # ys)))"

text \<open>Where the planner finds the messages: the table with the file set its positions refer to.\<close>

record Index =
  ix_files :: "FileNode list"
  ix_table :: SymbolTable

definition index_find :: "Index \<Rightarrow> string \<Rightarrow> (MessageRef \<times> MessageNode) option" where
  "index_find ix fqn = map_option (\<lambda>r. (r, message_of (ix_files ix) r)) (messages (ix_table ix) fqn)"

definition is_string_field :: "FieldNode \<Rightarrow> bool" where
  "is_string_field f \<longleftrightarrow> \<not> is_message_type f \<and> \<not> is_enum_type f \<and> (type_name f = ''string'' \<or> type_name f = ''bytes'')"

definition elem_repr :: "FieldNode \<Rightarrow> string" where
  "elem_repr f =
     (if is_message_type f \<or> is_enum_type f then resolved_type_fqn f
      else if is_string_field f then ''ArenaString'' else type_name f)"

definition member_tiebreak :: "MemberPlan \<Rightarrow> int" where
  "member_tiebreak m =
     (case mp_field m of
        Some f \<Rightarrow> sint (fld_number f)
      | None \<Rightarrow> (case mp_map m of Some f \<Rightarrow> sint (mf_number f) | None \<Rightarrow> 0))"

record Store =
  st_kind :: FieldKind
  st_size :: nat
  st_align :: nat

definition pointer_store :: Store where
  "pointer_store = \<lparr>st_kind = PointerSubMsg, st_size = kPtrSize, st_align = kPtrAlign\<rparr>"

text \<open>\<open>layout_for\<close> of the target is the argument \<open>rec\<close>.\<close>

definition classify_message :: "(string \<Rightarrow> MessageLayout plan) \<Rightarrow> Index \<Rightarrow> LayoutOptions \<Rightarrow> string \<Rightarrow> Store plan" where
  "classify_message rec ix opts target st =
     (if length (m_visiting st) < kMaxChainDepth \<and> target \<notin> set (m_visiting st) \<and> index_find ix target \<noteq> None then
        pbind (rec target) (\<lambda>t.
          preturn (if fixed_size t \<and> ml_size t \<le> inline_submsg_cutoff opts
            then \<lparr>st_kind = InlineFixedSubMsg, st_size = ml_size t, st_align = ml_align t\<rparr> else pointer_store)) st
      else preturn pointer_store st)"

definition classify_byte_member :: "(string \<Rightarrow> MessageLayout plan) \<Rightarrow> Index \<Rightarrow> LayoutOptions \<Rightarrow> FieldNode \<Rightarrow> OneofMemberPlan plan" where
  "classify_byte_member rec ix opts f =
     (if is_message_type f then
        pbind (classify_message rec ix opts (resolved_type_fqn f)) (\<lambda>s.
          preturn \<lparr>om_field = f, om_kind = st_kind s, om_size = st_size s, om_align = st_align s,
            om_repr = resolved_type_fqn f, om_target = resolved_type_fqn f\<rparr>)
      else if is_enum_type f then
        preturn \<lparr>om_field = f, om_kind = InlineEnum, om_size = kEnumSize, om_align = kEnumAlign,
          om_repr = resolved_type_fqn f, om_target = resolved_type_fqn f\<rparr>
      else if is_string_field f then
        preturn \<lparr>om_field = f, om_kind = BorrowString, om_size = kStringSize, om_align = kStringAlign,
          om_repr = ''ArenaString'', om_target = []\<rparr>
      else
        (case scalar_info (type_name f) of
           None \<Rightarrow> (\<lambda>_. Inl AssertFailed)
         | Some info \<Rightarrow>
             preturn \<lparr>om_field = f, om_kind = InlineScalar, om_size = si_size info, om_align = si_align info,
               om_repr = type_name f, om_target = []\<rparr>))"

definition mode_of :: "(FieldModes \<Rightarrow> (NodeRef \<times> FieldMode) list) \<Rightarrow> LayoutOptions \<Rightarrow> NodeRef \<Rightarrow> FieldMode" where
  "mode_of sel opts r =
     (case modes opts of
        None \<Rightarrow> Materialize
      | Some fm \<Rightarrow> (case map_of (sel fm) r of Some mode \<Rightarrow> mode | None \<Rightarrow> Materialize))"

definition raw_member :: "FieldNode \<Rightarrow> MemberPlan" where
  "raw_member f = empty_plan\<lparr>mp_field := Some f, mp_kind := RawKind, mp_size := kStringSize, mp_align := kStringAlign,
     mp_repr := (if is_repeated f then ''ArrayView<ArenaString>'' else ''ArenaString''),
     target_fqn := resolved_type_fqn f\<rparr>"

definition classify_field :: "(string \<Rightarrow> MessageLayout plan) \<Rightarrow> Index \<Rightarrow> LayoutOptions \<Rightarrow> FieldNode \<Rightarrow> MemberPlan plan" where
  "classify_field rec ix opts f =
     (let plan = empty_plan\<lparr>mp_field := Some f\<rparr> in
      if is_repeated f then
        preturn (plan\<lparr>mp_kind := RepeatedKind, mp_size := kViewSize, mp_align := kViewAlign,
          mp_repr := ''ArrayView<'' @ elem_repr f @ ''>'',
          target_fqn := (if is_message_type f \<or> is_enum_type f then resolved_type_fqn f else [])\<rparr>)
      else if is_message_type f then
        pbind (classify_message rec ix opts (resolved_type_fqn f)) (\<lambda>s.
          preturn (plan\<lparr>mp_kind := st_kind s, mp_size := st_size s, mp_align := st_align s,
            mp_repr := resolved_type_fqn f, target_fqn := resolved_type_fqn f\<rparr>))
      else if is_enum_type f then
        preturn (plan\<lparr>mp_kind := InlineEnum, mp_size := kEnumSize, mp_align := kEnumAlign,
          mp_repr := resolved_type_fqn f, target_fqn := resolved_type_fqn f\<rparr>)
      else if is_string_field f then
        preturn (plan\<lparr>mp_kind := BorrowString, mp_size := kStringSize, mp_align := kStringAlign,
          mp_repr := ''ArenaString''\<rparr>)
      else
        (case scalar_info (type_name f) of
           None \<Rightarrow> (\<lambda>_. Inl AssertFailed)
         | Some info \<Rightarrow>
             preturn (if si_is_bool info
               then plan\<lparr>mp_kind := InlineScalar, mp_repr := type_name f, mp_is_bool := True\<rparr>
               else plan\<lparr>mp_kind := InlineScalar, mp_repr := type_name f, mp_size := si_size info,
                 mp_align := si_align info\<rparr>)))"

text \<open>A slot's offset, written through its \<open>out\<close> pointer.\<close>

definition offset_of :: "SlotOut \<Rightarrow> (Slot \<times> nat) list \<Rightarrow> nat" where
  "offset_of lab placed = (case List.find (\<lambda>p. out (fst p) = lab) placed of Some p \<Rightarrow> snd p | None \<Rightarrow> 0)"

definition entry_key :: "MapFieldNode \<Rightarrow> (FieldKind \<times> string \<times> nat \<times> nat) plan" where
  "entry_key f =
     (if key_type f = ''string'' \<or> key_type f = ''bytes''
      then preturn (BorrowString, ''ArenaString'', kStringSize, kStringAlign)
      else
        (case scalar_info (key_type f) of
           None \<Rightarrow> (\<lambda>_. Inl AssertFailed)
         | Some info \<Rightarrow> preturn (InlineScalar, key_type f, si_size info, si_align info)))"

definition entry_value :: "(string \<Rightarrow> MessageLayout plan) \<Rightarrow> Index \<Rightarrow> LayoutOptions \<Rightarrow> MapFieldNode \<Rightarrow>
    (FieldKind \<times> string \<times> string \<times> nat \<times> nat) plan" where
  "entry_value rec ix opts f =
     (if value_is_message f then
        pbind (classify_message rec ix opts (resolved_value_type_fqn f)) (\<lambda>s.
          preturn (st_kind s, resolved_value_type_fqn f, resolved_value_type_fqn f, st_size s, st_align s))
      else if value_is_enum f then
        preturn (InlineEnum, resolved_value_type_fqn f, resolved_value_type_fqn f, kEnumSize, kEnumAlign)
      else if value_type f = ''string'' \<or> value_type f = ''bytes'' then
        preturn (BorrowString, ''ArenaString'', [], kStringSize, kStringAlign)
      else
        (case scalar_info (value_type f) of
           None \<Rightarrow> (\<lambda>_. Inl AssertFailed)
         | Some info \<Rightarrow> preturn (InlineScalar, value_type f, [], si_size info, si_align info)))"

definition entry_slots :: "nat \<Rightarrow> nat \<Rightarrow> nat \<Rightarrow> nat \<Rightarrow> Slot list" where
  "entry_slots key_size key_al val_size val_al =
     [\<lparr>slot_size = key_size, slot_align = key_al, tiebreak = 0, seq_no = 0, out = OutKey\<rparr>,
      \<lparr>slot_size = val_size, slot_align = val_al, tiebreak = 1, seq_no = 1, out = OutValue\<rparr>]"

definition build_entry :: "(string \<Rightarrow> MessageLayout plan) \<Rightarrow> Index \<Rightarrow> LayoutOptions \<Rightarrow> MapFieldNode \<Rightarrow> EntryPlan plan" where
  "build_entry rec ix opts f =
     pbind (entry_key f) (\<lambda>(kk, kr, ksz, kal).
       pbind (entry_value rec ix opts f) (\<lambda>(vk, vr, vf, vsz, val).
         let (placed, ext) = order_slots (entry_slots ksz kal vsz val) in
         preturn \<lparr>key_kind = kk, key_repr = kr, key_offset = offset_of OutKey placed, value_kind = vk, value_repr = vr,
           value_fqn = vf, value_offset = offset_of OutValue placed, ep_size = ext_size ext, ep_align = ext_align ext\<rparr>))"

definition classify_oneof :: "(string \<Rightarrow> MessageLayout plan) \<Rightarrow> Index \<Rightarrow> LayoutOptions \<Rightarrow> OneofNode \<Rightarrow> OneofPlan plan" where
  "classify_oneof rec ix opts oo =
     pbind (pmap (classify_byte_member rec ix opts) (oo_fields oo)) (\<lambda>ms.
       let align = fold (\<lambda>m a. max a (om_align m)) ms 0 in
       preturn \<lparr>op_oneof = oo, disc_offset = 0, union_offset = 0, union_size = fold (\<lambda>m a. max a (om_size m)) ms 0,
         union_align = (if align = 0 then 1 else align), op_members = ms\<rparr>)"

section \<open>Bits\<close>

fun needs_presence :: "MemberPlan \<Rightarrow> bool" where
  "needs_presence m =
     (case mp_field m of
        None \<Rightarrow> False
      | Some f \<Rightarrow> presence f = Explicit \<and> mp_kind m \<in> {InlineScalar, InlineEnum, BorrowString, InlineFixedSubMsg})"

declare needs_presence.simps [simp del]

definition needs_value :: "MemberPlan \<Rightarrow> bool" where
  "needs_value m = mp_is_bool m"

fun assign_bits :: "nat \<Rightarrow> MemberPlan list \<Rightarrow> MemberPlan list \<times> nat" where
  "assign_bits nxt [] = ([], nxt)"
| "assign_bits nxt (m # ms) =
     (let (m1, n1) = (if needs_presence m then (m\<lparr>presence_bit := Some nxt\<rparr>, nxt + 1) else (m, nxt));
          (m2, n2) = (if needs_value m1 then (m1\<lparr>value_bit := Some n1\<rparr>, n1 + 1) else (m1, n1));
          (rest, n3) = assign_bits n2 ms
      in (m2 # rest, n3))"

text \<open>The doubling loop starts at one byte.\<close>

function mask_bytes :: "nat \<Rightarrow> nat \<Rightarrow> nat" where
  "mask_bytes bits bytes = (if 0 < bytes \<and> bytes * kBitsPerByte < bits then mask_bytes bits (bytes * 2) else bytes)"
  by pat_completeness auto
termination
  by (relation "measure (\<lambda>(bits, bytes). bits - bytes)") (auto simp: kBitsPerByte_def)

declare mask_bytes.simps [simp del]

definition allocate_bits :: "LayoutOptions \<Rightarrow> MessageLayout \<Rightarrow> MessageLayout" where
  "allocate_bits opts l =
     (let (ms, n1) = assign_bits 0 (ml_members l);
          unk = (case (modes opts, ml_message l) of (Some fm, Some r) \<Rightarrow> wants_unknown fm r | _ \<Rightarrow> False);
          n2 = (if unk then n1 + 1 else n1);
          l1 = l\<lparr>ml_members := ms, unknown_bit := (if unk then Some n1 else None), mask_bits := n2\<rparr>
      in if n2 = 0 then l1
         else if n2 \<le> kBitsPerWord then l1\<lparr>mask_size := mask_bytes n2 1, mask_align := mask_bytes n2 1\<rparr>
         else l1\<lparr>mask_size := kBytesPerWord * ((n2 + kBitsPerWord - 1) div kBitsPerWord), mask_align := kBytesPerWord\<rparr>)"

section \<open>Order\<close>

fun member_slots :: "nat \<Rightarrow> int \<Rightarrow> MemberPlan list \<Rightarrow> Slot list \<times> int" where
  "member_slots i sq [] = ([], sq)"
| "member_slots i sq (m # ms) =
     (if mp_size m > 0 then
        let (rest, sq') = member_slots (Suc i) (sq + 1) ms
        in (\<lparr>slot_size = mp_size m, slot_align = mp_align m, tiebreak = member_tiebreak m, seq_no = sq,
             out = OutMember i\<rparr> # rest, sq')
      else member_slots (Suc i) sq ms)"

fun oneof_slots :: "nat \<Rightarrow> int \<Rightarrow> OneofPlan list \<Rightarrow> Slot list \<times> int" where
  "oneof_slots i sq [] = ([], sq)"
| "oneof_slots i sq (oo # ops) =
     (let tb = (case oo_fields (op_oneof oo) of [] \<Rightarrow> 0 | f # _ \<Rightarrow> sint (fld_number f));
          (rest, sq') = oneof_slots (Suc i) (sq + 2) ops
      in (\<lparr>slot_size = kDiscSize, slot_align = kDiscAlign, tiebreak = tb, seq_no = sq, out = OutDisc i\<rparr> #
          \<lparr>slot_size = union_size oo, slot_align = union_align oo, tiebreak = tb, seq_no = sq + 1, out = OutUnion i\<rparr> #
          rest, sq'))"

definition layout_slots :: "MessageLayout \<Rightarrow> Slot list" where
  "layout_slots l =
     (let (ms, s1) = member_slots 0 0 (ml_members l); (os, s2) = oneof_slots 0 s1 (ml_oneofs l)
      in ms @ os @ (if mask_size l > 0
           then [\<lparr>slot_size = mask_size l, slot_align = mask_align l, tiebreak = kMaskTiebreak, seq_no = s2, out = OutMask\<rparr>]
           else []))"

text \<open>Dump order: byte members by offset, then bit-only members by field number.\<close>

definition dump_key :: "MemberPlan \<Rightarrow> int \<times> int" where
  "dump_key m =
     (if mp_size m = 0 then (1, case mp_field m of Some f \<Rightarrow> sint (fld_number f) | None \<Rightarrow> 0)
      else (0, int (mp_offset m)))"

definition order_members :: "MessageLayout \<Rightarrow> MessageLayout" where
  "order_members l =
     (let (placed, ext) = order_slots (layout_slots l);
          ms = map (\<lambda>(i, m). if mp_size m > 0 then m\<lparr>mp_offset := offset_of (OutMember i) placed\<rparr> else m)
                 (enumerate 0 (ml_members l));
          ops = map (\<lambda>(i, oo). oo\<lparr>disc_offset := offset_of (OutDisc i) placed, union_offset := offset_of (OutUnion i) placed\<rparr>)
                 (enumerate 0 (ml_oneofs l))
      in l\<lparr>ml_members := sort_key dump_key ms, ml_oneofs := ops,
           mask_offset := (if mask_size l > 0 then offset_of OutMask placed else mask_offset l),
           ml_size := ext_size ext, ml_align := ext_align ext\<rparr>)"

definition fixed_kind :: "FieldKind \<Rightarrow> bool" where
  "fixed_kind k = (case k of InlineScalar \<Rightarrow> True | InlineEnum \<Rightarrow> True | InlineFixedSubMsg \<Rightarrow> True | _ \<Rightarrow> False)"

definition compute_fixed_size :: "MessageLayout \<Rightarrow> bool" where
  "compute_fixed_size l \<longleftrightarrow> ml_oneofs l = [] \<and> list_all (\<lambda>m. fixed_kind (mp_kind m)) (ml_members l)"

section \<open>One message\<close>

definition plan_field ::
    "(string \<Rightarrow> MessageLayout plan) \<Rightarrow> Index \<Rightarrow> LayoutOptions \<Rightarrow> MessageRef \<Rightarrow> nat \<times> FieldNode \<Rightarrow> MemberPlan option plan" where
  "plan_field rec ix opts r x =
     (case x of (i, f) \<Rightarrow>
        (case mode_of fm_fields opts (r, i) of
           Drop \<Rightarrow> preturn None
         | RawMode \<Rightarrow> preturn (Some (raw_member f))
         | Materialize \<Rightarrow> pbind (classify_field rec ix opts f) (\<lambda>m. preturn (Some m))))"

definition plan_map ::
    "(string \<Rightarrow> MessageLayout plan) \<Rightarrow> Index \<Rightarrow> LayoutOptions \<Rightarrow> MessageRef \<Rightarrow> nat \<times> MapFieldNode \<Rightarrow> MemberPlan option plan" where
  "plan_map rec ix opts r x =
     (case x of (i, f) \<Rightarrow>
        (case mode_of fm_maps opts (r, i) of
           Drop \<Rightarrow> preturn None
         | RawMode \<Rightarrow> (\<lambda>_. Inl AssertFailed)
         | Materialize \<Rightarrow>
             pbind (build_entry rec ix opts f) (\<lambda>e.
               preturn (Some (empty_plan\<lparr>mp_map := Some f, mp_kind := MapKind, mp_size := kViewSize, mp_align := kViewAlign,
                 mp_repr := ''MapView'',
                 target_fqn := (if value_is_message f \<or> value_is_enum f then resolved_value_type_fqn f else []),
                 entry_plan := Some e\<rparr>)))))"

definition enter_message :: "string \<Rightarrow> unit plan" where
  "enter_message fqn st = Inr ((), st\<lparr>m_visiting := List.insert fqn (m_visiting st)\<rparr>)"

definition leave_message :: "string \<Rightarrow> MessageLayout \<Rightarrow> MessageLayout plan" where
  "leave_message fqn l st =
     (let st1 = st\<lparr>m_visiting := removeAll fqn (m_visiting st)\<rparr> in
      case map_of (m_memo st1) fqn of
        Some old \<Rightarrow> Inr (old, st1)
      | None \<Rightarrow> Inr (l, st1\<lparr>m_memo := (fqn, l) # m_memo st1\<rparr>))"

definition finish_layout :: "LayoutOptions \<Rightarrow> MessageLayout \<Rightarrow> MessageLayout" where
  "finish_layout opts l = (let l1 = order_members (allocate_bits opts l) in l1\<lparr>fixed_size := compute_fixed_size l1\<rparr>)"

definition compute ::
    "(string \<Rightarrow> MessageLayout plan) \<Rightarrow> Index \<Rightarrow> LayoutOptions \<Rightarrow> MessageRef \<Rightarrow> MessageNode \<Rightarrow> MessageLayout plan" where
  "compute rec ix opts r m =
     (let d = msg_data m in
      pbind (enter_message (msg_fqn d)) (\<lambda>_.
      pbind (pmap (plan_field rec ix opts r) (enumerate 0 (msg_fields d))) (\<lambda>fs.
      pbind (pmap (plan_map rec ix opts r) (enumerate 0 (map_fields d))) (\<lambda>ms.
      pbind (pmap (classify_oneof rec ix opts) (oneofs d)) (\<lambda>ops.
        leave_message (msg_fqn d) (finish_layout opts
          (empty_layout\<lparr>ml_message := Some r, ml_fqn := msg_fqn d,
             ml_members := map the (filter (\<lambda>x. x \<noteq> None) (fs @ ms)), ml_oneofs := ops,
             dropped := map snd (filter (\<lambda>(i, f). mode_of fm_fields opts (r, i) = Drop) (enumerate 0 (msg_fields d))),
             dropped_maps := map snd (filter (\<lambda>(i, f). mode_of fm_maps opts (r, i) = Drop) (enumerate 0 (map_fields d)))\<rparr>)))))))"

primrec layout_for :: "nat \<Rightarrow> Index \<Rightarrow> LayoutOptions \<Rightarrow> string \<Rightarrow> MessageLayout plan" where
  "layout_for 0 = (\<lambda>ix opts fqn st. Inl OutOfLevels)"
| "layout_for (Suc levels) = (\<lambda>ix opts fqn st.
     case map_of (m_memo st) fqn of
       Some l \<Rightarrow> Inr (l, st)
     | None \<Rightarrow>
         (case index_find ix fqn of
            None \<Rightarrow> Inl AssertFailed
          | Some (r, m) \<Rightarrow> compute (layout_for levels ix opts) ix opts r m st))"

section \<open>All messages\<close>

record LayoutSet =
  layouts :: "MessageLayout list"
  by_fqn :: "(string \<times> nat) list"

definition empty_set :: LayoutSet where "empty_set = \<lparr>layouts = [], by_fqn = []\<rparr>"

fun walk_message :: "(string \<Rightarrow> MessageLayout plan) \<Rightarrow> MessageNode \<Rightarrow> LayoutSet \<Rightarrow> LayoutSet plan"
  and walk_messages :: "(string \<Rightarrow> MessageLayout plan) \<Rightarrow> MessageNode list \<Rightarrow> LayoutSet \<Rightarrow> LayoutSet plan" where
  "walk_message planner (MessageNode d ns) ls =
     pbind (planner (msg_fqn d)) (\<lambda>l.
       walk_messages planner ns
         (ls\<lparr>by_fqn := (if map_of (by_fqn ls) (msg_fqn d) = None then by_fqn ls @ [(msg_fqn d, length (layouts ls))] else by_fqn ls),
             layouts := layouts ls @ [l]\<rparr>))"
| "walk_messages planner [] ls = preturn ls"
| "walk_messages planner (m # ms) ls = pbind (walk_message planner m ls) (\<lambda>ls'. walk_messages planner ms ls')"

definition layout_set_find :: "LayoutSet \<Rightarrow> string \<Rightarrow> MessageLayout option" where
  "layout_set_find ls fqn = map_option (\<lambda>i. layouts ls ! i) (map_of (by_fqn ls) fqn)"

text \<open>The plan of all messages, before the flatten budget is applied.\<close>

definition walk_files :: "ResolvedFileSet \<Rightarrow> SymbolTable \<Rightarrow> LayoutOptions \<Rightarrow> PlanError + LayoutSet" where
  "walk_files fset tab opts =
     (case walk_messages (layout_for (Suc kMaxChainDepth) \<lparr>ix_files = files fset, ix_table = tab\<rparr> opts)
         (concat (map file_messages (files fset))) empty_set \<lparr>m_memo = [], m_visiting = []\<rparr> of
        Inl e \<Rightarrow> Inl e
      | Inr (ls, _) \<Rightarrow> Inr ls)"

fun kind_name :: "FieldKind \<Rightarrow> string" where
  "kind_name InlineScalar = ''inline-scalar''"
| "kind_name InlineEnum = ''inline-enum''"
| "kind_name BorrowString = ''borrow-string''"
| "kind_name InlineFixedSubMsg = ''inline-submsg''"
| "kind_name PointerSubMsg = ''pointer-submsg''"
| "kind_name RepeatedKind = ''repeated''"
| "kind_name MapKind = ''map''"
| "kind_name RawKind = ''raw-payload''"

section \<open>A oneof beside an 8-byte field\<close>

text \<open>
  The union of a string and a 64-bit integer is planned with 12 bytes at alignment 8, so its size is no
  multiple of its alignment, and an 8-byte slot behind it leaves four bytes between the two.
\<close>

definition demo_union :: OneofNode where
  "demo_union = \<lparr>oo_name = ''u'', oo_fields = [default_field\<lparr>type_name := ''string''\<rparr>, default_field\<lparr>type_name := ''int64''\<rparr>],
     oo_options = []\<rparr>"

lemma oneof_union_unpadded:
  "(case classify_oneof rec ix opts demo_union st of Inr (u, _) \<Rightarrow> (union_size u, union_align u) | Inl _ \<Rightarrow> (0, 0)) = (12, 8)"
  by (simp add: demo_union_def classify_oneof_def pbind_def preturn_def classify_byte_member_def is_string_field_def
      scalar_info_def default_field_def kStringSize_def kStringAlign_def)

lemma union_leaves_gap:
  "map snd (fst (order_slots
     [\<lparr>slot_size = 12, slot_align = 8, tiebreak = 1, seq_no = 0, out = OutUnion 0\<rparr>,
      \<lparr>slot_size = 8, slot_align = 8, tiebreak = 2, seq_no = 1, out = OutMember 0\<rparr>])) = [0, 16]"
  by code_simp

end
