(* ===== verification/Layout_Correct.thy ===== *)
theory Layout_Correct
  imports Layout
begin

text \<open>
  What the planned layouts guarantee: the bytes of a message's members, unions and mask are aligned,
  disjoint and inside of the message; every presence, value and unknown bit has its own place in the
  mask; a message inlined by value has the size and alignment of its own layout, is of fixed size and
  within the cutoff, and inlining is acyclic. On an analysed file set planning always succeeds.
\<close>

section \<open>Bytes\<close>

text \<open>The byte ranges of a layout, as offset, size and alignment.\<close>

definition member_range :: "MemberPlan \<Rightarrow> nat \<times> nat \<times> nat" where
  "member_range m = (mp_offset m, mp_size m, mp_align m)"

definition oneof_ranges :: "OneofPlan \<Rightarrow> (nat \<times> nat \<times> nat) list" where
  "oneof_ranges oo = [(disc_offset oo, kDiscSize, kDiscAlign), (union_offset oo, union_size oo, union_align oo)]"

definition byte_ranges :: "MessageLayout \<Rightarrow> (nat \<times> nat \<times> nat) list" where
  "byte_ranges l =
     map member_range (filter (\<lambda>m. 0 < mp_size m) (ml_members l)) @ concat (map oneof_ranges (ml_oneofs l)) @
     (if 0 < mask_size l then [(mask_offset l, mask_size l, mask_align l)] else [])"

definition ranges_apart :: "nat \<times> nat \<times> nat \<Rightarrow> nat \<times> nat \<times> nat \<Rightarrow> bool" where
  "ranges_apart a b \<longleftrightarrow> fst a + fst (snd a) \<le> fst b \<or> fst b + fst (snd b) \<le> fst a"

definition bytes_ok :: "MessageLayout \<Rightarrow> bool" where
  "bytes_ok l \<longleftrightarrow>
     list_all (\<lambda>(off, sz, al). al dvd off \<and> off + sz \<le> ml_size l \<and> al dvd ml_align l) (byte_ranges l) \<and>
     sorted_wrt ranges_apart (byte_ranges l) \<and> 0 < ml_size l \<and> ml_align l dvd ml_size l \<and> pow2 (ml_align l)"

lemma sorted_wrt_sym_perm:
  assumes "\<And>x y. R x y \<Longrightarrow> R y x"
  shows "sorted_wrt R xs \<Longrightarrow> mset xs = mset ys \<Longrightarrow> sorted_wrt R ys"
proof (induction xs arbitrary: ys)
  case Nil
  then show ?case by simp
next
  case (Cons x xs)
  from Cons.prems(2) have "x \<in> set ys" by (metis list.set_intros(1) mset_eq_setD)
  then obtain as bs where ys: "ys = as @ x # bs" by (meson split_list)
  with Cons.prems(2) have ms: "mset xs = mset (as @ bs)" by simp
  with Cons have "sorted_wrt R (as @ bs)" by simp
  moreover have "\<forall>y \<in> set (as @ bs). R x y" using Cons.prems(1) ms by (metis mset_eq_setD sorted_wrt.simps(2))
  ultimately show ?case using assms by (auto simp: ys sorted_wrt_append)
qed

lemma offset_of_placed:
  "distinct (map (out \<circ> fst) placed) \<Longrightarrow> p \<in> set placed \<Longrightarrow> offset_of (out (fst p)) placed = snd p"
  by (induction placed) (auto simp: offset_of_def)

definition slot_range :: "(Slot \<times> nat) list \<Rightarrow> Slot \<Rightarrow> nat \<times> nat \<times> nat" where
  "slot_range placed s = (offset_of (out s) placed, slot_size s, slot_align s)"

lemma slot_ranges:
  assumes "mset (map fst placed) = mset slots" "distinct (map out slots)"
  shows "mset (map (slot_range placed) slots) = mset (map (\<lambda>p. (snd p, slot_size (fst p), slot_align (fst p))) placed)"
proof -
  have eq: "mset slots = image_mset fst (mset placed)" using assms(1) by simp
  have "mset (map out slots) = mset (map (out \<circ> fst) placed)"
    by (simp add: eq image_mset.compositionality)
  then have "distinct (map (out \<circ> fst) placed)" using assms(2) mset_eq_imp_distinct_iff by blast
  then have "(snd p, slot_size (fst p), slot_align (fst p)) = slot_range placed (fst p)" if "p \<in> set placed" for p
    using that by (simp add: slot_range_def offset_of_placed)
  then have "map (\<lambda>p. (snd p, slot_size (fst p), slot_align (fst p))) placed = map (slot_range placed \<circ> fst) placed"
    by simp
  then have "mset (map (\<lambda>p. (snd p, slot_size (fst p), slot_align (fst p))) placed) = mset (map (slot_range placed \<circ> fst) placed)"
    by (rule arg_cong)
  also have "\<dots> = mset (map (slot_range placed) slots)" by (simp add: eq image_mset.compositionality)
  finally show ?thesis by (rule sym)
qed

lemma fst_member_slots:
  "fst (member_slots i sq (m # ms)) =
     (if mp_size m > 0
      then \<lparr>slot_size = mp_size m, slot_align = mp_align m, tiebreak = member_tiebreak m, seq_no = sq, out = OutMember i\<rparr> #
        fst (member_slots (Suc i) (sq + 1) ms)
      else fst (member_slots (Suc i) sq ms))"
  by (simp add: case_prod_unfold Let_def)

lemma fst_oneof_slots:
  "\<exists>tb. fst (oneof_slots i sq (oo # ops)) =
     \<lparr>slot_size = kDiscSize, slot_align = kDiscAlign, tiebreak = tb, seq_no = sq, out = OutDisc i\<rparr> #
     \<lparr>slot_size = union_size oo, slot_align = union_align oo, tiebreak = tb, seq_no = sq + 1, out = OutUnion i\<rparr> #
     fst (oneof_slots (Suc i) (sq + 2) ops)"
  by (simp add: case_prod_unfold Let_def)

declare member_slots.simps(2) [simp del] oneof_slots.simps(2) [simp del]

lemma member_slots_outs: "s \<in> set (fst (member_slots i sq ms)) \<Longrightarrow> \<exists>j \<ge> i. out s = OutMember j"
proof (induction ms arbitrary: i sq)
  case (Cons m ms)
  then show ?case by (fastforce simp: fst_member_slots split: if_splits dest: Suc_leD)
qed simp

lemma member_slots_distinct: "distinct (map out (fst (member_slots i sq ms)))"
proof (induction ms arbitrary: i sq)
  case (Cons m ms)
  then show ?case using member_slots_outs [of _ "Suc i" _ ms] by (fastforce simp: fst_member_slots)
qed simp

lemma oneof_slots_outs: "s \<in> set (fst (oneof_slots i sq ops)) \<Longrightarrow> \<exists>j \<ge> i. out s = OutDisc j \<or> out s = OutUnion j"
proof (induction ops arbitrary: i sq)
  case (Cons oo ops)
  then show ?case using fst_oneof_slots [of i sq oo ops] by (fastforce dest: Suc_leD)
qed simp

lemma oneof_slots_distinct: "distinct (map out (fst (oneof_slots i sq ops)))"
proof (induction ops arbitrary: i sq)
  case (Cons oo ops)
  then show ?case using oneof_slots_outs [of _ "Suc i" _ ops] fst_oneof_slots [of i sq oo ops] by fastforce
qed simp

lemma layout_slots_distinct: "distinct (map out (layout_slots l))"
proof -
  obtain ms s1 where ms: "member_slots 0 0 (ml_members l) = (ms, s1)" by fastforce
  obtain os s2 where os: "oneof_slots 0 s1 (ml_oneofs l) = (os, s2)" by fastforce
  have "distinct (map out ms)" "distinct (map out os)"
    using member_slots_distinct [of 0 0 "ml_members l"] oneof_slots_distinct [of 0 s1 "ml_oneofs l"] by (simp_all add: ms os)
  moreover have "\<exists>j. out s = OutMember j" if "s \<in> set ms" for s
    using member_slots_outs [of s 0 0 "ml_members l"] that by (auto simp: ms)
  moreover have "\<exists>j. out s = OutDisc j \<or> out s = OutUnion j" if "s \<in> set os" for s
    using oneof_slots_outs [of s 0 s1 "ml_oneofs l"] that by (auto simp: os)
  ultimately show ?thesis by (fastforce simp: layout_slots_def ms os Let_def)
qed

text \<open>The ranges of the ordered layout are those of the placed slots.\<close>

definition placed_member :: "(Slot \<times> nat) list \<Rightarrow> nat \<times> MemberPlan \<Rightarrow> MemberPlan" where
  "placed_member placed x = (case x of (i, m) \<Rightarrow> if mp_size m > 0 then m\<lparr>mp_offset := offset_of (OutMember i) placed\<rparr> else m)"

lemma placed_member_simps [simp]:
  "mp_size (placed_member placed (i, m)) = mp_size m" "mp_align (placed_member placed (i, m)) = mp_align m"
  "mp_kind (placed_member placed (i, m)) = mp_kind m" "target_fqn (placed_member placed (i, m)) = target_fqn m"
  "entry_plan (placed_member placed (i, m)) = entry_plan m" "presence_bit (placed_member placed (i, m)) = presence_bit m"
  "value_bit (placed_member placed (i, m)) = value_bit m"
  by (simp_all add: placed_member_def)

lemma member_slots_ranges:
  "map (slot_range placed) (fst (member_slots i sq ms)) =
     map member_range (filter (\<lambda>m. 0 < mp_size m) (map (placed_member placed) (enumerate i ms)))"
proof (induction ms arbitrary: i sq)
  case (Cons m ms)
  show ?case
    using Cons.IH [of "Suc i" "sq + 1"] Cons.IH [of "Suc i" sq]
    by (auto simp: fst_member_slots slot_range_def member_range_def placed_member_def)
qed simp

definition placed_oneof :: "(Slot \<times> nat) list \<Rightarrow> nat \<times> OneofPlan \<Rightarrow> OneofPlan" where
  "placed_oneof placed x = (case x of (i, oo) \<Rightarrow>
     oo\<lparr>disc_offset := offset_of (OutDisc i) placed, union_offset := offset_of (OutUnion i) placed\<rparr>)"

lemma oneof_slots_ranges:
  "map (slot_range placed) (fst (oneof_slots i sq ops)) =
     concat (map oneof_ranges (map (placed_oneof placed) (enumerate i ops)))"
proof (induction ops arbitrary: i sq)
  case (Cons oo ops)
  show ?case
    using Cons.IH [of "Suc i" "sq + 2"] fst_oneof_slots [of i sq oo ops]
    by (auto simp: slot_range_def oneof_ranges_def placed_oneof_def)
qed simp

lemma order_members_eq:
  assumes "order_slots (layout_slots l) = (placed, ext)"
  shows "order_members l = l\<lparr>ml_members := sort_key dump_key (map (placed_member placed) (enumerate 0 (ml_members l))),
    ml_oneofs := map (placed_oneof placed) (enumerate 0 (ml_oneofs l)),
    mask_offset := (if mask_size l > 0 then offset_of OutMask placed else mask_offset l),
    ml_size := ext_size ext, ml_align := ext_align ext\<rparr>"
proof -
  have "placed_member placed = (\<lambda>(i, m). if mp_size m > 0 then m\<lparr>mp_offset := offset_of (OutMember i) placed\<rparr> else m)"
    "placed_oneof placed = (\<lambda>(i, oo). oo\<lparr>disc_offset := offset_of (OutDisc i) placed, union_offset := offset_of (OutUnion i) placed\<rparr>)"
    by (rule ext, simp add: placed_member_def placed_oneof_def split: prod.splits)+
  then show ?thesis by (simp only: order_members_def assms Let_def prod.case)
qed

lemma byte_ranges_order:
  assumes "order_slots (layout_slots l) = (placed, ext)"
  shows "mset (byte_ranges (order_members l)) = mset (map (slot_range placed) (layout_slots l))"
proof -
  obtain ms s1 where ms: "member_slots 0 0 (ml_members l) = (ms, s1)" by fastforce
  obtain os s2 where os: "oneof_slots 0 s1 (ml_oneofs l) = (os, s2)" by fastforce
  have "mset (map member_range (filter (\<lambda>m. 0 < mp_size m) (sort_key dump_key xs))) =
      mset (map member_range (filter (\<lambda>m. 0 < mp_size m) xs))" for xs
    by simp
  with member_slots_ranges [of placed 0 0 "ml_members l"] oneof_slots_ranges [of placed 0 s1 "ml_oneofs l"]
  show ?thesis
    unfolding byte_ranges_def order_members_eq [OF assms]
    by (simp add: layout_slots_def ms os Let_def slot_range_def)
qed

text \<open>Plans whose slots can be placed.\<close>

definition plan_ok :: "MessageLayout \<Rightarrow> bool" where
  "plan_ok l \<longleftrightarrow> (\<forall>m \<in> set (ml_members l). 0 < mp_size m \<longrightarrow> pow2 (mp_align m)) \<and>
     (\<forall>oo \<in> set (ml_oneofs l). pow2 (union_align oo)) \<and> (0 < mask_size l \<longrightarrow> pow2 (mask_align l))"

lemma member_slots_pow2:
  "\<forall>m \<in> set ms. 0 < mp_size m \<longrightarrow> pow2 (mp_align m) \<Longrightarrow> s \<in> set (fst (member_slots i sq ms)) \<Longrightarrow>
     pow2 (slot_align s) \<and> 0 < slot_size s"
  by (induction ms arbitrary: i sq) (auto simp: fst_member_slots split: if_splits)

lemma oneof_slots_pow2:
  "\<forall>oo \<in> set ops. pow2 (union_align oo) \<Longrightarrow> s \<in> set (fst (oneof_slots i sq ops)) \<Longrightarrow>
     pow2 (slot_align s) \<and> (\<exists>s' \<in> set (fst (oneof_slots i sq ops)). 0 < slot_size s')"
proof (induction ops arbitrary: i sq)
  case (Cons oo ops)
  then show ?case using fst_oneof_slots [of i sq oo ops] by (auto simp: kDiscAlign_def kDiscSize_def)
qed simp

lemma layout_slots_ok:
  assumes "plan_ok l"
  shows "slots_pow2 (layout_slots l)" "layout_slots l = [] \<or> (\<exists>s \<in> set (layout_slots l). 0 < slot_size s)"
proof -
  obtain ms s1 where ms: "member_slots 0 0 (ml_members l) = (ms, s1)" by fastforce
  obtain os s2 where os: "oneof_slots 0 s1 (ml_oneofs l) = (os, s2)" by fastforce
  have m: "\<forall>s \<in> set ms. pow2 (slot_align s) \<and> 0 < slot_size s"
    using member_slots_pow2 [of "ml_members l" _ 0 0] assms by (auto simp: ms plan_ok_def)
  have o1: "\<forall>s \<in> set os. pow2 (slot_align s) \<and> (\<exists>s' \<in> set os. 0 < slot_size s')"
    using oneof_slots_pow2 [of "ml_oneofs l" _ 0 s1] assms by (auto simp: os plan_ok_def)
  show "slots_pow2 (layout_slots l)" using m o1 assms
    by (auto simp: layout_slots_def ms os Let_def slots_pow2_def list_all_iff plan_ok_def)
  show "layout_slots l = [] \<or> (\<exists>s \<in> set (layout_slots l). 0 < slot_size s)"
    using m o1 by (cases ms; cases os) (auto simp: layout_slots_def ms os Let_def)
qed

lemma order_members_ok: "plan_ok l \<Longrightarrow> bytes_ok (order_members l)"
proof -
  assume ok: "plan_ok l"
  obtain placed ext where o: "order_slots (layout_slots l) = (placed, ext)" by fastforce
  note sound = order_slots_sound [OF o layout_slots_ok [OF ok]]
  have ms: "mset (byte_ranges (order_members l)) = mset (map (\<lambda>p. (snd p, slot_size (fst p), slot_align (fst p))) placed)"
    using byte_ranges_order [OF o] slot_ranges [OF sound(2) layout_slots_distinct] by simp
  have "sorted_wrt ranges_apart (map (\<lambda>p. (snd p, slot_size (fst p), slot_align (fst p))) placed)"
    using sound(1) by (simp add: struct_ok_def sorted_wrt_map apart_slots_def [abs_def] ranges_apart_def)
  from sorted_wrt_sym_perm [OF _ this ms [symmetric]] have ap: "sorted_wrt ranges_apart (byte_ranges (order_members l))"
    by (auto simp: ranges_apart_def)
  have "set (byte_ranges (order_members l)) = set (map (\<lambda>p. (snd p, slot_size (fst p), slot_align (fst p))) placed)"
    using ms by (rule mset_eq_setD)
  then show ?thesis using ap sound(1,3)
    by (auto simp: bytes_ok_def struct_ok_def list_all_iff order_members_eq [OF o])
qed

section \<open>Bits\<close>

definition member_bits :: "MemberPlan \<Rightarrow> nat list" where
  "member_bits m = (case presence_bit m of None \<Rightarrow> [] | Some b \<Rightarrow> [b]) @ (case value_bit m of None \<Rightarrow> [] | Some b \<Rightarrow> [b])"

definition layout_bits :: "MessageLayout \<Rightarrow> nat list" where
  "layout_bits l = concat (map member_bits (ml_members l)) @ (case unknown_bit l of None \<Rightarrow> [] | Some b \<Rightarrow> [b])"

definition bits_ok :: "MessageLayout \<Rightarrow> bool" where
  "bits_ok l \<longleftrightarrow> mset (layout_bits l) = mset [0..<mask_bits l] \<and> mask_bits l \<le> 8 * mask_size l \<and>
     (\<forall>m \<in> set (ml_members l). (presence_bit m \<noteq> None) = needs_presence m \<and> (value_bit m \<noteq> None) = needs_value m)"

lemma needs_presence_bits [simp]:
  "needs_presence (m\<lparr>presence_bit := p\<rparr>) = needs_presence m" "needs_presence (m\<lparr>value_bit := p\<rparr>) = needs_presence m"
  "needs_presence (m\<lparr>mp_offset := n\<rparr>) = needs_presence m"
  "needs_value (m\<lparr>presence_bit := p\<rparr>) = needs_value m" "needs_value (m\<lparr>value_bit := p\<rparr>) = needs_value m"
  "needs_value (m\<lparr>mp_offset := n\<rparr>) = needs_value m"
  by (simp_all add: needs_presence.simps needs_value_def split: option.splits)

text \<open>A member with its bits.\<close>

definition with_bits :: "MemberPlan \<Rightarrow> nat option \<Rightarrow> nat option \<Rightarrow> MemberPlan" where
  "with_bits m p v = m\<lparr>presence_bit := p, value_bit := v\<rparr>"

definition no_bits :: "MemberPlan \<Rightarrow> bool" where
  "no_bits m \<longleftrightarrow> presence_bit m = None \<and> value_bit m = None"

lemma with_bits_simps [simp]:
  "mp_size (with_bits m p v) = mp_size m" "mp_align (with_bits m p v) = mp_align m" "mp_kind (with_bits m p v) = mp_kind m"
  "target_fqn (with_bits m p v) = target_fqn m" "entry_plan (with_bits m p v) = entry_plan m"
  by (simp_all add: with_bits_def)

lemma assign_bits_step:
  assumes "no_bits m"
  obtains p v n2 where "assign_bits n (m # ms) = (with_bits m p v # fst (assign_bits n2 ms), snd (assign_bits n2 ms))"
    "member_bits (with_bits m p v) = [n..<n2]" "n \<le> n2" "(p \<noteq> None) = needs_presence m" "(v \<noteq> None) = needs_value m"
proof -
  let ?n1 = "if needs_presence m then n + 1 else n"
  let ?p = "if needs_presence m then Some n else None" and ?v = "if needs_value m then Some ?n1 else None"
  let ?n2 = "if needs_value m then ?n1 + 1 else ?n1"
  have m: "m\<lparr>presence_bit := None\<rparr> = m" "m\<lparr>value_bit := None\<rparr> = m" "m\<lparr>presence_bit := q, value_bit := None\<rparr> = m\<lparr>presence_bit := q\<rparr>" for q
    using assms by (cases m, simp add: no_bits_def)+
  have "assign_bits n (m # ms) = (with_bits m ?p ?v # fst (assign_bits ?n2 ms), snd (assign_bits ?n2 ms))"
    by (cases "needs_presence m"; cases "needs_value m") (simp_all add: case_prod_unfold Let_def with_bits_def m)
  moreover have "member_bits (with_bits m ?p ?v) = [n..<?n2]"
    by (simp add: member_bits_def with_bits_def)
  ultimately show ?thesis by (rule that) simp_all
qed

declare assign_bits.simps(2) [simp del]

lemma upt_join: "a \<le> b \<Longrightarrow> b \<le> c \<Longrightarrow> [a..<b] @ [b..<c] = [a..<c]"
  by (metis le_add_diff_inverse upt_add_eq_append)

lemma assign_bits_ok:
  "list_all no_bits ms \<Longrightarrow>
     concat (map member_bits (fst (assign_bits n ms))) = [n..<snd (assign_bits n ms)] \<and> n \<le> snd (assign_bits n ms) \<and>
     list_all2 (\<lambda>m m'. \<exists>p v. m' = with_bits m p v \<and> (p \<noteq> None) = needs_presence m \<and> (v \<noteq> None) = needs_value m)
       ms (fst (assign_bits n ms))"
proof (induction ms arbitrary: n)
  case Nil
  then show ?case by simp
next
  case (Cons m ms)
  then have "no_bits m" by simp
  then obtain p v n2 where *: "assign_bits n (m # ms) = (with_bits m p v # fst (assign_bits n2 ms), snd (assign_bits n2 ms))"
    "member_bits (with_bits m p v) = [n..<n2]" "n \<le> n2" "(p \<noteq> None) = needs_presence m" "(v \<noteq> None) = needs_value m"
    by (rule assign_bits_step)
  with Cons.IH [of n2] Cons.prems show ?case
    by (auto simp: upt_join)
qed

lemma mask_bytes_ok: "0 < bytes \<Longrightarrow> pow2 bytes \<Longrightarrow>
    pow2 (mask_bytes bits bytes) \<and> bits \<le> 8 * mask_bytes bits bytes \<and> 0 < mask_bytes bits bytes"
proof (induction bits bytes rule: mask_bytes.induct)
  case (1 bits bytes)
  have "pow2 (bytes * 2)" using 1(3) by (metis pow2_def power_Suc mult.commute)
  with 1 show ?case by (subst (1 2 3) mask_bytes.simps) (auto simp: kBitsPerByte_def)
qed

lemma allocate_bits_eq:
  assumes "assign_bits 0 (ml_members l) = (ms, n1)"
  obtains unk n2 sz al where "allocate_bits opts l = l\<lparr>ml_members := ms, unknown_bit := (if unk then Some n1 else None),
      mask_bits := n2, mask_size := sz, mask_align := al\<rparr>"
    "n2 = (if unk then n1 + 1 else n1)" "mask_size l = 0 \<longrightarrow> n2 \<le> 8 * sz" "mask_size l = 0 \<longrightarrow> 0 < sz \<longrightarrow> pow2 al"
proof -
  define unk where "unk = (case (modes opts, ml_message l) of (Some fm, Some r) \<Rightarrow> wants_unknown fm r | _ \<Rightarrow> False)"
  define n2 where "n2 = (if unk then n1 + 1 else n1)"
  let ?l = "l\<lparr>ml_members := ms, unknown_bit := (if unk then Some n1 else None), mask_bits := n2\<rparr>"
  have eq: "allocate_bits opts l = (if n2 = 0 then ?l
      else if n2 \<le> kBitsPerWord then ?l\<lparr>mask_size := mask_bytes n2 1, mask_align := mask_bytes n2 1\<rparr>
      else ?l\<lparr>mask_size := kBytesPerWord * ((n2 + kBitsPerWord - 1) div kBitsPerWord), mask_align := kBytesPerWord\<rparr>)"
    unfolding allocate_bits_def assms Let_def prod.case unk_def n2_def by (rule refl)
  consider "n2 = 0" | "0 < n2" "n2 \<le> kBitsPerWord" | "kBitsPerWord < n2" by linarith
  then show ?thesis
  proof cases
    case 1
    have "allocate_bits opts l = ?l\<lparr>mask_size := mask_size l, mask_align := mask_align l\<rparr>" unfolding eq using 1 by simp
    from that [OF this n2_def] 1 show ?thesis by simp
  next
    case 2
    have "allocate_bits opts l = ?l\<lparr>mask_size := mask_bytes n2 1, mask_align := mask_bytes n2 1\<rparr>" unfolding eq using 2 by simp
    from that [OF this n2_def] mask_bytes_ok [of 1 n2] show ?thesis by simp
  next
    case 3
    let ?w = "(n2 + kBitsPerWord - 1) div kBitsPerWord"
    have "n2 \<le> 64 * ?w" using dividend_less_div_times [of 64 "n2 + 63"] unfolding kBitsPerWord_def by simp
    moreover have "allocate_bits opts l = ?l\<lparr>mask_size := kBytesPerWord * ?w, mask_align := kBytesPerWord\<rparr>"
      unfolding eq using 3 by simp
    ultimately show ?thesis using that [OF _ n2_def] by (simp add: kBytesPerWord_def)
  qed
qed

section \<open>Layouts in the order they are finished\<close>

text \<open>A message stored by value has the layout that was finished before.\<close>

definition inlined_ok :: "LayoutOptions \<Rightarrow> (string \<times> MessageLayout) list \<Rightarrow> FieldKind \<Rightarrow> nat \<Rightarrow> nat \<Rightarrow> string \<Rightarrow> bool" where
  "inlined_ok opts memo k sz al target \<longleftrightarrow>
     (k = InlineFixedSubMsg \<longrightarrow> (\<exists>t. map_of memo target = Some t \<and> fixed_size t \<and>
        ml_size t \<le> inline_submsg_cutoff opts \<and> sz = ml_size t \<and> al = ml_align t))"

definition member_linked :: "LayoutOptions \<Rightarrow> (string \<times> MessageLayout) list \<Rightarrow> MemberPlan \<Rightarrow> bool" where
  "member_linked opts memo m \<longleftrightarrow> inlined_ok opts memo (mp_kind m) (mp_size m) (mp_align m) (target_fqn m)"

definition oneof_linked :: "LayoutOptions \<Rightarrow> (string \<times> MessageLayout) list \<Rightarrow> OneofPlan \<Rightarrow> bool" where
  "oneof_linked opts memo oo \<longleftrightarrow>
     (\<forall>m \<in> set (op_members oo). inlined_ok opts memo (om_kind m) (om_size m) (om_align m) (om_target m))"

definition linked :: "LayoutOptions \<Rightarrow> (string \<times> MessageLayout) list \<Rightarrow> MessageLayout \<Rightarrow> bool" where
  "linked opts memo l \<longleftrightarrow> list_all (member_linked opts memo) (ml_members l) \<and> list_all (oneof_linked opts memo) (ml_oneofs l)"

definition layout_ok :: "MessageLayout \<Rightarrow> bool" where
  "layout_ok l \<longleftrightarrow> bytes_ok l \<and> bits_ok l \<and> fixed_size l = compute_fixed_size l"

fun memo_ok :: "LayoutOptions \<Rightarrow> (string \<times> MessageLayout) list \<Rightarrow> bool" where
  "memo_ok opts [] \<longleftrightarrow> True"
| "memo_ok opts ((fqn, l) # rest) \<longleftrightarrow>
     fqn \<notin> fst ` set rest \<and> ml_fqn l = fqn \<and> layout_ok l \<and> \<not> noinline_decode l \<and> linked opts rest l \<and> memo_ok opts rest"

definition grows :: "(string \<times> MessageLayout) list \<Rightarrow> (string \<times> MessageLayout) list \<Rightarrow> bool" where
  "grows a b \<longleftrightarrow> (\<exists>new. b = new @ a)"

lemma grows_refl [simp]: "grows a a"
  by (simp add: grows_def)

lemma grows_trans: "grows a b \<Longrightarrow> grows b c \<Longrightarrow> grows a c"
  by (auto simp: grows_def)

lemma memo_ok_distinct: "memo_ok opts memo \<Longrightarrow> distinct (map fst memo)"
  by (induction opts memo rule: memo_ok.induct) simp_all

lemma grows_map_of: "grows a b \<Longrightarrow> memo_ok opts b \<Longrightarrow> map_of a k = Some l \<Longrightarrow> map_of b k = Some l"
  using memo_ok_distinct [of opts b] by (auto simp: grows_def dest!: map_of_SomeD intro!: map_of_is_SomeI)

lemma inlined_ok_grows: "grows a b \<Longrightarrow> memo_ok opts b \<Longrightarrow> inlined_ok opts a k sz al t \<Longrightarrow> inlined_ok opts b k sz al t"
  unfolding inlined_ok_def by (blast dest: grows_map_of)

text \<open>What is known of the plan of a member when it is made, and of the finished layout.\<close>

definition member_planned :: "LayoutOptions \<Rightarrow> (string \<times> MessageLayout) list \<Rightarrow> MemberPlan \<Rightarrow> bool" where
  "member_planned opts memo m \<longleftrightarrow> member_linked opts memo m \<and> no_bits m \<and> (0 < mp_size m \<longrightarrow> pow2 (mp_align m))"

definition oneof_planned :: "LayoutOptions \<Rightarrow> (string \<times> MessageLayout) list \<Rightarrow> OneofPlan \<Rightarrow> bool" where
  "oneof_planned opts memo oo \<longleftrightarrow> oneof_linked opts memo oo \<and> pow2 (union_align oo)"

lemma planned_grows:
  assumes "grows a b" "memo_ok opts b"
  shows "member_planned opts a m \<Longrightarrow> member_planned opts b m" "oneof_planned opts a oo \<Longrightarrow> oneof_planned opts b oo"
  using inlined_ok_grows [OF assms]
  by (auto simp: member_planned_def member_linked_def oneof_planned_def oneof_linked_def)

lemma member_linked_cong:
  "mp_kind m = mp_kind m' \<Longrightarrow> mp_size m = mp_size m' \<Longrightarrow> mp_align m = mp_align m' \<Longrightarrow> target_fqn m = target_fqn m' \<Longrightarrow>
     member_linked opts memo m = member_linked opts memo m'"
  by (simp add: member_linked_def)

lemma placed_oneof_simps [simp]: "op_members (placed_oneof placed (i, oo)) = op_members oo"
  "union_align (placed_oneof placed (i, oo)) = union_align oo"
  by (simp_all add: placed_oneof_def)

lemma placed_member_bits: "member_bits (placed_member placed x) = member_bits (snd x)"
  "needs_presence (placed_member placed x) = needs_presence (snd x)" "needs_value (placed_member placed x) = needs_value (snd x)"
  by (cases x, simp add: member_bits_def placed_member_def)+

lemma fixed_size_irrelevant [simp]:
  "bytes_ok (l\<lparr>fixed_size := b\<rparr>) = bytes_ok l" "bits_ok (l\<lparr>fixed_size := b\<rparr>) = bits_ok l"
  "linked opts memo (l\<lparr>fixed_size := b\<rparr>) = linked opts memo l" "compute_fixed_size (l\<lparr>fixed_size := b\<rparr>) = compute_fixed_size l"
  by (simp_all add: bytes_ok_def byte_ranges_def bits_ok_def layout_bits_def linked_def compute_fixed_size_def)

text \<open>The members with their bits.\<close>

definition member_done :: "LayoutOptions \<Rightarrow> (string \<times> MessageLayout) list \<Rightarrow> MemberPlan \<Rightarrow> bool" where
  "member_done opts memo m \<longleftrightarrow> member_linked opts memo m \<and> (0 < mp_size m \<longrightarrow> pow2 (mp_align m)) \<and>
     (presence_bit m \<noteq> None) = needs_presence m \<and> (value_bit m \<noteq> None) = needs_value m"

lemma member_done_bits:
  assumes "member_planned opts memo m" "(p \<noteq> None) = needs_presence m" "(v \<noteq> None) = needs_value m"
  shows "member_done opts memo (with_bits m p v)"
proof -
  have "needs_presence (with_bits m p v) = needs_presence m" "needs_value (with_bits m p v) = needs_value m"
    "presence_bit (with_bits m p v) = p" "value_bit (with_bits m p v) = v"
    by (simp_all add: with_bits_def)
  with assms member_linked_cong [of "with_bits m p v" m] show ?thesis
    by (simp add: member_done_def member_planned_def)
qed

lemma assign_bits_done:
  assumes "list_all (member_planned opts memo) ms"
  shows "list_all (member_done opts memo) (fst (assign_bits 0 ms))" "concat (map member_bits (fst (assign_bits 0 ms))) = [0..<snd (assign_bits 0 ms)]"
proof -
  have "list_all no_bits ms" using assms by (simp add: list_all_iff member_planned_def)
  note ok = assign_bits_ok [OF this, of 0]
  then show "concat (map member_bits (fst (assign_bits 0 ms))) = [0..<snd (assign_bits 0 ms)]" by simp
  have "list_all2 (\<lambda>m m'. \<exists>p v. m' = with_bits m p v \<and> (p \<noteq> None) = needs_presence m \<and> (v \<noteq> None) = needs_value m)
      ms (fst (assign_bits 0 ms))" using ok by blast
  then show "list_all (member_done opts memo) (fst (assign_bits 0 ms))"
    using assms by (induction rule: list_all2_induct) (auto simp del: not_None_eq intro!: member_done_bits)
qed

lemma placed_done: "member_done opts memo m \<Longrightarrow> member_done opts memo (placed_member placed (i, m))"
  using member_linked_cong [of "placed_member placed (i, m)" m] placed_member_bits [of placed "(i, m)"]
  by (simp add: member_done_def)

lemma order_bits:
  assumes "order_slots (layout_slots l) = (placed, ext)"
  shows "mset (layout_bits (order_members l)) = mset (layout_bits l)"
proof -
  have "mset (concat (map member_bits (sort_key dump_key xs))) = mset (concat (map member_bits xs))" for xs
    by (simp add: mset_concat) (metis mset_map mset_sort sum_mset_sum_list)
  moreover have "map member_bits (map (placed_member placed) (enumerate 0 xs)) = map member_bits xs" for xs
    by (simp add: comp_def placed_member_bits)
  ultimately show ?thesis unfolding layout_bits_def order_members_eq [OF assms] by simp
qed

lemma order_members_done:
  assumes "list_all (member_done opts memo) (ml_members l)" "list_all (oneof_planned opts memo) (ml_oneofs l)"
    and "0 < mask_size l \<longrightarrow> pow2 (mask_align l)" "mset (layout_bits l) = mset [0..<mask_bits l]" "mask_bits l \<le> 8 * mask_size l"
  shows "bytes_ok (order_members l) \<and> bits_ok (order_members l) \<and> linked opts memo (order_members l) \<and>
    ml_fqn (order_members l) = ml_fqn l \<and> noinline_decode (order_members l) = noinline_decode l"
proof -
  obtain placed ext where o: "order_slots (layout_slots l) = (placed, ext)" by fastforce
  note l2 = order_members_eq [OF o]
  have "plan_ok l" using assms(1-3) by (auto simp: plan_ok_def list_all_iff oneof_planned_def member_done_def)
  then have bytes: "bytes_ok (order_members l)" by (rule order_members_ok)
  have "list_all (member_done opts memo) (map (placed_member placed) (enumerate 0 (ml_members l)))"
    using assms(1) by (auto simp: list_all_iff in_set_enumerate_eq intro!: placed_done)
  then have mem: "list_all (member_done opts memo) (ml_members (order_members l))" unfolding l2 by (simp add: list_all_iff)
  have "mask_bits (order_members l) = mask_bits l" "mask_size (order_members l) = mask_size l" unfolding l2 by simp_all
  then have "bits_ok (order_members l)"
    using mem order_bits [OF o] assms(4,5) by (auto simp: bits_ok_def list_all_iff member_done_def)
  moreover have "list_all (oneof_linked opts memo) (ml_oneofs (order_members l))"
    unfolding l2 using assms(2)
    by (auto simp: list_all_length nth_enumerate_eq oneof_planned_def oneof_linked_def)
  then have "linked opts memo (order_members l)"
    using mem by (simp add: linked_def list_all_iff member_done_def)
  moreover have "ml_fqn (order_members l) = ml_fqn l" "noinline_decode (order_members l) = noinline_decode l" unfolding l2 by simp_all
  ultimately show ?thesis using bytes by blast
qed

lemma finish_layout_ok:
  assumes "list_all (member_planned opts memo) (ml_members l)" "list_all (oneof_planned opts memo) (ml_oneofs l)" "mask_size l = 0"
  shows "layout_ok (finish_layout opts l) \<and> linked opts memo (finish_layout opts l) \<and> ml_fqn (finish_layout opts l) = ml_fqn l \<and>
    noinline_decode (finish_layout opts l) = noinline_decode l"
proof -
  define ms n1 where "ms = fst (assign_bits 0 (ml_members l))" and "n1 = snd (assign_bits 0 (ml_members l))"
  have ab: "assign_bits 0 (ml_members l) = (ms, n1)" by (simp add: ms_def n1_def)
  obtain unk n2 sz al where l1: "allocate_bits opts l = l\<lparr>ml_members := ms, unknown_bit := (if unk then Some n1 else None),
      mask_bits := n2, mask_size := sz, mask_align := al\<rparr>"
    and n2: "n2 = (if unk then n1 + 1 else n1)" "mask_size l = 0 \<longrightarrow> n2 \<le> 8 * sz" "mask_size l = 0 \<longrightarrow> 0 < sz \<longrightarrow> pow2 al"
    by (rule allocate_bits_eq [OF ab, where opts = opts])
  note done1 = assign_bits_done [OF assms(1), folded ms_def n1_def]
  have "layout_bits (allocate_bits opts l) = [0..<n2]" by (simp add: layout_bits_def l1 done1(2) n2(1))
  then have "bytes_ok (order_members (allocate_bits opts l)) \<and> bits_ok (order_members (allocate_bits opts l)) \<and>
      linked opts memo (order_members (allocate_bits opts l)) \<and> ml_fqn (order_members (allocate_bits opts l)) = ml_fqn (allocate_bits opts l) \<and>
      noinline_decode (order_members (allocate_bits opts l)) = noinline_decode (allocate_bits opts l)"
    using done1(1) assms(2,3) n2(2,3) by (intro order_members_done) (simp_all add: l1)
  then show ?thesis by (simp add: finish_layout_def Let_def layout_ok_def) (simp add: l1)
qed

end
