(* ===== verification/Layout_Plan.thy ===== *)
theory Layout_Plan
  imports Layout_Correct
begin

text \<open>
  The recursion of the planner. Its contract: from a state whose finished layouts are all valid and
  linked to layouts finished before them, a step succeeds, only adds such layouts and leaves the
  messages in progress as they were. The contract composes over sequencing and loops, holds for every
  classification step when it holds for the recursive call, and so for \<open>layout_for\<close> as long as enough
  levels are left; each level puts one more message in progress, and at \<open>kMaxChainDepth\<close> of them no
  further call is made.
\<close>

section \<open>The contract of a step\<close>

type_synonym memo = "(string \<times> MessageLayout) list"

definition state_ok :: "string set \<Rightarrow> LayoutOptions \<Rightarrow> string list \<Rightarrow> Planner \<Rightarrow> bool" where
  "state_ok K opts V st \<longleftrightarrow> m_visiting st = V \<and> memo_ok opts (m_memo st) \<and> set V \<inter> fst ` set (m_memo st) = {} \<and>
     fst ` set (m_memo st) \<subseteq> K"

definition step_ok :: "string set \<Rightarrow> LayoutOptions \<Rightarrow> string list \<Rightarrow> (memo \<Rightarrow> bool) \<Rightarrow> 'a plan \<Rightarrow> ('a \<Rightarrow> memo \<Rightarrow> bool) \<Rightarrow> bool" where
  "step_ok K opts V P p Q \<longleftrightarrow>
     (\<forall>st. state_ok K opts V st \<and> P (m_memo st) \<longrightarrow>
        (\<exists>x st'. p st = Inr (x, st') \<and> state_ok K opts V st' \<and> grows (m_memo st) (m_memo st') \<and> Q x (m_memo st')))"

definition stable :: "LayoutOptions \<Rightarrow> (memo \<Rightarrow> bool) \<Rightarrow> bool" where
  "stable opts P \<longleftrightarrow> (\<forall>a b. grows a b \<and> memo_ok opts b \<and> P a \<longrightarrow> P b)"

lemma stable_True [simp]: "stable opts (\<lambda>_. True)"
  by (simp add: stable_def)

lemma stable_conj: "stable opts P \<Longrightarrow> stable opts Q \<Longrightarrow> stable opts (\<lambda>m. P m \<and> Q m)"
  by (auto simp: stable_def)

lemma stable_Ball: "(\<And>x. x \<in> A \<Longrightarrow> stable opts (P x)) \<Longrightarrow> stable opts (\<lambda>m. \<forall>x \<in> A. P x m)"
  by (fastforce simp: stable_def)

lemma stable_planned: "stable opts (\<lambda>memo. member_planned opts memo m)" "stable opts (\<lambda>memo. oneof_planned opts memo oo)"
  "stable opts (\<lambda>memo. inlined_ok opts memo k sz al t)"
  by (auto simp: stable_def intro: planned_grows inlined_ok_grows)

lemma step_return: "(\<And>memo. P memo \<Longrightarrow> Q x memo) \<Longrightarrow> step_ok K opts V P (preturn x) Q"
  by (auto simp: step_ok_def preturn_def)

lemma step_weaken: "step_ok K opts V P p Q \<Longrightarrow> (\<And>m. P' m \<Longrightarrow> P m) \<Longrightarrow> (\<And>x m. Q x m \<Longrightarrow> Q' x m) \<Longrightarrow> step_ok K opts V P' p Q'"
  unfolding step_ok_def by blast

lemma step_bind:
  assumes "step_ok K opts V P p Q" "\<And>x. step_ok K opts V (Q x) (f x) R"
  shows "step_ok K opts V P (pbind p f) R"
  unfolding step_ok_def
proof (intro allI impI)
  fix st
  assume st: "state_ok K opts V st \<and> P (m_memo st)"
  then obtain x st1 where 1: "p st = Inr (x, st1)" "state_ok K opts V st1" "grows (m_memo st) (m_memo st1)" "Q x (m_memo st1)"
    using assms(1) unfolding step_ok_def by blast
  then obtain y st2 where 2: "f x st1 = Inr (y, st2)" "state_ok K opts V st2" "grows (m_memo st1) (m_memo st2)" "R y (m_memo st2)"
    using assms(2) [of x] unfolding step_ok_def by blast
  show "\<exists>x st'. pbind p f st = Inr (x, st') \<and> state_ok K opts V st' \<and> grows (m_memo st) (m_memo st') \<and> R x (m_memo st')"
    using 1 2 grows_trans [OF 1(3) 2(3)] by (simp add: pbind_def)
qed

lemma step_frame:
  assumes "step_ok K opts V P p Q" "stable opts F"
  shows "step_ok K opts V (\<lambda>m. P m \<and> F m) p (\<lambda>x m. Q x m \<and> F m)"
  unfolding step_ok_def
proof (intro allI impI)
  fix st
  assume st: "state_ok K opts V st \<and> P (m_memo st) \<and> F (m_memo st)"
  then obtain x st1 where 1: "p st = Inr (x, st1)" "state_ok K opts V st1" "grows (m_memo st) (m_memo st1)" "Q x (m_memo st1)"
    using assms(1) unfolding step_ok_def by blast
  then have "F (m_memo st1)" using assms(2) st by (auto simp: stable_def state_ok_def)
  with 1 show "\<exists>x st'. p st = Inr (x, st') \<and> state_ok K opts V st' \<and> grows (m_memo st) (m_memo st') \<and> Q x (m_memo st') \<and> F (m_memo st')"
    by blast
qed

lemma step_pmap:
  assumes "\<And>x. x \<in> set xs \<Longrightarrow> step_ok K opts V (\<lambda>_. True) (f x) Q" "\<And>y. stable opts (Q y)"
  shows "step_ok K opts V (\<lambda>_. True) (pmap f xs) (\<lambda>ys m. \<forall>y \<in> set ys. Q y m)"
  using assms(1)
proof (induction xs)
  case Nil
  show ?case by (auto intro: step_return)
next
  case (Cons x xs)
  have IH: "step_ok K opts V (\<lambda>_. True) (pmap f xs) (\<lambda>ys m. \<forall>y \<in> set ys. Q y m)" using Cons by simp
  have "step_ok K opts V (Q y) (pbind (pmap f xs) (\<lambda>ys. preturn (y # ys))) (\<lambda>ys m. \<forall>y \<in> set ys. Q y m)" for y
  proof (rule step_bind)
    show "step_ok K opts V (Q y) (pmap f xs) (\<lambda>ys m. (\<forall>z \<in> set ys. Q z m) \<and> Q y m)"
      by (rule step_weaken [OF step_frame [OF IH assms(2) [of y]]]) simp_all
    show "step_ok K opts V (\<lambda>m. (\<forall>z \<in> set ys. Q z m) \<and> Q y m) (preturn (y # ys)) (\<lambda>ys m. \<forall>y \<in> set ys. Q y m)" for ys
      by (rule step_return) simp
  qed
  from step_bind [OF Cons.prems [OF list.set_intros(1)] this] show ?case by simp
qed

section \<open>Classification\<close>

definition rec_ok :: "string set \<Rightarrow> LayoutOptions \<Rightarrow> Index \<Rightarrow> string list \<Rightarrow> (string \<Rightarrow> MessageLayout plan) \<Rightarrow> bool" where
  "rec_ok K opts ix V rec \<longleftrightarrow>
     (\<forall>t. length V < kMaxChainDepth \<and> t \<notin> set V \<and> index_find ix t \<noteq> None \<longrightarrow>
        step_ok K opts V (\<lambda>_. True) (rec t) (\<lambda>l memo. map_of memo t = Some l))"

definition store_ok :: "LayoutOptions \<Rightarrow> string \<Rightarrow> Store \<Rightarrow> memo \<Rightarrow> bool" where
  "store_ok opts t s memo \<longleftrightarrow> inlined_ok opts memo (st_kind s) (st_size s) (st_align s) t \<and> pow2 (st_align s)"

lemma memo_ok_layout: "memo_ok opts memo \<Longrightarrow> map_of memo fqn = Some l \<Longrightarrow> layout_ok l \<and> ml_fqn l = fqn \<and> \<not> noinline_decode l"
  by (induction opts memo rule: memo_ok.induct) (auto split: if_splits)

lemma classify_message_ok:
  assumes "rec_ok K opts ix V rec"
  shows "step_ok K opts V (\<lambda>_. True) (classify_message rec ix opts t) (store_ok opts t)"
proof -
  have ptr: "store_ok opts t pointer_store memo" for memo
    by (simp add: store_ok_def inlined_ok_def pointer_store_def kPtrAlign_def)
  show ?thesis
    unfolding step_ok_def
  proof (intro allI impI)
    fix st
    assume st: "state_ok K opts V st \<and> True"
    let ?go = "length V < kMaxChainDepth \<and> t \<notin> set V \<and> index_find ix t \<noteq> None"
    show "\<exists>s st'. classify_message rec ix opts t st = Inr (s, st') \<and> state_ok K opts V st' \<and>
        grows (m_memo st) (m_memo st') \<and> store_ok opts t s (m_memo st')"
    proof (cases ?go)
      case True
      then have "step_ok K opts V (\<lambda>_. True) (rec t) (\<lambda>l memo. map_of memo t = Some l)" using assms by (simp add: rec_ok_def)
      then obtain l st1 where 1: "rec t st = Inr (l, st1)" "state_ok K opts V st1" "grows (m_memo st) (m_memo st1)"
        "map_of (m_memo st1) t = Some l" using st unfolding step_ok_def by blast
      let ?s = "if fixed_size l \<and> ml_size l \<le> inline_submsg_cutoff opts
        then \<lparr>st_kind = InlineFixedSubMsg, st_size = ml_size l, st_align = ml_align l\<rparr> else pointer_store"
      have "layout_ok l" using memo_ok_layout [OF _ 1(4)] 1(2) by (auto simp: state_ok_def)
      have "store_ok opts t ?s (m_memo st1)"
      proof (cases "fixed_size l \<and> ml_size l \<le> inline_submsg_cutoff opts")
        case True
        with 1(4) \<open>layout_ok l\<close> show ?thesis by (simp add: store_ok_def inlined_ok_def layout_ok_def bytes_ok_def)
      next
        case False
        then show ?thesis using ptr by auto
      qed
      moreover have "classify_message rec ix opts t st = Inr (?s, st1)"
        using True st 1(1) by (simp add: classify_message_def state_ok_def pbind_def preturn_def)
      ultimately show ?thesis using 1 by blast
    next
      case False
      then have "classify_message rec ix opts t st = Inr (pointer_store, st)"
        using st by (auto simp: classify_message_def state_ok_def preturn_def)
      with st ptr show ?thesis by auto
    qed
  qed
qed

lemma scalar_info_ok: "scalar_info t = Some info \<Longrightarrow> pow2 (si_align info)"
  by (auto simp: scalar_info_def split: if_splits)

definition known_field :: "FieldNode \<Rightarrow> bool" where
  "known_field f \<longleftrightarrow> is_message_type f \<or> is_enum_type f \<or> is_string_field f \<or> scalar_info (type_name f) \<noteq> None"

definition known_map :: "MapFieldNode \<Rightarrow> bool" where
  "known_map f \<longleftrightarrow> (key_type f = ''string'' \<or> key_type f = ''bytes'' \<or> scalar_info (key_type f) \<noteq> None) \<and>
     (value_is_message f \<or> value_is_enum f \<or> value_type f = ''string'' \<or> value_type f = ''bytes'' \<or>
      scalar_info (value_type f) \<noteq> None)"

lemmas const_pow2 = kEnumAlign_def kStringAlign_def kViewAlign_def kPtrAlign_def

lemma classify_field_ok:
  assumes "rec_ok K opts ix V rec" "known_field f"
  shows "step_ok K opts V (\<lambda>_. True) (classify_field rec ix opts f) (\<lambda>m memo. member_planned opts memo m)"
proof -
  let ?Q = "\<lambda>m memo. member_planned opts memo m"
  have plain: "step_ok K opts V (\<lambda>_. True) (preturn m) ?Q"
    if "mp_kind m \<noteq> InlineFixedSubMsg" "no_bits m" "0 < mp_size m \<longrightarrow> pow2 (mp_align m)" for m
    using that by (intro step_return) (simp add: member_planned_def member_linked_def inlined_ok_def)
  consider "is_repeated f" | "\<not> is_repeated f" "is_message_type f" | "\<not> is_repeated f" "\<not> is_message_type f" "is_enum_type f"
    | "\<not> is_repeated f" "\<not> is_message_type f" "\<not> is_enum_type f" "is_string_field f"
    | info where "\<not> is_repeated f" "\<not> is_message_type f" "\<not> is_enum_type f" "\<not> is_string_field f" "scalar_info (type_name f) = Some info"
    using assms(2) by (auto simp: known_field_def)
  then show ?thesis
  proof cases
    case 2
    have "step_ok K opts V (store_ok opts (resolved_type_fqn f) s) (preturn (empty_plan\<lparr>mp_field := Some f, mp_kind := st_kind s,
        mp_size := st_size s, mp_align := st_align s, mp_repr := resolved_type_fqn f, target_fqn := resolved_type_fqn f\<rparr>)) ?Q" for s
      by (intro step_return) (auto simp: member_planned_def member_linked_def store_ok_def no_bits_def empty_plan_def)
    from step_bind [OF classify_message_ok [OF assms(1)] this] 2 show ?thesis
      by (simp add: classify_field_def)
  next
    case 5
    then show ?thesis using scalar_info_ok [OF 5(5)]
      by (auto simp: classify_field_def no_bits_def empty_plan_def Let_def intro!: plain)
  qed (auto simp: classify_field_def no_bits_def empty_plan_def const_pow2 Let_def intro!: plain)
qed

lemma classify_byte_member_ok:
  assumes "rec_ok K opts ix V rec" "known_field f"
  shows "step_ok K opts V (\<lambda>_. True) (classify_byte_member rec ix opts f)
    (\<lambda>m memo. inlined_ok opts memo (om_kind m) (om_size m) (om_align m) (om_target m) \<and> pow2 (om_align m))"
    (is "step_ok _ _ _ _ _ ?Q")
proof -
  have plain: "step_ok K opts V (\<lambda>_. True) (preturn m) ?Q" if "om_kind m \<noteq> InlineFixedSubMsg" "pow2 (om_align m)" for m
    using that by (intro step_return) (simp add: inlined_ok_def)
  consider "is_message_type f" | "\<not> is_message_type f" "is_enum_type f"
    | "\<not> is_message_type f" "\<not> is_enum_type f" "is_string_field f"
    | info where "\<not> is_message_type f" "\<not> is_enum_type f" "\<not> is_string_field f" "scalar_info (type_name f) = Some info"
    using assms(2) by (auto simp: known_field_def)
  then show ?thesis
  proof cases
    case 1
    have "step_ok K opts V (store_ok opts (resolved_type_fqn f) s) (preturn \<lparr>om_field = f, om_kind = st_kind s, om_size = st_size s,
        om_align = st_align s, om_repr = resolved_type_fqn f, om_target = resolved_type_fqn f\<rparr>) ?Q" for s
      by (intro step_return) (auto simp: store_ok_def)
    from step_bind [OF classify_message_ok [OF assms(1)] this] 1 show ?thesis
      by (simp add: classify_byte_member_def)
  next
    case 4
    then show ?thesis using scalar_info_ok [OF 4(4)] by (auto simp: classify_byte_member_def intro!: plain)
  qed (auto simp: classify_byte_member_def const_pow2 intro!: plain)
qed

lemma fold_max_pow2:
  assumes "\<forall>m \<in> set ms. pow2 (g m)" "a = 0 \<or> pow2 a"
  shows "fold (\<lambda>m a. max a (g m)) ms a = 0 \<or> pow2 (fold (\<lambda>m a. max a (g m)) ms a)"
  using assms by (induction ms arbitrary: a) (auto simp: max_def)

lemma classify_oneof_ok:
  assumes "rec_ok K opts ix V rec" "list_all known_field (oo_fields oo)"
  shows "step_ok K opts V (\<lambda>_. True) (classify_oneof rec ix opts oo) (\<lambda>p memo. oneof_planned opts memo p)"
proof -
  let ?Q = "\<lambda>m memo. inlined_ok opts memo (om_kind m) (om_size m) (om_align m) (om_target m) \<and> pow2 (om_align m)"
  have 1: "step_ok K opts V (\<lambda>_. True) (pmap (classify_byte_member rec ix opts) (oo_fields oo)) (\<lambda>ms memo. \<forall>m \<in> set ms. ?Q m memo)"
  proof (rule step_pmap)
    show "step_ok K opts V (\<lambda>_. True) (classify_byte_member rec ix opts f) ?Q" if "f \<in> set (oo_fields oo)" for f
      using assms that by (intro classify_byte_member_ok) (simp_all add: list_all_iff)
    show "stable opts (?Q m)" for m by (intro stable_conj stable_planned) (simp add: stable_def)
  qed
  have "step_ok K opts V (\<lambda>memo. \<forall>m \<in> set ms. ?Q m memo)
      (let align = fold (\<lambda>m a. max a (om_align m)) ms 0 in
       preturn \<lparr>op_oneof = oo, disc_offset = 0, union_offset = 0, union_size = fold (\<lambda>m a. max a (om_size m)) ms 0,
         union_align = (if align = 0 then 1 else align), op_members = ms\<rparr>) (\<lambda>p memo. oneof_planned opts memo p)" for ms
    unfolding Let_def
    by (rule step_return) (use fold_max_pow2 [of ms om_align 0] in \<open>auto simp: oneof_planned_def oneof_linked_def\<close>)
  from step_bind [OF 1 this] show ?thesis by (simp add: classify_oneof_def)
qed

lemma step_plain: "step_ok K opts V P (preturn x) (\<lambda>_ _. True)"
  by (rule step_return) simp

lemma entry_key_ok:
  assumes "known_map f"
  shows "step_ok K opts V (\<lambda>_. True) (entry_key f) (\<lambda>_ _. True)"
proof (cases "key_type f = ''string'' \<or> key_type f = ''bytes''")
  case True
  then show ?thesis unfolding entry_key_def by (simp only: if_True step_plain)
next
  case False
  then obtain info where "scalar_info (key_type f) = Some info" using assms by (auto simp: known_map_def)
  with False show ?thesis unfolding entry_key_def by (simp only: if_False option.case step_plain)
qed

lemma entry_value_ok:
  assumes "rec_ok K opts ix V rec" "known_map f"
  shows "step_ok K opts V (\<lambda>_. True) (entry_value rec ix opts f) (\<lambda>_ _. True)"
proof -
  consider "value_is_message f" | "\<not> value_is_message f" "value_is_enum f"
    | "\<not> value_is_message f" "\<not> value_is_enum f" "value_type f = ''string'' \<or> value_type f = ''bytes''"
    | info where "\<not> value_is_message f" "\<not> value_is_enum f" "\<not> (value_type f = ''string'' \<or> value_type f = ''bytes'')"
        "scalar_info (value_type f) = Some info"
    using assms(2) by (auto simp: known_map_def)
  then show ?thesis
  proof cases
    case 1
    then show ?thesis unfolding entry_value_def
      by (simp only: if_True) (rule step_bind [OF classify_message_ok [OF assms(1)] step_plain])
  qed (unfold entry_value_def, simp_all only: if_True if_False option.case step_plain)
qed

lemma step_pair: "step_ok K opts V P (case x of (a, b) \<Rightarrow> preturn (g a b)) (\<lambda>_ _. True)"
  by (cases x) (simp add: step_plain)

lemma build_entry_ok:
  assumes "rec_ok K opts ix V rec" "known_map f"
  shows "step_ok K opts V (\<lambda>_. True) (build_entry rec ix opts f) (\<lambda>_ _. True)"
proof -
  have "step_ok K opts V (\<lambda>_. True) (case y of (vk, vr, vf, vsz, val) \<Rightarrow>
      let (placed, ext) = order_slots (entry_slots ksz kal vsz val) in preturn (g vk vr vf placed ext)) (\<lambda>_ _. True)"
    for y ksz kal g unfolding Let_def case_prod_unfold by (rule step_plain)
  note inner = step_bind [OF entry_value_ok [OF assms] this]
  have "step_ok K opts V (\<lambda>_. True) (case x of (kk, kr, ksz, kal) \<Rightarrow>
      pbind (entry_value rec ix opts f) (\<lambda>(vk, vr, vf, vsz, val).
        let (placed, ext) = order_slots (entry_slots ksz kal vsz val) in preturn (g kk kr vk vr vf placed ext))) (\<lambda>_ _. True)"
    for x g by (cases x, simp only: prod.case) (rule inner)
  then show ?thesis unfolding build_entry_def by (rule step_bind [OF entry_key_ok [OF assms(2)]])
qed

section \<open>One message\<close>

definition own_known :: "MessageData \<Rightarrow> bool" where
  "own_known d \<longleftrightarrow> list_all known_field (msg_fields d) \<and> list_all known_map (map_fields d) \<and>
     list_all (\<lambda>oo. list_all known_field (oo_fields oo)) (oneofs d)"

definition modes_valid :: "LayoutOptions \<Rightarrow> bool" where
  "modes_valid opts \<longleftrightarrow> (\<forall>fm. modes opts = Some fm \<longrightarrow> RawMode \<notin> snd ` set (fm_maps fm))"

lemma mode_of_map: "modes_valid opts \<Longrightarrow> mode_of fm_maps opts r \<noteq> RawMode"
  by (force simp: mode_of_def modes_valid_def split: option.splits dest: map_of_SomeD)

definition opt_planned :: "LayoutOptions \<Rightarrow> MemberPlan option \<Rightarrow> memo \<Rightarrow> bool" where
  "opt_planned opts x memo \<longleftrightarrow> (\<forall>m. x = Some m \<longrightarrow> member_planned opts memo m)"

lemma stable_opt_planned: "stable opts (opt_planned opts x)"
  using stable_planned(1) by (auto simp: stable_def opt_planned_def)

lemma plan_field_ok:
  assumes "rec_ok K opts ix V rec" "known_field f"
  shows "step_ok K opts V (\<lambda>_. True) (plan_field rec ix opts r (i, f)) (opt_planned opts)"
proof (cases "mode_of fm_fields opts (r, i)")
  case Materialize
  have "step_ok K opts V (\<lambda>memo. member_planned opts memo m) (preturn (Some m)) (opt_planned opts)" for m
    by (rule step_return) (simp add: opt_planned_def)
  from step_bind [OF classify_field_ok [OF assms] this] Materialize show ?thesis by (simp add: plan_field_def)
next
  case RawMode
  have "member_planned opts memo (raw_member f)" for memo
    by (simp add: raw_member_def member_planned_def member_linked_def inlined_ok_def no_bits_def empty_plan_def kStringAlign_def)
  with RawMode show ?thesis by (simp add: plan_field_def opt_planned_def step_return)
next
  case Drop
  then show ?thesis by (simp add: plan_field_def opt_planned_def step_return)
qed

lemma plan_map_ok:
  assumes "rec_ok K opts ix V rec" "known_map f" "modes_valid opts"
  shows "step_ok K opts V (\<lambda>_. True) (plan_map rec ix opts r (i, f)) (opt_planned opts)"
proof (cases "mode_of fm_maps opts (r, i)")
  case Materialize
  have "step_ok K opts V (\<lambda>_. True) (preturn (Some (empty_plan\<lparr>mp_map := Some f, mp_kind := MapKind, mp_size := kViewSize,
      mp_align := kViewAlign, mp_repr := ''MapView'',
      target_fqn := (if value_is_message f \<or> value_is_enum f then resolved_value_type_fqn f else []), entry_plan := Some e\<rparr>))) (opt_planned opts)" for e
    by (rule step_return)
      (simp add: opt_planned_def member_planned_def member_linked_def inlined_ok_def no_bits_def empty_plan_def kViewAlign_def)
  from step_bind [OF build_entry_ok [OF assms(1,2)] this] Materialize show ?thesis by (simp add: plan_map_def)
next
  case RawMode
  with mode_of_map [OF assms(3)] show ?thesis by blast
next
  case Drop
  then show ?thesis by (simp add: plan_map_def opt_planned_def step_return)
qed

text \<open>The three loops of \<open>compute\<close>.\<close>

definition plan_members ::
    "(string \<Rightarrow> MessageLayout plan) \<Rightarrow> Index \<Rightarrow> LayoutOptions \<Rightarrow> MessageRef \<Rightarrow> MessageData \<Rightarrow>
     (MemberPlan list \<times> OneofPlan list) plan" where
  "plan_members rec ix opts r d =
     pbind (pmap (plan_field rec ix opts r) (enumerate 0 (msg_fields d))) (\<lambda>fs.
     pbind (pmap (plan_map rec ix opts r) (enumerate 0 (map_fields d))) (\<lambda>ms.
     pbind (pmap (classify_oneof rec ix opts) (oneofs d)) (\<lambda>ops.
       preturn (map the (filter (\<lambda>x. x \<noteq> None) (fs @ ms)), ops))))"

lemma plan_members_ok:
  assumes "rec_ok K opts ix V rec" "own_known d" "modes_valid opts"
  shows "step_ok K opts V (\<lambda>_. True) (plan_members rec ix opts r d)
    (\<lambda>(ms, ops) memo. list_all (member_planned opts memo) ms \<and> list_all (oneof_planned opts memo) ops)"
proof -
  let ?F = "\<lambda>fs memo. \<forall>x \<in> set fs. opt_planned opts x memo"
  let ?O = "\<lambda>ops memo. \<forall>oo \<in> set ops. oneof_planned opts memo oo"
  have st: "stable opts (?F fs)" for fs by (intro stable_Ball stable_opt_planned)
  have 1: "step_ok K opts V (\<lambda>_. True) (pmap (plan_field rec ix opts r) (enumerate 0 (msg_fields d))) ?F"
    using assms by (intro step_pmap stable_opt_planned) (auto simp: own_known_def list_all_length in_set_enumerate_eq intro!: plan_field_ok)
  have 2: "step_ok K opts V (\<lambda>_. True) (pmap (plan_map rec ix opts r) (enumerate 0 (map_fields d))) ?F"
    using assms by (intro step_pmap stable_opt_planned) (auto simp: own_known_def list_all_length in_set_enumerate_eq intro!: plan_map_ok)
  have 3: "step_ok K opts V (\<lambda>_. True) (pmap (classify_oneof rec ix opts) (oneofs d)) ?O"
    using assms by (intro step_pmap stable_planned) (auto simp: own_known_def list_all_iff intro!: classify_oneof_ok)
  have maps: "step_ok K opts V (?F fs) (pmap (plan_map rec ix opts r) (enumerate 0 (map_fields d))) (\<lambda>ms m. ?F ms m \<and> ?F fs m)" for fs
    by (rule step_weaken [OF step_frame [OF 2 st [of fs]]]) simp_all
  have ops: "step_ok K opts V (\<lambda>m. ?F ms m \<and> ?F fs m) (pmap (classify_oneof rec ix opts) (oneofs d)) (\<lambda>ops m. ?O ops m \<and> ?F ms m \<and> ?F fs m)" for ms fs
    by (rule step_weaken [OF step_frame [OF 3 stable_conj [OF st [of ms] st [of fs]]]]) simp_all
  show ?thesis
    unfolding plan_members_def
    by (rule step_bind [OF 1 step_bind [OF maps step_bind [OF ops step_return]]]) (auto simp: list_all_iff opt_planned_def)
qed

lemma compute_eq:
  "compute rec ix opts r m =
     pbind (enter_message (msg_fqn (msg_data m))) (\<lambda>_.
     pbind (plan_members rec ix opts r (msg_data m)) (\<lambda>(ms, ops).
       leave_message (msg_fqn (msg_data m)) (finish_layout opts
         (empty_layout\<lparr>ml_message := Some r, ml_fqn := msg_fqn (msg_data m), ml_members := ms, ml_oneofs := ops,
            dropped := map snd (filter (\<lambda>(i, f). mode_of fm_fields opts (r, i) = Drop) (enumerate 0 (msg_fields (msg_data m)))),
            dropped_maps := map snd (filter (\<lambda>(i, f). mode_of fm_maps opts (r, i) = Drop) (enumerate 0 (map_fields (msg_data m))))\<rparr>))))"
  by (rule ext) (simp add: compute_def plan_members_def pbind_def preturn_def Let_def split: sum.splits prod.splits)

lemma compute_ok:
  assumes "rec_ok K opts ix (msg_fqn (msg_data m) # V) rec" "own_known (msg_data m)" "modes_valid opts"
    and "msg_fqn (msg_data m) \<notin> set V" "msg_fqn (msg_data m) \<in> K" "state_ok K opts V st" "map_of (m_memo st) (msg_fqn (msg_data m)) = None"
  shows "\<exists>l st'. compute rec ix opts r m st = Inr (l, st') \<and> state_ok K opts V st' \<and> grows (m_memo st) (m_memo st') \<and>
    map_of (m_memo st') (msg_fqn (msg_data m)) = Some l"
proof -
  let ?q = "msg_fqn (msg_data m)"
  let ?st1 = "st\<lparr>m_visiting := ?q # V\<rparr>"
  have q: "?q \<notin> fst ` set (m_memo st)" using assms(7) by (simp add: map_of_eq_None_iff)
  have st1: "state_ok K opts (?q # V) ?st1" using assms(6) q by (auto simp: state_ok_def)
  have "\<exists>x st'. plan_members rec ix opts r (msg_data m) ?st1 = Inr (x, st') \<and> state_ok K opts (?q # V) st' \<and>
      grows (m_memo ?st1) (m_memo st') \<and>
      (case x of (ms, ops) \<Rightarrow> list_all (member_planned opts (m_memo st')) ms \<and> list_all (oneof_planned opts (m_memo st')) ops)"
    using plan_members_ok [OF assms(1-3), of r, unfolded step_ok_def, rule_format, of ?st1] st1 by (simp add: case_prod_unfold)
  then obtain x st2 where x: "plan_members rec ix opts r (msg_data m) ?st1 = Inr (x, st2)" "state_ok K opts (?q # V) st2"
      "grows (m_memo st) (m_memo st2)"
      "case x of (ms, ops) \<Rightarrow> list_all (member_planned opts (m_memo st2)) ms \<and> list_all (oneof_planned opts (m_memo st2)) ops" by auto
  obtain ms ops where "x = (ms, ops)" by (rule prod.exhaust)
  with x have 2: "plan_members rec ix opts r (msg_data m) ?st1 = Inr ((ms, ops), st2)" "state_ok K opts (?q # V) st2"
      "grows (m_memo st) (m_memo st2)" "list_all (member_planned opts (m_memo st2)) ms" "list_all (oneof_planned opts (m_memo st2)) ops"
    by simp_all
  define l0 where "l0 = empty_layout\<lparr>ml_message := Some r, ml_fqn := ?q, ml_members := ms, ml_oneofs := ops,
     dropped := map snd (filter (\<lambda>(i, f). mode_of fm_fields opts (r, i) = Drop) (enumerate 0 (msg_fields (msg_data m)))),
     dropped_maps := map snd (filter (\<lambda>(i, f). mode_of fm_maps opts (r, i) = Drop) (enumerate 0 (map_fields (msg_data m))))\<rparr>"
  define l where "l = finish_layout opts l0"
  have l0: "ml_members l0 = ms" "ml_oneofs l0 = ops" "mask_size l0 = 0" "ml_fqn l0 = ?q" "\<not> noinline_decode l0" by (simp_all add: l0_def empty_layout_def)
  have l: "layout_ok l" "linked opts (m_memo st2) l" "ml_fqn l = ?q" "\<not> noinline_decode l"
    using finish_layout_ok [of opts "m_memo st2" l0] 2(4,5) by (simp_all add: l0 l_def)
  let ?st3 = "st2\<lparr>m_visiting := V, m_memo := (?q, l) # m_memo st2\<rparr>"
  have fresh: "?q \<notin> fst ` set (m_memo st2)" "m_visiting st2 = ?q # V" using 2(2) by (auto simp: state_ok_def)
  then have none: "map_of (m_memo st2) ?q = None" by (simp add: map_of_eq_None_iff)
  have "compute rec ix opts r m st = leave_message ?q l st2"
    unfolding compute_eq using assms(4,6) 2(1)
    by (simp add: pbind_def enter_message_def state_ok_def l_def l0_def List.insert_def)
  also have "\<dots> = Inr (l, ?st3)"
    using fresh none assms(4) by (simp add: leave_message_def Let_def)
  finally have "compute rec ix opts r m st = Inr (l, ?st3)" .
  moreover have "state_ok K opts V ?st3" using 2(2) l fresh(1) assms(4,5) by (auto simp: state_ok_def)
  moreover have "grows (m_memo st) (m_memo ?st3)" using 2(3) by (auto simp: grows_def)
  ultimately show ?thesis by auto
qed

section \<open>The recursion\<close>

definition index_ok :: "Index \<Rightarrow> bool" where
  "index_ok ix \<longleftrightarrow> (\<forall>q r m. index_find ix q = Some (r, m) \<longrightarrow> msg_fqn (msg_data m) = q \<and> own_known (msg_data m))"

lemma layout_for_ok:
  assumes "index_ok ix" "modes_valid opts"
    and "\<And>q. index_find ix q \<noteq> None \<Longrightarrow> q \<in> K"
  shows "Suc kMaxChainDepth \<le> levels + length V \<Longrightarrow> length V < kMaxChainDepth \<Longrightarrow> q \<notin> set V \<Longrightarrow> index_find ix q \<noteq> None \<Longrightarrow>
    step_ok K opts V (\<lambda>_. True) (layout_for levels ix opts q) (\<lambda>l memo. map_of memo q = Some l)"
proof (induction levels arbitrary: V q)
  case 0
  then show ?case by simp
next
  case (Suc levels)
  obtain r m where m: "index_find ix q = Some (r, m)" using Suc.prems(4) by auto
  then have node: "msg_fqn (msg_data m) = q" "own_known (msg_data m)" using assms(1) unfolding index_ok_def by blast+
  have "rec_ok K opts ix (q # V) (layout_for levels ix opts)"
    unfolding rec_ok_def using Suc.prems(1) by (auto intro!: Suc.IH)
  note c = compute_ok [of K opts ix m V "layout_for levels ix opts", unfolded node(1), OF this node(2) assms(2) Suc.prems(3) assms(3) [OF Suc.prems(4)]]
  show ?case
    unfolding step_ok_def
  proof (intro allI impI)
    fix st
    assume st: "state_ok K opts V st \<and> True"
    show "\<exists>l st'. layout_for (Suc levels) ix opts q st = Inr (l, st') \<and> state_ok K opts V st' \<and>
        grows (m_memo st) (m_memo st') \<and> map_of (m_memo st') q = Some l"
    proof (cases "map_of (m_memo st) q")
      case None
      with c [of st r] st m show ?thesis by simp
    next
      case (Some l)
      with st show ?thesis by simp
    qed
  qed
qed

end
