(* ===== verification/Schema_Facts.thy ===== *)
theory Schema_Facts
  imports Type_Correct
begin

text \<open>
  What the analysis gives to the code behind it: the messages of a file set, their names, and the facts
  of \<open>analyze\<close> on them.
\<close>

fun tree_messages :: "MessageNode \<Rightarrow> MessageNode list" where
  "tree_messages (MessageNode d ns) = MessageNode d ns # concat (map tree_messages ns)"

definition set_messages :: "FileNode list \<Rightarrow> MessageNode list" where
  "set_messages fs = concat (map tree_messages (concat (map file_messages fs)))"

lemma tree_messages_self: "m \<in> set (tree_messages m)"
  by (cases m) simp

lemma same_shape_fqns: "same_shape m n \<Longrightarrow> map node_fqn (tree_messages m) = map node_fqn (tree_messages n)"
proof (induction rule: same_shape.induct)
  case (same_shape_node m n ms ns)
  have "list_all2 (\<lambda>x y. map node_fqn (tree_messages x) = map node_fqn (tree_messages y)) ms ns"
    using same_shape_node(2) by (rule list_all2_mono) simp
  then have "map (map node_fqn \<circ> tree_messages) ms = map (map node_fqn \<circ> tree_messages) ns"
    by (induction rule: list_all2_induct) simp_all
  with same_shape_node(1) show ?case by (simp add: map_concat)
qed

lemma same_shape_set_fqns:
  "list_all2 (\<lambda>f g. list_all2 same_shape (file_messages f) (file_messages g)) fs gs \<Longrightarrow>
     map node_fqn (set_messages fs) = map node_fqn (set_messages gs)"
proof (induction rule: list_all2_induct)
  case (Cons f fs g gs)
  from Cons(1) have "map node_fqn (concat (map tree_messages (file_messages f))) = map node_fqn (concat (map tree_messages (file_messages g)))"
    by (induction rule: list_all2_induct) (simp_all add: same_shape_fqns)
  with Cons(3) show ?case by (simp add: set_messages_def)
qed simp

lemma message_symbols_tree:
  "map fst (filter (\<lambda>x. sym_kind (snd x) = SymMessage) (message_symbols fi m)) = map node_fqn (tree_messages m)"
proof (induction m rule: tree_messages.induct)
  case (1 d ns)
  have "filter (\<lambda>x. sym_kind (snd x) = SymMessage) (enum_symbols fi es) = []" for es
    by (simp add: enum_symbols_def filter_empty_conv)
  moreover have "map fst (filter (\<lambda>x. sym_kind (snd x) = SymMessage) (concat (map (message_symbols fi) ns))) =
      map node_fqn (concat (map tree_messages ns))"
    using 1 by (induction ns) simp_all
  ultimately show ?case by simp
qed

lemma set_symbols_messages:
  "map fst (filter (\<lambda>x. sym_kind (snd x) = SymMessage) (set_symbols i fs)) = map node_fqn (set_messages fs)"
proof (induction fs arbitrary: i)
  case (Cons f fs)
  have "filter (\<lambda>x. sym_kind (snd x) = SymMessage) (enum_symbols i es) = []" for es
    by (simp add: enum_symbols_def filter_empty_conv)
  moreover have "map fst (filter (\<lambda>x. sym_kind (snd x) = SymMessage) (concat (map (message_symbols i) ms))) =
      map node_fqn (concat (map tree_messages ms))" for ms
    by (induction ms) (simp_all add: message_symbols_tree)
  ultimately show ?case using Cons by (simp add: set_messages_def file_symbols_def)
qed (simp add: set_messages_def)

text \<open>What an analysed file set satisfies.\<close>

lemma analyze_facts:
  assumes "analyze fset = Inr (fset', table)"
  shows "list_all (typed_file (symbols table)) (files fset')"
    and "messages table q \<noteq> None \<longleftrightarrow> symbols table q = Some SymMessage"
    and "messages table q = Some r \<Longrightarrow> designates (files fset') r q"
    and "m \<in> set (set_messages (files fset')) \<Longrightarrow> symbols table (node_fqn m) = Some SymMessage"
    and "distinct (map node_fqn (set_messages (files fset')))"
proof -
  obtain fset1 st fs ext where
    *: "collect_symbols 0 (files (compute_fqns_set fset1)) empty_resolver = Inr st"
      "resolve_files (compute_fqns_set fset1) st 0 (files (compute_fqns_set fset1)) (extensions (m_table st)) = Inr (fs, ext)"
      "files fset' = map interpreted_file fs" "symbols table = symbols (m_table st)" "messages table = messages (m_table st)"
    using assms by (rule analyzeE)
  let ?fs = "files (compute_fqns_set fset1)"
  have sym: "table_matches st" "m_symbols st = map_of (set_symbols 0 ?fs)" "distinct (map fst (set_symbols 0 ?fs))"
    using collect_symbols_collected [of 0 ?fs empty_resolver] *(1) by (simp_all add: collected_empty)
  from resolve_files_typed [OF sym(1) *(2)] *(3,4) show "list_all (typed_file (symbols table)) (files fset')"
    by (auto simp: list_all_iff intro: interpreted_file_typed)
  have "refs_ok ?fs empty_resolver" by (simp add: refs_ok_def empty_resolver_def)
  from refs_ok_symbols [OF *(1) this] have ok: "refs_ok ?fs st" by simp
  then show "messages table q \<noteq> None \<longleftrightarrow> symbols table q = Some SymMessage" using *(4,5) by (simp add: refs_ok_def)
  show "designates (files fset') r q" if r: "messages table q = Some r"
  proof -
    have "designates ?fs r q" using ok r *(5) by (cases r) (simp add: refs_ok_def)
    from designates_shape [OF interpreted_files_shape designates_shape [OF resolve_files_shape [OF *(2)] this]] *(3)
    show ?thesis by simp
  qed
  have eq: "map node_fqn (set_messages (files fset')) = map node_fqn (set_messages ?fs)"
    using same_shape_set_fqns [OF resolve_files_shape [OF *(2)]] same_shape_set_fqns [OF interpreted_files_shape [of fs]] *(3) by simp
  show "distinct (map node_fqn (set_messages (files fset')))"
    using distinct_map_filter [OF sym(3), of "\<lambda>x. sym_kind (snd x) = SymMessage"] by (simp only: eq set_symbols_messages)
  show "symbols table (node_fqn m) = Some SymMessage" if m: "m \<in> set (set_messages (files fset'))"
  proof -
    have "node_fqn m \<in> set (map node_fqn (set_messages ?fs))" using m eq by (metis image_eqI list.set_map)
    then obtain s where s: "(node_fqn m, s) \<in> set (set_symbols 0 ?fs)" "sym_kind s = SymMessage"
      unfolding set_symbols_messages [of 0 ?fs, symmetric] by auto
    then have "m_symbols st (node_fqn m) = Some s" using sym(2,3) by simp
    with sym(1) *(4) s(2) show ?thesis by (simp add: table_matches_def)
  qed
qed

end
