(* ===== verification/Flatten.thy ===== *)
theory Flatten
  imports Layout
begin

text \<open>
  The flatten budget of \<open>src/arenagen/layout.cpp\<close>: a post-order walk of the graph of the
  messages that a decoder would absorb, which accumulates the cost of each closure and marks the messages
  that stay calls. The walk is the one of the code, over an explicit stack. Its result: what is
  absorbed has no cycle, each cost is the total of what stays absorbed, a message over the budget is
  marked, and a mark has one of the two reasons.
\<close>

section \<open>The pass\<close>

definition own_arms :: "MessageLayout \<Rightarrow> nat" where
  "own_arms l = length (ml_members l) + sum_list (map (\<lambda>oo. length (op_members oo)) (ml_oneofs l))"

definition add_target :: "LayoutSet \<Rightarrow> string \<Rightarrow> nat list" where
  "add_target ls fqn =
     (if fqn = [] then [] else (case map_of (by_fqn ls) fqn of Some i \<Rightarrow> [i] | None \<Rightarrow> []))"

definition member_targets :: "LayoutSet \<Rightarrow> MemberPlan \<Rightarrow> nat list" where
  "member_targets ls m =
     (case mp_kind m of
        InlineFixedSubMsg \<Rightarrow> add_target ls (target_fqn m)
      | PointerSubMsg \<Rightarrow> add_target ls (target_fqn m)
      | RepeatedKind \<Rightarrow> add_target ls (target_fqn m)
      | MapKind \<Rightarrow> (case entry_plan m of Some e \<Rightarrow> add_target ls (value_fqn e) | None \<Rightarrow> [])
      | _ \<Rightarrow> [])"

definition inlined_targets :: "MessageLayout \<Rightarrow> LayoutSet \<Rightarrow> nat list" where
  "inlined_targets l ls =
     concat (map (member_targets ls) (ml_members l)) @
     concat (map (\<lambda>oo. concat (map (\<lambda>m. add_target ls (om_target m)) (op_members oo))) (ml_oneofs l))"

datatype Visit = Unvisited | InProgress | DoneVisit

definition kSizeMax :: nat where "kSizeMax = 2 ^ 64 - 1"

definition add_cost :: "nat \<Rightarrow> nat \<Rightarrow> nat" where
  "add_cost cost extra = (if cost > kSizeMax - extra then kSizeMax else cost + extra)"

definition settle :: "LayoutSet \<Rightarrow> nat \<Rightarrow> nat \<Rightarrow> LayoutSet" where
  "settle ls index budget =
     (let l = layouts ls ! index;
          absorbed = filter (\<lambda>t. \<not> noinline_decode (layouts ls ! t)) (inlined_targets l ls);
          cost = fold (\<lambda>t c. add_cost c (flatten_cost (layouts ls ! t))) absorbed (own_arms l)
      in ls\<lparr>layouts := (layouts ls)[index := l\<lparr>flatten_cost := cost,
            noinline_decode := (if cost > budget \<and> absorbed \<noteq> [] then True else noinline_decode l)\<rparr>]\<rparr>)"

text \<open>The stack has its top at the head.\<close>

fun expand_targets :: "nat list \<Rightarrow> LayoutSet \<Rightarrow> Visit list \<Rightarrow> (nat \<times> bool) list \<Rightarrow> LayoutSet \<times> (nat \<times> bool) list" where
  "expand_targets [] ls seen stack = (ls, stack)"
| "expand_targets (t # ts) ls seen stack =
     (if seen ! t = InProgress then
        expand_targets ts (ls\<lparr>layouts := (layouts ls)[t := (layouts ls ! t)\<lparr>noinline_decode := True\<rparr>]\<rparr>) seen stack
      else if seen ! t = Unvisited then expand_targets ts ls seen ((t, False) # stack)
      else expand_targets ts ls seen stack)"

definition expand :: "MessageLayout \<Rightarrow> LayoutSet \<Rightarrow> Visit list \<Rightarrow> (nat \<times> bool) list \<Rightarrow> LayoutSet \<times> (nat \<times> bool) list" where
  "expand l ls seen stack = expand_targets (inlined_targets l ls) ls seen stack"

text \<open>The inner loop. An index is in range on every call; the test of it here only closes the definition.\<close>

definition unvisited :: "Visit list \<Rightarrow> nat" where
  "unvisited seen = length (filter (\<lambda>v. v = Unvisited) seen)"

lemma unvisited_update: "i < length seen \<Longrightarrow> seen ! i = Unvisited \<Longrightarrow> v \<noteq> Unvisited \<Longrightarrow> unvisited (seen[i := v]) < unvisited seen"
  unfolding unvisited_def by (induction seen arbitrary: i) (auto split: nat.splits)

lemma unvisited_mono: "v \<noteq> Unvisited \<Longrightarrow> unvisited (seen[i := v]) \<le> unvisited seen"
  unfolding unvisited_def by (induction seen arbitrary: i) (auto split: nat.splits intro: le_SucI)

function flatten_loop :: "nat \<Rightarrow> (nat \<times> bool) list \<Rightarrow> LayoutSet \<Rightarrow> Visit list \<Rightarrow> LayoutSet \<times> Visit list" where
  "flatten_loop budget [] ls seen = (ls, seen)"
| "flatten_loop budget ((index, settled) # stack) ls seen =
     (if settled then flatten_loop budget stack (settle ls index budget) (seen[index := DoneVisit])
      else if index < length seen \<and> seen ! index = Unvisited then
        let seen' = seen[index := InProgress];
            (ls', stack') = expand (layouts ls ! index) ls seen' ((index, True) # stack)
        in flatten_loop budget stack' ls' seen'
      else flatten_loop budget stack ls seen)"
  by pat_completeness auto
termination
  by (relation "measures [\<lambda>(_, _, _, seen). unvisited seen, \<lambda>(_, stack, _, _). length stack]")
    (auto simp: unvisited_update intro: le_neq_implies_less unvisited_mono)

fun flatten_roots :: "nat \<Rightarrow> nat list \<Rightarrow> LayoutSet \<Rightarrow> Visit list \<Rightarrow> LayoutSet \<times> Visit list" where
  "flatten_roots budget [] ls seen = (ls, seen)"
| "flatten_roots budget (root # roots) ls seen =
     (if seen ! root \<noteq> Unvisited then flatten_roots budget roots ls seen
      else (case flatten_loop budget [(root, False)] ls seen of (ls', seen') \<Rightarrow> flatten_roots budget roots ls' seen'))"

definition apply_flatten_budget :: "LayoutSet \<Rightarrow> nat \<Rightarrow> LayoutSet" where
  "apply_flatten_budget ls budget =
     (if budget = 0 then ls
      else fst (flatten_roots budget [0..<length (layouts ls)] ls (replicate (length (layouts ls)) Unvisited)))"

definition plan_layouts :: "ResolvedFileSet \<Rightarrow> SymbolTable \<Rightarrow> LayoutOptions \<Rightarrow> PlanError + LayoutSet" where
  "plan_layouts fset tab opts =
     (case walk_files fset tab opts of Inl e \<Rightarrow> Inl e | Inr ls \<Rightarrow> Inr (apply_flatten_budget ls (flatten_budget opts)))"

end
