(* ===== verification/Flatten_Correct.thy ===== *)
theory Flatten_Correct
  imports Flatten
begin

text \<open>
  The invariant of the walk of the flatten pass. A marker \<open>(v, True)\<close> on the stack is a message
  in progress; what lies above it is reachable from it, and each of its targets is marked, settled or
  above it. A settled message has its final cost, and its absorbed targets were settled before it.
\<close>

section \<open>The graph\<close>

definition marked :: "LayoutSet \<Rightarrow> nat \<Rightarrow> bool" where
  "marked ls i = noinline_decode (layouts ls ! i)"

definition cost_of :: "LayoutSet \<Rightarrow> nat \<Rightarrow> nat" where
  "cost_of ls i = flatten_cost (layouts ls ! i)"

definition targets :: "LayoutSet \<Rightarrow> nat \<Rightarrow> nat list" where
  "targets ls i = inlined_targets (layouts ls ! i) ls"

definition edges :: "LayoutSet \<Rightarrow> (nat \<times> nat) set" where
  "edges ls = {(u, v). u < length (layouts ls) \<and> v \<in> set (targets ls u)}"

text \<open>The arms of a message with those it still absorbs, saturating.\<close>

definition closure_cost :: "LayoutSet \<Rightarrow> nat \<Rightarrow> nat" where
  "closure_cost ls i =
     fold (\<lambda>t c. add_cost c (cost_of ls t)) (filter (\<lambda>t. \<not> marked ls t) (targets ls i)) (own_arms (layouts ls ! i))"

definition well_indexed :: "LayoutSet \<Rightarrow> bool" where
  "well_indexed ls \<longleftrightarrow> snd ` set (by_fqn ls) \<subseteq> {..<length (layouts ls)}"

text \<open>The pass touches two fields of a layout only.\<close>

definition unflagged :: "MessageLayout \<Rightarrow> MessageLayout" where
  "unflagged l = l\<lparr>noinline_decode := False, flatten_cost := 0\<rparr>"

definition same_graph :: "LayoutSet \<Rightarrow> LayoutSet \<Rightarrow> bool" where
  "same_graph a b \<longleftrightarrow> by_fqn a = by_fqn b \<and> map unflagged (layouts a) = map unflagged (layouts b)"

lemma unflagged_simps [simp]:
  "ml_members (unflagged l) = ml_members l" "ml_oneofs (unflagged l) = ml_oneofs l" "ml_fqn (unflagged l) = ml_fqn l"
  "ml_size (unflagged l) = ml_size l" "ml_align (unflagged l) = ml_align l" "fixed_size (unflagged l) = fixed_size l"
  by (simp_all add: unflagged_def)

lemma same_graph_refl [simp]: "same_graph a a"
  by (simp add: same_graph_def)

lemma same_graph_trans: "same_graph a b \<Longrightarrow> same_graph b c \<Longrightarrow> same_graph a c"
  by (simp add: same_graph_def)

lemma same_graph_length: "same_graph a b \<Longrightarrow> length (layouts b) = length (layouts a)"
  unfolding same_graph_def by (metis length_map)

lemma same_graph_member:
  assumes "same_graph a b" "i < length (layouts a)"
  shows "ml_members (layouts b ! i) = ml_members (layouts a ! i)" "ml_oneofs (layouts b ! i) = ml_oneofs (layouts a ! i)"
proof -
  have "unflagged (layouts b ! i) = unflagged (layouts a ! i)"
    using assms same_graph_length [OF assms(1)] unfolding same_graph_def by (metis nth_map)
  then show "ml_members (layouts b ! i) = ml_members (layouts a ! i)" "ml_oneofs (layouts b ! i) = ml_oneofs (layouts a ! i)"
    by (metis unflagged_simps(1), metis unflagged_simps(2))
qed

lemma same_graph_targets:
  assumes "same_graph a b" "i < length (layouts a)"
  shows "targets b i = targets a i" "own_arms (layouts b ! i) = own_arms (layouts a ! i)"
proof -
  have "by_fqn b = by_fqn a" using assms(1) by (simp add: same_graph_def)
  then have "add_target b = add_target a" by (simp add: fun_eq_iff add_target_def)
  moreover from this have "member_targets b = member_targets a"
    by (intro ext) (simp add: member_targets_def cong: FieldKind.case_cong option.case_cong)
  ultimately show "targets b i = targets a i" "own_arms (layouts b ! i) = own_arms (layouts a ! i)"
    using same_graph_member [OF assms]
    by (simp_all add: targets_def inlined_targets_def own_arms_def)
qed

lemma add_target_indexed: "well_indexed ls \<Longrightarrow> t \<in> set (add_target ls q) \<Longrightarrow> t < length (layouts ls)"
proof -
  assume ix: "well_indexed ls" and t: "t \<in> set (add_target ls q)"
  then have "map_of (by_fqn ls) q = Some t" by (auto simp: add_target_def split: if_splits option.splits)
  from map_of_SomeD [OF this] ix show ?thesis by (force simp: well_indexed_def)
qed

lemma targets_indexed: "well_indexed ls \<Longrightarrow> t \<in> set (targets ls i) \<Longrightarrow> t < length (layouts ls)"
proof -
  assume ix: "well_indexed ls" and t: "t \<in> set (targets ls i)"
  have "x < length (layouts ls)" if "x \<in> set (member_targets ls m)" for x m
    using that add_target_indexed [OF ix] by (cases "mp_kind m") (auto simp: member_targets_def split: option.splits)
  with t add_target_indexed [OF ix] show ?thesis by (auto simp: targets_def inlined_targets_def)
qed

section \<open>The two updates\<close>

definition mark :: "nat \<Rightarrow> LayoutSet \<Rightarrow> LayoutSet" where
  "mark t ls = ls\<lparr>layouts := (layouts ls)[t := (layouts ls ! t)\<lparr>noinline_decode := True\<rparr>]\<rparr>"

lemma map_update_same: "f x = f (xs ! i) \<Longrightarrow> map f (xs[i := x]) = map f xs"
  by (cases "i < length xs") (metis list_update_id map_update nth_map, simp add: list_update_beyond)

lemma same_graph_update:
  assumes "unflagged l = unflagged (layouts ls ! i)"
  shows "same_graph ls (ls\<lparr>layouts := (layouts ls)[i := l]\<rparr>)"
  using map_update_same [OF assms] by (simp add: same_graph_def)

lemma mark_same_graph [simp]: "same_graph ls (mark t ls)"
  unfolding mark_def by (rule same_graph_update) (simp add: unflagged_def)

lemma mark_marks:
  assumes "t < length (layouts ls)"
  shows "marked (mark t ls) u \<longleftrightarrow> u = t \<or> marked ls u" "cost_of (mark t ls) u = cost_of ls u"
  using assms by (cases "u = t"; simp add: mark_def marked_def cost_of_def)+

lemma fold_mark:
  assumes "\<forall>t \<in> set ts. t < length (layouts ls)"
  shows "same_graph ls (fold mark ts ls)" "marked (fold mark ts ls) u \<longleftrightarrow> u \<in> set ts \<or> marked ls u"
    "cost_of (fold mark ts ls) u = cost_of ls u"
proof -
  have "same_graph ls (fold mark ts ls) \<and> (marked (fold mark ts ls) u \<longleftrightarrow> u \<in> set ts \<or> marked ls u) \<and>
      cost_of (fold mark ts ls) u = cost_of ls u"
    using assms
  proof (induction ts arbitrary: ls)
    case (Cons t ts)
    have "\<forall>x \<in> set ts. x < length (layouts (mark t ls))" using Cons.prems by (simp add: mark_def)
    from Cons.IH [OF this] have IH: "same_graph (mark t ls) (fold mark ts (mark t ls))"
      "marked (fold mark ts (mark t ls)) u \<longleftrightarrow> u \<in> set ts \<or> marked (mark t ls) u"
      "cost_of (fold mark ts (mark t ls)) u = cost_of (mark t ls) u" by blast+
    have "t < length (layouts ls)" using Cons.prems by simp
    note mk = mark_marks [OF this, of u]
    from IH(2,3) same_graph_trans [OF mark_same_graph IH(1)] show ?case unfolding mk by auto
  qed simp
  then show "same_graph ls (fold mark ts ls)" "marked (fold mark ts ls) u \<longleftrightarrow> u \<in> set ts \<or> marked ls u"
    "cost_of (fold mark ts ls) u = cost_of ls u" by simp_all
qed

lemma expand_targets_eq:
  "expand_targets ts ls seen stack =
     (fold mark (filter (\<lambda>t. seen ! t = InProgress) ts) ls,
      rev (map (\<lambda>t. (t, False)) (filter (\<lambda>t. seen ! t = Unvisited) ts)) @ stack)"
  by (induction ts ls seen stack rule: expand_targets.induct) (simp_all add: mark_def)

lemma settle_same_graph: "same_graph ls (settle ls i budget)"
  unfolding settle_def Let_def by (rule same_graph_update) (simp add: unflagged_def)

lemma settle_marks:
  assumes "i < length (layouts ls)"
  shows "marked (settle ls i budget) u \<longleftrightarrow>
      marked ls u \<or> u = i \<and> budget < closure_cost ls i \<and> (\<exists>t \<in> set (targets ls i). \<not> marked ls t)"
    "cost_of (settle ls i budget) u = (if u = i then closure_cost ls i else cost_of ls u)"
proof -
  have "layouts (settle ls i budget) ! u =
      (if u = i then (layouts ls ! i)\<lparr>flatten_cost := closure_cost ls i,
         noinline_decode := marked ls i \<or> budget < closure_cost ls i \<and> (\<exists>t \<in> set (targets ls i). \<not> marked ls t)\<rparr>
       else layouts ls ! u)"
    unfolding settle_def Let_def marked_def [symmetric] cost_of_def [symmetric] targets_def [symmetric] closure_cost_def [symmetric]
    using assms by (cases "u = i"; cases "\<exists>t \<in> set (targets ls i). \<not> marked ls t") (simp_all add: filter_empty_conv)
  then show "marked (settle ls i budget) u \<longleftrightarrow>
      marked ls u \<or> u = i \<and> budget < closure_cost ls i \<and> (\<exists>t \<in> set (targets ls i). \<not> marked ls t)"
    "cost_of (settle ls i budget) u = (if u = i then closure_cost ls i else cost_of ls u)"
    by (auto simp: marked_def cost_of_def)
qed

section \<open>The invariant\<close>

definition done_ok :: "LayoutSet \<Rightarrow> nat \<Rightarrow> LayoutSet \<Rightarrow> Visit list \<Rightarrow> (nat \<Rightarrow> nat) \<Rightarrow> nat \<Rightarrow> nat \<Rightarrow> bool" where
  "done_ok ls0 budget ls seen r k u \<longleftrightarrow>
     r u < k \<and> cost_of ls u = closure_cost ls u \<and>
     (marked ls u \<or> cost_of ls u \<le> budget \<or> (\<forall>t \<in> set (targets ls0 u). marked ls t)) \<and>
     (\<forall>t \<in> set (targets ls0 u). marked ls t \<or> seen ! t = DoneVisit \<and> r t < r u)"

definition pending_ok :: "LayoutSet \<Rightarrow> LayoutSet \<Rightarrow> Visit list \<Rightarrow> (nat \<times> bool) list \<Rightarrow> nat \<Rightarrow> bool" where
  "pending_ok ls0 ls seen upper v \<longleftrightarrow>
     (v, False) \<notin> set upper \<and> (\<forall>x \<in> fst ` set upper. (v, x) \<in> (edges ls0)\<^sup>+) \<and>
     (\<forall>t \<in> set (targets ls0 v). marked ls t \<or> seen ! t = DoneVisit \<or> t \<in> fst ` set upper)"

definition mark_reason :: "LayoutSet \<Rightarrow> nat \<Rightarrow> LayoutSet \<Rightarrow> Visit list \<Rightarrow> nat \<Rightarrow> bool" where
  "mark_reason ls0 budget ls seen u \<longleftrightarrow> marked ls0 u \<or> (u, u) \<in> (edges ls0)\<^sup>+ \<or>
     seen ! u = DoneVisit \<and> budget < cost_of ls u \<and> (\<exists>t \<in> set (targets ls0 u). \<not> marked ls t)"

definition walk_inv :: "LayoutSet \<Rightarrow> nat \<Rightarrow> (nat \<times> bool) list \<Rightarrow> LayoutSet \<Rightarrow> Visit list \<Rightarrow> (nat \<Rightarrow> nat) \<Rightarrow> nat \<Rightarrow> bool" where
  "walk_inv ls0 budget stack ls seen r k \<longleftrightarrow>
     same_graph ls0 ls \<and> length seen = length (layouts ls0) \<and> fst ` set stack \<subseteq> {..<length seen} \<and>
     distinct (filter snd stack) \<and> (\<forall>i < length seen. seen ! i = InProgress \<longleftrightarrow> (i, True) \<in> set stack) \<and>
     (\<forall>upper v lower. stack = upper @ (v, True) # lower \<longrightarrow> pending_ok ls0 ls seen upper v) \<and>
     (\<forall>u < length seen. seen ! u = DoneVisit \<longrightarrow> done_ok ls0 budget ls seen r k u) \<and>
     (\<forall>u < length seen. marked ls u \<longrightarrow> mark_reason ls0 budget ls seen u)"

lemma closure_cost_frame:
  assumes "same_graph ls ls'" "u < length (layouts ls)"
    "\<And>t. t \<in> set (targets ls u) \<Longrightarrow> marked ls' t = marked ls t"
    "\<And>t. t \<in> set (targets ls u) \<Longrightarrow> \<not> marked ls t \<Longrightarrow> cost_of ls' t = cost_of ls t"
  shows "closure_cost ls' u = closure_cost ls u"
proof -
  have "filter (\<lambda>t. \<not> marked ls' t) (targets ls' u) = filter (\<lambda>t. \<not> marked ls t) (targets ls u)"
    using assms(3) by (simp add: same_graph_targets [OF assms(1,2)] cong: filter_cong)
  then show ?thesis unfolding closure_cost_def same_graph_targets(2) [OF assms(1,2)]
    using assms(4) by (auto intro!: fold_cong)
qed

text \<open>What is settled does not change: an update leaves the marks of settled and of marked messages alone.\<close>

lemma done_frame:
  assumes "done_ok ls0 budget ls seen r k u" "seen ! u = DoneVisit" "u < length (layouts ls0)" "same_graph ls0 ls" "same_graph ls ls'"
    and marks: "\<And>t. seen ! t = DoneVisit \<or> marked ls t \<Longrightarrow> marked ls' t = marked ls t"
    and kept: "\<And>t. seen ! t = DoneVisit \<Longrightarrow> cost_of ls' t = cost_of ls t \<and> r' t = r t \<and> seen' ! t = DoneVisit"
    and k: "k \<le> k'"
  shows "done_ok ls0 budget ls' seen' r' k' u"
proof -
  note d = assms(1) [unfolded done_ok_def]
  have len: "u < length (layouts ls)" using assms(3) same_graph_length [OF assms(4)] by simp
  have tg: "targets ls u = targets ls0 u" by (rule same_graph_targets [OF assms(4,3)])
  have t: "marked ls' t = marked ls t" "\<not> marked ls t \<Longrightarrow> seen ! t = DoneVisit \<and> r t < r u" if "t \<in> set (targets ls0 u)" for t
    using d that marks [of t] by blast+
  have "closure_cost ls' u = closure_cost ls u"
    by (rule closure_cost_frame [OF assms(5) len]) (use t kept in \<open>auto simp: tg\<close>)
  with d t kept marks [of u] kept [OF assms(2)] assms(2) k show ?thesis unfolding done_ok_def by auto
qed

lemma reason_frame:
  assumes "mark_reason ls0 budget ls seen u" "u < length seen" "\<And>v. v < length seen \<Longrightarrow> seen ! v = DoneVisit \<Longrightarrow> done_ok ls0 budget ls seen r k v"
    and marks: "\<And>t. seen ! t = DoneVisit \<or> marked ls t \<Longrightarrow> marked ls' t = marked ls t"
    and kept: "\<And>t. seen ! t = DoneVisit \<Longrightarrow> cost_of ls' t = cost_of ls t \<and> seen' ! t = DoneVisit"
  shows "mark_reason ls0 budget ls' seen' u"
proof -
  have "\<not> marked ls' t" if "seen ! u = DoneVisit" "t \<in> set (targets ls0 u)" "\<not> marked ls t" for t
    using assms(3) [OF assms(2) that(1)] that(2,3) marks [of t] unfolding done_ok_def by blast
  then show ?thesis using assms(1) kept unfolding mark_reason_def by fastforce
qed

section \<open>The three steps\<close>

lemma pending_pop:
  assumes "pending_ok ls0 ls seen ((i, b) # upper) v" "seen' ! i = DoneVisit"
    "\<And>t. marked ls t \<Longrightarrow> marked ls' t" "\<And>t. seen ! t = DoneVisit \<Longrightarrow> seen' ! t = DoneVisit"
  shows "pending_ok ls0 ls' seen' upper v"
  using assms unfolding pending_ok_def by auto

lemma pop_step:
  assumes inv: "walk_inv ls0 budget ((i, False) # stack) ls seen r k" and i: "seen ! i \<noteq> Unvisited"
  shows "walk_inv ls0 budget stack ls seen r k"
proof -
  note I = inv [unfolded walk_inv_def]
  have "seen ! i \<noteq> InProgress"
  proof
    assume "seen ! i = InProgress"
    then have "(i, True) \<in> set stack" using I by auto
    then obtain upper lower where "stack = upper @ (i, True) # lower" by (auto simp: in_set_conv_decomp)
    then have "pending_ok ls0 ls seen ((i, False) # upper) i" using I by simp
    then show False by (simp add: pending_ok_def)
  qed
  with i have done_i: "seen ! i = DoneVisit" by (cases "seen ! i") simp_all
  have "pending_ok ls0 ls seen upper v" if "stack = upper @ (v, True) # lower" for upper v lower
  proof (rule pending_pop [where i = i and b = False and seen = seen and ls = ls])
    show "pending_ok ls0 ls seen ((i, False) # upper) v" using I that by simp
  qed (use done_i in auto)
  then show ?thesis using I unfolding walk_inv_def by auto
qed

text \<open>A message in progress is settled when all of its targets are marked or settled.\<close>

lemma settle_frame:
  assumes li: "i < length (layouts ls)" "i < length seen" and prog: "seen ! i = InProgress"
  shows "seen ! t = DoneVisit \<or> marked ls t \<Longrightarrow> marked (settle ls i budget) t = marked ls t"
    "marked ls t \<Longrightarrow> marked (settle ls i budget) t"
    "seen ! t = DoneVisit \<Longrightarrow> cost_of (settle ls i budget) t = cost_of ls t"
    "seen ! t = DoneVisit \<Longrightarrow> t \<noteq> i" "seen ! t = DoneVisit \<Longrightarrow> seen[i := DoneVisit] ! t = DoneVisit"
  using prog li(2) by (auto simp: settle_marks [OF li(1)] nth_list_update)

lemma settle_done:
  assumes sg: "same_graph ls0 ls" and i: "i < length (layouts ls0)" "i < length seen" "seen ! i = InProgress"
    and below: "\<And>t. t \<in> set (targets ls0 i) \<Longrightarrow> marked ls t \<or> seen ! t = DoneVisit \<and> r t < k"
  shows "done_ok ls0 budget (settle ls i budget) (seen[i := DoneVisit]) (r(i := k)) (Suc k) i"
    "t \<in> set (targets ls0 i) \<Longrightarrow> marked (settle ls i budget) t = marked ls t"
proof -
  let ?ls = "settle ls i budget" and ?seen = "seen[i := DoneVisit]"
  have li: "i < length (layouts ls)" using i(1) same_graph_length [OF sg] by simp
  have tg: "targets ls i = targets ls0 i" by (rule same_graph_targets [OF sg i(1)])
  note frame = settle_frame [OF li i(2,3)]
  show tm: "marked ?ls t = marked ls t" if "t \<in> set (targets ls0 i)" for t using below [OF that] frame(1) by blast
  have cost: "closure_cost ?ls i = closure_cost ls i"
    by (rule closure_cost_frame [OF settle_same_graph li]) (use below frame(3) tm in \<open>simp_all add: tg, blast\<close>)
  have "marked ?ls t \<or> ?seen ! t = DoneVisit \<and> (r(i := k)) t < (r(i := k)) i" if t: "t \<in> set (targets ls0 i)" for t
  proof (cases "marked ls t")
    case False
    with below [OF t] have t': "seen ! t = DoneVisit" "r t < k" by simp_all
    with frame(4,5) [OF t'(1)] show ?thesis by simp
  qed (simp add: frame(2))
  moreover have "marked ?ls i \<or> cost_of ?ls i \<le> budget \<or> (\<forall>t \<in> set (targets ls0 i). marked ?ls t)"
    using tm by (auto simp: settle_marks [OF li] tg)
  ultimately show "done_ok ls0 budget ?ls ?seen (r(i := k)) (Suc k) i"
    unfolding done_ok_def by (simp add: cost settle_marks(2) [OF li])
qed

lemma settle_step:
  assumes inv: "walk_inv ls0 budget ((i, True) # stack) ls seen r k" and wi: "well_indexed ls0"
  shows "walk_inv ls0 budget stack (settle ls i budget) (seen[i := DoneVisit]) (r(i := k)) (Suc k)"
proof -
  let ?ls = "settle ls i budget" and ?seen = "seen[i := DoneVisit]"
  note I = inv [unfolded walk_inv_def]
  have sg: "same_graph ls0 ls" and i: "i < length (layouts ls0)" "i < length seen" "seen ! i = InProgress" using I by auto
  have li: "i < length (layouts ls)" using i(1) same_graph_length [OF sg] by simp
  note frame = settle_frame [OF li i(2,3)]
  have "pending_ok ls0 ls seen [] i" using I by blast
  then have "marked ls t \<or> seen ! t = DoneVisit \<and> r t < k" if "t \<in> set (targets ls0 i)" for t
    using that targets_indexed [OF wi that] I by (auto simp: pending_ok_def done_ok_def)
  note now = settle_done [OF sg i this, where budget = budget]
  have D: "done_ok ls0 budget ?ls ?seen (r(i := k)) (Suc k) u" if "u < length seen" "?seen ! u = DoneVisit" for u
  proof (cases "u = i")
    case False
    with that have "seen ! u = DoneVisit" by simp
    with that(1) I frame(3-5) show ?thesis by (intro done_frame [OF _ _ _ _ settle_same_graph frame(1)]) auto
  qed (use now(1) in simp)
  have M: "mark_reason ls0 budget ?ls ?seen u" if "u < length seen" "marked ?ls u" for u
  proof (cases "marked ls u")
    case True
    with that(1) I have "mark_reason ls0 budget ls seen u" by blast
    then show ?thesis by (rule reason_frame [where r = r and k = k]) (use that(1) I frame in auto)
  next
    case False
    with that(2) have "u = i" "budget < closure_cost ls i" "\<exists>t \<in> set (targets ls0 i). \<not> marked ls t"
      by (auto simp: settle_marks [OF li] same_graph_targets(1) [OF sg i(1)])
    with now(2) i(2) show ?thesis by (simp add: mark_reason_def settle_marks(2) [OF li])
  qed
  have P: "pending_ok ls0 ?ls ?seen upper v" if "stack = upper @ (v, True) # lower" for upper v lower
  proof (rule pending_pop [where i = i and b = True and seen = seen and ls = ls])
    show "pending_ok ls0 ls seen ((i, True) # upper) v" using I that by simp
  qed (use i(2) frame in auto)
  have rest: "length seen = length (layouts ls0)" "fst ` set stack \<subseteq> {..<length seen}" "distinct (filter snd stack)"
    "\<forall>j < length seen. ?seen ! j = InProgress \<longleftrightarrow> (j, True) \<in> set stack"
    using I i(2) by (auto simp: nth_list_update)
  show ?thesis unfolding walk_inv_def length_list_update
    using rest same_graph_trans [OF sg settle_same_graph] P D M by (intro conjI) blast+
qed

lemma split_push:
  "new @ (i, True) # stack = upper @ (v, True) # lower \<Longrightarrow> \<forall>x \<in> set new. \<not> snd x \<Longrightarrow>
     v = i \<and> upper = new \<or> (\<exists>a. upper = new @ (i, True) # a \<and> stack = a @ (v, True) # lower)"
proof (induction new arbitrary: upper)
  case Nil
  then show ?case by (cases upper) auto
next
  case (Cons x new)
  then obtain up where "upper = x # up" "new @ (i, True) # stack = up @ (v, True) # lower" by (cases upper) auto
  with Cons show ?case by auto
qed

text \<open>What an expansion pushes and what it marks.\<close>

definition pushed :: "LayoutSet \<Rightarrow> Visit list \<Rightarrow> nat \<Rightarrow> (nat \<times> bool) list" where
  "pushed ls0 seen i = rev (map (\<lambda>t. (t, False)) (filter (\<lambda>t. seen ! t = Unvisited) (targets ls0 i)))"

definition broken :: "LayoutSet \<Rightarrow> Visit list \<Rightarrow> nat \<Rightarrow> nat set" where
  "broken ls0 seen i = {t \<in> set (targets ls0 i). seen ! t = InProgress}"

lemma in_pushed: "x \<in> set (pushed ls0 seen i) \<longleftrightarrow> (\<exists>t \<in> set (targets ls0 i). seen ! t = Unvisited \<and> x = (t, False))"
  by (auto simp: pushed_def)

lemma pushed_plain: "filter snd (pushed ls0 seen i) = []"
  by (auto simp: filter_empty_conv in_pushed)

lemma target_edge: "i < length (layouts ls0) \<Longrightarrow> t \<in> set (targets ls0 i) \<Longrightarrow> (i, t) \<in> edges ls0"
  by (simp add: edges_def)

lemma expand_update:
  assumes "same_graph ls0 ls" "well_indexed ls0" "i < length (layouts ls0)" "expand (layouts ls ! i) ls seen st = (ls', st')"
  shows "st' = pushed ls0 seen i @ st" "same_graph ls ls'" "marked ls' t \<longleftrightarrow> t \<in> broken ls0 seen i \<or> marked ls t"
    "cost_of ls' t = cost_of ls t"
proof -
  define ms where "ms = filter (\<lambda>t. seen ! t = InProgress) (targets ls0 i)"
  have tg: "inlined_targets (layouts ls ! i) ls = targets ls0 i"
    using same_graph_targets(1) [OF assms(1,3)] by (simp add: targets_def)
  have ls': "ls' = fold mark ms ls" and st': "st' = pushed ls0 seen i @ st"
    using assms(4) by (auto simp: expand_def expand_targets_eq tg pushed_def ms_def)
  have "\<forall>t \<in> set ms. t < length (layouts ls)"
    using targets_indexed [OF assms(2)] same_graph_length [OF assms(1)] by (auto simp: ms_def)
  note fm = fold_mark [OF this, folded ls']
  show "st' = pushed ls0 seen i @ st" "same_graph ls ls'" "cost_of ls' t = cost_of ls t" by (fact st' fm)+
  show "marked ls' t \<longleftrightarrow> t \<in> broken ls0 seen i \<or> marked ls t" by (simp add: fm(2) ms_def broken_def)
qed

lemma expand_pending:
  assumes st: "pushed ls0 seen' i @ (i, True) # stack = upper @ (v, True) # lower"
    and pend: "\<And>upper. stack = upper @ (v, True) # lower \<Longrightarrow> pending_ok ls0 ls seen ((i, False) # upper) v \<and> seen' ! v = InProgress"
    and i: "seen' ! i = InProgress" "i < length (layouts ls0)"
    and old: "\<And>t. seen ! t = DoneVisit \<Longrightarrow> seen' ! t = DoneVisit"
    and marks: "\<And>t. marked ls' t \<longleftrightarrow> t \<in> broken ls0 seen' i \<or> marked ls t"
  shows "pending_ok ls0 ls' seen' upper v"
proof -
  have "\<forall>x \<in> set (pushed ls0 seen' i). \<not> snd x" by (auto simp: in_pushed)
  from split_push [OF st this] show ?thesis
  proof
    assume top: "v = i \<and> upper = pushed ls0 seen' i"
    have "marked ls' t \<or> seen' ! t = DoneVisit \<or> t \<in> fst ` set (pushed ls0 seen' i)" if "t \<in> set (targets ls0 i)" for t
      using that by (cases "seen' ! t") (force simp: marks broken_def in_pushed)+
    with top i target_edge show ?thesis by (auto simp: pending_ok_def in_pushed)
  next
    assume "\<exists>a. upper = pushed ls0 seen' i @ (i, True) # a \<and> stack = a @ (v, True) # lower"
    then obtain a where a: "upper = pushed ls0 seen' i @ (i, True) # a" "stack = a @ (v, True) # lower" by blast
    from pend [OF a(2)] have b: "pending_ok ls0 ls seen ((i, False) # a) v" "seen' ! v = InProgress" by simp_all
    have vi: "(v, i) \<in> (edges ls0)\<^sup>+" using b(1) by (simp add: pending_ok_def)
    then have "(v, x) \<in> (edges ls0)\<^sup>+" if "x \<in> fst ` set (pushed ls0 seen' i)" for x
      using that target_edge [OF i(2)] by (auto simp: in_pushed intro: trancl_into_trancl)
    moreover have "(v, False) \<notin> set (pushed ls0 seen' i)" using b(2) by (auto simp: in_pushed)
    moreover have "marked ls' t \<or> seen' ! t = DoneVisit \<or> t \<in> fst ` set upper" if "t \<in> set (targets ls0 v)" for t
      using b(1) that old [of t] by (auto simp: pending_ok_def marks a(1))
    ultimately show ?thesis using b(1) vi by (auto simp: pending_ok_def a(1))
  qed
qed

lemma broken_cycle:
  assumes inv: "walk_inv ls0 budget ((i, False) # stack) ls seen r k" and i: "i < length (layouts ls0)"
    and u: "u \<in> broken ls0 (seen[i := InProgress]) i" "u < length seen"
  shows "(u, u) \<in> (edges ls0)\<^sup>+"
proof -
  note I = inv [unfolded walk_inv_def]
  have e: "(i, u) \<in> edges ls0" using u(1) by (intro target_edge [OF i]) (simp add: broken_def)
  show ?thesis
  proof (cases "u = i")
    case True
    with e show ?thesis by auto
  next
    case False
    with u have "(u, True) \<in> set stack" using I by (auto simp: broken_def)
    then obtain a lower where "stack = a @ (u, True) # lower" by (auto simp: in_set_conv_decomp)
    then have "pending_ok ls0 ls seen ((i, False) # a) u" using I by simp
    with e show ?thesis by (auto simp: pending_ok_def intro: trancl_into_trancl)
  qed
qed

lemma expand_step:
  assumes inv: "walk_inv ls0 budget ((i, False) # stack) ls seen r k" and wi: "well_indexed ls0"
    and i: "i < length seen" "seen ! i = Unvisited"
    and ex: "expand (layouts ls ! i) ls (seen[i := InProgress]) ((i, True) # stack) = (ls', stack')"
  shows "walk_inv ls0 budget stack' ls' (seen[i := InProgress]) r k"
proof -
  let ?seen = "seen[i := InProgress]"
  note I = inv [unfolded walk_inv_def]
  have sg: "same_graph ls0 ls" and len: "length seen = length (layouts ls0)" and il: "i < length (layouts ls0)" using I i by auto
  note up = expand_update [OF sg wi il ex]
  have old: "seen ! t = DoneVisit \<Longrightarrow> ?seen ! t = DoneVisit" for t using i by (cases "t = i") auto
  have marks: "marked ls' t = marked ls t" if "seen ! t = DoneVisit \<or> marked ls t" for t
    using that old [of t] by (auto simp: up(3) broken_def)
  have kept: "cost_of ls' t = cost_of ls t \<and> r t = r t \<and> ?seen ! t = DoneVisit" if "seen ! t = DoneVisit" for t
    using old [OF that] by (simp add: up(4))
  have P: "pending_ok ls0 ls' ?seen upper v" if "stack' = upper @ (v, True) # lower" for upper v lower
    by (rule expand_pending [where seen = seen and ls = ls and i = i and stack = stack and lower = lower])
      (use that up I i il old in \<open>auto simp: nth_list_update\<close>)
  have D: "done_ok ls0 budget ls' ?seen r k u" if "u < length seen" "?seen ! u = DoneVisit" for u
  proof -
    have "seen ! u = DoneVisit" using that i by (cases "u = i") auto
    then show ?thesis using that(1) I len by (intro done_frame [OF _ _ _ sg up(2) marks kept]) auto
  qed
  have M: "mark_reason ls0 budget ls' ?seen u" if "u < length seen" "marked ls' u" for u
  proof (cases "marked ls u")
    case True
    with that(1) I have "mark_reason ls0 budget ls seen u" by blast
    then show ?thesis by (rule reason_frame [where r = r and k = k]) (use that(1) I marks kept in auto)
  qed (use that broken_cycle [OF inv il] up(3) in \<open>auto simp: mark_reason_def\<close>)
  have rest: "fst ` set stack' \<subseteq> {..<length seen}" "distinct (filter snd stack')"
    "\<forall>j < length seen. ?seen ! j = InProgress \<longleftrightarrow> (j, True) \<in> set stack'"
    using I i targets_indexed [OF wi] len by (auto simp: up(1) in_pushed pushed_plain nth_list_update)
  show ?thesis unfolding walk_inv_def length_list_update
    using len rest same_graph_trans [OF sg up(2)] P D M by (intro conjI) blast+
qed

section \<open>The walk\<close>

lemma loop_inv:
  "walk_inv ls0 budget stack ls seen r k \<Longrightarrow> well_indexed ls0 \<Longrightarrow> flatten_loop budget stack ls seen = (ls', seen') \<Longrightarrow>
     \<exists>r k. walk_inv ls0 budget [] ls' seen' r k"
proof (induction budget stack ls seen arbitrary: r k rule: flatten_loop.induct)
  case (1 budget ls seen)
  then show ?case by auto
next
  case (2 budget i settled stack ls seen)
  show ?case
  proof (cases settled)
    case True
    then show ?thesis using 2(1) [OF True settle_step [OF _ 2(5)] 2(5)] 2(4,6) by simp
  next
    case False
    show ?thesis
    proof (cases "i < length seen \<and> seen ! i = Unvisited")
      case True
      obtain ls1 stack1 where ex: "expand (layouts ls ! i) ls (seen[i := InProgress]) ((i, True) # stack) = (ls1, stack1)"
        by (rule prod.exhaust)
      have "walk_inv ls0 budget stack1 ls1 (seen[i := InProgress]) r k"
        using expand_step [OF _ 2(5) _ _ ex] 2(4) True False by simp
      with 2(2) [OF False True refl ex [symmetric] refl _ 2(5)] 2(6) False True ex show ?thesis by simp
    next
      case seen_i: False
      have "i < length seen" using 2(4) by (auto simp: walk_inv_def)
      with seen_i have "walk_inv ls0 budget stack ls seen r k" using pop_step 2(4) False by auto
      with 2(3) [OF False seen_i _ 2(5)] 2(6) False seen_i show ?thesis by simp
    qed
  qed
qed

lemma loop_visits: "flatten_loop budget stack ls seen = (ls', seen') \<Longrightarrow> seen ! j \<noteq> Unvisited \<Longrightarrow> j < length seen \<Longrightarrow>
     seen' ! j \<noteq> Unvisited"
proof (induction budget stack ls seen rule: flatten_loop.induct)
  case (2 budget i settled stack ls seen)
  have upd: "seen[i := v] ! j \<noteq> Unvisited" if "v \<noteq> Unvisited" for v using that 2(5,6) by (cases "i = j") simp_all
  obtain ls1 stack1 where ex: "expand (layouts ls ! i) ls (seen[i := InProgress]) ((i, True) # stack) = (ls1, stack1)"
    by (rule prod.exhaust)
  consider settled | "\<not> settled" "i < length seen \<and> seen ! i = Unvisited" | "\<not> settled" "\<not> (i < length seen \<and> seen ! i = Unvisited)"
    by blast
  then show ?case
  proof cases
    case 1
    with 2(1) [OF 1 _ upd] 2(4,6) show ?thesis by simp
  next
    case c: 2
    with 2(2) [OF c refl ex [symmetric] refl _ upd] 2(4,6) ex show ?thesis by simp
  next
    case 3
    with 2(3) [OF 3] 2(4-6) show ?thesis by simp
  qed
qed simp

lemma loop_root:
  assumes "flatten_loop budget [(j, False)] ls seen = (ls', seen')" "j < length seen"
  shows "seen' ! j \<noteq> Unvisited"
proof (cases "seen ! j = Unvisited")
  case True
  obtain ls1 stack1 where "expand (layouts ls ! j) ls (seen[j := InProgress]) [(j, True)] = (ls1, stack1)" by (rule prod.exhaust)
  with assms True show ?thesis using loop_visits [of budget stack1 ls1 "seen[j := InProgress]" ls' seen' j] by simp
qed (use assms loop_visits in blast)

lemma idle_start: "walk_inv ls0 budget [] ls seen r k \<Longrightarrow> j < length seen \<Longrightarrow> walk_inv ls0 budget [(j, False)] ls seen r k"
  by (auto simp: walk_inv_def Cons_eq_append_conv)

lemma roots_inv:
  "walk_inv ls0 budget [] ls seen r k \<Longrightarrow> well_indexed ls0 \<Longrightarrow> flatten_roots budget roots ls seen = (ls', seen') \<Longrightarrow>
     set roots \<subseteq> {..<length seen} \<Longrightarrow>
     (\<exists>r k. walk_inv ls0 budget [] ls' seen' r k) \<and> (\<forall>j < length seen. j \<in> set roots \<or> seen ! j \<noteq> Unvisited \<longrightarrow> seen' ! j \<noteq> Unvisited)"
proof (induction budget roots ls seen arbitrary: r k rule: flatten_roots.induct)
  case (1 budget ls seen)
  then show ?case by auto
next
  case (2 budget root roots ls seen)
  show ?case
  proof (cases "seen ! root = Unvisited")
    case False
    with 2(1) [OF False 2(3,4)] 2(5,6) show ?thesis by auto
  next
    case True
    obtain ls1 seen1 where l: "flatten_loop budget [(root, False)] ls seen = (ls1, seen1)" by (rule prod.exhaust)
    have root: "root < length seen" using 2(6) by simp
    obtain r1 k1 where inv: "walk_inv ls0 budget [] ls1 seen1 r1 k1" using loop_inv [OF idle_start [OF 2(3) root] 2(4) l] by blast
    have len: "length seen1 = length seen" using inv 2(3) by (simp add: walk_inv_def)
    have tail: "flatten_roots budget roots ls1 seen1 = (ls', seen')" using 2(5) True l by simp
    have "\<not> seen ! root \<noteq> Unvisited" using True by simp
    from 2(2) [OF this l [symmetric] inv 2(4) tail] 2(6) len loop_root [OF l root] loop_visits [OF l]
    show ?thesis by auto
  qed
qed

lemma flatten_final:
  assumes "well_indexed ls" "0 < budget"
  obtains seen r k where "walk_inv ls budget [] (apply_flatten_budget ls budget) seen r k"
    "\<And>j. j < length (layouts ls) \<Longrightarrow> seen ! j = DoneVisit"
proof -
  let ?n = "length (layouts ls)"
  obtain ls' seen where fr: "flatten_roots budget [0..<?n] ls (replicate ?n Unvisited) = (ls', seen)" by (rule prod.exhaust)
  have "walk_inv ls budget [] ls (replicate ?n Unvisited) (\<lambda>_. 0) 0" by (auto simp: walk_inv_def mark_reason_def)
  from roots_inv [OF this assms(1) fr] obtain r k where inv: "walk_inv ls budget [] ls' seen r k"
    and vis: "\<forall>j < ?n. seen ! j \<noteq> Unvisited" by (auto simp: atLeast0LessThan)
  have "seen ! j = DoneVisit" if "j < ?n" for j
    using inv vis that by (cases "seen ! j") (auto simp: walk_inv_def)
  with inv show ?thesis using assms(2) fr by (intro that [of seen r k]) (auto simp: apply_flatten_budget_def)
qed

lemma rank_acyclic:
  assumes "\<And>u v. (u, v) \<in> R \<Longrightarrow> (r v :: nat) < r u"
  shows "acyclic R"
proof -
  have "R\<inverse> \<subseteq> measure r" using assms by auto
  then have "acyclic (R\<inverse>)" using wf_measure wf_subset wf_acyclic by blast
  then show ?thesis by simp
qed

lemma flatten_spec:
  assumes "well_indexed ls" "0 < budget" and ls': "ls' = apply_flatten_budget ls budget"
  shows "same_graph ls ls'" "acyclic {(u, v) \<in> edges ls'. \<not> marked ls' v}"
    "u < length (layouts ls) \<Longrightarrow> cost_of ls' u = closure_cost ls' u"
    "u < length (layouts ls) \<Longrightarrow> marked ls' u \<or> cost_of ls' u \<le> budget \<or> (\<forall>t \<in> set (targets ls' u). marked ls' t)"
    "u < length (layouts ls) \<Longrightarrow> marked ls' u \<Longrightarrow> marked ls u \<or> (u, u) \<in> (edges ls')\<^sup>+ \<or>
       budget < cost_of ls' u \<and> (\<exists>t \<in> set (targets ls' u). \<not> marked ls' t)"
proof -
  obtain seen r k where inv: "walk_inv ls budget [] ls' seen r k" and d: "\<And>j. j < length (layouts ls) \<Longrightarrow> seen ! j = DoneVisit"
    unfolding ls' by (rule flatten_final [OF assms(1,2)]) blast
  note I = inv [unfolded walk_inv_def]
  show sg: "same_graph ls ls'" using I by blast
  have tg: "targets ls' u = targets ls u" if "u < length (layouts ls)" for u by (rule same_graph_targets [OF sg that])
  have ed: "edges ls' = edges ls" using tg same_graph_length [OF sg] by (auto simp: edges_def)
  have ok: "done_ok ls budget ls' seen r k u" if "u < length (layouts ls)" for u using I d that by simp
  show "acyclic {(u, v) \<in> edges ls'. \<not> marked ls' v}"
  proof (rule rank_acyclic [where r = r])
    fix u v assume "(u, v) \<in> {(u, v) \<in> edges ls'. \<not> marked ls' v}"
    then have "u < length (layouts ls)" "v \<in> set (targets ls u)" "\<not> marked ls' v"
      unfolding ed by (auto simp: edges_def)
    with ok show "r v < r u" by (auto simp: done_ok_def)
  qed
  show "u < length (layouts ls) \<Longrightarrow> cost_of ls' u = closure_cost ls' u"
    "u < length (layouts ls) \<Longrightarrow> marked ls' u \<or> cost_of ls' u \<le> budget \<or> (\<forall>t \<in> set (targets ls' u). marked ls' t)"
    using ok [of u] tg [of u] by (auto simp: done_ok_def)
  show "u < length (layouts ls) \<Longrightarrow> marked ls' u \<Longrightarrow> marked ls u \<or> (u, u) \<in> (edges ls')\<^sup>+ \<or>
       budget < cost_of ls' u \<and> (\<exists>t \<in> set (targets ls' u). \<not> marked ls' t)"
    using I tg [of u] by (auto simp: mark_reason_def ed)
qed

end
