(* ===== verification/Layout_Total.thy ===== *)
theory Layout_Total
  imports Layout_Plan Schema_Facts Flatten_Correct
begin

text \<open>
  Planning a whole file set. On the output of the analysis no assertion of the planner fails and its
  levels suffice; the layouts come in the order of the messages, are valid, and what one of them
  stores by value is what the other plans.
\<close>

section \<open>Analysed messages are known\<close>

lemma scalar_known: "is_scalar_type t \<Longrightarrow> t = ''string'' \<or> t = ''bytes'' \<or> scalar_info t \<noteq> None"
  by (auto simp: is_scalar_type_def scalar_info_def)

lemma typed_field_known: "typed_field tab f \<Longrightarrow> known_field f"
  using scalar_known [of "type_name f"] SymbolKind.exhaust by (auto simp: typed_field_def known_field_def is_string_field_def)

lemma typed_map_known: "typed_map tab f \<Longrightarrow> known_map f"
  using scalar_known [of "key_type f"] scalar_known [of "value_type f"]
    SymbolKind.exhaust by (auto simp: typed_map_def known_map_def is_valid_map_key_type_def)

lemma typed_tree_known: "typed_message tab m \<Longrightarrow> n \<in> set (tree_messages m) \<Longrightarrow> own_known (msg_data n)"
proof (induction m rule: tree_messages.induct)
  case (1 d ns)
  show ?case
  proof (cases "n = MessageNode d ns")
    case True
    with 1(2) show ?thesis
      by (auto simp: typed_message_node own_known_def elim!: list.pred_mono_strong intro: typed_field_known typed_map_known)
  next
    case False
    with 1 show ?thesis by (auto simp: typed_message_node list_all_iff)
  qed
qed

lemma message_at_tree: "message_at ms p = Some m \<Longrightarrow> \<exists>t \<in> set ms. m \<in> set (tree_messages t)"
proof (induction ms p rule: message_at.induct)
  case (2 ms i)
  then show ?case using tree_messages_self by (auto split: if_splits intro!: bexI [of _ "ms ! i"])
next
  case (3 ms i j p)
  then obtain t where t: "i < length ms" "t \<in> set (nested_messages (ms ! i))" "m \<in> set (tree_messages t)"
    by (auto split: if_splits)
  then have "m \<in> set (tree_messages (ms ! i))" by (cases "ms ! i") auto
  with t(1) show ?case by (intro bexI [of _ "ms ! i"]) simp_all
qed simp

definition index_of_set :: "ResolvedFileSet \<Rightarrow> SymbolTable \<Rightarrow> Index" where
  "index_of_set fset tab = \<lparr>ix_files = files fset, ix_table = tab\<rparr>"

lemma analyzed_index:
  assumes "analyze fset0 = Inr (fset, tab)"
  shows "index_ok (index_of_set fset tab)"
    and "m \<in> set (set_messages (files fset)) \<Longrightarrow> index_find (index_of_set fset tab) (node_fqn m) \<noteq> None"
    and "index_find (index_of_set fset tab) q \<noteq> None \<Longrightarrow> q \<in> node_fqn ` set (set_messages (files fset))"
proof -
  note facts = analyze_facts [OF assms]
  have found: "node_fqn m = q \<and> m \<in> set (set_messages (files fset))"
    if "index_find (index_of_set fset tab) q = Some (r, m)" for q r m
  proof -
    from that have r: "messages tab q = Some r" "m = message_of (files fset) r" by (auto simp: index_find_def index_of_set_def)
    obtain fi path where fp: "r = (fi, path)" by (rule prod.exhaust)
    from facts(3) [OF r(1)] fp obtain m' where m': "fi < length (files fset)"
      "message_at (file_messages (files fset ! fi)) path = Some m'" "node_fqn m' = q" by (auto simp: designates_def)
    then have "m = m'" by (simp add: r(2) fp message_of_def)
    moreover have "m' \<in> set (set_messages (files fset))"
      using message_at_tree [OF m'(2)] m'(1) by (auto simp: set_messages_def in_set_conv_nth [of _ "files fset"]) (metis nth_mem)
    ultimately show ?thesis using m'(3) by simp
  qed
  have "own_known (msg_data m)" if "m \<in> set (set_messages (files fset))" for m
    using that facts(1) by (auto simp: set_messages_def list_all_iff typed_file_def intro: typed_tree_known)
  with found show "index_ok (index_of_set fset tab)" unfolding index_ok_def by blast
  show "index_find (index_of_set fset tab) (node_fqn m) \<noteq> None" if "m \<in> set (set_messages (files fset))"
    using facts(4) [OF that] facts(2) by (simp add: index_find_def index_of_set_def)
  show "q \<in> node_fqn ` set (set_messages (files fset))" if "index_find (index_of_set fset tab) q \<noteq> None"
    using that found by fastforce
qed

section \<open>The walk\<close>

definition walked :: "LayoutSet \<Rightarrow> memo \<Rightarrow> string list \<Rightarrow> bool" where
  "walked ls memo names \<longleftrightarrow> list_all2 (\<lambda>l q. map_of memo q = Some l) (layouts ls) names \<and>
     by_fqn ls = zip names [0..<length names]"

lemma stable_walked: "stable opts (\<lambda>memo. walked ls memo names)"
  by (auto simp: stable_def walked_def intro: list_all2_mono grows_map_of)

lemma walked_snoc:
  assumes "walked ls memo names" "map_of memo q = Some l" "q \<notin> set names"
  shows "walked (ls\<lparr>by_fqn := (if map_of (by_fqn ls) q = None then by_fqn ls @ [(q, length (layouts ls))] else by_fqn ls),
     layouts := layouts ls @ [l]\<rparr>) memo (names @ [q])"
proof -
  have len: "length (layouts ls) = length names" using assms(1) by (auto simp: walked_def dest: list_all2_lengthD)
  have "map_of (by_fqn ls) q = None" using assms(1,3) by (auto simp: walked_def map_of_eq_None_iff dest: set_zip_leftD)
  then show ?thesis using assms(1,2) len by (simp add: walked_def list_all2_appendI)
qed

definition planner_ok :: "string set \<Rightarrow> LayoutOptions \<Rightarrow> string set \<Rightarrow> (string \<Rightarrow> MessageLayout plan) \<Rightarrow> bool" where
  "planner_ok K opts Q planner \<longleftrightarrow>
     (\<forall>q \<in> Q. step_ok K opts [] (\<lambda>_. True) (planner q) (\<lambda>l memo. map_of memo q = Some l))"

lemma walk_ok:
  "planner_ok K opts Q planner \<Longrightarrow> set (map node_fqn (tree_messages m)) \<subseteq> Q \<Longrightarrow>
     distinct (names @ map node_fqn (tree_messages m)) \<Longrightarrow>
     step_ok K opts [] (\<lambda>memo. walked ls memo names) (walk_message planner m ls)
       (\<lambda>ls' memo. walked ls' memo (names @ map node_fqn (tree_messages m)))"
  "planner_ok K opts Q planner \<Longrightarrow> set (map node_fqn (concat (map tree_messages ms))) \<subseteq> Q \<Longrightarrow>
     distinct (names @ map node_fqn (concat (map tree_messages ms))) \<Longrightarrow>
     step_ok K opts [] (\<lambda>memo. walked ls memo names) (walk_messages planner ms ls)
       (\<lambda>ls' memo. walked ls' memo (names @ map node_fqn (concat (map tree_messages ms))))"
proof (induction planner m ls and planner ms ls arbitrary: names and names rule: walk_message_walk_messages.induct)
  case (1 planner d ns ls)
  let ?q = "msg_fqn d" and ?rest = "map node_fqn (concat (map tree_messages ns))"
  let ?add = "\<lambda>l. ls\<lparr>by_fqn := (if map_of (by_fqn ls) ?q = None then by_fqn ls @ [(?q, length (layouts ls))] else by_fqn ls),
      layouts := layouts ls @ [l]\<rparr>"
  have q: "?q \<in> Q" "?q \<notin> set names" "set ?rest \<subseteq> Q" "distinct ((names @ [?q]) @ ?rest)" using 1(3,4) by auto
  have p: "step_ok K opts [] (\<lambda>memo. walked ls memo names) (planner ?q) (\<lambda>l memo. map_of memo ?q = Some l \<and> walked ls memo names)"
    by (rule step_weaken [OF step_frame [OF _ stable_walked]]) (use 1(2) q(1) in \<open>auto simp: planner_ok_def\<close>)
  have "step_ok K opts [] (\<lambda>memo. map_of memo ?q = Some l \<and> walked ls memo names) (walk_messages planner ns (?add l))
      (\<lambda>ls' memo. walked ls' memo ((names @ [?q]) @ ?rest))" for l
    by (rule step_weaken [OF 1(1) [OF 1(2) q(3,4)]]) (use walked_snoc q(2) in blast)+
  from step_bind [OF p this] show ?case by simp
next
  case (2 planner ls)
  then show ?case by (auto intro: step_return)
next
  case (3 planner m ms ls)
  let ?f = "map node_fqn (tree_messages m)" and ?r = "map node_fqn (concat (map tree_messages ms))"
  have s: "set ?f \<subseteq> Q" "distinct (names @ ?f)" "set ?r \<subseteq> Q" "distinct ((names @ ?f) @ ?r)" using 3(4,5) by auto
  from step_bind [OF 3(1) [OF 3(3) s(1,2)] 3(2) [OF 3(3) s(3,4)]] show ?case by simp
qed

section \<open>All layouts\<close>

lemma list_all2_map_of: "list_all2 (\<lambda>l q. map_of memo q = Some l) ls names \<Longrightarrow> l \<in> set ls \<Longrightarrow> \<exists>q. map_of memo q = Some l"
  by (induction rule: list_all2_induct) auto

lemma walked_find:
  assumes "walked ls memo names" "distinct names" "map_of memo q = Some l" "q \<in> set names"
  shows "layout_set_find ls q = Some l"
proof -
  obtain i where i: "i < length names" "names ! i = q" using assms(4) by (auto simp: in_set_conv_nth)
  have "(q, i) \<in> set (zip names [0..<length names])" using i by (auto simp: set_zip)
  then have "map_of (by_fqn ls) q = Some i" using assms(1,2) by (simp add: walked_def)
  moreover have "layouts ls ! i = l" using assms(1,3) i by (auto simp: walked_def list_all2_conv_all_nth)
  ultimately show ?thesis by (simp add: layout_set_find_def)
qed

lemma walk_files_ok:
  assumes "analyze fset0 = Inr (fset, tab)" "modes_valid opts"
  obtains ls memo where "walk_files fset tab opts = Inr ls" "memo_ok opts memo"
    "walked ls memo (map node_fqn (set_messages (files fset)))"
    "\<And>q. q \<in> fst ` set memo \<Longrightarrow> q \<in> node_fqn ` set (set_messages (files fset))"
proof -
  let ?ix = "index_of_set fset tab" and ?names = "map node_fqn (set_messages (files fset))"
  let ?K = "set ?names" and ?st = "\<lparr>m_memo = [], m_visiting = []\<rparr>"
  have K: "q \<in> ?K" if "index_find ?ix q \<noteq> None" for q using analyzed_index(3) [OF assms(1) that] by simp
  have "planner_ok ?K opts ?K (layout_for (Suc kMaxChainDepth) ?ix opts)"
    unfolding planner_ok_def using analyzed_index(1,2) [OF assms(1)] assms(2) K
    by (auto intro!: layout_for_ok simp: kMaxChainDepth_def)
  from walk_ok(2) [OF this, of "concat (map file_messages (files fset))" "[]"] analyze_facts(5) [OF assms(1)]
  have "step_ok ?K opts [] (\<lambda>memo. walked empty_set memo [])
      (walk_messages (layout_for (Suc kMaxChainDepth) ?ix opts) (concat (map file_messages (files fset))) empty_set)
      (\<lambda>ls memo. walked ls memo ?names)" by (simp add: set_messages_def)
  moreover have "state_ok ?K opts [] ?st" "walked empty_set (m_memo ?st) []"
    by (simp_all add: state_ok_def walked_def empty_set_def)
  ultimately obtain ls st where
    w: "walk_messages (layout_for (Suc kMaxChainDepth) ?ix opts) (concat (map file_messages (files fset))) empty_set ?st = Inr (ls, st)"
      "state_ok ?K opts [] st" "walked ls (m_memo st) ?names"
    unfolding step_ok_def by blast
  have "walk_files fset tab opts = Inr ls" using w(1) by (simp add: walk_files_def index_of_set_def)
  moreover have "memo_ok opts (m_memo st)" "fst ` set (m_memo st) \<subseteq> ?K" using w(2) by (simp_all add: state_ok_def)
  ultimately show ?thesis using w(3) by (intro that [of ls "m_memo st"]) auto
qed

text \<open>What a layout stores by value.\<close>

definition by_value :: "MessageLayout \<Rightarrow> string set" where
  "by_value l = {target_fqn m | m. m \<in> set (ml_members l) \<and> mp_kind m = InlineFixedSubMsg} \<union>
     {om_target m | oo m. oo \<in> set (ml_oneofs l) \<and> m \<in> set (op_members oo) \<and> om_kind m = InlineFixedSubMsg}"

lemma linked_by_value: "linked opts memo l \<Longrightarrow> t \<in> by_value l \<Longrightarrow> t \<in> fst ` set memo"
  by (auto simp: by_value_def linked_def member_linked_def oneof_linked_def inlined_ok_def list_all_iff)
    (force dest: map_of_SomeD)+

text \<open>Layouts are ranked by when they were finished.\<close>

definition rank :: "memo \<Rightarrow> string \<Rightarrow> nat" where
  "rank memo q = length (dropWhile (\<lambda>x. fst x \<noteq> q) memo)"

lemma rank_le: "rank memo q \<le> length memo"
  by (simp add: rank_def length_dropWhile_le)

lemma memo_by_value: "memo_ok opts memo \<Longrightarrow> (q, l) \<in> set memo \<Longrightarrow> t \<in> by_value l \<Longrightarrow> t \<in> fst ` set memo"
proof (induction opts memo rule: memo_ok.induct)
  case (2 opts q1 l1 r1)
  then show ?case using linked_by_value [of opts r1 l1 t] by auto
qed simp

lemma rank_by_value: "memo_ok opts memo \<Longrightarrow> (q, l) \<in> set memo \<Longrightarrow> t \<in> by_value l \<Longrightarrow> rank memo t < rank memo q"
proof (induction opts memo rule: memo_ok.induct)
  case (2 opts q0 l0 rest)
  have cons: "rank ((q0, l0) # rest) x = (if x = q0 then Suc (length rest) else rank rest x)" for x by (simp add: rank_def)
  from 2(2) have ok: "q0 \<notin> fst ` set rest" "linked opts rest l0" "memo_ok opts rest" by simp_all
  show ?case
  proof (cases "(q, l) = (q0, l0)")
    case True
    with linked_by_value [OF ok(2)] 2(4) ok(1) have "t \<noteq> q0" by blast
    with True rank_le [of rest t] show ?thesis by (simp add: cons)
  next
    case False
    with 2(3) have ql: "(q, l) \<in> set rest" by auto
    then have "q \<noteq> q0" using ok(1) by (metis fst_conv image_eqI)
    moreover have "t \<noteq> q0" using memo_by_value [OF ok(3) ql 2(4)] ok(1) by blast
    ultimately show ?thesis using 2(1) [OF ok(3) ql 2(4)] by (simp add: cons)
  qed
qed simp

section \<open>The profile never keeps a map raw\<close>

lemma fold_err_inv:
  assumes "\<And>x st st'. f x st = Inr st' \<Longrightarrow> P st \<Longrightarrow> P st'"
  shows "fold_err f xs st = Inr st' \<Longrightarrow> P st \<Longrightarrow> P st'"
  by (induction xs arbitrary: st) (auto split: sum.splits intro: assms)

abbreviation no_raw :: "(NodeRef \<times> FieldMode) list \<Rightarrow> bool" where
  "no_raw tab \<equiv> RawMode \<notin> snd ` set tab"

lemma note_entry_map_modes [simp]: "map_modes (note_entry e q s) = map_modes s"
  by (simp add: note_entry_def Let_def)

lemma field_entry_map: "field_entry_error e (HitMap i f) = None \<Longrightarrow> me_mode e \<noteq> RawMode"
  by (auto simp: field_entry_error_def split: if_splits)

lemma apply_entry_no_raw:
  assumes "apply_entry fs tab e sel = Inr sel'" "no_raw (map_modes sel)"
  shows "no_raw (map_modes sel')"
proof (cases "messages tab (normalize_name (me_name e)) \<noteq> None \<or> enums tab (normalize_name (me_name e)) \<noteq> None")
  case True
  with assms(1) have "map_modes sel' = map_modes sel"
    unfolding apply_entry_def Let_def by (simp split: if_splits sum.splits) (auto simp: emplace_mode_def)
  with assms(2) show ?thesis by simp
next
  case False
  obtain r hit where hit: "find_field_by_fqn fs tab (normalize_name (me_name e)) = (r, hit)" by (rule prod.exhaust)
  have ne: "me_name e \<noteq> []" "me_mode e \<noteq> Materialize" "hit \<noteq> NoHit" "field_entry_error e hit = None"
    using assms(1) False by (simp_all add: apply_entry_def Let_def hit split: if_splits option.splits)
  have eq: "apply_entry fs tab e sel =
      (case hit of
         HitMap i _ \<Rightarrow>
           (case emplace_mode (r, i) (me_mode e) (map_modes sel) of
              Inl old \<Rightarrow> if old \<noteq> me_mode e then Inl (conflict e (normalize_name (me_name e)) sel old) else Inr sel
            | Inr tm \<Rightarrow> Inr (note_entry e (normalize_name (me_name e)) (sel\<lparr>map_modes := tm\<rparr>)))
       | HitField i _ \<Rightarrow>
           (case emplace_mode (r, i) (me_mode e) (field_modes sel) of
              Inl old \<Rightarrow> if old \<noteq> me_mode e then Inl (conflict e (normalize_name (me_name e)) sel old) else Inr sel
            | Inr tm \<Rightarrow> Inr (note_entry e (normalize_name (me_name e)) (sel\<lparr>field_modes := tm\<rparr>)))
       | _ \<Rightarrow> Inr sel)"
    by (simp only: apply_entry_def Let_def hit False ne prod.case if_False option.case simp_thms)
  show ?thesis
  proof (cases hit)
    case (HitMap i f)
    with ne(4) have "me_mode e \<noteq> RawMode" by (simp add: field_entry_map)
    with assms HitMap show ?thesis unfolding eq by (auto simp: emplace_mode_def split: if_splits option.splits)
  next
    case (HitField i f)
    with assms show ?thesis unfolding eq by (auto simp: emplace_mode_def split: if_splits option.splits)
  qed (use assms eq in simp_all)
qed

lemma traverse_inv: "(\<And>r m st. P st \<Longrightarrow> P (fn r m st)) \<Longrightarrow> P st \<Longrightarrow> P (traverse fn stack st)"
  by (induction fn stack st rule: traverse.induct) auto

lemma for_each_inv:
  assumes "\<And>r m st. P st \<Longrightarrow> P (fn r m st)"
  shows "P st \<Longrightarrow> P (for_each_message fs fn st)"
  unfolding for_each_message_def
  by (rule fold_invariant [where Q = "\<lambda>_. True"]) (auto intro: traverse_inv assms split: prod.splits)

lemma no_raw_assign: "no_raw tab \<Longrightarrow> mode \<noteq> RawMode \<Longrightarrow> no_raw (assign k mode tab)"
  by (auto simp: assign_def)

lemma apply_map_no_raw:
  assumes "no_raw (map_modes sel)" "no_raw (fm_maps fm)"
  shows "no_raw (fm_maps (apply_map sel r x fm))"
proof -
  have "mode \<noteq> RawMode" if "map_of (map_modes sel) k = Some mode" for k mode
    using map_of_SomeD [OF that] assms(1) by force
  with assms(2) show ?thesis
    by (cases x) (simp add: apply_map_def no_raw_assign split: option.split)
qed

lemma apply_field_maps [simp]: "fm_maps (apply_field sel r x fm) = fm_maps fm"
  by (simp add: apply_field_def split: prod.splits option.splits)

lemma apply_unknown_entry_maps: "apply_unknown_entry fs tab e st = Inr st' \<Longrightarrow> fm_maps (fst st') = fm_maps (fst st)"
  by (cases st) (auto simp: apply_unknown_entry_def Let_def split: if_splits option.splits)

lemma apply_unknown_no_raw:
  "apply_unknown_entry fs tab e st = Inr st' \<Longrightarrow> no_raw (fm_maps (fst st)) \<Longrightarrow> no_raw (fm_maps (fst st'))"
  by (simp only: apply_unknown_entry_maps not_False_eq_True)

lemma resolve_modes_no_raw:
  assumes "resolve_field_modes spec fset tab = Inr fm"
  shows "no_raw (fm_maps fm)"
proof -
  obtain sel where sel: "fold_err (apply_entry (files fset) tab) (entries spec) empty_selection = Inr sel"
    using assms by (auto simp: resolve_field_modes_def split: sum.splits)
  obtain fm0 lines where fm0: "fold_err (apply_unknown_entry (files fset) tab) (unknowns spec)
      (apply_selection sel (files fset) empty_modes, []) = Inr (fm0, lines)"
    using assms sel by (auto simp: resolve_field_modes_def split: sum.splits)
  have 1: "no_raw (map_modes sel)"
    by (rule fold_err_inv [where P = "\<lambda>s. no_raw (map_modes s)", OF apply_entry_no_raw sel]) (simp_all add: empty_selection_def)
  note map_keeps = apply_map_no_raw [OF 1]
  have keeps: "no_raw (fm_maps (apply_to_message sel r m fm))" if "no_raw (fm_maps fm)" for r m fm
    unfolding apply_to_message_def using that
    by (intro fold_invariant [where Q = "\<lambda>_. True" and P = "\<lambda>fm. no_raw (fm_maps fm)"]) (simp_all add: map_keeps)
  have sel_maps: "no_raw (fm_maps (apply_selection sel (files fset) empty_modes))" unfolding apply_selection_def
    by (rule for_each_inv [where P = "\<lambda>fm. no_raw (fm_maps fm)", OF keeps]) (simp_all add: empty_modes_def)
  have 2: "no_raw (fm_maps fm0)"
    by (rule fold_err_inv [where P = "\<lambda>st. no_raw (fm_maps (fst st))", OF _ fm0, unfolded fst_conv])
      (erule (1) apply_unknown_no_raw, rule sel_maps)
  moreover have "fm_maps (for_each_message fs (\<lambda>r _ fm. fm\<lparr>unknown_messages := List.insert r (unknown_messages fm)\<rparr>) fm0) = fm_maps fm0" for fs
    by (rule for_each_inv [where P = "\<lambda>fm. fm_maps fm = fm_maps fm0"]) simp_all
  ultimately show ?thesis using assms sel fm0 by (auto simp: resolve_field_modes_def Let_def split: if_splits)
qed

section \<open>The whole plan\<close>

text \<open>No profile, or one that was resolved against the same file set.\<close>

definition profiled :: "ResolvedFileSet \<Rightarrow> SymbolTable \<Rightarrow> LayoutOptions \<Rightarrow> bool" where
  "profiled fset tab opts \<longleftrightarrow>
     (case modes opts of None \<Rightarrow> True | Some fm \<Rightarrow> \<exists>spec. resolve_field_modes spec fset tab = Inr fm)"

lemma profiled_valid: "profiled fset tab opts \<Longrightarrow> modes_valid opts"
  unfolding profiled_def modes_valid_def by (cases "modes opts") (use resolve_modes_no_raw in \<open>simp_all, blast\<close>)

lemma unflagged_layout [simp]: "layout_ok (unflagged l) \<longleftrightarrow> layout_ok l" "by_value (unflagged l) = by_value l"
  "compute_fixed_size (unflagged l) = compute_fixed_size l"
  by (simp_all add: unflagged_def layout_ok_def bytes_ok_def byte_ranges_def bits_ok_def layout_bits_def compute_fixed_size_def by_value_def)

lemma walked_indexed: "walked ls memo names \<Longrightarrow> well_indexed ls"
  by (auto simp: walked_def well_indexed_def dest!: set_zip_rightD list_all2_lengthD)

lemma flatten_same: "well_indexed ls \<Longrightarrow> same_graph ls (apply_flatten_budget ls budget)"
  using flatten_spec(1) [OF _ _ refl] by (cases "budget = 0") (simp_all add: apply_flatten_budget_def)

lemma same_graph_find:
  assumes "same_graph a b" "well_indexed a"
  shows "map_option unflagged (layout_set_find b q) = map_option unflagged (layout_set_find a q)"
proof (cases "map_of (by_fqn a) q")
  case None
  with assms(1) show ?thesis by (simp add: layout_set_find_def same_graph_def)
next
  case (Some i)
  have "i < length (layouts a)" using map_of_SomeD [OF Some] assms(2) by (force simp: well_indexed_def)
  then have "unflagged (layouts b ! i) = unflagged (layouts a ! i)"
    using assms(1) same_graph_length [OF assms(1)] unfolding same_graph_def by (metis nth_map)
  with assms(1) Some show ?thesis by (simp add: layout_set_find_def same_graph_def)
qed

lemma walked_layout:
  assumes "walked ls memo names" "layout_set_find ls q = Some l"
  shows "map_of memo q = Some l"
proof -
  obtain i where i: "map_of (by_fqn ls) q = Some i" "l = layouts ls ! i" using assms(2) by (auto simp: layout_set_find_def)
  with assms(1) have "i < length names" "names ! i = q" by (auto simp: walked_def set_zip dest!: map_of_SomeD)
  with assms(1) i(2) show ?thesis by (auto simp: walked_def list_all2_conv_all_nth)
qed

lemma planned:
  assumes "analyze fset0 = Inr (fset, tab)" "profiled fset tab opts"
  obtains ls0 memo where "plan_layouts fset tab opts = Inr (apply_flatten_budget ls0 (flatten_budget opts))"
    "memo_ok opts memo" "walked ls0 memo (map node_fqn (set_messages (files fset)))"
    "\<And>q. q \<in> fst ` set memo \<Longrightarrow> q \<in> node_fqn ` set (set_messages (files fset))"
proof -
  obtain ls0 memo where w: "walk_files fset tab opts = Inr ls0" "memo_ok opts memo"
    "walked ls0 memo (map node_fqn (set_messages (files fset)))"
    "\<And>q. q \<in> fst ` set memo \<Longrightarrow> q \<in> node_fqn ` set (set_messages (files fset))"
    using walk_files_ok [OF assms(1) profiled_valid [OF assms(2)]] by blast
  show ?thesis by (rule that [OF _ w(2-4)]) (simp add: plan_layouts_def w(1))
qed

text \<open>The layout set that was planned, with a ghost memo that the walk filled.\<close>

definition planned_with :: "LayoutOptions \<Rightarrow> string list \<Rightarrow> LayoutSet \<Rightarrow> memo \<Rightarrow> LayoutSet \<Rightarrow> bool" where
  "planned_with opts names ls0 memo ls \<longleftrightarrow> ls = apply_flatten_budget ls0 (flatten_budget opts) \<and> memo_ok opts memo \<and>
     walked ls0 memo names \<and> distinct names \<and> fst ` set memo \<subseteq> set names"

lemma planned_layouts:
  assumes "planned_with opts names ls0 memo ls"
  shows "map ml_fqn (layouts ls) = names" "l \<in> set (layouts ls) \<Longrightarrow> layout_ok l"
    "l \<in> set (layouts ls) \<Longrightarrow> \<exists>q l0. map_of memo q = Some l0 \<and> unflagged l = unflagged l0"
    "map_of memo q = Some l0 \<Longrightarrow> \<exists>l. layout_set_find ls q = Some l \<and> unflagged l = unflagged l0"
    "layout_set_find ls q = Some l \<Longrightarrow> \<exists>l0. (q, l0) \<in> set memo \<and> unflagged l = unflagged l0"
proof -
  note P = assms [unfolded planned_with_def]
  have w: "walked ls0 memo names" "well_indexed ls0" using P walked_indexed by auto
  have sg: "same_graph ls0 ls" using P flatten_same [OF w(2)] by simp
  then have un: "map unflagged (layouts ls) = map unflagged (layouts ls0)" by (simp add: same_graph_def)
  have l0: "\<exists>q. map_of memo q = Some l" if "l \<in> set (layouts ls0)" for l
    using that w(1) list_all2_map_of by (auto simp: walked_def)
  have "map ml_fqn (map unflagged (layouts ls)) = map ml_fqn (map unflagged (layouts ls0))" by (simp add: un)
  then have "map ml_fqn (layouts ls) = map ml_fqn (layouts ls0)" by (simp add: comp_def)
  also have "\<dots> = names"
  proof -
    have "ml_fqn l = q" if "map_of memo q = Some l" for l q using P memo_ok_layout [OF _ that] by blast
    then have "list_all2 (\<lambda>l q. ml_fqn l = q) (layouts ls0) names" using w(1) by (auto simp: walked_def intro: list_all2_mono)
    then show ?thesis by (induction rule: list_all2_induct) simp_all
  qed
  finally show "map ml_fqn (layouts ls) = names" .
  show orig: "\<exists>q l0. map_of memo q = Some l0 \<and> unflagged l = unflagged l0" if "l \<in> set (layouts ls)" for l
  proof -
    have "unflagged l \<in> unflagged ` set (layouts ls0)" using that un by (metis image_eqI list.set_map)
    then obtain l1 where "l1 \<in> set (layouts ls0)" "unflagged l = unflagged l1" by blast
    with l0 show ?thesis by metis
  qed
  show "layout_ok l" if "l \<in> set (layouts ls)" for l
    using orig [OF that] P memo_ok_layout unflagged_layout(1) by metis
  show "\<exists>l. layout_set_find ls q = Some l \<and> unflagged l = unflagged l0" if "map_of memo q = Some l0" for q l0
  proof -
    have "q \<in> set names" using P map_of_SomeD [OF that] by force
    then have "layout_set_find ls0 q = Some l0" using walked_find [OF w(1) _ that] P by blast
    with same_graph_find [OF sg w(2), of q] show ?thesis by (cases "layout_set_find ls q") auto
  qed
  show "\<exists>l0. (q, l0) \<in> set memo \<and> unflagged l = unflagged l0" if "layout_set_find ls q = Some l" for q l
    using same_graph_find [OF sg w(2), of q] that walked_layout [OF w(1)] map_of_SomeD
    by (cases "layout_set_find ls0 q") fastforce+
qed

lemma planned_withE:
  assumes "analyze fset0 = Inr (fset, tab)" "profiled fset tab opts"
  obtains ls0 memo ls where "plan_layouts fset tab opts = Inr ls"
    "planned_with opts (map node_fqn (set_messages (files fset))) ls0 memo ls"
proof -
  obtain ls0 memo where p: "plan_layouts fset tab opts = Inr (apply_flatten_budget ls0 (flatten_budget opts))"
    "memo_ok opts memo" "walked ls0 memo (map node_fqn (set_messages (files fset)))"
    "\<And>q. q \<in> fst ` set memo \<Longrightarrow> q \<in> node_fqn ` set (set_messages (files fset))"
    by (rule planned [OF assms]) blast
  show ?thesis using p(2-4) analyze_facts(5) [OF assms(1)] by (intro that [OF p(1)]) (auto simp: planned_with_def)
qed

text \<open>
  Property C7. On an analysed file set, with no profile or with one that was resolved against it, the
  planner returns: none of its assertions fails and its levels suffice. There is a layout for each message, in
  the order of the files with each message before those nested in it, and each is valid: every byte
  range is aligned, inside the struct and apart from the others, the size is a positive multiple of the
  alignment, the presence and value bits are exactly the bits of the mask with one for each member that needs it,
  and the fixed-size flag is what the members say.
\<close>

theorem plan_layouts_valid:
  assumes "analyze fset0 = Inr (fset, tab)" "profiled fset tab opts"
  shows "\<exists>ls. plan_layouts fset tab opts = Inr ls \<and>
    map ml_fqn (layouts ls) = map node_fqn (set_messages (files fset)) \<and> list_all layout_ok (layouts ls)"
proof -
  obtain ls0 memo ls where p: "plan_layouts fset tab opts = Inr ls"
    "planned_with opts (map node_fqn (set_messages (files fset))) ls0 memo ls" by (rule planned_withE [OF assms])
  then show ?thesis using planned_layouts(1,2) [OF p(2)] by (auto simp: list_all_iff)
qed

definition demo_options :: LayoutOptions where
  "demo_options = \<lparr>inline_submsg_cutoff = 16, modes = None, flatten_budget = 4\<rparr>"

lemma demo_profiled: "profiled fset tab demo_options"
  by (simp add: profiled_def demo_options_def)

theorem plan_layouts_valid_witness:
  "\<exists>fset tab ls. analyze demo_schema = Inr (fset, tab) \<and> plan_layouts fset tab demo_options = Inr ls \<and>
     map ml_fqn (layouts ls) = map node_fqn (set_messages (files fset)) \<and> list_all layout_ok (layouts ls)"
  using analyze_demo plan_layouts_valid [of demo_schema _ _ demo_options] demo_profiled by blast

text \<open>What a by-value member must agree on with the layout of its message.\<close>

definition stores_target :: "LayoutOptions \<Rightarrow> LayoutSet \<Rightarrow> FieldKind \<Rightarrow> nat \<Rightarrow> nat \<Rightarrow> string \<Rightarrow> bool" where
  "stores_target opts ls fk sz al target \<longleftrightarrow> (fk = InlineFixedSubMsg \<longrightarrow>
     (case layout_set_find ls target of None \<Rightarrow> False
      | Some t \<Rightarrow> fixed_size t \<and> ml_size t \<le> inline_submsg_cutoff opts \<and> sz = ml_size t \<and> al = ml_align t))"

definition stores_targets :: "LayoutOptions \<Rightarrow> LayoutSet \<Rightarrow> MessageLayout \<Rightarrow> bool" where
  "stores_targets opts ls l \<longleftrightarrow>
     list_all (\<lambda>m. stores_target opts ls (mp_kind m) (mp_size m) (mp_align m) (target_fqn m)) (ml_members l) \<and>
     list_all (\<lambda>oo. list_all (\<lambda>m. stores_target opts ls (om_kind m) (om_size m) (om_align m) (om_target m)) (op_members oo)) (ml_oneofs l)"

lemma memo_linked: "memo_ok opts memo \<Longrightarrow> (q, l) \<in> set memo \<Longrightarrow> linked opts memo l"
proof (induction opts memo rule: memo_ok.induct)
  case (2 opts q1 l1 rest)
  then have "linked opts rest l" by auto
  moreover have "grows rest ((q1, l1) # rest)" by (simp add: grows_def)
  ultimately show ?case using inlined_ok_grows [OF _ 2(2)]
    unfolding linked_def list_all_iff member_linked_def oneof_linked_def by blast
qed simp

lemma inlined_stores:
  assumes "planned_with opts names ls0 memo ls" "inlined_ok opts memo k sz al t"
  shows "stores_target opts ls k sz al t"
proof (cases "k = InlineFixedSubMsg")
  case True
  with assms(2) obtain l0 where l0: "map_of memo t = Some l0" "fixed_size l0" "ml_size l0 \<le> inline_submsg_cutoff opts"
    "sz = ml_size l0" "al = ml_align l0" by (auto simp: inlined_ok_def)
  obtain l where l: "layout_set_find ls t = Some l" "unflagged l = unflagged l0" using planned_layouts(4) [OF assms(1) l0(1)] by blast
  have "ml_size l = ml_size l0" "ml_align l = ml_align l0" "fixed_size l = fixed_size l0"
    using l(2) unflagged_simps(4-6) by metis+
  with l0 l(1) show ?thesis by (simp add: stores_target_def)
qed (simp add: stores_target_def)

text \<open>
  Property C8. A member that holds a message by value, in the struct or in a oneof, has the size and the alignment of the
  layout that is planned for that message, which is of fixed size and within the cutoff; and a message never holds itself
  by value, directly or through others, so the structs can be emitted one after the other.
\<close>

theorem by_value_acyclic:
  assumes "analyze fset0 = Inr (fset, tab)" "profiled fset tab opts" "plan_layouts fset tab opts = Inr ls"
  shows "list_all (stores_targets opts ls) (layouts ls) \<and>
    acyclic {(q, t). \<exists>l. layout_set_find ls q = Some l \<and> t \<in> by_value l}"
proof
  obtain ls0 memo where p: "planned_with opts (map node_fqn (set_messages (files fset))) ls0 memo ls"
    using planned_withE [OF assms(1,2)] assms(3) by (metis sum.inject(2))
  then have memo: "memo_ok opts memo" by (simp add: planned_with_def)
  have "stores_targets opts ls l" if l: "l \<in> set (layouts ls)" for l
  proof -
    obtain q l0 where l0: "map_of memo q = Some l0" "unflagged l = unflagged l0" using planned_layouts(3) [OF p l] by blast
    then have "linked opts memo l0" using memo_linked [OF memo] map_of_SomeD by fast
    moreover have "ml_members l = ml_members l0" "ml_oneofs l = ml_oneofs l0" using l0(2) unflagged_simps(1,2) by metis+
    ultimately show ?thesis using inlined_stores [OF p]
      by (auto simp: stores_targets_def linked_def member_linked_def oneof_linked_def list_all_iff)
  qed
  then show "list_all (stores_targets opts ls) (layouts ls)" by (simp add: list_all_iff)
  show "acyclic {(q, t). \<exists>l. layout_set_find ls q = Some l \<and> t \<in> by_value l}"
  proof (rule rank_acyclic [where r = "rank memo"])
    fix q t assume "(q, t) \<in> {(q, t). \<exists>l. layout_set_find ls q = Some l \<and> t \<in> by_value l}"
    then obtain l where "layout_set_find ls q = Some l" "t \<in> by_value l" by blast
    with planned_layouts(5) [OF p] obtain l0 where "(q, l0) \<in> set memo" "t \<in> by_value l0" using unflagged_layout(2) by metis
    then show "rank memo t < rank memo q" by (rule rank_by_value [OF memo])
  qed
qed

theorem by_value_acyclic_witness:
  "\<exists>fset tab ls. analyze demo_schema = Inr (fset, tab) \<and> plan_layouts fset tab demo_options = Inr ls \<and>
     list_all (stores_targets demo_options ls) (layouts ls) \<and>
     acyclic {(q, t). \<exists>l. layout_set_find ls q = Some l \<and> t \<in> by_value l}"
proof -
  obtain fset tab where a: "analyze demo_schema = Inr (fset, tab)" using analyze_demo by blast
  obtain ls0 memo ls where p: "plan_layouts fset tab demo_options = Inr ls"
    "planned_with demo_options (map node_fqn (set_messages (files fset))) ls0 memo ls"
    by (rule planned_withE [OF a demo_profiled])
  from by_value_acyclic [OF a demo_profiled p(1)] a p(1) show ?thesis by blast
qed



end
