(* ===== verification/Naming.thy ===== *)
theory Naming
  imports Type_Correct "HOL-Library.List_Lexorder" "HOL-Library.Char_ord"
begin

text \<open>
  The C++ name model of \<open>src/codegen/naming.cpp\<close>: reserved words, the identifiers of the members
  of a class, the identifiers of the types of a package, and the absolute name of every type.

  A pointer to a node is its place in the schema: the full name of a type, and for a member the full name of
  its message with the member's position. The hash maps are maps, the sets of taken identifiers lists;
  none of them is iterated.
\<close>

section \<open>Reserved words\<close>

definition cpp_reserved :: "string list" where
  "cpp_reserved =
     [''alignas'', ''alignof'', ''and'', ''and_eq'', ''bitand'', ''bitor'', ''compl'', ''not'', ''not_eq'', ''or'', ''or_eq'',
      ''xor'', ''xor_eq'', ''asm'', ''auto'', ''bool'', ''break'', ''case'', ''catch'', ''char'', ''char16_t'', ''char32_t'',
      ''class'', ''const'', ''constexpr'', ''continue'', ''decltype'', ''default'', ''delete'', ''do'', ''double'', ''else'',
      ''enum'', ''explicit'', ''export'', ''extern'', ''false'', ''float'', ''for'', ''friend'', ''goto'', ''if'', ''inline'',
      ''int'', ''long'', ''mutable'', ''namespace'', ''new'', ''noexcept'', ''nullptr'', ''operator'', ''private'',
      ''protected'', ''public'', ''register'', ''return'', ''short'', ''signed'', ''sizeof'', ''static'', ''struct'',
      ''switch'', ''template'', ''this'', ''throw'', ''true'', ''try'', ''typedef'', ''typeid'', ''typename'', ''union'',
      ''unsigned'', ''using'', ''virtual'', ''void'', ''volatile'', ''wchar_t'', ''while'', ''thread_local'', ''const_cast'',
      ''dynamic_cast'', ''reinterpret_cast'', ''static_assert'', ''static_cast'', ''char8_t'', ''concept'', ''consteval'',
      ''constinit'', ''co_await'', ''co_return'', ''co_yield'', ''requires'', ''std'']"

definition member_reserved :: "string list" where
  "member_reserved = [''Value'', ''Key'', ''kNumber'', ''kName'', ''decode'']"

definition kMacros :: "string list" where
  "kMacros =
     [''EOF'', ''NULL'', ''NAN'', ''INFINITY'', ''ERROR'', ''TRUE'', ''FALSE'', ''BUFSIZ'', ''EXIT_SUCCESS'', ''EXIT_FAILURE'',
      ''RAND_MAX'', ''SEEK_SET'', ''SEEK_CUR'', ''SEEK_END'', ''errno'', ''stdin'', ''stdout'', ''stderr'', ''linux'', ''unix'',
      ''INT8_MIN'', ''INT16_MIN'', ''INT32_MIN'', ''INT64_MIN'', ''INT8_MAX'', ''INT16_MAX'', ''INT32_MAX'', ''INT64_MAX'',
      ''UINT8_MAX'', ''UINT16_MAX'', ''UINT32_MAX'', ''UINT64_MAX'', ''INT_LEAST8_MIN'', ''INT_LEAST16_MIN'',
      ''INT_LEAST32_MIN'', ''INT_LEAST64_MIN'', ''INT_LEAST8_MAX'', ''INT_LEAST16_MAX'', ''INT_LEAST32_MAX'',
      ''INT_LEAST64_MAX'', ''UINT_LEAST8_MAX'', ''UINT_LEAST16_MAX'', ''UINT_LEAST32_MAX'', ''UINT_LEAST64_MAX'',
      ''INT_FAST8_MIN'', ''INT_FAST16_MIN'', ''INT_FAST32_MIN'', ''INT_FAST64_MIN'', ''INT_FAST8_MAX'', ''INT_FAST16_MAX'',
      ''INT_FAST32_MAX'', ''INT_FAST64_MAX'', ''UINT_FAST8_MAX'', ''UINT_FAST16_MAX'', ''UINT_FAST32_MAX'',
      ''UINT_FAST64_MAX'', ''INTPTR_MIN'', ''INTPTR_MAX'', ''UINTPTR_MAX'', ''INTMAX_MIN'', ''INTMAX_MAX'', ''UINTMAX_MAX'',
      ''PTRDIFF_MIN'', ''PTRDIFF_MAX'', ''SIZE_MAX'', ''SIG_ATOMIC_MIN'', ''SIG_ATOMIC_MAX'', ''WCHAR_MIN'', ''WCHAR_MAX'',
      ''WINT_MIN'', ''WINT_MAX'', ''INT8_C'', ''INT16_C'', ''INT32_C'', ''INT64_C'', ''INTMAX_C'', ''UINT8_C'', ''UINT16_C'',
      ''UINT32_C'', ''UINT64_C'', ''UINTMAX_C'']"

definition starts_with :: "string \<Rightarrow> string \<Rightarrow> bool" where
  "starts_with p s \<longleftrightarrow> take (length p) s = p"

definition expands_as_macro :: "string \<Rightarrow> bool" where
  "expands_as_macro name \<longleftrightarrow> starts_with ''RP_'' name \<or> name \<in> set kMacros"

definition sanitize :: "string \<Rightarrow> string" where
  "sanitize name =
     (if starts_with ''rp_'' name \<or> name \<in> set cpp_reserved \<or> name \<in> set member_reserved \<or> expands_as_macro name
      then name @ ''_'' else name)"

definition sanitize_prefix_component :: "string \<Rightarrow> string" where
  "sanitize_prefix_component name =
     (if starts_with ''rp_'' name \<or> name \<in> set cpp_reserved \<or> expands_as_macro name then name @ ''_'' else name)"

definition unresolved_type_name :: "string \<Rightarrow> string" where
  "unresolved_type_name fqn = ''rp_type_not_in_name_table__'' @ map (\<lambda>c. if c = CHR ''.'' then CHR ''_'' else c) fqn"

section \<open>Namespaces\<close>

text \<open>The components of a dotted name; empty ones are skipped.\<close>

fun dotted_loop :: "string \<Rightarrow> string \<Rightarrow> string list" where
  "dotted_loop piece [] = (if piece = [] then [] else [piece])"
| "dotted_loop piece (c # cs) =
     (if c = CHR ''.'' then (if piece = [] then [] else [piece]) @ dotted_loop [] cs else dotted_loop (piece @ [c]) cs)"

definition components :: "string \<Rightarrow> string list" where
  "components dn = dotted_loop [] dn"

fun add_component :: "string \<Rightarrow> string \<Rightarrow> string" where
  "add_component acc piece = (if acc = [] then acc else acc @ ''::'') @ piece"

definition dotted_to_ns :: "(string \<Rightarrow> string) \<Rightarrow> string \<Rightarrow> string" where
  "dotted_to_ns escape dn = foldl add_component [] (map escape (components dn))"

definition namespace_of :: "string \<Rightarrow> string" where
  "namespace_of package = dotted_to_ns sanitize package"

definition join_ns :: "string \<Rightarrow> string \<Rightarrow> string" where
  "join_ns a b = (if a = [] then b else if b = [] then a else a @ ''::'' @ b)"

definition kCommonRoot :: string where "kCommonRoot = ''common''"
definition kArenaRoot :: string where "kArenaRoot = ''arena''"
definition kStreamRoot :: string where "kStreamRoot = ''stream''"
definition kDefaultNsPrefix :: string where "kDefaultNsPrefix = ''rp''"

definition effective_ns_prefix :: "string \<Rightarrow> string" where
  "effective_ns_prefix pfx =
     dotted_to_ns sanitize_prefix_component (if pfx = [] then kDefaultNsPrefix else pfx)"

definition ns_prefix_component_problem :: "string \<Rightarrow> bool \<Rightarrow> string" where
  "ns_prefix_component_problem component is_first =
     (if component \<in> set cpp_reserved then ''it is a C++ keyword or `std`''
      else if starts_with ''rp_'' component \<or> starts_with ''RP_'' component then
        ''`rp_` and `RP_` are reserved for the generator's own names''
      else if expands_as_macro component then ''it expands as a macro rather than compiling as a name''
      else if starts_with ''__'' component \<or>
        (2 \<le> length component \<and> component ! 0 = CHR ''_'' \<and> CHR ''A'' \<le> component ! 1 \<and> component ! 1 \<le> CHR ''Z'') then
        ''identifiers starting with `__` or `_` + a capital are reserved to the compiler''
      else if is_first \<and> component \<noteq> [] \<and> component ! 0 = CHR ''_'' then
        ''a leading `_` is reserved in the global namespace, where the first prefix component lands''
      else if component = ''rapidproto'' then ''it is the runtime's own namespace''
      else [])"

section \<open>The name table\<close>

datatype NodeId = EnumId string | MessageId string | FieldId string nat | OneofId string nat
  | OneofFieldId string nat nat | MapId string nat

record CppNameTable =
  absolute :: "string \<rightharpoonup> string"
  locals :: "NodeId \<rightharpoonup> string"
  type_ns :: "string \<rightharpoonup> string"
  ns_prefix :: string
  model_namespace :: string

definition emplace_name :: "'k \<Rightarrow> 'v \<Rightarrow> ('k \<rightharpoonup> 'v) \<Rightarrow> ('k \<rightharpoonup> 'v)" where
  "emplace_name k v m = (case m k of None \<Rightarrow> m(k \<mapsto> v) | Some _ \<Rightarrow> m)"

definition message_namespace :: "CppNameTable \<Rightarrow> FileNode \<Rightarrow> string" where
  "message_namespace names file = join_ns (join_ns (ns_prefix names) (model_namespace names)) (namespace_of (file_package file))"

definition enum_namespace :: "CppNameTable \<Rightarrow> FileNode \<Rightarrow> string" where
  "enum_namespace names file = join_ns (join_ns (ns_prefix names) kCommonRoot) (namespace_of (file_package file))"

text \<open>Append \<open>_\<close> until the identifier is free.\<close>

lemma taken_shorter: "x \<in> set taken \<Longrightarrow> length x \<le> Max (length ` set taken)"
  by simp

function escalate :: "string list \<Rightarrow> string \<Rightarrow> string" where
  "escalate taken ident = (if ident \<in> set taken then escalate taken (ident @ ''_'') else ident)"
  by pat_completeness auto
termination
  by (relation "measure (\<lambda>(taken, ident). Suc (Max (length ` set taken)) - length ident)")
    (auto dest!: taken_shorter)

declare escalate.simps [simp del]

definition assign_id :: "string list \<Rightarrow> NodeId \<Rightarrow> string \<Rightarrow> CppNameTable \<Rightarrow> string \<times> CppNameTable \<times> string list" where
  "assign_id taken node raw_name names =
     (let ident = escalate taken (sanitize raw_name);
          names' = names\<lparr>locals := emplace_name node ident (locals names)\<rparr>
      in (the (locals names' node), names', ident # taken))"

definition assign_toplevel_id ::
    "(NodeId \<rightharpoonup> string) \<Rightarrow> string list \<Rightarrow> NodeId \<Rightarrow> string \<Rightarrow> CppNameTable \<Rightarrow> string \<times> CppNameTable \<times> string list" where
  "assign_toplevel_id claimed taken node raw_name names =
     (case claimed node of
        Some ident \<Rightarrow>
          let names' = names\<lparr>locals := emplace_name node ident (locals names)\<rparr> in (the (locals names' node), names', taken)
      | None \<Rightarrow> assign_id taken node raw_name names)"

fun assign_enums :: "string \<Rightarrow> EnumNode list \<Rightarrow> string list \<Rightarrow> CppNameTable \<Rightarrow> CppNameTable \<times> string list" where
  "assign_enums enum_abs [] taken names = (names, taken)"
| "assign_enums enum_abs (e # es) taken names =
     (case assign_id taken (EnumId (en_fqn e)) (en_name e) names of
        (ident, names1, taken1) \<Rightarrow>
          assign_enums enum_abs es taken1
            (names1\<lparr>absolute := emplace_name (en_fqn e) (enum_abs @ ''::'' @ ident) (absolute names1)\<rparr>))"

fun assign_nested ::
    "string \<Rightarrow> string \<Rightarrow> string \<Rightarrow> MessageNode list \<Rightarrow> string list \<Rightarrow> CppNameTable \<Rightarrow>
     (string \<times> string) list \<times> CppNameTable \<times> string list" where
  "assign_nested abs_name enum_abs msg_ns [] taken names = ([], names, taken)"
| "assign_nested abs_name enum_abs msg_ns (n # ns) taken names =
     (case assign_id taken (MessageId (node_fqn n)) (msg_name (msg_data n)) names of
        (ident, names1, taken1) \<Rightarrow>
          let child_abs = abs_name @ ''::'' @ ident;
              names2 = names1\<lparr>absolute := emplace_name (node_fqn n) child_abs (absolute names1),
                              type_ns := emplace_name (node_fqn n) msg_ns (type_ns names1)\<rparr>
          in case assign_nested abs_name enum_abs msg_ns ns taken1 names2 of
               (children, names3, taken3) \<Rightarrow> ((child_abs, enum_abs @ ''::'' @ ident) # children, names3, taken3))"

fun assign_members :: "(NodeId \<times> string) list \<Rightarrow> string list \<Rightarrow> CppNameTable \<Rightarrow> CppNameTable \<times> string list" where
  "assign_members [] taken names = (names, taken)"
| "assign_members ((node, raw_name) # ms) taken names =
     (case assign_id taken node raw_name names of (_, names1, taken1) \<Rightarrow> assign_members ms taken1 names1)"

text \<open>The members of a class that are no types, in the order of their loops.\<close>

definition class_members :: "MessageData \<Rightarrow> (NodeId \<times> string) list" where
  "class_members d =
     map (\<lambda>(i, f). (FieldId (msg_fqn d) i, fld_name f)) (enumerate 0 (msg_fields d)) @
     concat (map (\<lambda>(i, oo). (OneofId (msg_fqn d) i, oo_name oo) #
         map (\<lambda>(j, f). (OneofFieldId (msg_fqn d) i j, fld_name f)) (enumerate 0 (oo_fields oo)))
       (enumerate 0 (oneofs d))) @
     map (\<lambda>(i, f). (MapId (msg_fqn d) i, mf_name f)) (enumerate 0 (map_fields d))"

fun index_message :: "MessageNode \<Rightarrow> string \<Rightarrow> string \<Rightarrow> string \<Rightarrow> CppNameTable \<Rightarrow> CppNameTable"
  and index_children :: "MessageNode list \<Rightarrow> (string \<times> string) list \<Rightarrow> string \<Rightarrow> CppNameTable \<Rightarrow> CppNameTable" where
  "index_message (MessageNode d ns) abs_name enum_abs msg_ns names =
     (let taken0 = [the (locals names (MessageId (msg_fqn d)))];
          (names1, taken1) = assign_enums enum_abs (msg_enums d) taken0 names;
          (children, names2, taken2) = assign_nested abs_name enum_abs msg_ns ns taken1 names1;
          (names3, taken3) = assign_members (class_members d) taken2 names2
      in index_children ns children msg_ns names3)"
| "index_children [] paths msg_ns names = names"
| "index_children (m # ms) paths msg_ns names =
     (case paths of
        [] \<Rightarrow> names
      | (child_abs, child_enums) # paths' \<Rightarrow>
          index_children ms paths' msg_ns (index_message m child_abs child_enums msg_ns names))"

section \<open>Claims of the top-level types\<close>

type_synonym TakenByNamespace = "string \<Rightarrow> string list"

fun claim_components :: "string \<Rightarrow> string \<Rightarrow> string list \<Rightarrow> TakenByNamespace \<Rightarrow> TakenByNamespace" where
  "claim_components pfx parent [] taken = taken"
| "claim_components pfx parent (c # cs) taken =
     (let scope = join_ns pfx (namespace_of parent) in
      claim_components pfx ((if parent = [] then parent else parent @ ''.'') @ c) cs
        (taken(scope := List.insert (sanitize c) (taken scope))))"

definition claim_package_components :: "CppNameTable \<Rightarrow> FileNode \<Rightarrow> TakenByNamespace \<Rightarrow> TakenByNamespace" where
  "claim_package_components names file taken = claim_components (ns_prefix names) [] (components (file_package file)) taken"

record Claimant =
  cl_node :: NodeId
  cl_raw :: string
  cl_fqn :: string
  cl_scope :: string

definition file_claimants :: "CppNameTable \<Rightarrow> FileNode \<Rightarrow> Claimant list" where
  "file_claimants names file =
     (let scope = join_ns (ns_prefix names) (namespace_of (file_package file)) in
      map (\<lambda>e. \<lparr>cl_node = EnumId (en_fqn e), cl_raw = en_name e, cl_fqn = en_fqn e, cl_scope = scope\<rparr>) (file_enums file) @
      map (\<lambda>m. \<lparr>cl_node = MessageId (node_fqn m), cl_raw = msg_name (msg_data m), cl_fqn = node_fqn m, cl_scope = scope\<rparr>)
        (file_messages file))"

definition string_order :: "string \<Rightarrow> nat list" where
  "string_order s = map of_char s"

fun claim_literals ::
    "Claimant list \<Rightarrow> TakenByNamespace \<Rightarrow> (NodeId \<rightharpoonup> string) \<Rightarrow> TakenByNamespace \<times> (NodeId \<rightharpoonup> string) \<times> Claimant list" where
  "claim_literals [] taken claimed = (taken, claimed, [])"
| "claim_literals (c # cs) taken claimed =
     (if cl_raw c \<notin> set (taken (cl_scope c)) then
        claim_literals cs (taken(cl_scope c := cl_raw c # taken (cl_scope c))) (emplace_name (cl_node c) (cl_raw c) claimed)
      else
        (case claim_literals cs taken claimed of (t, cl, blocked) \<Rightarrow> (t, cl, c # blocked)))"

fun claim_escalated ::
    "Claimant list \<Rightarrow> TakenByNamespace \<Rightarrow> (NodeId \<rightharpoonup> string) \<Rightarrow> TakenByNamespace \<times> (NodeId \<rightharpoonup> string)" where
  "claim_escalated [] taken claimed = (taken, claimed)"
| "claim_escalated (c # cs) taken claimed =
     (let ident = escalate (taken (cl_scope c)) (sanitize (cl_raw c)) in
      claim_escalated cs (taken(cl_scope c := ident # taken (cl_scope c))) (emplace_name (cl_node c) ident claimed))"

definition claim_toplevel_ids :: "CppNameTable \<Rightarrow> FileNode list \<Rightarrow> TakenByNamespace \<times> (NodeId \<rightharpoonup> string)" where
  "claim_toplevel_ids names fs =
     (let taken0 = fold (claim_package_components names) fs (\<lambda>_. []);
          claimants = concat (map (file_claimants names) fs);
          literals = sort_key (string_order \<circ> cl_fqn) (filter (\<lambda>c. sanitize (cl_raw c) = cl_raw c) claimants);
          escapes = sort_key (string_order \<circ> cl_fqn) (filter (\<lambda>c. sanitize (cl_raw c) \<noteq> cl_raw c) claimants);
          (taken1, claimed1, blocked) = claim_literals literals taken0 Map.empty;
          (taken2, claimed2) = claim_escalated blocked taken1 claimed1
      in claim_escalated escapes taken2 claimed2)"

section \<open>The whole table\<close>

fun index_enums ::
    "string \<Rightarrow> (NodeId \<rightharpoonup> string) \<Rightarrow> EnumNode list \<Rightarrow> string list \<Rightarrow> CppNameTable \<Rightarrow> CppNameTable \<times> string list" where
  "index_enums enum_root claimed [] taken names = (names, taken)"
| "index_enums enum_root claimed (e # es) taken names =
     (case assign_toplevel_id claimed taken (EnumId (en_fqn e)) (en_name e) names of
        (ident, names1, taken1) \<Rightarrow>
          index_enums enum_root claimed es taken1
            (names1\<lparr>absolute := emplace_name (en_fqn e) (enum_root @ ''::'' @ ident) (absolute names1)\<rparr>))"

fun index_tops ::
    "string \<Rightarrow> string \<Rightarrow> (NodeId \<rightharpoonup> string) \<Rightarrow> MessageNode list \<Rightarrow> string list \<Rightarrow> CppNameTable \<Rightarrow>
     string list \<times> CppNameTable \<times> string list" where
  "index_tops msg_root msg_ns claimed [] taken names = ([], names, taken)"
| "index_tops msg_root msg_ns claimed (m # ms) taken names =
     (case assign_toplevel_id claimed taken (MessageId (node_fqn m)) (msg_name (msg_data m)) names of
        (ident, names1, taken1) \<Rightarrow>
          let abs_name = msg_root @ ''::'' @ ident;
              names2 = names1\<lparr>absolute := emplace_name (node_fqn m) abs_name (absolute names1),
                              type_ns := emplace_name (node_fqn m) msg_ns (type_ns names1)\<rparr>
          in case index_tops msg_root msg_ns claimed ms taken1 names2 of
               (tops, names3, taken3) \<Rightarrow> (abs_name # tops, names3, taken3))"

definition index_file ::
    "(NodeId \<rightharpoonup> string) \<Rightarrow> FileNode \<Rightarrow> CppNameTable \<times> TakenByNamespace \<Rightarrow> CppNameTable \<times> TakenByNamespace" where
  "index_file claimed file st =
     (case st of (names, taken_by_ns) \<Rightarrow>
        let msg_ns = message_namespace names file;
            enum_root = ''::'' @ enum_namespace names file;
            pkg_ns = join_ns (ns_prefix names) (namespace_of (file_package file));
            (names1, taken1) = index_enums enum_root claimed (file_enums file) (taken_by_ns pkg_ns) names;
            (tops, names2, taken2) = index_tops (''::'' @ msg_ns) msg_ns claimed (file_messages file) taken1 names1
        in (fold (\<lambda>(m, abs_name) nm.
                index_message m abs_name (enum_root @ ''::'' @ the (locals nm (MessageId (node_fqn m)))) msg_ns nm)
              (zip (file_messages file) tops) names2,
            taken_by_ns(pkg_ns := taken2)))"

definition build_cpp_names :: "FileNode \<Rightarrow> FileNode list \<Rightarrow> string \<Rightarrow> string \<Rightarrow> CppNameTable" where
  "build_cpp_names file all_files pfx model =
     (let names = \<lparr>absolute = Map.empty, locals = Map.empty, type_ns = Map.empty,
            ns_prefix = (if pfx = [] then namespace_of kDefaultNsPrefix else pfx), model_namespace = model\<rparr>;
          file_set = (if all_files = [] then [file] else all_files);
          (taken_by_ns, claimed) = claim_toplevel_ids names file_set
      in fst (fold (index_file claimed) file_set (names, taken_by_ns)))"

definition cpp_type_name :: "CppNameTable \<Rightarrow> string \<Rightarrow> string" where
  "cpp_type_name names fqn = (case absolute names fqn of Some a \<Rightarrow> a | None \<Rightarrow> unresolved_type_name fqn)"

definition relative_type_name :: "CppNameTable \<Rightarrow> string \<Rightarrow> string" where
  "relative_type_name names fqn =
     (let abs_name = cpp_type_name names fqn in
      case type_ns names fqn of
        None \<Rightarrow> abs_name
      | Some ns \<Rightarrow>
          let head = ''::'' @ ns @ ''::'' in if starts_with head abs_name then drop (length head) abs_name else abs_name)"

end
