(* ===== verification/Naming_Scope.thy ===== *)
theory Naming_Scope
  imports Naming
begin

text \<open>
  The identifiers of one class. Every identifier is free of keywords, macros and generated names, those of
  the members of a class differ from each other and from the class's own, and indexing a message
  leaves the rest of the table alone.
\<close>

section \<open>Identifiers\<close>

definition reserved_word :: "string \<Rightarrow> bool" where
  "reserved_word w \<longleftrightarrow> w \<in> set cpp_reserved \<or> w \<in> set member_reserved \<or> w \<in> set kMacros"

text \<open>An identifier that compiles: no reserved word, and none of the generator's own names, which never end in \<open>_\<close>.\<close>

definition usable :: "string \<Rightarrow> bool" where
  "usable w \<longleftrightarrow> \<not> reserved_word w \<and> (starts_with ''rp_'' w \<or> starts_with ''RP_'' w \<longrightarrow> last w = CHR ''_'')"

lemma reserved_no_underscore: "reserved_word w \<Longrightarrow> last w \<noteq> CHR ''_''"
proof -
  have "list_all (\<lambda>w. last w \<noteq> CHR ''_'') (cpp_reserved @ member_reserved @ kMacros)" by code_simp
  then show "reserved_word w \<Longrightarrow> last w \<noteq> CHR ''_''" by (auto simp: reserved_word_def list_all_iff)
qed

lemma usable_underscore: "last w = CHR ''_'' \<Longrightarrow> usable w"
  using reserved_no_underscore by (auto simp: usable_def)

lemma usable_sanitize: "usable (sanitize name)"
proof (cases "sanitize name = name")
  case True
  then show ?thesis
    by (auto simp: sanitize_def usable_def reserved_word_def expands_as_macro_def split: if_splits)
next
  case False
  then have "last (sanitize name) = CHR ''_''" by (auto simp: sanitize_def split: if_splits)
  then show ?thesis by (rule usable_underscore)
qed

lemma escalate_free: "escalate taken ident \<notin> set taken"
proof (induction taken ident rule: escalate.induct)
  case (1 taken ident)
  then show ?case by (subst escalate.simps) simp
qed

lemma escalate_form: "\<exists>n. escalate taken ident = ident @ replicate n CHR ''_''"
proof (induction taken ident rule: escalate.induct)
  case (1 taken ident)
  show ?case
  proof (cases "ident \<in> set taken")
    case True
    then obtain n where "escalate taken (ident @ ''_'') = (ident @ ''_'') @ replicate n CHR ''_''" using 1 by blast
    then have "escalate taken ident = ident @ replicate (Suc n) CHR ''_''" using True by (subst escalate.simps) simp
    then show ?thesis by blast
  next
    case False
    then have "escalate taken ident = ident @ replicate 0 CHR ''_''" by (subst escalate.simps) simp
    then show ?thesis by blast
  qed
qed

lemma usable_escalate: "usable (escalate taken (sanitize name))"
proof -
  obtain n where "escalate taken (sanitize name) = sanitize name @ replicate n CHR ''_''" using escalate_form by blast
  then show ?thesis using usable_sanitize usable_underscore [of "sanitize name @ replicate n CHR ''_''"] by (cases n) simp_all
qed

lemma escalate_cong: "set t = set t' \<Longrightarrow> escalate t ident = escalate t' ident"
proof (induction t ident rule: escalate.induct)
  case (1 t ident)
  then show ?case by (subst (1 2) escalate.simps) auto
qed

section \<open>One scope\<close>

fun dedup :: "string list \<Rightarrow> string list \<Rightarrow> string list" where
  "dedup taken [] = []"
| "dedup taken (r # rs) = (let ident = escalate taken (sanitize r) in ident # dedup (ident # taken) rs)"

lemma length_dedup [simp]: "length (dedup taken rs) = length rs"
  by (induction taken rs rule: dedup.induct) (simp_all add: Let_def)

lemma dedup_append: "dedup taken (rs @ ss) = dedup taken rs @ dedup (rev (dedup taken rs) @ taken) ss"
  by (induction taken rs rule: dedup.induct) (simp_all add: Let_def)

lemma dedup_distinct: "distinct (dedup taken rs) \<and> set (dedup taken rs) \<inter> set taken = {}"
  by (induction taken rs rule: dedup.induct) (auto simp: Let_def escalate_free)

lemma dedup_usable: "ident \<in> set (dedup taken rs) \<Longrightarrow> usable ident"
  by (induction taken rs rule: dedup.induct) (auto simp: Let_def usable_escalate)

section \<open>Tables only grow\<close>

definition table_le :: "CppNameTable \<Rightarrow> CppNameTable \<Rightarrow> bool" where
  "table_le a b \<longleftrightarrow> locals a \<subseteq>\<^sub>m locals b \<and> absolute a \<subseteq>\<^sub>m absolute b \<and> type_ns a \<subseteq>\<^sub>m type_ns b \<and>
     ns_prefix a = ns_prefix b \<and> model_namespace a = model_namespace b"

lemma table_le_refl [simp]: "table_le a a"
  by (simp add: table_le_def)

lemma table_le_trans: "table_le a b \<Longrightarrow> table_le b c \<Longrightarrow> table_le a c"
  by (auto simp: table_le_def intro: map_le_trans)

lemma map_le_SomeD: "m \<subseteq>\<^sub>m m' \<Longrightarrow> m k = Some v \<Longrightarrow> m' k = Some v"
  by (metis domI map_le_def)

lemma table_leD:
  assumes "table_le a b"
  shows "locals a node = Some i \<Longrightarrow> locals b node = Some i" "absolute a q = Some s \<Longrightarrow> absolute b q = Some s"
    "type_ns a q = Some s \<Longrightarrow> type_ns b q = Some s"
  using assms by (auto simp: table_le_def intro: map_le_SomeD)

lemma emplace_name_simps:
  "m k = None \<Longrightarrow> emplace_name k v m = m(k \<mapsto> v)" "k' \<noteq> k \<Longrightarrow> emplace_name k v m k' = m k'"
  by (auto simp: emplace_name_def split: option.split)

lemma emplace_name_le [simp]: "m \<subseteq>\<^sub>m emplace_name k v m"
  by (auto simp: emplace_name_def map_le_def split: option.split)

section \<open>What a table leaves alone\<close>

text \<open>The type that a node belongs to; a type is below the message that declares it, a member belongs to its message.\<close>

fun is_type :: "NodeId \<Rightarrow> bool" where
  "is_type (EnumId q) = True"
| "is_type (MessageId q) = True"
| "is_type (FieldId q i) = False"
| "is_type (OneofId q i) = False"
| "is_type (OneofFieldId q i j) = False"
| "is_type (MapId q i) = False"

fun owner :: "NodeId \<Rightarrow> string" where
  "owner (EnumId q) = q"
| "owner (MessageId q) = q"
| "owner (FieldId q i) = q"
| "owner (OneofId q i) = q"
| "owner (OneofFieldId q i j) = q"
| "owner (MapId q i) = q"

definition touches :: "string set \<Rightarrow> string set \<Rightarrow> CppNameTable \<Rightarrow> CppNameTable \<Rightarrow> bool" where
  "touches Q R a b \<longleftrightarrow> table_le a b \<and>
     (\<forall>node. owner node \<notin> (if is_type node then Q else R) \<longrightarrow> locals b node = locals a node) \<and>
     (\<forall>q. q \<notin> Q \<longrightarrow> absolute b q = absolute a q \<and> type_ns b q = type_ns a q)"

definition fresh_in :: "string set \<Rightarrow> string set \<Rightarrow> CppNameTable \<Rightarrow> bool" where
  "fresh_in Q R a \<longleftrightarrow>
     (\<forall>node. owner node \<in> (if is_type node then Q else R) \<longrightarrow> locals a node = None) \<and>
     (\<forall>q \<in> Q. absolute a q = None \<and> type_ns a q = None)"

lemma touches_refl [simp]: "touches Q R a a"
  by (simp add: touches_def)

lemma touches_trans: "touches Q R a b \<Longrightarrow> touches Q' R' b c \<Longrightarrow> touches (Q \<union> Q') (R \<union> R') a c"
  unfolding touches_def using table_le_trans by (auto split: if_splits)

lemma touches_mono: "touches Q R a b \<Longrightarrow> Q \<subseteq> Q' \<Longrightarrow> R \<subseteq> R' \<Longrightarrow> touches Q' R' a b"
  unfolding touches_def by (auto split: if_splits)

lemma touches_le: "touches Q R a b \<Longrightarrow> table_le a b"
  by (simp add: touches_def)

lemma fresh_after: "fresh_in Q R a \<Longrightarrow> touches Q' R' a b \<Longrightarrow> Q \<inter> Q' = {} \<Longrightarrow> R \<inter> R' = {} \<Longrightarrow> fresh_in Q R b"
  unfolding fresh_in_def touches_def disjoint_iff by (simp split: if_splits)

lemma fresh_mono: "fresh_in Q R a \<Longrightarrow> Q' \<subseteq> Q \<Longrightarrow> R' \<subseteq> R \<Longrightarrow> fresh_in Q' R' a"
  unfolding fresh_in_def by (auto split: if_splits)

section \<open>The loops of a class\<close>

text \<open>Nodes get the identifiers of a list.\<close>

definition given :: "CppNameTable \<Rightarrow> NodeId list \<Rightarrow> string list \<Rightarrow> bool" where
  "given N nodes ids \<longleftrightarrow> map (locals N) nodes = map Some ids"

lemma given_append: "length xs = length is \<Longrightarrow> given N (xs @ ys) (is @ js) \<longleftrightarrow> given N xs is \<and> given N ys js"
  by (simp add: given_def)

lemma given_Cons [simp]: "given N (x # xs) (i # is) \<longleftrightarrow> locals N x = Some i \<and> given N xs is"
  by (simp add: given_def)

lemma given_Nil [simp]: "given N [] []"
  by (simp add: given_def)

lemma given_le: "table_le a b \<Longrightarrow> given a nodes ids \<Longrightarrow> given b nodes ids"
  unfolding given_def by (induction nodes arbitrary: ids) (auto simp: table_leD(1) Cons_eq_map_conv)

lemma assign_id_fresh:
  assumes "assign_id taken node raw_name names = (ident, names', taken')" "locals names node = None"
  shows "ident = escalate taken (sanitize raw_name)" "taken' = ident # taken"
    "names' = names\<lparr>locals := (locals names)(node \<mapsto> ident)\<rparr>"
  using assms by (auto simp: assign_id_def Let_def emplace_name_simps)

lemma touches_assign: "locals names node = None \<Longrightarrow> touches (if is_type node then {owner node} else {}) (if is_type node then {} else {owner node})
    names (names\<lparr>locals := (locals names)(node \<mapsto> ident)\<rparr>)"
  by (auto simp: touches_def table_le_def map_le_def)

lemma assign_members_ok:
  "assign_members ms taken names = (names', taken') \<Longrightarrow> distinct (map fst ms) \<Longrightarrow>
     (\<forall>node \<in> fst ` set ms. locals names node = None \<and> \<not> is_type node \<and> owner node = q) \<Longrightarrow>
     given names' (map fst ms) (dedup taken (map snd ms)) \<and> touches {} {q} names names'"
proof (induction ms taken names rule: assign_members.induct)
  case (2 node raw_name ms taken names)
  obtain ident names1 taken1 where a: "assign_id taken node raw_name names = (ident, names1, taken1)" by (rule prod_cases3)
  have n: "locals names node = None" "\<not> is_type node" "owner node = q" using 2(4) by simp_all
  note f = assign_id_fresh [OF a n(1)]
  have t: "touches {} {q} names names1" using touches_assign [OF n(1), of ident] n by (simp add: f(3))
  have IH: "given names' (map fst ms) (dedup taken1 (map snd ms)) \<and> touches {} {q} names1 names'"
    by (rule 2(1) [OF a [symmetric] refl]) (use 2(2-4) a in \<open>auto simp: f(3)\<close>)
  then have "locals names' node = Some ident" using table_leD(1) [OF touches_le] f(3) by fastforce
  with IH touches_trans [OF t] show ?case by (auto simp: f(1,2) Let_def dest: touches_trans [OF t])
qed simp

text \<open>A type that got an identifier and, under \<open>base\<close>, its absolute name.\<close>

definition named :: "CppNameTable \<Rightarrow> string \<Rightarrow> NodeId \<Rightarrow> bool" where
  "named N base node \<longleftrightarrow>
     (\<exists>i. locals N node = Some i \<and> absolute N (owner node) = Some (base @ ''::'' @ i))"

lemma named_le: "table_le a b \<Longrightarrow> named a base node \<Longrightarrow> named b base node"
  unfolding named_def by (blast dest: table_leD)

lemma touches_absolute:
  "absolute names q = None \<Longrightarrow> touches {q} {} names (names\<lparr>absolute := emplace_name q s (absolute names)\<rparr>)"
  "absolute names q = None \<Longrightarrow> type_ns names q = None \<Longrightarrow>
     touches {q} {} names (names\<lparr>absolute := emplace_name q s (absolute names), type_ns := emplace_name q ns (type_ns names)\<rparr>)"
  by (auto simp: touches_def table_le_def emplace_name_simps(2))

lemma fresh_type: "fresh_in Q R names \<Longrightarrow> q \<in> Q \<Longrightarrow>
    locals names (EnumId q) = None \<and> locals names (MessageId q) = None \<and> absolute names q = None \<and> type_ns names q = None"
  unfolding fresh_in_def by (metis is_type.simps(1,2) owner.simps(1,2))

lemma assign_enums_ok:
  "assign_enums base es taken names = (names', taken') \<Longrightarrow> distinct (map en_fqn es) \<Longrightarrow> fresh_in (en_fqn ` set es) {} names \<Longrightarrow>
     given names' (map (EnumId \<circ> en_fqn) es) (dedup taken (map en_name es)) \<and> taken' = rev (dedup taken (map en_name es)) @ taken \<and>
     touches (en_fqn ` set es) {} names names' \<and> (\<forall>e \<in> set es. named names' base (EnumId (en_fqn e)))"
proof (induction base es taken names rule: assign_enums.induct)
  case (2 base e es taken names)
  let ?q = "en_fqn e"
  obtain ident names1 taken1 where a: "assign_id taken (EnumId ?q) (en_name e) names = (ident, names1, taken1)" by (rule prod_cases3)
  have q: "locals names (EnumId ?q) = None" "absolute names ?q = None" using fresh_type [OF 2(4), of ?q] by simp_all
  note f = assign_id_fresh [OF a q(1)]
  let ?names2 = "names1\<lparr>absolute := emplace_name ?q (base @ ''::'' @ ident) (absolute names1)\<rparr>"
  have t: "touches {?q} {} names names1" using touches_assign [OF q(1), of ident] by (simp add: f(3))
  have "touches {?q} {} names1 ?names2" by (rule touches_absolute) (simp add: f(3) q(2))
  from touches_trans [OF t this] have t2: "touches {?q} {} names ?names2" by simp
  have fr: "fresh_in (en_fqn ` set es) {} ?names2" using fresh_after [OF fresh_mono [OF 2(4)] t2] 2(3) by auto
  have r: "assign_enums base es taken1 ?names2 = (names', taken')" and dm: "distinct (map en_fqn es)" using 2(2,3) a by auto
  from 2(1) [OF a [symmetric] refl r dm fr] have
    IH: "given names' (map (EnumId \<circ> en_fqn) es) (dedup taken1 (map en_name es))" "taken' = rev (dedup taken1 (map en_name es)) @ taken1"
      "touches (en_fqn ` set es) {} ?names2 names'" "\<forall>e \<in> set es. named names' base (EnumId (en_fqn e))" by blast+
  have "named ?names2 base (EnumId ?q)" "locals ?names2 (EnumId ?q) = Some ident"
    using q(2) by (simp_all add: named_def f(3) emplace_name_simps)
  then have "named names' base (EnumId ?q)" "locals names' (EnumId ?q) = Some ident"
    using named_le table_leD(1) touches_le [OF IH(3)] by blast+
  with IH touches_trans [OF t2 IH(3)] show ?case by (simp add: f(1,2) Let_def comp_def)
qed simp

lemma assign_nested_ok:
  "assign_nested base ebase ns ms taken names = (paths, names', taken') \<Longrightarrow> distinct (map node_fqn ms) \<Longrightarrow>
     fresh_in (node_fqn ` set ms) {} names \<Longrightarrow>
     given names' (map (MessageId \<circ> node_fqn) ms) (dedup taken (map (msg_name \<circ> msg_data) ms)) \<and>
     taken' = rev (dedup taken (map (msg_name \<circ> msg_data) ms)) @ taken \<and>
     paths = map (\<lambda>i. (base @ ''::'' @ i, ebase @ ''::'' @ i)) (dedup taken (map (msg_name \<circ> msg_data) ms)) \<and>
     touches (node_fqn ` set ms) {} names names' \<and>
     (\<forall>m \<in> set ms. named names' base (MessageId (node_fqn m)) \<and> type_ns names' (node_fqn m) = Some ns)"
proof (induction base ebase ns ms taken names arbitrary: paths names' taken' rule: assign_nested.induct)
  case (2 base ebase ns m ms taken names)
  let ?q = "node_fqn m"
  obtain ident names1 taken1 where a: "assign_id taken (MessageId ?q) (msg_name (msg_data m)) names = (ident, names1, taken1)"
    by (rule prod_cases3)
  have q: "locals names (MessageId ?q) = None" "absolute names ?q = None" "type_ns names ?q = None"
    using fresh_type [OF 2(4), of ?q] by simp_all
  note f = assign_id_fresh [OF a q(1)]
  let ?names2 = "names1\<lparr>absolute := emplace_name ?q (base @ ''::'' @ ident) (absolute names1), type_ns := emplace_name ?q ns (type_ns names1)\<rparr>"
  obtain paths1 names3 taken3 where r: "assign_nested base ebase ns ms taken1 ?names2 = (paths1, names3, taken3)" by (rule prod_cases3)
  have p: "paths = (base @ ''::'' @ ident, ebase @ ''::'' @ ident) # paths1" "names' = names3" "taken' = taken3"
    using 2(2) a r by (auto simp: Let_def)
  have t: "touches {?q} {} names names1" using touches_assign [OF q(1), of ident] by (simp add: f(3))
  have "touches {?q} {} names1 ?names2" by (rule touches_absolute) (simp_all add: f(3) q)
  from touches_trans [OF t this] have t2: "touches {?q} {} names ?names2" by simp
  have fr: "fresh_in (node_fqn ` set ms) {} ?names2" using fresh_after [OF fresh_mono [OF 2(4)] t2] 2(3) by auto
  have dm: "distinct (map node_fqn ms)" using 2(3) by simp
  note IH = 2(1) [OF a [symmetric] refl refl refl r dm fr]
  have "named ?names2 base (MessageId ?q)" "locals ?names2 (MessageId ?q) = Some ident" "type_ns ?names2 ?q = Some ns"
    using q by (simp_all add: named_def f(3) emplace_name_simps)
  moreover have le: "table_le ?names2 names3" using IH touches_le by blast
  ultimately have "named names3 base (MessageId ?q)" "locals names3 (MessageId ?q) = Some ident" "type_ns names3 ?q = Some ns"
    using named_le [OF le] table_leD [OF le] by blast+
  moreover have "touches (node_fqn ` set (m # ms)) {} names names3" using IH touches_trans [OF t2] by fastforce
  ultimately show ?case using IH by (simp add: p f(1,2) Let_def)
qed simp

section \<open>A message and its nested types\<close>

fun scope_nodes :: "MessageNode \<Rightarrow> (NodeId \<times> string) list" where
  "scope_nodes (MessageNode d ns) =
     map (\<lambda>e. (EnumId (en_fqn e), en_name e)) (msg_enums d) @
     map (\<lambda>n. (MessageId (node_fqn n), msg_name (msg_data n))) ns @ class_members d"

definition scope_ok :: "CppNameTable \<Rightarrow> MessageNode \<Rightarrow> bool" where
  "scope_ok N m \<longleftrightarrow> (\<exists>own. locals N (MessageId (node_fqn m)) = Some own \<and>
     given N (map fst (scope_nodes m)) (dedup [own] (map snd (scope_nodes m))))"

fun types_below :: "MessageNode \<Rightarrow> string list" where
  "types_below (MessageNode d ns) = map en_fqn (msg_enums d) @ map node_fqn ns @ concat (map types_below ns)"

fun tree_ok :: "CppNameTable \<Rightarrow> string \<Rightarrow> string \<Rightarrow> string \<Rightarrow> MessageNode \<Rightarrow> bool" where
  "tree_ok N base ebase ns (MessageNode d ms) \<longleftrightarrow>
     scope_ok N (MessageNode d ms) \<and> (\<forall>e \<in> set (msg_enums d). named N ebase (EnumId (en_fqn e))) \<and>
     (\<forall>m \<in> set ms. named N base (MessageId (node_fqn m)) \<and> type_ns N (node_fqn m) = Some ns \<and>
        (let i = the (locals N (MessageId (node_fqn m))) in tree_ok N (base @ ''::'' @ i) (ebase @ ''::'' @ i) ns m))"

lemma scope_ok_le: "table_le a b \<Longrightarrow> scope_ok a m \<Longrightarrow> scope_ok b m"
  unfolding scope_ok_def by (blast dest: table_leD given_le)

lemma tree_ok_le: "table_le a b \<Longrightarrow> tree_ok a base ebase ns m \<Longrightarrow> tree_ok b base ebase ns m"
proof (induction a base ebase ns m rule: tree_ok.induct)
  case (1 a base ebase ns d ms)
  have "named b base (MessageId (node_fqn m)) \<and> type_ns b (node_fqn m) = Some ns \<and>
      (let i = the (locals b (MessageId (node_fqn m))) in tree_ok b (base @ ''::'' @ i) (ebase @ ''::'' @ i) ns m)"
    if m: "m \<in> set ms" for m
  proof -
    from 1(3) m have a: "named a base (MessageId (node_fqn m))" "type_ns a (node_fqn m) = Some ns"
      "tree_ok a (base @ ''::'' @ the (locals a (MessageId (node_fqn m)))) (ebase @ ''::'' @ the (locals a (MessageId (node_fqn m)))) ns m"
      by (simp_all add: Let_def)
    then obtain i where "locals a (MessageId (node_fqn m)) = Some i" by (auto simp: named_def)
    then have "locals b (MessageId (node_fqn m)) = locals a (MessageId (node_fqn m))" using table_leD(1) [OF 1(2)] by simp
    with 1(1) [OF m refl 1(2) a(3)] named_le [OF 1(2) a(1)] table_leD(3) [OF 1(2) a(2)] show ?thesis by (simp add: Let_def)
  qed
  with 1(2,3) scope_ok_le named_le show ?case by auto
qed

lemma distinct_enumerated: "inj f \<Longrightarrow> distinct (map (\<lambda>x. f (fst x)) (enumerate n xs))"
  by (induction xs arbitrary: n) (auto simp: in_set_enumerate_eq dest: injD)

lemma class_members_ids:
  "distinct (map fst (class_members d))" "node \<in> fst ` set (class_members d) \<Longrightarrow> \<not> is_type node \<and> owner node = msg_fqn d"
proof -
  show "node \<in> fst ` set (class_members d) \<Longrightarrow> \<not> is_type node \<and> owner node = msg_fqn d"
    by (auto simp: class_members_def)
  have "distinct (concat (map (\<lambda>(i, oo). OneofId q i # map (\<lambda>(j, f). OneofFieldId q i j) (enumerate 0 (oo_fields oo))) (enumerate n xs)))"
    for q n and xs :: "OneofNode list"
  proof (induction xs arbitrary: n)
    case (Cons x xs)
    have "OneofId q n \<notin> set (concat (map (\<lambda>(i, oo). OneofId q i # map (\<lambda>(j, f). OneofFieldId q i j) (enumerate 0 (oo_fields oo))) (enumerate (Suc n) xs)))"
      "\<And>j. OneofFieldId q n j \<notin> set (concat (map (\<lambda>(i, oo). OneofId q i # map (\<lambda>(j, f). OneofFieldId q i j) (enumerate 0 (oo_fields oo))) (enumerate (Suc n) xs)))"
      by (auto simp: in_set_enumerate_eq)
    moreover have "distinct (map (\<lambda>(j, f). OneofFieldId q n j) (enumerate 0 (oo_fields x)))"
      using distinct_enumerated [of "OneofFieldId q n" 0] by (simp add: case_prod_unfold inj_def)
    ultimately show ?case using Cons by auto
  qed simp
  then show "distinct (map fst (class_members d))"
    unfolding class_members_def
    using distinct_enumerated [of "FieldId (msg_fqn d)" 0] distinct_enumerated [of "MapId (msg_fqn d)" 0]
    by (auto simp: map_concat comp_def case_prod_unfold inj_def)
qed

lemma given_map: "given N (map f xs) ids \<Longrightarrow> ids = map (\<lambda>x. the (locals N (f x))) xs"
  unfolding given_def by (drule arg_cong [where f = "map the"]) (simp add: comp_def)

lemma class_scope:
  assumes own: "locals names (MessageId (msg_fqn d)) = Some own"
    and dis: "distinct (msg_fqn d # map en_fqn (msg_enums d) @ map node_fqn ms)"
    and fresh: "fresh_in (set (map en_fqn (msg_enums d) @ map node_fqn ms)) {msg_fqn d} names"
    and e: "assign_enums ebase (msg_enums d) [own] names = (names1, taken1)"
    and k: "assign_nested base ebase ns ms taken1 names1 = (paths, names2, taken2)"
    and c: "assign_members (class_members d) taken2 names2 = (names3, taken3)"
  shows "scope_ok names3 (MessageNode d ms)"
    and "touches (set (map en_fqn (msg_enums d) @ map node_fqn ms)) {msg_fqn d} names names3"
    and "\<forall>e \<in> set (msg_enums d). named names3 ebase (EnumId (en_fqn e))"
    and "\<forall>m \<in> set ms. named names3 base (MessageId (node_fqn m)) \<and> type_ns names3 (node_fqn m) = Some ns"
    and "paths = map (\<lambda>m. let i = the (locals names3 (MessageId (node_fqn m))) in (base @ ''::'' @ i, ebase @ ''::'' @ i)) ms"
proof -
  let ?q = "msg_fqn d" and ?E = "en_fqn ` set (msg_enums d)" and ?K = "node_fqn ` set ms"
  have E: "given names1 (map (EnumId \<circ> en_fqn) (msg_enums d)) (dedup [own] (map en_name (msg_enums d)))"
      "taken1 = rev (dedup [own] (map en_name (msg_enums d))) @ [own]" "touches ?E {} names names1"
      "\<forall>e \<in> set (msg_enums d). named names1 ebase (EnumId (en_fqn e))"
    using assign_enums_ok [OF e _ fresh_mono [OF fresh]] dis by auto
  have f1: "fresh_in ?K {?q} names1" by (rule fresh_after [OF fresh_mono [OF fresh] E(3)]) (use dis in auto)
  have K: "given names2 (map (MessageId \<circ> node_fqn) ms) (dedup taken1 (map (msg_name \<circ> msg_data) ms))"
      "taken2 = rev (dedup taken1 (map (msg_name \<circ> msg_data) ms)) @ taken1"
      "paths = map (\<lambda>i. (base @ ''::'' @ i, ebase @ ''::'' @ i)) (dedup taken1 (map (msg_name \<circ> msg_data) ms))"
      "touches ?K {} names1 names2" "\<forall>m \<in> set ms. named names2 base (MessageId (node_fqn m)) \<and> type_ns names2 (node_fqn m) = Some ns"
    using assign_nested_ok [OF k _ fresh_mono [OF f1]] dis by auto
  have "fresh_in {} {?q} names2" by (rule fresh_after [OF fresh_mono [OF f1] K(4)]) auto
  then have "\<forall>node \<in> fst ` set (class_members d). locals names2 node = None \<and> \<not> is_type node \<and> owner node = ?q"
    using class_members_ids(2) unfolding fresh_in_def by (metis singletonI)
  from assign_members_ok [OF c class_members_ids(1) this]
  have C: "given names3 (map fst (class_members d)) (dedup taken2 (map snd (class_members d)))" "touches {} {?q} names2 names3" by simp_all
  have le: "table_le names1 names2" "table_le names2 names3" using K(4) C touches_le by auto
  note le13 = table_le_trans [OF le]
  have G: "given names3 (map fst (scope_nodes (MessageNode d ms))) (dedup [own] (map snd (scope_nodes (MessageNode d ms))))"
    using given_le [OF le13 E(1)] given_le [OF le(2) K(1)] C(1) by (simp add: dedup_append given_append comp_def E(2) K(2))
  show t: "touches (set (map en_fqn (msg_enums d) @ map node_fqn ms)) {?q} names names3"
    using touches_trans [OF touches_trans [OF E(3) K(4)] C(2)] by simp
  show "scope_ok names3 (MessageNode d ms)"
    unfolding scope_ok_def using G table_leD(1) [OF touches_le [OF t] own] by auto
  show "\<forall>e \<in> set (msg_enums d). named names3 ebase (EnumId (en_fqn e))" using E(4) named_le [OF le13] by blast
  show "\<forall>m \<in> set ms. named names3 base (MessageId (node_fqn m)) \<and> type_ns names3 (node_fqn m) = Some ns"
    using K(5) named_le [OF le(2)] table_leD(3) [OF le(2)] by blast
  show "paths = map (\<lambda>m. let i = the (locals names3 (MessageId (node_fqn m))) in (base @ ''::'' @ i, ebase @ ''::'' @ i)) ms"
    unfolding K(3) given_map [OF given_le [OF le(2) K(1)]] by (simp add: Let_def comp_def)
qed

definition ready :: "CppNameTable \<Rightarrow> MessageNode \<Rightarrow> bool" where
  "ready names m \<longleftrightarrow> locals names (MessageId (node_fqn m)) \<noteq> None \<and> distinct (node_fqn m # types_below m) \<and>
     fresh_in (set (types_below m)) (set (node_fqn m # types_below m)) names"

definition indexed_as :: "CppNameTable \<Rightarrow> CppNameTable \<Rightarrow> string \<Rightarrow> string \<Rightarrow> string \<Rightarrow> MessageNode \<Rightarrow> bool" where
  "indexed_as names N base ebase ns m \<longleftrightarrow>
     tree_ok N base ebase ns m \<and> touches (set (types_below m)) (set (node_fqn m # types_below m)) names N"

lemma ready_after: "ready names m \<Longrightarrow> touches Q R names names' \<Longrightarrow> Q \<inter> set (types_below m) = {} \<Longrightarrow>
    R \<inter> set (node_fqn m # types_below m) = {} \<Longrightarrow> ready names' m"
  unfolding ready_def using table_leD(1) [OF touches_le] fresh_after [of "set (types_below m)" "set (node_fqn m # types_below m)" names Q R names']
  by blast

lemma index_children_ok:
  assumes "\<And>m base ebase names. m \<in> set ms \<Longrightarrow> ready names m \<Longrightarrow> indexed_as names (index_message m base ebase ns names) base ebase ns m"
  shows "length paths = length ms \<Longrightarrow> distinct (map node_fqn ms @ concat (map types_below ms)) \<Longrightarrow> list_all (ready names) ms \<Longrightarrow>
    list_all2 (\<lambda>m (base, ebase). tree_ok (index_children ms paths ns names) base ebase ns m) ms paths \<and>
    touches (set (concat (map types_below ms))) (set (map node_fqn ms @ concat (map types_below ms))) names (index_children ms paths ns names)"
  using assms
proof (induction ms arbitrary: paths names)
  case (Cons m ms)
  obtain base ebase ps where p: "paths = (base, ebase) # ps" "length ps = length ms" using Cons.prems(1) by (cases paths) auto
  let ?n1 = "index_message m base ebase ns names" and ?Q = "set (types_below m)" and ?R = "set (node_fqn m # types_below m)"
  have i: "tree_ok ?n1 base ebase ns m" "touches ?Q ?R names ?n1"
    using Cons.prems(3,4) by (simp_all add: indexed_as_def)
  have dis: "?Q \<inter> set (concat (map types_below ms)) = {}" "?R \<inter> (set (map node_fqn ms) \<union> set (concat (map types_below ms))) = {}"
    "distinct (map node_fqn ms @ concat (map types_below ms))" using Cons.prems(2) by auto
  have "ready ?n1 n" if "n \<in> set ms" for n
  proof (rule ready_after [OF _ i(2)])
    have "node_fqn n \<in> set (map node_fqn ms)" "set (types_below n) \<subseteq> set (concat (map types_below ms))" using that by auto
    with dis(1,2) show "?Q \<inter> set (types_below n) = {}" "?R \<inter> set (node_fqn n # types_below n) = {}" by auto
  qed (use that Cons.prems(3) in \<open>simp add: list_all_iff\<close>)
  then have "list_all (ready ?n1) ms" by (simp add: list_all_iff)
  from Cons.IH [OF p(2) dis(3) this Cons.prems(4)] have
    IH: "list_all2 (\<lambda>m (base, ebase). tree_ok (index_children ms ps ns ?n1) base ebase ns m) ms ps"
      "touches (set (concat (map types_below ms))) (set (map node_fqn ms @ concat (map types_below ms))) ?n1 (index_children ms ps ns ?n1)"
    by simp_all
  from touches_trans [OF i(2) IH(2)] have
    "touches (set (concat (map types_below (m # ms)))) (set (map node_fqn (m # ms) @ concat (map types_below (m # ms)))) names
      (index_children ms ps ns ?n1)" by (rule touches_mono) auto
  with IH(1) tree_ok_le [OF touches_le [OF IH(2)] i(1)] show ?case by (simp add: p(1))
qed simp

lemma index_message_ok: "ready names m \<Longrightarrow> indexed_as names (index_message m base ebase ns names) base ebase ns m"
proof (induction m arbitrary: base ebase names)
  case (MessageNode d ms)
  let ?E = "map en_fqn (msg_enums d)" and ?K = "map node_fqn ms" and ?B = "concat (map types_below ms)"
  obtain own where own: "locals names (MessageId (msg_fqn d)) = Some own" using MessageNode.prems by (auto simp: ready_def)
  obtain names1 taken1 where e: "assign_enums ebase (msg_enums d) [own] names = (names1, taken1)" by (rule prod.exhaust)
  obtain paths names2 taken2 where k: "assign_nested base ebase ns ms taken1 names1 = (paths, names2, taken2)" by (rule prod_cases3)
  obtain names3 taken3 where c: "assign_members (class_members d) taken2 names2 = (names3, taken3)" by (rule prod.exhaust)
  let ?N = "index_children ms paths ns names3"
  have N: "index_message (MessageNode d ms) base ebase ns names = ?N" using own e k c by simp
  have dis: "distinct (msg_fqn d # ?E @ ?K @ ?B)" and fresh: "fresh_in (set (?E @ ?K @ ?B)) (set (msg_fqn d # ?E @ ?K @ ?B)) names"
    using MessageNode.prems by (auto simp: ready_def)
  have S: "scope_ok names3 (MessageNode d ms)" "touches (set (?E @ ?K)) {msg_fqn d} names names3"
    "\<forall>e \<in> set (msg_enums d). named names3 ebase (EnumId (en_fqn e))"
    "\<forall>m \<in> set ms. named names3 base (MessageId (node_fqn m)) \<and> type_ns names3 (node_fqn m) = Some ns"
    "paths = map (\<lambda>m. let i = the (locals names3 (MessageId (node_fqn m))) in (base @ ''::'' @ i, ebase @ ''::'' @ i)) ms"
    by (rule class_scope [OF own _ fresh_mono [OF fresh] e k c]; use dis in force)+
  have "ready names3 m" if m: "m \<in> set ms" for m
  proof -
    have "set (types_below m) \<subseteq> set ?B" "node_fqn m \<in> set ?K" using m by auto
    moreover have "distinct (node_fqn m # types_below m)" using dis m by (auto simp: distinct_concat_iff)
    moreover have "fresh_in (set ?B) (set (?K @ ?B)) names3"
      by (rule fresh_after [OF fresh_mono [OF fresh] S(2)]) (use dis in auto)
    ultimately show ?thesis using S(4) m by (auto simp: ready_def named_def elim!: fresh_mono)
  qed
  then have "list_all (ready names3) ms" by (simp add: list_all_iff)
  from index_children_ok [OF MessageNode.IH _ _ this] dis S(5)
  have R: "list_all2 (\<lambda>m (base, ebase). tree_ok ?N base ebase ns m) ms paths" "touches (set ?B) (set (?K @ ?B)) names3 ?N" by simp_all
  have le: "table_le names3 ?N" by (rule touches_le [OF R(2)])
  have "touches (set (?E @ ?K @ ?B)) (set (msg_fqn d # ?E @ ?K @ ?B)) names ?N"
    by (rule touches_mono [OF touches_trans [OF S(2) R(2)]]) auto
  moreover have "tree_ok ?N base ebase ns (MessageNode d ms)"
  proof -
    have "let i = the (locals ?N (MessageId (node_fqn m))) in tree_ok ?N (base @ ''::'' @ i) (ebase @ ''::'' @ i) ns m" if m: "m \<in> set ms" for m
    proof -
      have "locals ?N (MessageId (node_fqn m)) = locals names3 (MessageId (node_fqn m))"
        using S(4) m table_leD(1) [OF le] by (force simp: named_def)
      with R(1) m show ?thesis by (auto simp: S(5) list_all2_map2 list_all2_same Let_def)
    qed
    moreover have "named ?N base (MessageId (node_fqn m))" "type_ns ?N (node_fqn m) = Some ns" if "m \<in> set ms" for m
      using S(4) that named_le [OF le] table_leD(3) [OF le] by blast+
    ultimately show ?thesis unfolding tree_ok.simps using scope_ok_le [OF le S(1)] S(3) named_le [OF le] by blast
  qed
  ultimately show ?case unfolding N indexed_as_def by simp
qed

end
