(* ===== verification/Naming_Claims.thy ===== *)
theory Naming_Claims
  imports Naming_Scope "HOL-Library.Multiset"
begin

text \<open>
  The identifiers of the types of a package: what the components of package names and the top-level
  types of all files claim, and the table that a file set gets from it.
\<close>

section \<open>Components of a package\<close>

definition plain :: "string \<Rightarrow> bool" where
  "plain c \<longleftrightarrow> c \<noteq> [] \<and> CHR ''.'' \<notin> set c"

lemma dotted_loop_plain: "CHR ''.'' \<notin> set piece \<Longrightarrow> list_all plain (dotted_loop piece s)"
  by (induction piece s rule: dotted_loop.induct) (auto simp: plain_def)

lemma components_plain: "list_all plain (components s)"
  unfolding components_def by (rule dotted_loop_plain) simp

fun dot_join :: "string list \<Rightarrow> string" where
  "dot_join [] = []"
| "dot_join (c # cs) = c @ concat (map (\<lambda>d. ''.'' @ d) cs)"

lemma dot_join_snoc: "list_all plain cs \<Longrightarrow> dot_join (cs @ [c]) = (if dot_join cs = [] then [] else dot_join cs @ ''.'') @ c"
  by (cases cs) (auto simp: plain_def)

lemma dotted_loop_piece: "CHR ''.'' \<notin> set c \<Longrightarrow> dotted_loop piece (c @ s) = dotted_loop (piece @ c) s"
  by (induction c arbitrary: piece) auto

lemma dotted_loop_rest:
  "list_all plain cs \<Longrightarrow> piece \<noteq> [] \<Longrightarrow> dotted_loop piece (concat (map (\<lambda>d. ''.'' @ d) cs)) = piece # cs"
  by (induction cs arbitrary: piece) (auto simp: plain_def dotted_loop_piece)

lemma components_join: "list_all plain cs \<Longrightarrow> components (dot_join cs) = cs"
  by (cases cs) (auto simp: components_def dotted_loop_piece dotted_loop_rest plain_def)

definition ns_text :: "string list \<Rightarrow> string" where
  "ns_text cs = foldl add_component [] cs"

definition ns_parts :: "string \<Rightarrow> string list" where
  "ns_parts package = map sanitize (components package)"

lemma namespace_of_parts: "namespace_of package = ns_text (ns_parts package)"
  by (simp add: namespace_of_def dotted_to_ns_def ns_text_def ns_parts_def)

lemma claim_components_grow: "x \<in> set (taken s) \<Longrightarrow> x \<in> set (claim_components P parent cs taken s)"
proof (induction cs arbitrary: parent taken)
  case (Cons c cs)
  let ?scope = "join_ns P (namespace_of parent)"
  have "x \<in> set ((taken(?scope := List.insert (sanitize c) (taken ?scope))) s)" using Cons.prems by auto
  from Cons.IH [where taken = "taken(?scope := List.insert (sanitize c) (taken ?scope))", OF this] show ?case by (simp only: claim_components.simps Let_def)
qed simp

lemma claim_components_has:
  "list_all plain (pre @ cs) \<Longrightarrow> k < length cs \<Longrightarrow>
     sanitize (cs ! k) \<in> set (claim_components P (dot_join pre) cs taken (join_ns P (ns_text (map sanitize (pre @ take k cs)))))"
proof (induction cs arbitrary: pre taken k)
  case (Cons c cs)
  let ?scope = "join_ns P (namespace_of (dot_join pre))"
  let ?taken = "taken(?scope := List.insert (sanitize c) (taken ?scope))"
  have pre: "list_all plain pre" "list_all plain ((pre @ [c]) @ cs)" using Cons.prems(1) by simp_all
  have step: "claim_components P (dot_join pre) (c # cs) taken = claim_components P (dot_join (pre @ [c])) cs ?taken"
    by (simp add: dot_join_snoc [OF pre(1)] Let_def)
  show ?case
  proof (cases k)
    case 0
    have "namespace_of (dot_join pre) = ns_text (map sanitize pre)"
      by (simp add: namespace_of_parts ns_parts_def components_join [OF pre(1)])
    then show ?thesis unfolding step using 0 by (auto intro: claim_components_grow)
  next
    case (Suc j)
    with Cons.prems(2) have "j < length cs" by simp
    from Cons.IH [OF pre(2) this] show ?thesis
      unfolding step Suc by (simp only: append_assoc append_Cons append_Nil take_Suc_Cons nth_Cons_Suc)
  qed
qed simp

definition package_claims :: "CppNameTable \<Rightarrow> FileNode list \<Rightarrow> TakenByNamespace" where
  "package_claims names fs = fold (claim_package_components names) fs (\<lambda>_. [])"

lemma fold_claim_grow: "x \<in> set (taken s) \<Longrightarrow> x \<in> set (fold (claim_package_components names) fs taken s)"
  by (induction fs arbitrary: taken) (simp_all add: claim_package_components_def claim_components_grow)

text \<open>Each package component is claimed in the namespace around it.\<close>

lemma package_claims_has:
  assumes "file \<in> set fs" "k < length (ns_parts (file_package file))"
  shows "ns_parts (file_package file) ! k \<in>
    set (package_claims names fs (join_ns (ns_prefix names) (ns_text (take k (ns_parts (file_package file))))))"
proof -
  let ?cs = "components (file_package file)"
  obtain fs1 fs2 where fs: "fs = fs1 @ file # fs2" using assms(1) by (meson split_list)
  have "sanitize (?cs ! k) \<in> set (claim_components P (dot_join []) ?cs taken (join_ns P (ns_text (map sanitize ([] @ take k ?cs)))))" for P taken
    using assms(2) components_plain by (intro claim_components_has) (simp_all add: ns_parts_def)
  then show ?thesis using assms(2)
    by (auto simp: package_claims_def fs ns_parts_def take_map claim_package_components_def intro!: fold_claim_grow)
qed

section \<open>Claims of types\<close>

definition claim_form :: "string \<Rightarrow> string \<Rightarrow> bool" where
  "claim_form raw_name i \<longleftrightarrow> (\<exists>n. i = sanitize raw_name @ replicate n CHR ''_'')"

definition claims_ok :: "TakenByNamespace \<Rightarrow> Claimant set \<Rightarrow> TakenByNamespace \<Rightarrow> (NodeId \<rightharpoonup> string) \<Rightarrow> bool" where
  "claims_ok T0 C taken claimed \<longleftrightarrow>
     (\<forall>s. set (T0 s) \<subseteq> set (taken s)) \<and> dom claimed = cl_node ` C \<and>
     (\<forall>c \<in> C. \<exists>i. claimed (cl_node c) = Some i \<and> i \<in> set (taken (cl_scope c)) - set (T0 (cl_scope c)) \<and> claim_form (cl_raw c) i) \<and>
     (\<forall>c \<in> C. \<forall>c' \<in> C. cl_scope c = cl_scope c' \<and> claimed (cl_node c) = claimed (cl_node c') \<longrightarrow> cl_node c = cl_node c')"

lemma claims_start: "claims_ok T0 {} T0 Map.empty"
  by (simp add: claims_ok_def)

lemma claims_add:
  assumes "claims_ok T0 C taken claimed" "i \<notin> set (taken (cl_scope c))" "claim_form (cl_raw c) i" "cl_node c \<notin> cl_node ` C"
  shows "claims_ok T0 (insert c C) (taken(cl_scope c := i # taken (cl_scope c))) (emplace_name (cl_node c) i claimed)"
proof -
  have "claimed (cl_node c) = None" using assms(1,4) by (auto simp: claims_ok_def)
  then have cl: "emplace_name (cl_node c) i claimed = claimed(cl_node c \<mapsto> i)" by (simp add: emplace_name_simps)
  have other: "cl_node c' \<noteq> cl_node c" if "c' \<in> C" for c' using that assms(4) by (metis image_eqI)
  have old: "claimed (cl_node c') \<noteq> Some i" if "c' \<in> C" "cl_scope c' = cl_scope c" for c'
    using assms(1,2) that unfolding claims_ok_def by fastforce
  show ?thesis unfolding claims_ok_def cl
    using assms(1-3) other old unfolding claims_ok_def by (auto simp: subset_iff)
qed

lemma claim_form_sanitize: "claim_form raw_name (escalate taken (sanitize raw_name))" "sanitize raw_name = raw_name \<Longrightarrow> claim_form raw_name raw_name"
  unfolding claim_form_def using escalate_form [of taken "sanitize raw_name"] by (blast, metis append.right_neutral replicate_0)

lemma claim_escalated_ok:
  "claims_ok T0 C taken claimed \<Longrightarrow> distinct (map cl_node cs) \<Longrightarrow> cl_node ` set cs \<inter> cl_node ` C = {} \<Longrightarrow>
     claim_escalated cs taken claimed = (taken', claimed') \<Longrightarrow> claims_ok T0 (set cs \<union> C) taken' claimed'"
proof (induction cs arbitrary: C taken claimed)
  case (Cons c cs)
  let ?i = "escalate (taken (cl_scope c)) (sanitize (cl_raw c))"
  have ok: "claims_ok T0 (insert c C) (taken(cl_scope c := ?i # taken (cl_scope c))) (emplace_name (cl_node c) ?i claimed)"
    by (rule claims_add [OF Cons.prems(1) escalate_free claim_form_sanitize(1)]) (use Cons.prems(3) in auto)
  have rest: "claim_escalated cs (taken(cl_scope c := ?i # taken (cl_scope c))) (emplace_name (cl_node c) ?i claimed) = (taken', claimed')"
    using Cons.prems(4) by (simp only: claim_escalated.simps Let_def)
  have "claims_ok T0 (set cs \<union> insert c C) taken' claimed'"
    by (rule Cons.IH [OF ok _ _ rest]) (use Cons.prems(2,3) in auto)
  then show ?case by simp
qed simp

lemma claim_literals_ok:
  "claims_ok T0 C taken claimed \<Longrightarrow> distinct (map cl_node cs) \<Longrightarrow> cl_node ` set cs \<inter> cl_node ` C = {} \<Longrightarrow>
     list_all (\<lambda>c. sanitize (cl_raw c) = cl_raw c) cs \<Longrightarrow> claim_literals cs taken claimed = (taken', claimed', blocked) \<Longrightarrow>
     \<exists>free. claims_ok T0 (set free \<union> C) taken' claimed' \<and> mset cs = mset free + mset blocked"
proof (induction cs arbitrary: C taken claimed blocked)
  case (Cons c cs)
  have dis: "distinct (map cl_node cs)" "cl_node ` set cs \<inter> cl_node ` C = {}" "cl_node ` set cs \<inter> cl_node ` insert c C = {}"
    and lit: "list_all (\<lambda>c. sanitize (cl_raw c) = cl_raw c) cs" using Cons.prems(2-4) by auto
  show ?case
  proof (cases "cl_raw c \<in> set (taken (cl_scope c))")
    case True
    obtain b where b: "claim_literals cs taken claimed = (taken', claimed', b)" "blocked = c # b"
      using Cons.prems(5) True by (auto split: prod.splits)
    from Cons.IH [OF Cons.prems(1) dis(1,2) lit b(1)] show ?thesis by (auto simp: b(2))
  next
    case False
    let ?t = "taken(cl_scope c := cl_raw c # taken (cl_scope c))" and ?c = "emplace_name (cl_node c) (cl_raw c) claimed"
    have ok: "claims_ok T0 (insert c C) ?t ?c"
      by (rule claims_add [OF Cons.prems(1) False claim_form_sanitize(2)]) (use Cons.prems(3,4) in auto)
    have "claim_literals cs ?t ?c = (taken', claimed', blocked)" using Cons.prems(5) False by simp
    from Cons.IH [OF ok dis(1,3) lit this]
    obtain free where "claims_ok T0 (set (c # free) \<union> C) taken' claimed'" "mset cs = mset free + mset blocked" by auto
    then show ?thesis by (intro exI [of _ "c # free"]) simp
  qed
qed simp

definition claimants :: "CppNameTable \<Rightarrow> FileNode list \<Rightarrow> Claimant list" where
  "claimants names fs = concat (map (file_claimants names) fs)"

lemma claim_toplevel_ok:
  assumes "claim_toplevel_ids names fs = (taken, claimed)" "distinct (map cl_node (claimants names fs))"
  shows "claims_ok (package_claims names fs) (set (claimants names fs)) taken claimed"
proof -
  let ?T0 = "package_claims names fs" and ?key = "string_order \<circ> cl_fqn"
  define lits escs where "lits = sort_key ?key (filter (\<lambda>c. sanitize (cl_raw c) = cl_raw c) (claimants names fs))"
    and "escs = sort_key ?key (filter (\<lambda>c. sanitize (cl_raw c) \<noteq> cl_raw c) (claimants names fs))"
  have all: "mset (claimants names fs) = mset lits + mset escs" by (simp add: lits_def escs_def)
  obtain t1 c1 blocked where l: "claim_literals lits ?T0 Map.empty = (t1, c1, blocked)" by (rule prod_cases3)
  obtain t2 c2 where b: "claim_escalated blocked t1 c1 = (t2, c2)" by (rule prod.exhaust)
  have e: "claim_escalated escs t2 c2 = (taken, claimed)"
    using assms(1) l b by (simp add: claim_toplevel_ids_def Let_def package_claims_def claimants_def lits_def escs_def)
  have "mset (map cl_node (claimants names fs)) = mset (map cl_node (lits @ escs))" by (simp add: all)
  then have dis: "distinct (map cl_node (lits @ escs))" using assms(2) mset_eq_imp_distinct_iff by blast
  have "list_all (\<lambda>c. sanitize (cl_raw c) = cl_raw c) lits" by (simp add: lits_def list_all_iff)
  from claim_literals_ok [OF claims_start _ _ this l] dis
  obtain free where free: "claims_ok ?T0 (set free) t1 c1" "mset lits = mset free + mset blocked" by auto
  have "mset (map cl_node lits) = mset (map cl_node (free @ blocked))" by (simp add: free(2))
  then have dis2: "distinct (map cl_node (free @ blocked))" using dis mset_eq_imp_distinct_iff by (metis distinct_append map_append)
  have sets: "set lits = set free \<union> set blocked" using free(2) by (metis set_mset_mset set_mset_union)
  from claim_escalated_ok [OF free(1) _ _ b] dis2 have "claims_ok ?T0 (set lits) t2 c2" by (auto simp: sets Un_commute)
  from claim_escalated_ok [OF this _ _ e] dis have "claims_ok ?T0 (set escs \<union> set lits) taken claimed" by auto
  moreover have "set (claimants names fs) = set escs \<union> set lits" using all by (metis set_mset_mset set_mset_union Un_commute)
  ultimately show ?thesis by simp
qed

section \<open>One file\<close>

definition file_types :: "FileNode \<Rightarrow> string list" where
  "file_types file = map en_fqn (file_enums file) @ map node_fqn (file_messages file) @ concat (map types_below (file_messages file))"

definition top_nodes :: "FileNode \<Rightarrow> NodeId list" where
  "top_nodes file = map (EnumId \<circ> en_fqn) (file_enums file) @ map (MessageId \<circ> node_fqn) (file_messages file)"

text \<open>A top-level type has the identifier that was claimed for it.\<close>

definition claimed_as :: "CppNameTable \<Rightarrow> (NodeId \<rightharpoonup> string) \<Rightarrow> string \<Rightarrow> NodeId \<Rightarrow> bool" where
  "claimed_as N claimed base node \<longleftrightarrow>
     (\<exists>i. claimed node = Some i \<and> locals N node = Some i \<and> absolute N (owner node) = Some (base @ ''::'' @ i))"

lemma claimed_as_le: "table_le a b \<Longrightarrow> claimed_as a claimed base node \<Longrightarrow> claimed_as b claimed base node"
  unfolding claimed_as_def by (blast dest: table_leD)

definition file_ok :: "CppNameTable \<Rightarrow> (NodeId \<rightharpoonup> string) \<Rightarrow> FileNode \<Rightarrow> bool" where
  "file_ok N claimed file \<longleftrightarrow>
     (\<forall>e \<in> set (file_enums file). claimed_as N claimed (''::'' @ enum_namespace N file) (EnumId (en_fqn e))) \<and>
     (\<forall>m \<in> set (file_messages file). claimed_as N claimed (''::'' @ message_namespace N file) (MessageId (node_fqn m)) \<and>
        type_ns N (node_fqn m) = Some (message_namespace N file) \<and>
        (let i = the (claimed (MessageId (node_fqn m))) in
         tree_ok N (''::'' @ message_namespace N file @ ''::'' @ i) (''::'' @ enum_namespace N file @ ''::'' @ i) (message_namespace N file) m))"

lemma namespaces_le:
  assumes "table_le a b"
  shows "message_namespace b file = message_namespace a file" "enum_namespace b file = enum_namespace a file"
  using assms by (simp_all add: table_le_def message_namespace_def enum_namespace_def)

lemma file_ok_le: "table_le a b \<Longrightarrow> file_ok a claimed file \<Longrightarrow> file_ok b claimed file"
  unfolding file_ok_def Let_def by (simp add: namespaces_le) (blast dest: claimed_as_le table_leD(3) tree_ok_le)

lemma toplevel_claimed:
  assumes "claimed node = Some i" "locals names node = None"
  shows "assign_toplevel_id claimed taken node raw_name names = (i, names\<lparr>locals := (locals names)(node \<mapsto> i)\<rparr>, taken)"
  using assms by (simp add: assign_toplevel_id_def Let_def emplace_name_simps)

lemma index_enums_ok:
  "(\<forall>e \<in> set es. claimed (EnumId (en_fqn e)) \<noteq> None) \<Longrightarrow> distinct (map en_fqn es) \<Longrightarrow> fresh_in (en_fqn ` set es) {} names \<Longrightarrow>
     index_enums base claimed es taken names = (names', taken') \<Longrightarrow>
     taken' = taken \<and> touches (en_fqn ` set es) {} names names' \<and> (\<forall>e \<in> set es. claimed_as names' claimed base (EnumId (en_fqn e)))"
proof (induction es arbitrary: names)
  case (Cons e es)
  let ?q = "en_fqn e"
  obtain i where i: "claimed (EnumId ?q) = Some i" using Cons.prems(1) by auto
  have q: "locals names (EnumId ?q) = None" "absolute names ?q = None" using fresh_type [OF Cons.prems(3), of ?q] by simp_all
  let ?n1 = "names\<lparr>locals := (locals names)(EnumId ?q \<mapsto> i)\<rparr>"
  let ?n2 = "?n1\<lparr>absolute := emplace_name ?q (base @ ''::'' @ i) (absolute ?n1)\<rparr>"
  have "touches {?q} {} names ?n1" using touches_assign [OF q(1), of i] by simp
  moreover have "touches {?q} {} ?n1 ?n2" by (rule touches_absolute) (simp add: q(2))
  ultimately have t: "touches {?q} {} names ?n2" using touches_trans by fastforce
  have fr: "fresh_in (en_fqn ` set es) {} ?n2" using fresh_after [OF fresh_mono [OF Cons.prems(3)] t] Cons.prems(2) by auto
  have r: "index_enums base claimed es taken ?n2 = (names', taken')" using Cons.prems(4) toplevel_claimed [where claimed = claimed, OF i q(1)] by simp
  have IH: "taken' = taken" "touches (en_fqn ` set es) {} ?n2 names'" "\<forall>e \<in> set es. claimed_as names' claimed base (EnumId (en_fqn e))"
    using Cons.IH [OF _ _ fr r] Cons.prems(1,2) by auto
  have "claimed_as ?n2 claimed base (EnumId ?q)" using q(2) i by (simp add: claimed_as_def emplace_name_simps)
  from claimed_as_le [OF touches_le [OF IH(2)] this] IH touches_trans [OF t IH(2)] show ?case by simp
qed simp

lemma index_tops_ok:
  "(\<forall>m \<in> set ms. claimed (MessageId (node_fqn m)) \<noteq> None) \<Longrightarrow> distinct (map node_fqn ms) \<Longrightarrow> fresh_in (node_fqn ` set ms) {} names \<Longrightarrow>
     index_tops base ns claimed ms taken names = (tops, names', taken') \<Longrightarrow>
     taken' = taken \<and> touches (node_fqn ` set ms) {} names names' \<and>
     tops = map (\<lambda>m. base @ ''::'' @ the (claimed (MessageId (node_fqn m)))) ms \<and>
     (\<forall>m \<in> set ms. claimed_as names' claimed base (MessageId (node_fqn m)) \<and> type_ns names' (node_fqn m) = Some ns)"
proof (induction ms arbitrary: names tops)
  case (Cons m ms)
  let ?q = "node_fqn m"
  obtain i where i: "claimed (MessageId ?q) = Some i" using Cons.prems(1) by auto
  have q: "locals names (MessageId ?q) = None" "absolute names ?q = None" "type_ns names ?q = None"
    using fresh_type [OF Cons.prems(3), of ?q] by simp_all
  let ?n1 = "names\<lparr>locals := (locals names)(MessageId ?q \<mapsto> i)\<rparr>"
  let ?n2 = "?n1\<lparr>absolute := emplace_name ?q (base @ ''::'' @ i) (absolute ?n1), type_ns := emplace_name ?q ns (type_ns ?n1)\<rparr>"
  have "touches {?q} {} names ?n1" using touches_assign [OF q(1), of i] by simp
  moreover have "touches {?q} {} ?n1 ?n2" by (rule touches_absolute) (simp_all add: q)
  ultimately have t: "touches {?q} {} names ?n2" using touches_trans by fastforce
  have fr: "fresh_in (node_fqn ` set ms) {} ?n2" using fresh_after [OF fresh_mono [OF Cons.prems(3)] t] Cons.prems(2) by auto
  obtain tops1 where r: "index_tops base ns claimed ms taken ?n2 = (tops1, names', taken')" "tops = (base @ ''::'' @ i) # tops1"
    using Cons.prems(4) toplevel_claimed [where claimed = claimed, OF i q(1)] by (auto simp: Let_def split: prod.splits)
  have IH: "taken' = taken" "touches (node_fqn ` set ms) {} ?n2 names'" "tops1 = map (\<lambda>m. base @ ''::'' @ the (claimed (MessageId (node_fqn m)))) ms"
    "\<forall>m \<in> set ms. claimed_as names' claimed base (MessageId (node_fqn m)) \<and> type_ns names' (node_fqn m) = Some ns"
    using Cons.IH [OF _ _ fr r(1)] Cons.prems(1,2) by auto
  have "claimed_as ?n2 claimed base (MessageId ?q)" "type_ns ?n2 ?q = Some ns" using q i by (simp_all add: claimed_as_def emplace_name_simps)
  with claimed_as_le [OF touches_le [OF IH(2)]] table_leD(3) [OF touches_le [OF IH(2)]]
  have "claimed_as names' claimed base (MessageId ?q)" "type_ns names' ?q = Some ns" by blast+
  with IH touches_trans [OF t IH(2)] r(2) i show ?case by simp
qed simp

text \<open>The messages of a file are indexed like those of a class, at the identifiers that they claimed.\<close>

lemma assign_id_le: "assign_id taken node raw_name names = (i, names', taken') \<Longrightarrow> table_le names names'"
  by (auto simp: assign_id_def Let_def table_le_def)

lemma assign_le:
  "assign_enums ebase es taken names = (names', taken') \<Longrightarrow> table_le names names'"
  "assign_nested base ebase ns ms taken names = (paths, names', taken') \<Longrightarrow> table_le names names'"
  "assign_members xs taken names = (names', taken') \<Longrightarrow> table_le names names'"
proof -
  have abs: "table_le n (n\<lparr>absolute := emplace_name q s (absolute n)\<rparr>)"
    "table_le n (n\<lparr>absolute := emplace_name q s (absolute n), type_ns := emplace_name q t (type_ns n)\<rparr>)" for n q s t
    by (simp_all add: table_le_def)
  show "assign_enums ebase es taken names = (names', taken') \<Longrightarrow> table_le names names'"
    by (induction es arbitrary: taken names) (auto split: prod.splits intro: table_le_trans [OF table_le_trans [OF assign_id_le abs(1)]])
  show "assign_nested base ebase ns ms taken names = (paths, names', taken') \<Longrightarrow> table_le names names'"
    by (induction ms arbitrary: taken names paths)
      (auto simp: Let_def split: prod.splits intro: table_le_trans [OF table_le_trans [OF assign_id_le abs(2)]])
  show "assign_members xs taken names = (names', taken') \<Longrightarrow> table_le names names'"
    by (induction xs arbitrary: taken names) (auto split: prod.splits, metis assign_id_le table_le_trans)
qed

lemma index_le: "table_le names (index_message m base ebase ns names)" "table_le names (index_children ms paths ns names)"
proof (induction m base ebase ns names and ms paths ns names rule: index_message_index_children.induct)
  case (1 d ms base ebase ns names)
  obtain n1 t1 where e: "assign_enums ebase (msg_enums d) [the (locals names (MessageId (msg_fqn d)))] names = (n1, t1)" by (rule prod.exhaust)
  obtain paths n2 t2 where k: "assign_nested base ebase ns ms t1 n1 = (paths, n2, t2)" by (rule prod_cases3)
  obtain n3 t3 where c: "assign_members (class_members d) t2 n2 = (n3, t3)" by (rule prod.exhaust)
  have "table_le n3 (index_children ms paths ns n3)" by (rule 1 [OF refl e [symmetric] refl k [symmetric] refl refl c [symmetric] refl])
  with assign_le(1) [OF e] assign_le(2) [OF k] assign_le(3) [OF c] have "table_le names (index_children ms paths ns n3)"
    by (blast intro: table_le_trans)
  then show ?case using e k c by simp
next
  case (3 m ms paths ns names)
  show ?case
  proof (cases paths)
    case (Cons p ps)
    obtain base ebase where p: "p = (base, ebase)" by (rule prod.exhaust)
    from 3(1) [OF Cons p [symmetric]] 3(2) [OF Cons p [symmetric]] show ?thesis by (simp add: Cons p) (rule table_le_trans)
  qed simp
qed simp

lemma fold_index_children:
  assumes "\<And>m. m \<in> set ms \<Longrightarrow> locals names (MessageId (node_fqn m)) = Some (the (claimed (MessageId (node_fqn m))))"
  shows "fold (\<lambda>(m, abs_name) nm. index_message m abs_name (ebase @ ''::'' @ the (locals nm (MessageId (node_fqn m)))) ns nm)
      (zip ms (map f ms)) names =
    index_children ms (map (\<lambda>m. (f m, ebase @ ''::'' @ the (claimed (MessageId (node_fqn m))))) ms) ns names"
  using assms
proof (induction ms arbitrary: names)
  case (Cons m ms)
  let ?n1 = "index_message m (f m) (ebase @ ''::'' @ the (claimed (MessageId (node_fqn m)))) ns names"
  have "locals ?n1 (MessageId (node_fqn n)) = Some (the (claimed (MessageId (node_fqn n))))" if "n \<in> set ms" for n
    using Cons.prems [of n] that table_leD(1) [OF index_le(1)] by simp
  from Cons.IH [OF this] show ?case using Cons.prems [of m] by simp
qed simp

lemma index_file_ok:
  assumes ix: "index_file claimed file (names, taken) = (names', taken')"
    and cl: "\<forall>node \<in> set (top_nodes file). claimed node \<noteq> None"
    and dis: "distinct (file_types file)" and fresh: "fresh_in (set (file_types file)) (set (file_types file)) names"
  shows "file_ok names' claimed file \<and> touches (set (file_types file)) (set (file_types file)) names names' \<and>
    taken' = taken"
proof -
  let ?E = "map en_fqn (file_enums file)" and ?K = "map node_fqn (file_messages file)" and ?B = "concat (map types_below (file_messages file))"
  let ?mns = "message_namespace names file" and ?eroot = "''::'' @ enum_namespace names file"
  let ?pkg = "join_ns (ns_prefix names) (namespace_of (file_package file))" and ?ms = "file_messages file"
  let ?id = "\<lambda>m. the (claimed (MessageId (node_fqn m)))"
  obtain n1 t1 where e: "index_enums ?eroot claimed (file_enums file) (taken ?pkg) names = (n1, t1)" by (rule prod.exhaust)
  obtain tops n2 t2 where t: "index_tops (''::'' @ ?mns) ?mns claimed ?ms t1 n1 = (tops, n2, t2)" by (rule prod_cases3)
  have types: "set (file_types file) = set ?E \<union> set ?K \<union> set ?B" by (auto simp: file_types_def)
  have E: "t1 = taken ?pkg" "touches (set ?E) {} names n1" "\<forall>e \<in> set (file_enums file). claimed_as n1 claimed ?eroot (EnumId (en_fqn e))"
    using index_enums_ok [OF _ _ fresh_mono [OF fresh] e] cl dis by (auto simp: file_types_def top_nodes_def)
  have f1: "fresh_in (set ?K \<union> set ?B) (set (file_types file)) n1"
    by (rule fresh_after [OF fresh_mono [OF fresh] E(2)]) (use dis in \<open>auto simp: file_types_def\<close>)
  have T: "t2 = t1" "touches (set ?K) {} n1 n2" "tops = map (\<lambda>m. (''::'' @ ?mns) @ ''::'' @ ?id m) ?ms"
    "\<forall>m \<in> set ?ms. claimed_as n2 claimed (''::'' @ ?mns) (MessageId (node_fqn m)) \<and> type_ns n2 (node_fqn m) = Some ?mns"
    using index_tops_ok [OF _ _ fresh_mono [OF f1] t] cl dis by (auto simp: file_types_def top_nodes_def)
  have f2: "fresh_in (set ?B) (set (file_types file)) n2"
    by (rule fresh_after [OF fresh_mono [OF f1] T(2)]) (use dis in \<open>auto simp: file_types_def\<close>)
  have loc: "locals n2 (MessageId (node_fqn m)) = Some (?id m)" if "m \<in> set ?ms" for m using T(4) that by (auto simp: claimed_as_def)
  let ?paths = "map (\<lambda>m. ((''::'' @ ?mns) @ ''::'' @ ?id m, ?eroot @ ''::'' @ ?id m)) ?ms"
  have n': "names' = index_children ?ms ?paths ?mns n2" "taken' = taken"
  proof -
    note fic = fold_index_children [OF loc, where ebase = ?eroot and ns = ?mns and f = "\<lambda>m. (''::'' @ ?mns) @ ''::'' @ ?id m"]
    have "index_file claimed file (names, taken) = (index_children ?ms ?paths ?mns n2, taken(?pkg := t2))"
      unfolding index_file_def Let_def prod.case e t T(3) by (simp only: fic prod.case)
    with ix show "names' = index_children ?ms ?paths ?mns n2" "taken' = taken" by (simp_all add: T(1) E(1))
  qed
  have "ready n2 m" if m: "m \<in> set ?ms" for m
    unfolding ready_def using loc [OF m] dis m f2
    by (auto simp: file_types_def distinct_concat_iff elim!: fresh_mono)
  then have "list_all (ready n2) ?ms" by (simp add: list_all_iff)
  from index_children_ok [OF index_message_ok _ _ this, of ?paths ?mns] dis
  have R: "list_all2 (\<lambda>m (base, ebase). tree_ok names' base ebase ?mns m) ?ms ?paths" "touches (set ?B) (set (?K @ ?B)) n2 names'"
    by (auto simp: n'(1) file_types_def)
  have le: "table_le n2 names'" "table_le n1 n2" "table_le names names'"
    using touches_le [OF R(2)] touches_le [OF T(2)] touches_le [OF E(2)] table_le_trans by blast+
  note ns = namespaces_le [OF le(3)]
  have "touches (set (file_types file)) (set (file_types file)) names names'"
    by (rule touches_mono [OF touches_trans [OF touches_trans [OF E(2) T(2)] R(2)]]) (auto simp: file_types_def)
  moreover have "file_ok names' claimed file"
    unfolding file_ok_def ns Let_def
  proof (intro conjI ballI)
    fix e assume "e \<in> set (file_enums file)"
    with E(3) claimed_as_le [OF table_le_trans [OF le(2,1)]] show "claimed_as names' claimed ?eroot (EnumId (en_fqn e))" by blast
  next
    fix m assume m: "m \<in> set ?ms"
    with T(4) claimed_as_le [OF le(1)] table_leD(3) [OF le(1)]
    show "claimed_as names' claimed (''::'' @ ?mns) (MessageId (node_fqn m))" "type_ns names' (node_fqn m) = Some ?mns" by blast+
    from R(1) m show "tree_ok names' (''::'' @ ?mns @ ''::'' @ ?id m) (''::'' @ enum_namespace names file @ ''::'' @ ?id m) ?mns m"
      by (auto simp: list_all2_map2 list_all2_same)
  qed
  ultimately show ?thesis using n'(2) by simp
qed

lemma index_files_ok:
  "distinct (concat (map file_types fs)) \<Longrightarrow> fresh_in (set (concat (map file_types fs))) (set (concat (map file_types fs))) names \<Longrightarrow>
     (\<forall>file \<in> set fs. \<forall>node \<in> set (top_nodes file). claimed node \<noteq> None) \<Longrightarrow>
     fold (index_file claimed) fs (names, taken) = (names', taken') \<Longrightarrow>
     table_le names names' \<and> (\<forall>file \<in> set fs. file_ok names' claimed file)"
proof (induction fs arbitrary: names taken)
  case (Cons f fs)
  obtain n1 t1 where i: "index_file claimed f (names, taken) = (n1, t1)" by (rule prod.exhaust)
  have ok: "file_ok n1 claimed f" "touches (set (file_types f)) (set (file_types f)) names n1"
    using index_file_ok [OF i _ _ fresh_mono [OF Cons.prems(2)]] Cons.prems(1,3) by auto
  have "fresh_in (set (concat (map file_types fs))) (set (concat (map file_types fs))) n1"
    by (rule fresh_after [OF fresh_mono [OF Cons.prems(2)] ok(2)]) (use Cons.prems(1) in auto)
  then have IH: "table_le n1 names'" "\<forall>file \<in> set fs. file_ok names' claimed file"
    using Cons.IH [of n1 t1] Cons.prems i by auto
  with ok file_ok_le [OF IH(1) ok(1)] table_le_trans [OF touches_le [OF ok(2)] IH(1)] show ?case by simp
qed simp

section \<open>The table of a file set\<close>

definition start_table :: "string \<Rightarrow> string \<Rightarrow> CppNameTable" where
  "start_table pfx model = \<lparr>absolute = Map.empty, locals = Map.empty, type_ns = Map.empty,
     ns_prefix = (if pfx = [] then namespace_of kDefaultNsPrefix else pfx), model_namespace = model\<rparr>"

lemma claimant_nodes: "map cl_node (claimants names fs) = concat (map top_nodes fs)"
  by (induction fs) (simp_all add: claimants_def file_claimants_def top_nodes_def Let_def)

lemma distinct_top_owners: "distinct (concat (map file_types fs)) \<Longrightarrow> distinct (map owner (concat (map top_nodes fs)))"
proof (induction fs)
  case (Cons f fs)
  have f: "distinct (map owner (top_nodes f))" "set (map owner (top_nodes f)) \<subseteq> set (file_types f)"
    using Cons.prems by (auto simp: top_nodes_def file_types_def comp_def)
  have fs: "set (map owner (concat (map top_nodes fs))) \<subseteq> set (concat (map file_types fs))"
    by (auto simp: top_nodes_def file_types_def)
  have "set (file_types f) \<inter> set (concat (map file_types fs)) = {}" using Cons.prems by simp
  then have "set (map owner (top_nodes f)) \<inter> set (map owner (concat (map top_nodes fs))) = {}" using f(2) fs by blast
  with f(1) Cons show ?case by simp
qed simp

lemma distinct_top_nodes: "distinct (concat (map file_types fs)) \<Longrightarrow> distinct (concat (map top_nodes fs))"
  using distinct_top_owners by (auto simp: distinct_map)

lemma build_ok:
  assumes "build_cpp_names f fs pfx model = N" "fs \<noteq> []" "distinct (concat (map file_types fs))"
  obtains taken claimed where "snd (claim_toplevel_ids (start_table pfx model) fs) = claimed"
    "claims_ok (package_claims (start_table pfx model) fs) (set (claimants (start_table pfx model) fs)) taken claimed"
    "table_le (start_table pfx model) N" "\<And>g. g \<in> set fs \<Longrightarrow> file_ok N claimed g"
proof -
  let ?S = "start_table pfx model"
  obtain taken claimed where c: "claim_toplevel_ids ?S fs = (taken, claimed)" by (rule prod.exhaust)
  obtain N' t' where n: "fold (index_file claimed) fs (?S, taken) = (N', t')" by (rule prod.exhaust)
  have N: "N' = N" using assms(1,2) c n by (simp add: build_cpp_names_def Let_def start_table_def)
  have ok: "claims_ok (package_claims ?S fs) (set (claimants ?S fs)) taken claimed"
    by (rule claim_toplevel_ok [OF c]) (simp add: claimant_nodes distinct_top_nodes [OF assms(3)])
  have "set (concat (map top_nodes fs)) = cl_node ` set (claimants ?S fs)" by (metis claimant_nodes list.set_map)
  moreover have "dom claimed = cl_node ` set (claimants ?S fs)" using ok by (simp add: claims_ok_def)
  ultimately have dom: "dom claimed = set (concat (map top_nodes fs))" by simp
  have "claimed node \<noteq> None" if "g \<in> set fs" "node \<in> set (top_nodes g)" for g node
  proof -
    have "node \<in> dom claimed" unfolding dom using that by auto
    then show ?thesis by (simp add: domIff)
  qed
  then have "\<forall>g \<in> set fs. \<forall>node \<in> set (top_nodes g). claimed node \<noteq> None" by blast
  moreover have "fresh_in (set (concat (map file_types fs))) (set (concat (map file_types fs))) ?S"
    by (simp add: fresh_in_def start_table_def)
  ultimately show ?thesis using that [OF _ ok] c index_files_ok [OF assms(3) _ _ n] N by auto
qed

end
