(* ===== verification/Naming_Correct.thy ===== *)
theory Naming_Correct
  imports Naming_Claims
begin

text \<open>
  The absolute C++ names of a file set: each type's is the path of its identifiers, no two types share one,
  and neither the order of the files nor the model changes them.
\<close>

section \<open>Paths\<close>

definition ident :: "CppNameTable \<Rightarrow> NodeId \<Rightarrow> string" where
  "ident N node = the (locals N node)"

definition forest :: "((NodeId \<times> string list) \<times> (NodeId \<times> string list) list) list \<Rightarrow> (NodeId \<times> string list) list" where
  "forest xs = map fst xs @ concat (map snd xs)"

fun tree_paths :: "CppNameTable \<Rightarrow> string list \<Rightarrow> MessageNode \<Rightarrow> (NodeId \<times> string list) list" where
  "tree_paths N p (MessageNode d ms) = forest
     (map (\<lambda>e. ((EnumId (en_fqn e), p @ [ident N (EnumId (en_fqn e))]), [])) (msg_enums d) @
      map (\<lambda>m. ((MessageId (node_fqn m), p @ [ident N (MessageId (node_fqn m))]),
         tree_paths N (p @ [ident N (MessageId (node_fqn m))]) m)) ms)"

definition file_entries :: "CppNameTable \<Rightarrow> FileNode \<Rightarrow> ((NodeId \<times> string list) \<times> (NodeId \<times> string list) list) list" where
  "file_entries N file = (let p = ns_parts (file_package file) in
     map (\<lambda>e. ((EnumId (en_fqn e), p @ [ident N (EnumId (en_fqn e))]), [])) (file_enums file) @
     map (\<lambda>m. ((MessageId (node_fqn m), p @ [ident N (MessageId (node_fqn m))]),
         tree_paths N (p @ [ident N (MessageId (node_fqn m))]) m)) (file_messages file))"

definition set_paths :: "CppNameTable \<Rightarrow> FileNode list \<Rightarrow> (NodeId \<times> string list) list" where
  "set_paths N fs = forest (concat (map (file_entries N) fs))"

lemma tree_paths_types: "(\<lambda>x. owner (fst x)) ` set (tree_paths N p m) = set (types_below m)"
proof (induction N p m rule: tree_paths.induct)
  case (1 N p d ms)
  then have "(\<Union>m \<in> set ms. (\<lambda>x. owner (fst x)) ` set (tree_paths N (p @ [ident N (MessageId (node_fqn m))]) m)) = (\<Union>m \<in> set ms. set (types_below m))"
    by simp
  then show ?case by (simp add: forest_def image_Un image_UN image_image Un_assoc)
qed

lemma set_paths_types: "(\<lambda>x. owner (fst x)) ` set (set_paths N fs) = set (concat (map file_types fs))"
proof (induction fs)
  case (Cons f fs)
  have "(\<lambda>x. owner (fst x)) ` set (forest (file_entries N f)) = set (file_types f)"
    by (simp add: forest_def file_entries_def file_types_def Let_def image_Un image_UN image_image tree_paths_types Un_assoc)
  moreover have "set (set_paths N (f # fs)) = set (forest (file_entries N f)) \<union> set (set_paths N fs)"
    by (auto simp: set_paths_def forest_def)
  ultimately show ?case using Cons by (simp add: image_Un)
qed (simp add: set_paths_def forest_def)

section \<open>Paths are unique\<close>

lemma sorted_wrt_distinct:
  "distinct (map f xs) \<Longrightarrow> (\<And>x y. x \<in> set xs \<Longrightarrow> y \<in> set xs \<Longrightarrow> f x \<noteq> f y \<Longrightarrow> R x y) \<Longrightarrow> sorted_wrt R xs"
  by (induction xs) force+

definition path_apart :: "'a list \<Rightarrow> 'a list \<Rightarrow> bool" where
  "path_apart a b \<longleftrightarrow> \<not> prefix a b \<and> \<not> prefix b a"

definition below_path :: "(NodeId \<times> string list) \<times> (NodeId \<times> string list) list \<Rightarrow> bool" where
  "below_path x \<longleftrightarrow> distinct (map snd (snd x)) \<and> (\<forall>q \<in> snd ` set (snd x). strict_prefix (snd (fst x)) q)"

lemma apart_extend: "path_apart a b \<Longrightarrow> prefix a q \<Longrightarrow> \<not> prefix b q"
  unfolding path_apart_def using prefix_same_cases by blast

lemma forest_below: "below_path x \<Longrightarrow> q \<in> snd ` set (fst x # snd x) \<Longrightarrow> prefix (snd (fst x)) q"
  by (auto simp: below_path_def strict_prefix_def)

lemma forest_mem: "q \<in> snd ` set (forest xs) \<Longrightarrow> \<exists>x \<in> set xs. q \<in> snd ` set (fst x # snd x)"
proof -
  assume "q \<in> snd ` set (forest xs)"
  then obtain y where y: "q = snd y" "y \<in> set (forest xs)" by blast
  then consider "y \<in> fst ` set xs" | "\<exists>x \<in> set xs. y \<in> set (snd x)" by (auto simp: forest_def)
  then show ?thesis by cases (use y(1) in auto)
qed

lemma forest_distinct:
  "sorted_wrt (\<lambda>x y. path_apart (snd (fst x)) (snd (fst y))) xs \<Longrightarrow> (\<forall>x \<in> set xs. below_path x) \<Longrightarrow> distinct (map snd (forest xs))"
proof (induction xs)
  case (Cons x xs)
  have own: "distinct (map snd (fst x # snd x))" using Cons.prems(2) by (auto simp: below_path_def)
  have "snd ` set (fst x # snd x) \<inter> snd ` set (forest xs) = {}"
  proof (rule ccontr)
    assume "snd ` set (fst x # snd x) \<inter> snd ` set (forest xs) \<noteq> {}"
    then obtain q where q: "q \<in> snd ` set (fst x # snd x)" "q \<in> snd ` set (forest xs)" by blast
    then obtain y where y: "y \<in> set xs" "q \<in> snd ` set (fst y # snd y)" using forest_mem by blast
    have "prefix (snd (fst x)) q" "prefix (snd (fst y)) q" using forest_below q(1) y Cons.prems(2) by auto
    moreover have "path_apart (snd (fst x)) (snd (fst y))" using Cons.prems(1) y(1) by simp
    ultimately show False using apart_extend by blast
  qed
  moreover have "distinct (map snd (forest xs))" using Cons by simp
  ultimately have "distinct (map snd ((fst x # snd x) @ forest xs))" using own by (simp only: map_append distinct_append set_map)
  moreover have "mset (map snd (forest (x # xs))) = mset (map snd ((fst x # snd x) @ forest xs))" by (simp add: forest_def)
  ultimately show ?case using mset_eq_imp_distinct_iff by blast
qed (simp add: forest_def)

lemma apart_snoc: "i \<noteq> j \<Longrightarrow> path_apart (p @ [i]) (p @ [j])"
  by (simp add: path_apart_def)

lemma scope_distinct:
  assumes "scope_ok N m"
  shows "distinct (map (ident N \<circ> fst) (scope_nodes m))"
proof -
  obtain own where "given N (map fst (scope_nodes m)) (dedup [own] (map snd (scope_nodes m)))" using assms by (auto simp: scope_ok_def)
  from given_map [OF this] have "map (ident N \<circ> fst) (scope_nodes m) = dedup [own] (map snd (scope_nodes m))"
    by (simp add: ident_def comp_def)
  with dedup_distinct show ?thesis by metis
qed

lemma tree_paths_below: "tree_ok N base ebase ns m \<Longrightarrow> below_path ((node, p), tree_paths N p m)"
proof (induction N base ebase ns m arbitrary: node p rule: tree_ok.induct)
  case (1 N base ebase ns d ms)
  let ?f = "\<lambda>e. ((EnumId (en_fqn e), p @ [ident N (EnumId (en_fqn e))]), [])"
  let ?g = "\<lambda>m. ((MessageId (node_fqn m), p @ [ident N (MessageId (node_fqn m))]), tree_paths N (p @ [ident N (MessageId (node_fqn m))]) m)"
  let ?xs = "map ?f (msg_enums d) @ map ?g ms"
  have IH: "below_path ((node, q), tree_paths N q m)" if "m \<in> set ms" for m node q
    using 1(1) [OF that refl, of node q] 1(2) that by (simp add: Let_def)
  have "below_path (?f e)" for e by (simp add: below_path_def)
  with IH have below: "\<forall>x \<in> set ?xs. below_path x" by auto
  have path: "snd (fst x) = p @ [last (snd (fst x))]" if "x \<in> set ?xs" for x using that by auto
  have "distinct (map (ident N \<circ> fst) (scope_nodes (MessageNode d ms)))" by (rule scope_distinct) (use 1(2) in simp)
  then have "distinct (map (last \<circ> snd \<circ> fst) ?xs)" by (simp add: comp_def Int_Un_distrib)
  then have "sorted_wrt (\<lambda>x y. path_apart (snd (fst x)) (snd (fst y))) ?xs"
  proof (rule sorted_wrt_distinct)
    fix x y assume x: "x \<in> set ?xs" and y: "y \<in> set ?xs" and "(last \<circ> snd \<circ> fst) x \<noteq> (last \<circ> snd \<circ> fst) y"
    then have "last (snd (fst x)) \<noteq> last (snd (fst y))" by simp
    from apart_snoc [OF this, of p] show "path_apart (snd (fst x)) (snd (fst y))" by (simp only: path [OF x, symmetric] path [OF y, symmetric])
  qed
  from forest_distinct [OF this below] have "distinct (map snd (tree_paths N p (MessageNode d ms)))" by (simp only: tree_paths.simps)
  moreover have "strict_prefix p q" if "q \<in> snd ` set (tree_paths N p (MessageNode d ms))" for q
  proof -
    from that have "q \<in> snd ` set (forest ?xs)" by (simp only: tree_paths.simps)
    then obtain x where x: "x \<in> set ?xs" "q \<in> snd ` set (fst x # snd x)" using forest_mem by blast
    then have "prefix (snd (fst x)) q" using below forest_below by blast
    moreover have "strict_prefix p (snd (fst x))" using x(1) by (auto simp: strict_prefix_def)
    ultimately show ?thesis by (rule prefix_order.less_le_trans [rotated])
  qed
  ultimately show ?case by (simp only: below_path_def fst_conv snd_conv) blast
qed

text \<open>Two top-level types: in one namespace their claims differ, and an outer one never claimed the name of an inner package.\<close>

lemma tops_apart:
  assumes ok: "claims_ok (package_claims names fs) (set (claimants names fs)) taken claimed"
    and c: "c \<in> set (file_claimants names f)" "f \<in> set fs" "c' \<in> set (file_claimants names f')" "f' \<in> set fs" "cl_node c \<noteq> cl_node c'"
  shows "\<not> prefix (ns_parts (file_package f) @ [the (claimed (cl_node c))]) (ns_parts (file_package f') @ [the (claimed (cl_node c'))])"
proof
  let ?p = "ns_parts (file_package f)" and ?p' = "ns_parts (file_package f')"
  let ?i = "the (claimed (cl_node c))" and ?i' = "the (claimed (cl_node c'))"
  assume pre: "prefix (?p @ [?i]) (?p' @ [?i'])"
  have mem: "c \<in> set (claimants names fs)" "c' \<in> set (claimants names fs)" using c by (auto simp: claimants_def)
  have scope: "cl_scope c = join_ns (ns_prefix names) (ns_text ?p)" "cl_scope c' = join_ns (ns_prefix names) (ns_text ?p')"
    using c(1,3) by (auto simp: file_claimants_def Let_def namespace_of_parts)
  obtain j where j: "claimed (cl_node c) = Some j" "j \<notin> set (package_claims names fs (cl_scope c))"
    using ok mem(1) unfolding claims_ok_def by blast
  obtain j' where j': "claimed (cl_node c') = Some j'" using ok mem(2) unfolding claims_ok_def by blast
  show False
  proof (cases "?p @ [?i] = ?p' @ [?i']")
    case True
    then have "cl_scope c = cl_scope c' \<and> claimed (cl_node c) = claimed (cl_node c')" using scope j(1) j' by simp
    with ok mem c(5) show False unfolding claims_ok_def by blast
  next
    case False
    obtain zs where zs: "?p' @ [?i'] = (?p @ [?i]) @ zs" using pre by (auto simp: prefix_def)
    with False obtain r x where "zs = r @ [x]" by (cases zs rule: rev_cases) auto
    with zs have r: "?p' = ?p @ ?i # r" by simp
    have "?p' ! length ?p \<in> set (package_claims names fs (join_ns (ns_prefix names) (ns_text (take (length ?p) ?p'))))"
      by (rule package_claims_has [OF c(4)]) (simp add: r)
    with j scope(1) show False by (simp add: r)
  qed
qed

lemma file_ok_locals: "file_ok N claimed f \<Longrightarrow> node \<in> set (top_nodes f) \<Longrightarrow> locals N node = claimed node"
  unfolding file_ok_def top_nodes_def claimed_as_def by fastforce

lemma file_ok_ident: "file_ok N claimed f \<Longrightarrow> node \<in> set (top_nodes f) \<Longrightarrow> ident N node = the (claimed node)"
  by (simp add: file_ok_locals ident_def)

lemma file_entry_node: "x \<in> set (file_entries N f) \<Longrightarrow>
    fst (fst x) \<in> set (top_nodes f) \<and> snd (fst x) = ns_parts (file_package f) @ [ident N (fst (fst x))]"
  by (auto simp: file_entries_def top_nodes_def Let_def)

lemma file_entry_claimant:
  assumes "x \<in> set (file_entries N f)" "file_ok N claimed f"
  obtains c where "c \<in> set (file_claimants names f)" "cl_node c = fst (fst x)"
    "snd (fst x) = ns_parts (file_package f) @ [the (claimed (cl_node c))]"
proof -
  have "fst (fst x) \<in> set (map cl_node (file_claimants names f))"
    using file_entry_node [OF assms(1)] by (auto simp: file_claimants_def top_nodes_def Let_def)
  then obtain c where "c \<in> set (file_claimants names f)" "cl_node c = fst (fst x)" by auto
  with that file_entry_node [OF assms(1)] file_ok_ident [OF assms(2)] show ?thesis by simp
qed

lemma file_entry_below:
  assumes "x \<in> set (file_entries N f)" "file_ok N claimed f"
  shows "below_path x"
proof -
  have "below_path ((node, p), [])" for node p by (simp add: below_path_def)
  with assms tree_paths_below show ?thesis
    by (auto simp: file_entries_def file_ok_def Let_def)
qed

lemma entry_nodes: "map (fst \<circ> fst) (concat (map (file_entries N) fs)) = concat (map top_nodes fs)"
  by (induction fs) (simp_all add: file_entries_def top_nodes_def Let_def comp_def)

lemma set_paths_distinct:
  assumes ok: "claims_ok (package_claims names fs) (set (claimants names fs)) taken claimed"
    and files: "\<And>f. f \<in> set fs \<Longrightarrow> file_ok N claimed f" and dis: "distinct (concat (map file_types fs))"
  shows "distinct (map snd (set_paths N fs))"
  unfolding set_paths_def
proof (rule forest_distinct)
  let ?xs = "concat (map (file_entries N) fs)"
  show "\<forall>x \<in> set ?xs. below_path x" using file_entry_below files by fastforce
  have "distinct (map (fst \<circ> fst) ?xs)" unfolding entry_nodes by (rule distinct_top_nodes [OF dis])
  then show "sorted_wrt (\<lambda>x y. path_apart (snd (fst x)) (snd (fst y))) ?xs"
  proof (rule sorted_wrt_distinct)
    fix x y assume x: "x \<in> set ?xs" and y: "y \<in> set ?xs" and ne: "(fst \<circ> fst) x \<noteq> (fst \<circ> fst) y"
    obtain f g where f: "f \<in> set fs" "x \<in> set (file_entries N f)" and g: "g \<in> set fs" "y \<in> set (file_entries N g)" using x y by auto
    obtain c where c: "c \<in> set (file_claimants names f)" "cl_node c = fst (fst x)"
        "snd (fst x) = ns_parts (file_package f) @ [the (claimed (cl_node c))]"
      by (rule file_entry_claimant [OF f(2) files [OF f(1)]])
    obtain d where d: "d \<in> set (file_claimants names g)" "cl_node d = fst (fst y)"
        "snd (fst y) = ns_parts (file_package g) @ [the (claimed (cl_node d))]"
      by (rule file_entry_claimant [OF g(2) files [OF g(1)]])
    have "cl_node c \<noteq> cl_node d" "cl_node d \<noteq> cl_node c" using ne c(2) d(2) by simp_all
    then show "path_apart (snd (fst x)) (snd (fst y))"
      unfolding path_apart_def c(3) d(3) using tops_apart [OF ok c(1) f(1) d(1) g(1)] tops_apart [OF ok d(1) g(1) c(1) f(1)] by blast
  qed
qed

section \<open>The text of a path\<close>

definition path_text :: "string list \<Rightarrow> string" where
  "path_text cs = concat (map (\<lambda>c. ''::'' @ c) cs)"

lemma path_text_simps [simp]: "path_text [] = []" "path_text (c # cs) = ''::'' @ c @ path_text cs" "path_text (cs @ ds) = path_text cs @ path_text ds"
  by (simp_all add: path_text_def)

definition colon_free :: "string \<Rightarrow> bool" where
  "colon_free s \<longleftrightarrow> CHR '':'' \<notin> set s"

lemma path_text_takeWhile: "colon_free c \<Longrightarrow> takeWhile (\<lambda>x. x \<noteq> CHR '':'') (c @ path_text cs) = c"
  by (cases cs) (auto simp: colon_free_def takeWhile_append)

lemma path_text_inj: "list_all colon_free cs \<Longrightarrow> list_all colon_free ds \<Longrightarrow> path_text cs = path_text ds \<Longrightarrow> cs = ds"
proof (induction cs arbitrary: ds)
  case Nil
  then show ?case by (cases ds) simp_all
next
  case (Cons c cs)
  then obtain d ds' where ds: "ds = d # ds'" by (cases ds) simp_all
  have eq: "c @ path_text cs = d @ path_text ds'" using Cons.prems(3) ds by simp
  moreover have "colon_free c" "colon_free d" using Cons.prems(1,2) ds by simp_all
  ultimately have "c = d" using path_text_takeWhile by metis
  with Cons eq ds show ?case by simp
qed

lemma ns_text_Cons: "foldl add_component acc cs = (if acc = [] then ns_text cs else acc @ path_text cs)" if "[] \<notin> set cs"
  using that
proof (induction cs arbitrary: acc)
  case (Cons c cs)
  then have c: "c \<noteq> []" "[] \<notin> set cs" by auto
  have "foldl add_component (add_component acc c) cs = add_component acc c @ path_text cs"
    by (rule trans [OF Cons.IH [OF c(2)]]) (simp add: c(1))
  then show ?case by (cases "acc = []") (simp_all del: add_component.simps add: ns_text_def, simp)
qed (simp add: ns_text_def)

lemma ns_parts_nonempty: "[] \<notin> set (ns_parts package)"
  using components_plain [of package] by (auto simp: ns_parts_def sanitize_def plain_def list_all_iff)

lemma join_parts: "P \<noteq> [] \<Longrightarrow> root \<noteq> [] \<Longrightarrow> join_ns (join_ns P root) (namespace_of package) = P @ path_text (root # ns_parts package)"
proof (cases "ns_parts package")
  case (Cons c cs)
  assume "P \<noteq> []" "root \<noteq> []"
  moreover have "c \<noteq> []" "[] \<notin> set cs" using ns_parts_nonempty [of package] Cons by auto
  moreover have "ns_text (c # cs) = c @ path_text cs" using ns_text_Cons [of cs c] calculation by (simp add: ns_text_def)
  ultimately show ?thesis by (simp add: join_ns_def namespace_of_parts Cons)
qed (simp add: join_ns_def namespace_of_parts ns_text_def)


section \<open>Absolute names\<close>

fun root_of :: "CppNameTable \<Rightarrow> NodeId \<Rightarrow> string" where
  "root_of N (EnumId q) = kCommonRoot"
| "root_of N node = model_namespace N"

definition cpp_path :: "CppNameTable \<Rightarrow> string \<Rightarrow> string list \<Rightarrow> string" where
  "cpp_path N root p = ''::'' @ ns_prefix N @ path_text (root # p)"

lemma cpp_path_snoc: "cpp_path N root (p @ [i]) = cpp_path N root p @ ''::'' @ i"
  by (simp add: cpp_path_def)

definition placed :: "CppNameTable \<Rightarrow> NodeId \<times> string list \<Rightarrow> bool" where
  "placed N x \<longleftrightarrow> absolute N (owner (fst x)) = Some (cpp_path N (root_of N (fst x)) (snd x))"

lemma named_placed: "named N (cpp_path N (root_of N node) p) node \<Longrightarrow> placed N (node, p @ [ident N node])"
  by (auto simp: named_def placed_def cpp_path_snoc ident_def)

lemma tree_placed:
  "tree_ok N (cpp_path N (model_namespace N) p) (cpp_path N kCommonRoot p) ns m \<Longrightarrow> \<forall>x \<in> set (tree_paths N p m). placed N x"
proof (induction N p m rule: tree_paths.induct)
  case (1 N p d ms)
  let ?i = "\<lambda>m. ident N (MessageId (node_fqn m))"
  have "\<forall>x \<in> set (tree_paths N (p @ [?i m]) m). placed N x" if "m \<in> set ms" for m
    using 1(1) [OF that] 1(2) that by (simp add: cpp_path_snoc Let_def ident_def)
  moreover have "placed N (EnumId (en_fqn e), p @ [ident N (EnumId (en_fqn e))])" if "e \<in> set (msg_enums d)" for e
    by (rule named_placed) (use 1(2) that in simp)
  moreover have "placed N (MessageId (node_fqn m), p @ [?i m])" if "m \<in> set ms" for m
    by (rule named_placed) (use 1(2) that in simp)
  ultimately show ?case by (auto simp: forest_def)
qed

lemma file_namespaces:
  assumes "ns_prefix N \<noteq> []" "model_namespace N \<noteq> []"
  shows "''::'' @ message_namespace N f = cpp_path N (model_namespace N) (ns_parts (file_package f))"
    "''::'' @ enum_namespace N f = cpp_path N kCommonRoot (ns_parts (file_package f))"
  using assms by (simp_all add: message_namespace_def enum_namespace_def join_parts kCommonRoot_def cpp_path_def)

lemma claimed_named: "claimed_as N claimed base node \<Longrightarrow> named N base node \<and> the (claimed node) = ident N node"
  by (auto simp: claimed_as_def named_def ident_def)

lemma file_placed:
  assumes ok: "file_ok N claimed f" and ne: "ns_prefix N \<noteq> []" "model_namespace N \<noteq> []"
  shows "\<forall>x \<in> set (forest (file_entries N f)). placed N x"
proof -
  let ?p = "ns_parts (file_package f)" and ?i = "\<lambda>m. ident N (MessageId (node_fqn m))"
  note ns = file_namespaces [OF ne, of f]
  have "placed N (EnumId (en_fqn e), ?p @ [ident N (EnumId (en_fqn e))])" if e: "e \<in> set (file_enums f)" for e
    using ok e ns(2) claimed_named by (intro named_placed) (auto simp: file_ok_def)
  moreover have m: "placed N (MessageId (node_fqn m), ?p @ [?i m])" "\<forall>x \<in> set (tree_paths N (?p @ [?i m]) m). placed N x"
    if m: "m \<in> set (file_messages f)" for m
  proof -
    have c: "claimed_as N claimed (''::'' @ message_namespace N f) (MessageId (node_fqn m))"
      "tree_ok N (''::'' @ message_namespace N f @ ''::'' @ the (claimed (MessageId (node_fqn m))))
        (''::'' @ enum_namespace N f @ ''::'' @ the (claimed (MessageId (node_fqn m)))) (message_namespace N f) m"
      using ok m by (simp_all add: file_ok_def Let_def)
    note n = claimed_named [OF c(1)]
    show "placed N (MessageId (node_fqn m), ?p @ [?i m])" using n ns(1) by (intro named_placed) simp
    have "(''::'' @ message_namespace N f) @ ''::'' @ ?i m = cpp_path N (model_namespace N) (?p @ [?i m])"
      "(''::'' @ enum_namespace N f) @ ''::'' @ ?i m = cpp_path N kCommonRoot (?p @ [?i m])" by (simp_all only: ns cpp_path_snoc)
    with c(2) n show "\<forall>x \<in> set (tree_paths N (?p @ [?i m]) m). placed N x" by (intro tree_placed) simp
  qed
  ultimately show ?thesis by (auto simp: forest_def file_entries_def Let_def)
qed

lemma set_placed:
  assumes "\<And>f. f \<in> set fs \<Longrightarrow> file_ok N claimed f" "ns_prefix N \<noteq> []" "model_namespace N \<noteq> []" "x \<in> set (set_paths N fs)"
  shows "placed N x"
proof -
  obtain f where "f \<in> set fs" "x \<in> set (forest (file_entries N f))" using assms(4) by (auto simp: set_paths_def forest_def)
  with file_placed assms(1-3) show ?thesis by blast
qed

section \<open>Identifiers have no colon\<close>

fun tree_names :: "MessageNode \<Rightarrow> string list" where
  "tree_names (MessageNode d ms) = msg_name d # map en_name (msg_enums d) @ concat (map tree_names ms)"

definition file_idents :: "FileNode \<Rightarrow> string list" where
  "file_idents file = file_package file # map en_name (file_enums file) @ concat (map tree_names (file_messages file))"

lemma claim_form_colon_free: "claim_form r i \<Longrightarrow> colon_free r \<Longrightarrow> colon_free i"
  by (auto simp: claim_form_def colon_free_def sanitize_def split: if_splits)

lemma dedup_form: "list_all2 claim_form rs (dedup taken rs)"
  by (induction taken rs rule: dedup.induct) (simp_all add: Let_def claim_form_sanitize(1))

lemma scope_form:
  assumes "scope_ok N m" "(node, r) \<in> set (scope_nodes m)"
  shows "claim_form r (ident N node)"
proof -
  obtain own where g: "given N (map fst (scope_nodes m)) (dedup [own] (map snd (scope_nodes m)))" using assms(1) by (auto simp: scope_ok_def)
  have "list_all2 claim_form (map snd (scope_nodes m)) (map (\<lambda>x. ident N (fst x)) (scope_nodes m))"
    using dedup_form [of "map snd (scope_nodes m)" "[own]"] given_map [OF g] by (simp add: ident_def comp_def)
  with assms(2) show ?thesis by (auto simp: list_all2_map1 list_all2_map2 list_all2_same)
qed

lemma msg_name_tree: "msg_name (msg_data m) \<in> set (tree_names m)"
  by (cases m) simp

lemma tree_colon_free:
  "tree_ok N base ebase ns m \<Longrightarrow> list_all colon_free (tree_names m) \<Longrightarrow> list_all colon_free p \<Longrightarrow>
     \<forall>x \<in> set (tree_paths N p m). list_all colon_free (snd x)"
proof (induction N base ebase ns m arbitrary: p rule: tree_ok.induct)
  case (1 N base ebase ns d ms)
  have sc: "scope_ok N (MessageNode d ms)" using 1(2) by simp
  have e: "colon_free (ident N (EnumId (en_fqn e)))" if "e \<in> set (msg_enums d)" for e
    using scope_form [OF sc, of "EnumId (en_fqn e)" "en_name e"] that 1(3) claim_form_colon_free by (auto simp: list_all_iff)
  have m: "colon_free (ident N (MessageId (node_fqn m)))" if "m \<in> set ms" for m
  proof -
    have "colon_free (msg_name (msg_data m))" using that 1(3) msg_name_tree [of m] by (auto simp: list_all_iff)
    with scope_form [OF sc, of "MessageId (node_fqn m)" "msg_name (msg_data m)"] that claim_form_colon_free show ?thesis by auto
  qed
  have "\<forall>x \<in> set (tree_paths N (p @ [ident N (MessageId (node_fqn m))]) m). list_all colon_free (snd x)" if "m \<in> set ms" for m
  proof -
    have "list_all colon_free (tree_names m)" using 1(3) that by (auto simp: list_all_iff)
    moreover have "list_all colon_free (p @ [ident N (MessageId (node_fqn m))])" using 1(4) m [OF that] by simp
    ultimately show ?thesis using 1(1) [OF that refl] 1(2) that by (simp only: tree_ok.simps Let_def) blast
  qed
  with e m 1(4) show ?case by (auto simp: forest_def)
qed

lemma ns_parts_colon_free:
  assumes "colon_free package"
  shows "list_all colon_free (ns_parts package)"
proof -
  have "colon_free piece \<Longrightarrow> colon_free s \<Longrightarrow> list_all colon_free (dotted_loop piece s)" for piece s
    by (induction piece s rule: dotted_loop.induct) (auto simp: colon_free_def)
  then have "list_all colon_free (components package)" using assms by (simp add: components_def colon_free_def)
  then show ?thesis by (auto simp: ns_parts_def list_all_iff colon_free_def sanitize_def)
qed

lemma claimant_name: "c \<in> set (file_claimants names f) \<Longrightarrow> cl_raw c \<in> set (file_idents f)"
  using msg_name_tree by (fastforce simp: file_claimants_def file_idents_def Let_def)

lemma set_colon_free:
  assumes ok: "claims_ok T0 (set (claimants names fs)) taken claimed" and files: "\<And>f. f \<in> set fs \<Longrightarrow> file_ok N claimed f"
    and cf: "\<forall>f \<in> set fs. list_all colon_free (file_idents f)" and x: "x \<in> set (set_paths N fs)"
  shows "list_all colon_free (snd x)"
proof -
  obtain f y where f: "f \<in> set fs" "y \<in> set (file_entries N f)" "x = fst y \<or> x \<in> set (snd y)"
    using x by (auto simp: set_paths_def forest_def)
  have fcf: "list_all colon_free (file_idents f)" using cf f(1) by blast
  obtain c where c: "c \<in> set (file_claimants names f)" "cl_node c = fst (fst y)"
      "snd (fst y) = ns_parts (file_package f) @ [the (claimed (cl_node c))]"
    by (rule file_entry_claimant [OF f(2) files [OF f(1)]])
  have "c \<in> set (claimants names fs)" using c(1) f(1) by (auto simp: claimants_def)
  then obtain i where i: "claimed (cl_node c) = Some i" "claim_form (cl_raw c) i" using ok unfolding claims_ok_def by blast
  have "colon_free (file_package f)" "colon_free (cl_raw c)" using fcf claimant_name [OF c(1)] by (auto simp: file_idents_def list_all_iff)
  then have top: "list_all colon_free (snd (fst y))" using c(3) i claim_form_colon_free ns_parts_colon_free by simp
  show ?thesis
  proof (cases "x = fst y")
    case False
    then have "x \<in> set (snd y)" using f(3) by blast
    then obtain m where m: "m \<in> set (file_messages f)" "snd y = tree_paths N (snd (fst y)) m"
      using f(2) by (auto simp: file_entries_def Let_def)
    obtain base ebase ns where "tree_ok N base ebase ns m" using files [OF f(1)] m(1) by (auto simp: file_ok_def Let_def)
    from tree_colon_free [OF this _ top] fcf m \<open>x \<in> set (snd y)\<close> show ?thesis by (auto simp: file_idents_def list_all_iff)
  qed (use top in simp)
qed

section \<open>Names of distinct types are distinct\<close>

lemma cpp_path_inj:
  assumes "cpp_path N r p = cpp_path N r' p'" "list_all colon_free (r # p)" "list_all colon_free (r' # p')"
  shows "p = p'"
proof -
  have "path_text (r # p) = path_text (r' # p')" using assms(1) unfolding cpp_path_def by (metis append_same_eq same_append_eq)
  from path_text_inj [OF assms(2,3) this] show ?thesis by simp
qed

lemma start_table_ne: "ns_prefix (start_table pfx model) \<noteq> []"
proof -
  have "namespace_of kDefaultNsPrefix \<noteq> []" by code_simp
  then show ?thesis by (simp add: start_table_def)
qed

lemma build_paths:
  assumes N: "build_cpp_names f fs pfx model = N" "fs \<noteq> []" and dis: "distinct (concat (map file_types fs))"
    and model: "model \<noteq> []" and cf: "\<forall>f \<in> set fs. list_all colon_free (file_idents f)"
  shows "distinct (map snd (set_paths N fs))" "x \<in> set (set_paths N fs) \<Longrightarrow> placed N x \<and> list_all colon_free (snd x)"
    "model_namespace N = model"
proof -
  obtain taken claimed where ok: "claims_ok (package_claims (start_table pfx model) fs) (set (claimants (start_table pfx model) fs)) taken claimed"
    "table_le (start_table pfx model) N" "\<And>g. g \<in> set fs \<Longrightarrow> file_ok N claimed g" by (rule build_ok [OF N dis]) blast
  show m: "model_namespace N = model" using ok(2) by (simp add: table_le_def start_table_def)
  have ne: "ns_prefix N \<noteq> []" using ok(2) start_table_ne [of pfx model] by (simp add: table_le_def)
  show "distinct (map snd (set_paths N fs))" by (rule set_paths_distinct [OF ok(1,3) dis])
  show "x \<in> set (set_paths N fs) \<Longrightarrow> placed N x \<and> list_all colon_free (snd x)"
    using set_placed [OF ok(3) ne] m model set_colon_free [OF ok(1,3) cf] by simp
qed

lemma symbols_types: "mset (map fst (set_symbols i fs)) = mset (concat (map file_types fs))"
proof (induction fs arbitrary: i)
  case (Cons f fs)
  have tree: "mset (map fst (message_symbols i m)) = mset (node_fqn m # types_below m)" for m
  proof (induction m rule: types_below.induct)
    case (1 d ms)
    have "mset (map fst (concat (map (message_symbols i) ms))) = mset (map node_fqn ms @ concat (map types_below ms))"
      using 1 by (induction ms) simp_all
    then show ?case by (simp add: enum_symbols_def comp_def)
  qed
  have "mset (map fst (concat (map (message_symbols i) ms))) = mset (map node_fqn ms @ concat (map types_below ms))" for ms
    by (induction ms) (use tree in simp_all)
  then have "mset (map fst (file_symbols i f)) = mset (file_types f)" by (simp add: file_symbols_def file_types_def enum_symbols_def comp_def)
  with Cons show ?case by simp
qed simp

lemma collected_types_distinct: "collect_symbols i fs empty_resolver = Inr st \<Longrightarrow> distinct (concat (map file_types fs))"
  using collect_symbols_collected [of i fs empty_resolver] mset_eq_imp_distinct_iff [OF symbols_types [of i fs]]
  by (simp add: collected_empty)

section \<open>An example\<close>

text \<open>
  A package whose component escapes to the name of a type of its parent, an enum that escapes to the name of a
  message, and a message whose members are called like it.
\<close>

definition demo_message :: "string \<Rightarrow> string \<Rightarrow> EnumNode list \<Rightarrow> FieldNode list \<Rightarrow> MessageNode list \<Rightarrow> MessageNode" where
  "demo_message q n es fs ms = MessageNode (default_message\<lparr>msg_name := n, msg_fqn := q, msg_enums := es, msg_fields := fs\<rparr>) ms"

definition demo_names :: "FileNode list" where
  "demo_names =
     [default_file\<lparr>file_package := ''a'', file_enums := [default_enum\<lparr>en_name := ''decode'', en_fqn := ''.a.decode''\<rparr>],
        file_messages :=
          [demo_message ''.a.linux_'' ''linux_'' [default_enum\<lparr>en_name := ''E'', en_fqn := ''.a.linux_.E''\<rparr>]
             [default_field\<lparr>fld_name := ''linux_''\<rparr>] [demo_message ''.a.linux_.linux_'' ''linux_'' [] [] []],
           demo_message ''.a.decode_'' ''decode_'' [] [] []]\<rparr>,
      default_file\<lparr>file_package := ''a.linux'', file_messages := [demo_message ''.a.linux.M'' ''M'' [] [] []]\<rparr>]"

lemma demo_collected: "collect_symbols 0 demo_names empty_resolver = Inr (projr (collect_symbols 0 demo_names empty_resolver))"
proof -
  have "isl (collect_symbols 0 demo_names empty_resolver) = False" by code_simp
  then show ?thesis by (simp add: sum.collapse(2))
qed

lemma demo_type_names:
  "map (cpp_type_name (build_cpp_names default_file demo_names [] kArenaRoot)) (concat (map file_types demo_names)) =
     [''::rp::common::a::decode__'', ''::rp::arena::a::linux__'', ''::rp::arena::a::decode_'',
      ''::rp::common::a::linux__::E'', ''::rp::arena::a::linux__::linux_'', ''::rp::arena::a::linux_::M'']"
  by code_simp

section \<open>The property\<close>

text \<open>
  Property C11. In a file set that the resolver accepts, every type has an absolute C++ name, and no two types
  have the same: neither types of packages that escape to one namespace, nor a type and the
  members of a package of its name, nor nested and top-level types.
\<close>

theorem cpp_names_injective:
  assumes "collect_symbols i fs empty_resolver = Inr st" "fs \<noteq> []" "model \<noteq> []" "colon_free model"
    and "\<forall>f \<in> set fs. list_all colon_free (file_idents f)"
  shows "set (concat (map file_types fs)) \<subseteq> dom (absolute (build_cpp_names file fs pfx model)) \<and>
    inj_on (cpp_type_name (build_cpp_names file fs pfx model)) (set (concat (map file_types fs)))"
proof -
  let ?N = "build_cpp_names file fs pfx model"
  note b = build_paths [where f = "file" and pfx = pfx, OF refl assms(2) collected_types_distinct [OF assms(1)] assms(3,5)]
  have entry: "\<exists>x \<in> set (set_paths ?N fs). owner (fst x) = q" if "q \<in> set (concat (map file_types fs))" for q
    using that unfolding set_paths_types [of ?N, symmetric] by blast
  then have "set (concat (map file_types fs)) \<subseteq> dom (absolute ?N)" using b(2) unfolding placed_def by blast
  moreover have "inj_on (cpp_type_name ?N) (set (concat (map file_types fs)))"
  proof (rule inj_onI)
    fix q q' assume q: "q \<in> set (concat (map file_types fs))" "q' \<in> set (concat (map file_types fs))" and eq: "cpp_type_name ?N q = cpp_type_name ?N q'"
    obtain x y where x: "x \<in> set (set_paths ?N fs)" "owner (fst x) = q" and y: "y \<in> set (set_paths ?N fs)" "owner (fst y) = q'"
      using entry q by metis
    note px = b(2) [OF x(1)] and py = b(2) [OF y(1)]
    have r: "colon_free (root_of ?N node)" for node using assms(4) b(3) by (cases node) (simp_all add: kCommonRoot_def colon_free_def)
    have "cpp_path ?N (root_of ?N (fst x)) (snd x) = cpp_path ?N (root_of ?N (fst y)) (snd y)"
      using eq px py x(2) y(2) by (simp add: cpp_type_name_def placed_def)
    then have "snd x = snd y" by (rule cpp_path_inj) (use px py r in simp_all)
    then have "x = y" using b(1) x(1) y(1) by (auto simp: distinct_map dest: inj_onD)
    with x(2) y(2) show "q = q'" by simp
  qed
  ultimately show ?thesis by simp
qed

lemma demo_idents: "\<forall>f \<in> set demo_names. list_all colon_free (file_idents f)"
proof -
  have "list_all (\<lambda>f. list_all (\<lambda>s. CHR '':'' \<notin> set s) (file_idents f)) demo_names" by code_simp
  then show ?thesis by (simp add: list_all_iff colon_free_def)
qed

theorem cpp_names_injective_witness:
  "set (concat (map file_types demo_names)) \<subseteq> dom (absolute (build_cpp_names default_file demo_names [] kArenaRoot)) \<and>
   inj_on (cpp_type_name (build_cpp_names default_file demo_names [] kArenaRoot)) (set (concat (map file_types demo_names)))"
  by (rule cpp_names_injective [OF demo_collected _ _ _ demo_idents]) (simp_all add: demo_names_def kArenaRoot_def colon_free_def)

end
