(* ===== verification/Naming_Stable.thy ===== *)
theory Naming_Stable
  imports Naming_Correct Schema_Facts
begin

text \<open>
  What the names of a file set do not depend on: the order of the files and the model. And what holds in
  every class of the set.
\<close>

section \<open>The order of the files\<close>

definition same_sets :: "TakenByNamespace \<Rightarrow> TakenByNamespace \<Rightarrow> bool" where
  "same_sets t t' \<longleftrightarrow> (\<forall>s. set (t s) = set (t' s))"

lemma same_sets_upd: "same_sets t t' \<Longrightarrow> same_sets (t(s := i # t s)) (t'(s := i # t' s))"
  by (simp add: same_sets_def)

lemma claim_escalated_cong:
  "same_sets t t' \<Longrightarrow> snd (claim_escalated cs t claimed) = snd (claim_escalated cs t' claimed) \<and>
     same_sets (fst (claim_escalated cs t claimed)) (fst (claim_escalated cs t' claimed))"
proof (induction cs arbitrary: t t' claimed)
  case (Cons c cs)
  let ?i = "escalate (t (cl_scope c)) (sanitize (cl_raw c))"
  have "escalate (t' (cl_scope c)) (sanitize (cl_raw c)) = ?i"
    using Cons.prems by (intro escalate_cong) (simp add: same_sets_def)
  with Cons.IH [OF same_sets_upd [OF Cons.prems, of "cl_scope c" ?i], of "emplace_name (cl_node c) ?i claimed"] show ?case
    by (simp only: claim_escalated.simps Let_def)
qed simp

lemma claim_literals_cong:
  "same_sets t t' \<Longrightarrow> snd (claim_literals cs t claimed) = snd (claim_literals cs t' claimed) \<and>
     same_sets (fst (claim_literals cs t claimed)) (fst (claim_literals cs t' claimed))"
proof (induction cs arbitrary: t t' claimed)
  case (Cons c cs)
  have mem: "cl_raw c \<in> set (t (cl_scope c)) \<longleftrightarrow> cl_raw c \<in> set (t' (cl_scope c))" using Cons.prems by (simp add: same_sets_def)
  show ?case
  proof (cases "cl_raw c \<in> set (t (cl_scope c))")
    case True
    with Cons.IH [OF Cons.prems, of claimed] mem show ?thesis by (simp add: case_prod_beta)
  next
    case False
    with Cons.IH [OF same_sets_upd [OF Cons.prems, of "cl_scope c" "cl_raw c"], of "emplace_name (cl_node c) (cl_raw c) claimed"] mem
    show ?thesis by (simp only: claim_literals.simps not_False_eq_True if_True)
  qed
qed simp

lemma claim_components_set:
  "set (claim_components P parent cs taken s) = set (taken s) \<union> set (claim_components P parent cs (\<lambda>_. []) s)"
proof (induction cs arbitrary: parent taken)
  case (Cons c cs)
  let ?sc = "join_ns P (namespace_of parent)" and ?parent = "(if parent = [] then parent else parent @ ''.'') @ c"
  note IH = Cons.IH [of ?parent]
  show ?case
    unfolding claim_components.simps Let_def
    by (subst IH, subst (2) IH) auto
qed simp

lemma package_claims_set:
  "set (package_claims names fs s) = (\<Union>f \<in> set fs. set (claim_package_components names f (\<lambda>_. []) s))"
proof -
  have "set (fold (claim_package_components names) fs taken s) = set (taken s) \<union> (\<Union>f \<in> set fs. set (claim_package_components names f (\<lambda>_. []) s))" for taken
  proof (induction fs arbitrary: taken)
    case (Cons f fs)
    have "set (claim_package_components names f taken s) = set (taken s) \<union> set (claim_package_components names f (\<lambda>_. []) s)"
      unfolding claim_package_components_def by (rule claim_components_set)
    with Cons show ?case by auto
  qed simp
  then show ?thesis by (simp add: package_claims_def)
qed

lemma string_order_inj: "inj string_order"
proof -
  have "inj (of_char :: char \<Rightarrow> nat)" by (rule inj_of_char) 
  then show ?thesis unfolding string_order_def by (simp add: inj_map)
qed

lemma claimant_fqns: "map cl_fqn (claimants names fs) = map owner (concat (map top_nodes fs))"
  by (induction fs) (simp_all add: claimants_def file_claimants_def top_nodes_def Let_def comp_def)

lemma sort_perm:
  assumes "mset xs = mset ys" "distinct (map f xs)"
  shows "sort_key f xs = sort_key f ys"
proof (rule sort_key_inj_key_eq)
  show "mset xs = mset (sort_key f ys)" using assms(1) by simp
  show "inj_on f (set xs)" using assms(2) by (simp add: distinct_map)
qed simp

lemma claims_perm:
  assumes perm: "mset fs = mset fs'" and dis: "distinct (concat (map file_types fs))" and ns: "ns_prefix names = ns_prefix names'"
  shows "snd (claim_toplevel_ids names fs) = snd (claim_toplevel_ids names' fs')"
proof -
  let ?key = "string_order \<circ> cl_fqn"
  have eq: "file_claimants names = file_claimants names'" "claim_package_components names = claim_package_components names'"
    using ns by (simp_all add: fun_eq_iff file_claimants_def claim_package_components_def Let_def)
  have "same_sets (package_claims names fs) (package_claims names' fs')"
    unfolding same_sets_def package_claims_set eq mset_eq_setD [OF perm] by simp
  note t0 = this [unfolded package_claims_def]
  have cl: "mset (concat (map (file_claimants names) fs)) = mset (concat (map (file_claimants names') fs'))"
    unfolding eq mset_concat by (metis perm mset_map sum_mset_sum_list)
  have "distinct (map cl_fqn (claimants names fs))" unfolding claimant_fqns by (rule distinct_top_owners [OF dis])
  then have "distinct (map string_order (map cl_fqn (claimants names fs)))" using string_order_inj by (simp add: distinct_map inj_on_def)
  then have "distinct (map ?key (concat (map (file_claimants names) fs)))" by (simp add: claimants_def)
  then have srt: "sort_key ?key (filter P (concat (map (file_claimants names) fs))) =
      sort_key ?key (filter P (concat (map (file_claimants names') fs')))" for P
    using cl by (intro sort_perm) (simp_all add: distinct_map_filter)
  let ?l = "sort_key ?key (filter (\<lambda>c. sanitize (cl_raw c) = cl_raw c) (concat (map (file_claimants names') fs')))"
  let ?e = "sort_key ?key (filter (\<lambda>c. sanitize (cl_raw c) \<noteq> cl_raw c) (concat (map (file_claimants names') fs')))"
  obtain t1 c1 b where l: "claim_literals ?l (fold (claim_package_components names) fs (\<lambda>_. [])) Map.empty = (t1, c1, b)" by (rule prod_cases3)
  obtain t1' c1' b' where l': "claim_literals ?l (fold (claim_package_components names') fs' (\<lambda>_. [])) Map.empty = (t1', c1', b')" by (rule prod_cases3)
  have 1: "c1 = c1'" "b = b'" "same_sets t1 t1'" using claim_literals_cong [OF t0, of ?l Map.empty] l l' by simp_all
  obtain t2 c2 where m: "claim_escalated b t1 c1 = (t2, c2)" by (rule prod.exhaust)
  obtain t2' c2' where m': "claim_escalated b' t1' c1' = (t2', c2')" by (rule prod.exhaust)
  have 2: "c2 = c2'" "same_sets t2 t2'" using claim_escalated_cong [OF 1(3), of b c1] m m' 1(1,2) by simp_all
  have "snd (claim_toplevel_ids names fs) = snd (claim_escalated ?e t2 c2)"
    unfolding claim_toplevel_ids_def Let_def srt l prod.case m ..
  moreover have "snd (claim_toplevel_ids names' fs') = snd (claim_escalated ?e t2' c2')"
    unfolding claim_toplevel_ids_def Let_def l' prod.case m' ..
  ultimately show ?thesis using claim_escalated_cong [OF 2(2), of ?e c2] 2(1) by simp
qed


section \<open>Tables that agree\<close>

lemma scope_agree:
  assumes "scope_ok N m" "scope_ok N' m" "locals N (MessageId (node_fqn m)) = locals N' (MessageId (node_fqn m))" "node \<in> fst ` set (scope_nodes m)"
  shows "locals N node = locals N' node"
proof -
  obtain own where "locals N (MessageId (node_fqn m)) = Some own" "given N (map fst (scope_nodes m)) (dedup [own] (map snd (scope_nodes m)))"
    using assms(1) unfolding scope_ok_def by blast
  moreover have "given N' (map fst (scope_nodes m)) (dedup [own] (map snd (scope_nodes m)))"
    using assms(2,3) calculation(1) unfolding scope_ok_def by auto
  ultimately have "map (locals N) (map fst (scope_nodes m)) = map (locals N') (map fst (scope_nodes m))" unfolding given_def by metis
  with assms(4) show ?thesis by (simp only: map_eq_conv set_map)
qed

lemma scope_types:
  "e \<in> set (msg_enums d) \<Longrightarrow> EnumId (en_fqn e) \<in> fst ` set (scope_nodes (MessageNode d ms))"
  "m \<in> set ms \<Longrightarrow> MessageId (node_fqn m) \<in> fst ` set (scope_nodes (MessageNode d ms))"
  by force+

lemma tree_agree:
  "tree_ok N base ebase ns m \<Longrightarrow> tree_ok N' base' ebase' ns' m \<Longrightarrow> locals N (MessageId (node_fqn m)) = locals N' (MessageId (node_fqn m)) \<Longrightarrow>
     tree_paths N p m = tree_paths N' p m \<and> (\<forall>m' \<in> set (tree_messages m). \<forall>node \<in> fst ` set (scope_nodes m'). locals N node = locals N' node)"
proof (induction N base ebase ns m arbitrary: base' ebase' ns' p rule: tree_ok.induct)
  case (1 N base ebase ns d ms)
  let ?m = "MessageNode d ms"
  have agree: "locals N node = locals N' node" if "node \<in> fst ` set (scope_nodes ?m)" for node
    by (rule scope_agree [OF _ _ 1(4) that]) (use 1(2,3) in simp_all)
  have e: "ident N (EnumId (en_fqn e)) = ident N' (EnumId (en_fqn e))" if "e \<in> set (msg_enums d)" for e
    unfolding ident_def using agree [OF scope_types(1) [OF that]] by simp
  have m: "ident N (MessageId (node_fqn n)) = ident N' (MessageId (node_fqn n))" if "n \<in> set ms" for n
    unfolding ident_def using agree [OF scope_types(2) [OF that]] by simp
  have IH: "tree_paths N q n = tree_paths N' q n \<and> (\<forall>m' \<in> set (tree_messages n). \<forall>node \<in> fst ` set (scope_nodes m'). locals N node = locals N' node)"
    if n: "n \<in> set ms" for n q
  proof (rule 1(1) [OF n refl])
    let ?i = "the (locals N (MessageId (node_fqn n)))"
    show "tree_ok N (base @ ''::'' @ ?i) (ebase @ ''::'' @ ?i) ns n" using 1(2) n by (simp add: Let_def)
    show "tree_ok N' (base' @ ''::'' @ the (locals N' (MessageId (node_fqn n)))) (ebase' @ ''::'' @ the (locals N' (MessageId (node_fqn n)))) ns' n"
      using 1(3) n by (simp add: Let_def)
    show "locals N (MessageId (node_fqn n)) = locals N' (MessageId (node_fqn n))" by (rule agree [OF scope_types(2) [OF n]])
  qed
  have "tree_paths N p ?m = tree_paths N' p ?m" using e m IH by (simp cong: map_cong)
  with agree IH show ?case by auto
qed

lemma file_agree:
  assumes ok: "file_ok N claimed f" "file_ok N' claimed f"
  shows "file_entries N f = file_entries N' f"
    and "m \<in> set (file_messages f) \<Longrightarrow> m' \<in> set (tree_messages m) \<Longrightarrow> node \<in> fst ` set (scope_nodes m') \<Longrightarrow> locals N node = locals N' node"
proof -
  have top: "ident N node = ident N' node" if "node \<in> set (top_nodes f)" for node
    using file_ok_ident [OF ok(1) that] file_ok_ident [OF ok(2) that] by simp
  have tree: "tree_paths N p m = tree_paths N' p m \<and> (\<forall>m' \<in> set (tree_messages m). \<forall>node \<in> fst ` set (scope_nodes m'). locals N node = locals N' node)"
    if m: "m \<in> set (file_messages f)" for m p
  proof -
    obtain base ebase ns where t: "tree_ok N base ebase ns m" using ok(1) m by (auto simp: file_ok_def Let_def)
    obtain base' ebase' ns' where t': "tree_ok N' base' ebase' ns' m" using ok(2) m by (auto simp: file_ok_def Let_def)
    have "MessageId (node_fqn m) \<in> set (top_nodes f)" using m by (auto simp: top_nodes_def)
    then have "locals N (MessageId (node_fqn m)) = locals N' (MessageId (node_fqn m))" using file_ok_locals ok by simp
    from tree_agree [OF t t' this] show ?thesis .
  qed
  then show "m \<in> set (file_messages f) \<Longrightarrow> m' \<in> set (tree_messages m) \<Longrightarrow> node \<in> fst ` set (scope_nodes m') \<Longrightarrow> locals N node = locals N' node"
    by blast
  have "ident N (EnumId (en_fqn e)) = ident N' (EnumId (en_fqn e))" if "e \<in> set (file_enums f)" for e
    by (rule top) (use that in \<open>auto simp: top_nodes_def\<close>)
  moreover have "ident N (MessageId (node_fqn m)) = ident N' (MessageId (node_fqn m))" if "m \<in> set (file_messages f)" for m
    by (rule top) (use that in \<open>auto simp: top_nodes_def\<close>)
  ultimately show "file_entries N f = file_entries N' f" using tree by (simp add: file_entries_def Let_def cong: map_cong)
qed

text \<open>Everything that has a name in the C++ of a file set.\<close>

definition set_nodes :: "FileNode list \<Rightarrow> NodeId set" where
  "set_nodes fs = (\<Union>f \<in> set fs. set (top_nodes f)) \<union> (\<Union>m \<in> set (set_messages fs). fst ` set (scope_nodes m))"

lemma set_messages_mem: "m' \<in> set (set_messages fs) \<longleftrightarrow> (\<exists>f \<in> set fs. \<exists>m \<in> set (file_messages f). m' \<in> set (tree_messages m))"
  by (auto simp: set_messages_def)

lemma build_agree:
  assumes perm: "mset fs = mset fs'" and dis: "distinct (concat (map file_types fs))" and ne: "fs \<noteq> []" "model \<noteq> []" "model' \<noteq> []"
    and N: "build_cpp_names f fs pfx model = N" "build_cpp_names f' fs' pfx model' = N'"
  shows "\<forall>node \<in> set_nodes fs. locals N node = locals N' node"
    and "\<forall>x \<in> set (set_paths N fs). placed N x \<and> placed N' x"
    and "ns_prefix N = ns_prefix N'" "model_namespace N = model" "model_namespace N' = model'"
proof -
  let ?S = "start_table pfx model" and ?S' = "start_table pfx model'"
  have set: "set fs' = set fs" "fs' \<noteq> []" using perm ne(1) mset_eq_setD by auto
  have dis': "distinct (concat (map file_types fs'))"
  proof -
    have "mset (concat (map file_types fs)) = mset (concat (map file_types fs'))"
      unfolding mset_concat by (metis perm mset_map sum_mset_sum_list)
    with dis show ?thesis using mset_eq_imp_distinct_iff by blast
  qed
  obtain claimed where a: "snd (claim_toplevel_ids ?S fs) = claimed" "table_le ?S N" "\<And>g. g \<in> set fs \<Longrightarrow> file_ok N claimed g"
    by (rule build_ok [OF N(1) ne(1) dis]) blast
  obtain claimed' where b: "snd (claim_toplevel_ids ?S' fs') = claimed'" "table_le ?S' N'" "\<And>g. g \<in> set fs \<Longrightarrow> file_ok N' claimed' g"
    by (rule build_ok [OF N(2) set(2) dis']) (use set(1) in blast)
  have "claimed' = claimed" using claims_perm [OF perm dis, of ?S ?S'] a(1) b(1) by (simp add: start_table_def)
  then have ok: "file_ok N claimed g" "file_ok N' claimed g" if "g \<in> set fs" for g using a(3) b(3) that by auto
  show pm: "ns_prefix N = ns_prefix N'" "model_namespace N = model" "model_namespace N' = model'"
    using a(2) b(2) by (auto simp: table_le_def start_table_def)
  have pne: "ns_prefix N \<noteq> []" using a(2) start_table_ne [of pfx model] by (simp add: table_le_def)
  have "set_paths N fs = set_paths N' fs" unfolding set_paths_def using file_agree(1) [OF ok] by (simp cong: map_cong)
  then show "\<forall>x \<in> set (set_paths N fs). placed N x \<and> placed N' x"
    using set_placed [OF ok(1)] set_placed [OF ok(2)] pne pm ne(2,3) by simp
  show "\<forall>node \<in> set_nodes fs. locals N node = locals N' node"
  proof
    fix node assume "node \<in> set_nodes fs"
    then consider f where "f \<in> set fs" "node \<in> set (top_nodes f)"
      | f m m' where "f \<in> set fs" "m \<in> set (file_messages f)" "m' \<in> set (tree_messages m)" "node \<in> fst ` set (scope_nodes m')"
      unfolding set_nodes_def Un_iff UN_iff using set_messages_mem [THEN iffD1] by blast
    then show "locals N node = locals N' node"
    proof cases
      case 1
      then show ?thesis using ok [OF 1(1)] file_ok_locals by simp
    next
      case 2
      then show ?thesis using file_agree(2) [OF ok [OF 2(1)]] by blast
    qed
  qed
qed


lemma agreed_name:
  assumes "placed N x" "placed N' x" "ns_prefix N = ns_prefix N'" "root_of N (fst x) = root_of N' (fst x)"
  shows "cpp_type_name N (owner (fst x)) = cpp_type_name N' (owner (fst x))"
  using assms by (simp add: cpp_type_name_def placed_def cpp_path_def)

text \<open>
  Property C12. The identifier of every type and member and the absolute name of every type are a property of the
  schema: the order in which the files of the set arrive, and the file that is generated, change none of them.
\<close>

theorem cpp_names_file_order:
  assumes "mset fs = mset fs'" "collect_symbols i fs empty_resolver = Inr st" "fs \<noteq> []" "model \<noteq> []"
  shows "(\<forall>node \<in> set_nodes fs. locals (build_cpp_names f fs pfx model) node = locals (build_cpp_names f' fs' pfx model) node) \<and>
    (\<forall>q \<in> set (concat (map file_types fs)).
       cpp_type_name (build_cpp_names f fs pfx model) q = cpp_type_name (build_cpp_names f' fs' pfx model) q)"
proof -
  let ?N = "build_cpp_names f fs pfx model" and ?N' = "build_cpp_names f' fs' pfx model"
  note b = build_agree [where f = f and f' = f' and pfx = pfx, OF assms(1) collected_types_distinct [OF assms(2)] assms(3,4,4) refl refl]
  have "root_of ?N node = root_of ?N' node" for node using b(4,5) by (cases node) simp_all
  then have "cpp_type_name ?N (owner (fst x)) = cpp_type_name ?N' (owner (fst x))" if "x \<in> set (set_paths ?N fs)" for x
    using agreed_name b(2,3) that by blast
  with b(1) show ?thesis unfolding set_paths_types [of ?N, symmetric] by blast
qed

theorem cpp_names_file_order_witness:
  "cpp_type_name (build_cpp_names default_file demo_names [] kArenaRoot) ''.a.linux_'' =
     cpp_type_name (build_cpp_names default_file (rev demo_names) [] kArenaRoot) ''.a.linux_''"
proof -
  have ne: "demo_names \<noteq> []" "kArenaRoot \<noteq> []" by (simp_all add: demo_names_def kArenaRoot_def)
  have "''.a.linux_'' \<in> set (concat (map file_types demo_names))" by code_simp
  with cpp_names_file_order [where f = default_file and f' = default_file and pfx = "[]", OF mset_rev [symmetric] demo_collected ne]
  show ?thesis by blast
qed

text \<open>The enums of a message and of those nested in it.\<close>

definition set_enums :: "FileNode list \<Rightarrow> EnumNode set" where
  "set_enums fs = (\<Union>f \<in> set fs. set (file_enums f)) \<union> (\<Union>m \<in> set (set_messages fs). set (msg_enums (msg_data m)))"

lemma tree_enum_path: "m' \<in> set (tree_messages m) \<Longrightarrow> e \<in> set (msg_enums (msg_data m')) \<Longrightarrow> \<exists>q. (EnumId (en_fqn e), q) \<in> set (tree_paths N p m)"
proof (induction N p m rule: tree_paths.induct)
  case (1 N p d ms)
  consider "e \<in> set (msg_enums d)" | n where "n \<in> set ms" "m' \<in> set (tree_messages n)" using 1(2,3) by auto
  then show ?case
  proof cases
    case 1
    then show ?thesis by (auto simp: forest_def)
  next
    case 2
    from 1(1) [OF 2(1,2) 1(3)] 2(1) show ?thesis by (auto simp: forest_def)
  qed
qed

lemma enum_path: "e \<in> set_enums fs \<Longrightarrow> \<exists>q. (EnumId (en_fqn e), q) \<in> set (set_paths N fs)"
proof -
  assume "e \<in> set_enums fs"
  then consider f where "f \<in> set fs" "e \<in> set (file_enums f)"
    | f m m' where "f \<in> set fs" "m \<in> set (file_messages f)" "m' \<in> set (tree_messages m)" "e \<in> set (msg_enums (msg_data m'))"
    unfolding set_enums_def Un_iff UN_iff using set_messages_mem [THEN iffD1] by blast
  then show ?thesis
  proof cases
    case 1
    then show ?thesis by (force simp: set_paths_def forest_def file_entries_def Let_def)
  next
    case 2
    let ?p = "ns_parts (file_package f) @ [ident N (MessageId (node_fqn m))]"
    obtain q where "(EnumId (en_fqn e), q) \<in> set (tree_paths N ?p m)" using tree_enum_path [OF 2(3,4)] by blast
    moreover have "((MessageId (node_fqn m), ?p), tree_paths N ?p m) \<in> set (file_entries N f)" using 2(2) by (simp add: file_entries_def Let_def)
    ultimately show ?thesis using 2(1) unfolding set_paths_def forest_def by fastforce
  qed
qed

text \<open>
  Property C13. Two runs of the generators over one file set, for different models, give every type and member
  the same identifier and every enum the same absolute name, so that one common header serves both.
\<close>

theorem cpp_names_model_independent:
  assumes "collect_symbols i fs empty_resolver = Inr st" "fs \<noteq> []" "model \<noteq> []" "model' \<noteq> []"
  shows "(\<forall>node \<in> set_nodes fs. locals (build_cpp_names f fs pfx model) node = locals (build_cpp_names f' fs pfx model') node) \<and>
    (\<forall>e \<in> set_enums fs.
       cpp_type_name (build_cpp_names f fs pfx model) (en_fqn e) = cpp_type_name (build_cpp_names f' fs pfx model') (en_fqn e))"
proof -
  let ?N = "build_cpp_names f fs pfx model" and ?N' = "build_cpp_names f' fs pfx model'"
  note b = build_agree [where f = f and f' = f' and pfx = pfx, OF refl collected_types_distinct [OF assms(1)] assms(2-4) refl refl]
  have "cpp_type_name ?N (en_fqn e) = cpp_type_name ?N' (en_fqn e)" if e: "e \<in> set_enums fs" for e
  proof -
    obtain q where "(EnumId (en_fqn e), q) \<in> set (set_paths ?N fs)" using enum_path [OF e] by blast
    with b(2) agreed_name [of ?N "(EnumId (en_fqn e), q)" ?N'] b(3) show ?thesis by simp
  qed
  with b(1) show ?thesis by blast
qed

theorem cpp_names_model_independent_witness:
  "cpp_type_name (build_cpp_names default_file demo_names [] kArenaRoot) ''.a.decode'' =
     cpp_type_name (build_cpp_names default_file demo_names [] kStreamRoot) ''.a.decode''"
proof -
  have ne: "demo_names \<noteq> []" "kArenaRoot \<noteq> []" "kStreamRoot \<noteq> []" by (simp_all add: demo_names_def kArenaRoot_def kStreamRoot_def)
  have "default_enum\<lparr>en_name := ''decode'', en_fqn := ''.a.decode''\<rparr> \<in> set_enums demo_names"
    by (simp add: set_enums_def demo_names_def)
  with cpp_names_model_independent [where f = default_file and f' = default_file and pfx = "[]", OF demo_collected ne]
  show ?thesis by force
qed

section \<open>Every class\<close>

lemma claim_form_usable: "claim_form r i \<Longrightarrow> usable i"
proof -
  assume "claim_form r i"
  then obtain n where n: "i = sanitize r @ replicate n CHR ''_''" by (auto simp: claim_form_def)
  then show ?thesis using usable_sanitize usable_underscore [of i] by (cases n) simp_all
qed

definition class_ok :: "CppNameTable \<Rightarrow> MessageNode \<Rightarrow> bool" where
  "class_ok N m \<longleftrightarrow> (\<exists>ids. map (locals N) (MessageId (node_fqn m) # map fst (scope_nodes m)) = map Some ids \<and> distinct ids \<and> list_all usable ids)"

lemma scope_class_ok: "scope_ok N m \<Longrightarrow> usable (ident N (MessageId (node_fqn m))) \<Longrightarrow> class_ok N m"
proof -
  assume ok: "scope_ok N m" and u: "usable (ident N (MessageId (node_fqn m)))"
  obtain own where own: "locals N (MessageId (node_fqn m)) = Some own" "given N (map fst (scope_nodes m)) (dedup [own] (map snd (scope_nodes m)))"
    using ok by (auto simp: scope_ok_def)
  let ?ids = "dedup [own] (map snd (scope_nodes m))"
  have "distinct (own # ?ids)" using dedup_distinct [of "[own]" "map snd (scope_nodes m)"] by simp
  moreover have "list_all usable (own # ?ids)" using u own(1) dedup_usable by (auto simp: list_all_iff ident_def)
  moreover have "map (locals N) (MessageId (node_fqn m) # map fst (scope_nodes m)) = map Some (own # ?ids)" using own by (simp add: given_def)
  ultimately show ?thesis unfolding class_ok_def by blast
qed

lemma tree_class_ok:
  "tree_ok N base ebase ns m \<Longrightarrow> usable (ident N (MessageId (node_fqn m))) \<Longrightarrow> \<forall>m' \<in> set (tree_messages m). class_ok N m'"
proof (induction N base ebase ns m rule: tree_ok.induct)
  case (1 N base ebase ns d ms)
  have sc: "scope_ok N (MessageNode d ms)" using 1(2) by simp
  have "\<forall>m' \<in> set (tree_messages n). class_ok N m'" if n: "n \<in> set ms" for n
  proof (rule 1(1) [OF n refl])
    let ?i = "the (locals N (MessageId (node_fqn n)))"
    show "tree_ok N (base @ ''::'' @ ?i) (ebase @ ''::'' @ ?i) ns n" using 1(2) n by (simp add: Let_def)
    show "usable (ident N (MessageId (node_fqn n)))"
      by (rule claim_form_usable [OF scope_form [OF sc, of _ "msg_name (msg_data n)"]]) (use n in simp)
  qed
  with scope_class_ok [OF sc 1(3)] show ?case by simp
qed

text \<open>
  Property C14. In the class of every message, at any depth, the message itself and its enums, nested messages, fields,
  oneofs, oneof members and maps all have identifiers: pairwise different ones, none a keyword, a macro,
  a member that the generator adds to each class, or a name with the generator's own prefix.
\<close>

theorem class_ids_distinct:
  assumes "collect_symbols i fs empty_resolver = Inr st" "m \<in> set (set_messages fs)"
  shows "class_ok (build_cpp_names file fs pfx model) m"
proof -
  let ?N = "build_cpp_names file fs pfx model" and ?S = "start_table pfx model"
  have ne: "fs \<noteq> []" using assms(2) by (auto simp: set_messages_def)
  obtain taken claimed where ok: "claims_ok (package_claims ?S fs) (set (claimants ?S fs)) taken claimed" "\<And>g. g \<in> set fs \<Longrightarrow> file_ok ?N claimed g"
    by (rule build_ok [OF refl ne collected_types_distinct [OF assms(1)]]) blast
  obtain f t where f: "f \<in> set fs" "t \<in> set (file_messages f)" "m \<in> set (tree_messages t)" using assms(2) by (auto simp: set_messages_def)
  obtain base ebase ns where tree: "tree_ok ?N base ebase ns t" using ok(2) [OF f(1)] f(2) by (auto simp: file_ok_def Let_def)
  have top: "MessageId (node_fqn t) \<in> set (top_nodes f)" using f(2) by (auto simp: top_nodes_def)
  then have "MessageId (node_fqn t) \<in> set (map cl_node (claimants ?S fs))" unfolding claimant_nodes using f(1) by auto
  then obtain c where c: "c \<in> set (claimants ?S fs)" "cl_node c = MessageId (node_fqn t)" by auto
  obtain i where "claimed (cl_node c) = Some i" "claim_form (cl_raw c) i" using ok(1) c(1) unfolding claims_ok_def by blast
  then have "usable (ident ?N (MessageId (node_fqn t)))" using claim_form_usable file_ok_ident [OF ok(2) [OF f(1)] top] c(2) by simp
  from tree_class_ok [OF tree this] f(3) show ?thesis by blast
qed

theorem class_ids_distinct_witness:
  "class_ok (build_cpp_names default_file demo_names [] kArenaRoot) (set_messages demo_names ! 0)"
proof -
  have "0 < length (set_messages demo_names)" by code_simp
  then have "set_messages demo_names ! 0 \<in> set (set_messages demo_names)" by (rule nth_mem)
  then show ?thesis by (rule class_ids_distinct [OF demo_collected])
qed


section \<open>Prefixes and relative names\<close>

text \<open>A prefix that the validation accepts is emitted as it is written.\<close>

lemma accepted_component: "ns_prefix_component_problem c is_first = [] \<Longrightarrow> sanitize_prefix_component c = c"
  by (auto simp: ns_prefix_component_problem_def sanitize_prefix_component_def split: if_splits)

lemma accepted_prefix_verbatim:
  assumes "pfx \<noteq> []" "\<forall>c \<in> set (components pfx). \<exists>is_first. ns_prefix_component_problem c is_first = []"
  shows "effective_ns_prefix pfx = ns_text (components pfx)"
proof -
  have "map sanitize_prefix_component (components pfx) = components pfx"
    by (rule map_idI) (use assms(2) accepted_component in blast)
  with assms(1) show ?thesis by (simp add: effective_ns_prefix_def dotted_to_ns_def ns_text_def)
qed

text \<open>Inside its namespace a message is spelled by the path of its identifiers.\<close>

lemma relative_of_absolute:
  "absolute N q = Some (''::'' @ ns @ ''::'' @ s) \<Longrightarrow> type_ns N q = Some ns \<Longrightarrow> relative_type_name N q = s"
  by (simp add: relative_type_name_def cpp_type_name_def starts_with_def Let_def)

lemma tree_relative:
  "tree_ok N (''::'' @ ns @ ''::'' @ s) ebase ns m \<Longrightarrow> q \<in> node_fqn ` set (tl (tree_messages m)) \<Longrightarrow>
     \<exists>r. relative_type_name N q = s @ ''::'' @ r \<and> cpp_type_name N q = ''::'' @ ns @ ''::'' @ relative_type_name N q"
proof (induction m arbitrary: s ebase)
  case (MessageNode d ms)
  then obtain n where n: "n \<in> set ms" "q = node_fqn n \<or> q \<in> node_fqn ` set (tl (tree_messages n))"
    by (auto simp: image_iff) (metis list.sel(3) list.set_intros(2) list.exhaust_sel set_ConsD tree_messages.elims tree_messages_self)
  obtain i where i: "locals N (MessageId (node_fqn n)) = Some i" "absolute N (node_fqn n) = Some (''::'' @ ns @ ''::'' @ s @ ''::'' @ i)"
    "type_ns N (node_fqn n) = Some ns" "tree_ok N (''::'' @ ns @ ''::'' @ s @ ''::'' @ i) (ebase @ ''::'' @ i) ns n"
    using MessageNode.prems(1) n(1) by (auto simp: named_def Let_def)
  show ?case
  proof (cases "q = node_fqn n")
    case True
    then show ?thesis using relative_of_absolute [OF i(2,3)] i(2) by (simp add: cpp_type_name_def)
  next
    case False
    with n(2) have "q \<in> node_fqn ` set (tl (tree_messages n))" by blast
    from MessageNode.IH [OF n(1) i(4) this] show ?thesis by auto
  qed
qed

end
