(* ===== verification/Spec2Isabelle.thy ===== *)
theory Spec2Isabelle
  imports Packed Parser_Roundtrip Type_Correct Arena_Reuse Arena_Decode Dump_Correct Layout_Total Naming_Stable
begin

text \<open>
  A verification development of rapidproto, a compiler for protocol buffer schemas (.proto files) that
  generates C++ decoders, and of the header-only runtime that those decoders call.

  \<^bold>\<open>The program.\<close> A compiler run reads the entry files and what they import
  (\<^verbatim>\<open>src/resolver.cpp\<close>), each through the tokenizer (\<^verbatim>\<open>src/lexer.cpp\<close>) and the parser (\<^verbatim>\<open>src/parser.cpp\<close>),
  both written with parser combinators (\<^verbatim>\<open>include/rapidproto/combinators.hpp\<close>), into the syntax trees of
  \<^verbatim>\<open>include/rapidproto/ast.hpp\<close>. The analysis (\<^verbatim>\<open>src/resolve.cpp\<close>) applies the edition features
  (\<^verbatim>\<open>src/features.cpp\<close>), collects the declared types, resolves every type reference and interprets the options that
  change decoding (\<^verbatim>\<open>src/interpret.cpp\<close>). From its result the back end reads the decode profile
  (\<^verbatim>\<open>src/arenagen/modes.cpp\<close>), plans the memory layout of every message (\<^verbatim>\<open>src/arenagen/layout.cpp\<close>), gives every type
  and member a C++ name (\<^verbatim>\<open>src/codegen/naming.cpp\<close>) and prints C++. The printed code calls the wire reader
  (\<^verbatim>\<open>runtime.hpp\<close>), the arena (\<^verbatim>\<open>arena_runtime.hpp\<close>) and the dumper (\<^verbatim>\<open>dump_runtime.hpp\<close>).

  \<^bold>\<open>Conventions.\<close> A fallible function returns a sum, \<open>Inl\<close> the error; a loop or recursion that the code bounds by
  a counter carries that counter; an assertion of the code is an error value of the model, so that a
  successful result also says that no assertion fails. Machine integers are words where they can
  wrap; the sizes of the layout planner are natural numbers, which agree with 64-bit arithmetic below \<open>2 ^ 64\<close> bytes in one message. A pointer to a syntax node is the node's place in the file set. Definitions keep the names of the
  code and follow its order.

  \<^bold>\<open>Theories\<close>, in the order of the pipeline, each with the code it models.

  \<^item> \<open>Prelude\<close>, \<open>Strings\<close>: machine integer types, rule collections, shared facts; \<^verbatim>\<open>std::to_string\<close>.
  \<^item> \<open>Wire\<close>, \<open>Wire_Format\<close> (\<^verbatim>\<open>runtime.hpp\<close>): varints, tags, fixed and length-delimited values, groups, skipping, the
    conversions to field types. The readers accept exactly the well-formed encodings and classify every other input;
    the fused tag paths change nothing; group scanning is exact up to \<open>kMaxGroupDepth\<close>.
  \<^item> \<open>Swar\<close>, \<open>Packed\<close> (\<^verbatim>\<open>runtime.hpp\<close>): the word-at-a-time primitives and the packed-varint decoder with its
    kernels and their choice by a scan of the input. The locale \<open>packed_kernel\<close> states what a kernel promises, every kernel
    interprets it, and the decoder equals reading varint after varint.
  \<^item> \<open>Combinators\<close> (\<^verbatim>\<open>combinators.hpp\<close>, \<^verbatim>\<open>range.hpp\<close>, \<^verbatim>\<open>result.hpp\<close>): the locales \<open>lawful_parser\<close> and \<open>span_parser\<close> state
    what a parser leaves of its input; choice returns the first success before a committed failure.
  \<^item> \<open>Lexer\<close> (\<^verbatim>\<open>lexer.cpp\<close>): token by token; tokens are spans of the source in order, and the raw tokens with the rest are the source.
  \<^item> \<open>Ast\<close>, \<open>Parser\<close>, \<open>Parser_Correct\<close>, \<open>Parser_Roundtrip\<close> (\<^verbatim>\<open>ast.hpp\<close>, \<^verbatim>\<open>scalar.hpp\<close>, \<^verbatim>\<open>parser.cpp\<close>): the whole grammar. The parser stays in the
    token range, trees have at most the height \<open>kMaxParseDepth\<close> and the limit is exact; field declarations with their options are
    read back as the fields that they declare, and an option with a scalar value is accepted at every depth but the last.
  \<^item> \<open>Paths\<close>, \<open>Source\<close>, \<open>Import_Resolver\<close> (\<^verbatim>\<open>source.cpp\<close>, \<^verbatim>\<open>resolver.cpp\<close>): the lexical path operations, the source registry and its
    locale, the coloured depth-first traversal of imports. It returns for every environment, and every import of its result
    stands before the file that imports it.
  \<^item> \<open>Features\<close>, \<open>Interpret\<close> (\<^verbatim>\<open>features.cpp\<close>, \<^verbatim>\<open>interpret.cpp\<close>): inheritance of features along the path from the file to a field, and the
    packed and default options.
  \<^item> \<open>Type_Resolver\<close>, \<open>Type_Correct\<close>, \<open>Schema_Facts\<close> (\<^verbatim>\<open>resolve.cpp\<close>): full names, the symbol table, visibility through
    public imports, scoping, and \<open>analyze\<close>, the composition of the passes. Collection fails exactly on duplicate names, visibility refines
    reachability over public imports, a relative name resolves to the innermost visible scope, and an analysed file set is typed.
  \<^item> \<open>Arena\<close>, \<open>Arena_Reuse\<close>, \<open>Arena_Decode\<close> (\<^verbatim>\<open>arena_runtime.hpp\<close>): the bump allocator over an explicit list of chunks and the views and
    array builders on it. Live blocks never overlap or leave their chunk, allocation fails exactly when no chunk has room and
    a new one would exceed the sizes or the capacity limit or is refused by the heap, and after a reset the same requests are served from the same memory.
  \<^item> \<open>Dump_Values\<close>, \<open>Dump_Writer\<close>, \<open>Dump_Correct\<close> (\<^verbatim>\<open>dump_runtime.hpp\<close> and the traversal that \<^verbatim>\<open>dumpgen/generator.cpp\<close> emits): the
    value writers and the width-adaptive layout. Layout changes white space only, and strings and bytes can be read back.
  \<^item> \<open>Modes\<close> (\<^verbatim>\<open>arenagen/modes.cpp\<close>): the profile parser and the resolution of its directives.
  \<^item> \<open>Layout_Slots\<close>, \<open>Layout\<close>, \<open>Layout_Correct\<close>, \<open>Layout_Plan\<close>, \<open>Flatten\<close>, \<open>Flatten_Correct\<close>, \<open>Layout_Total\<close>
    (\<^verbatim>\<open>arenagen/layout.cpp\<close>): slot placement, classification, bit allocation, the memoised recursion over messages, and the
    flatten budget. On an analysed file set planning succeeds, members are aligned, disjoint and inside their message, storage
    by value is acyclic, and the absorbed decoders form an acyclic graph within the budget.
  \<^item> \<open>Naming\<close>, \<open>Naming_Scope\<close>, \<open>Naming_Claims\<close>, \<open>Naming_Correct\<close>, \<open>Naming_Stable\<close> (\<^verbatim>\<open>codegen/naming.cpp\<close>): identifiers of
    class members, claims of packages and top-level types, absolute names. No two types of a file set get one name, the members of a class
    get distinct and usable identifiers, and neither the order of the files nor the model changes them.

  \<^bold>\<open>Composition.\<close> \<open>parse_source\<close> composes tokenizer and parser; \<open>analyze\<close> composes features, collection, resolution and interpretation;
  \<open>plan_layouts\<close> is proved on the output of \<open>analyze\<close>, and \<open>build_cpp_names\<close> on every file set that \<open>collect_symbols\<close> accepts.

  \<^bold>\<open>Bounds.\<close> The parser's recursion carries the remaining depth, \<open>kMaxParseDepth\<close> = 50 as in the code, which reports an error at zero. The
  import traversal carries \<open>Suc kMaxImportDepth\<close> levels; the code checks its depth at each visit, and the
  levels are shown to suffice for every environment. Group scanning carries \<open>kMaxGroupDepth\<close>. The planner carries \<open>Suc kMaxChainDepth\<close> = 201 levels; the code stops
  inlining at a chain of that depth, and planning is shown to succeed with them. Loops over input have
  measures on what is left; the flatten walk has one on its unfinished nodes and stack.

  \<^bold>\<open>Parameters.\<close> Code outside of the repository is a parameter: the file system and the embedded well-known files of the import resolver are an
  environment record; the heap that hands chunks to the arena is a function argument, with disjointness of fresh chunks as the hypothesis;
  the rendering of floating-point numbers by the C++ library is an argument of the dumper's number writer.

  \<^bold>\<open>Not modelled.\<close> The dispatch templates of \<^verbatim>\<open>runtime.hpp\<close> select handler overloads at compile time and have no run-time content beyond the
  readers they call. The generators (\<^verbatim>\<open>arenagen\<close>, \<^verbatim>\<open>streamgen\<close>, \<^verbatim>\<open>dumpgen\<close>) and their emission helpers (\<^verbatim>\<open>emit.hpp\<close>, \<^verbatim>\<open>printer.hpp\<close>) print C++ text, about
  which a theorem needs a semantics of C++. \<^verbatim>\<open>wellknown_generated.cpp\<close> and \<^verbatim>\<open>runtime_embedded.hpp\<close> are data. The
  command line (\<^verbatim>\<open>cli/driver.hpp\<close>, \<^verbatim>\<open>rapidprotoc/main.cpp\<close>) is input and output around the passes.
\<close>

end
